(* ===== verification/Prelude.thy ===== *)
theory Prelude
  imports Main "HOL-Library.Word" "HOL-Library.Multiset" "HOL-Library.Char_ord"
begin

text \<open>
  Shared vocabulary of the development: the C types of the sources as HOL types, the two
  routines of the C library every component relies on (\<open>qsort\<close> and \<open>bsearch\<close>, which
  \<^verbatim>\<open>include/udm_utils.h\<close> uses under the names \<open>UdmSort\<close> and \<open>UdmBSearch\<close>), the
  conversions between integers and bytes of that header, and the generic lemmas on lists,
  comparison functions and words that the component theories use.

  C strings are lists of bytes (\<open>byte list\<close>) or of characters (\<open>string\<close>) without the
  terminating zero.  \<open>int4\<close> and \<open>urlid_t\<close> are 32-bit signed integers, modelled as
  \<open>int\<close> with the wrap-around of a conversion written out as \<open>int4_of\<close>; \<open>uint4\<close> is a
  32-bit word.  Allocation is assumed to succeed.
\<close>

unbundle bit_operations_syntax

subsection \<open>Types\<close>

type_synonym byte = "8 word"
type_synonym uint4 = "32 word"
type_synonym size_t = "64 word"
type_synonym urlid_t = int

definition bstr :: "string \<Rightarrow> byte list" where
  "bstr s = map of_char s"

definition int4_of :: "int \<Rightarrow> int" where
  "int4_of i = signed_take_bit 31 i"

abbreviation is_int4 :: "int \<Rightarrow> bool" where
  "is_int4 i \<equiv> - 2147483648 \<le> i \<and> i < 2147483648"

datatype udm_rc = UDM_OK | UDM_ERROR

subsection \<open>Theorem collections\<close>

named_theorems mask_simps \<open>masking with a constant as \<open>take_bit\<close>\<close>
named_theorems byte_simps \<open>conversions between integers and bytes\<close>

subsection \<open>Integers as bytes: udm\_put\_int4 and udm\_get\_int4\<close>

definition udm_put_int4 :: "int \<Rightarrow> byte list" where
  "udm_put_int4 i =
     [word_of_int i, word_of_int (drop_bit 8 i), word_of_int (drop_bit 16 i),
      word_of_int (drop_bit 24 i)]"

definition udm_get_int4 :: "byte \<Rightarrow> byte \<Rightarrow> byte \<Rightarrow> byte \<Rightarrow> int" where
  "udm_get_int4 c0 c1 c2 c3 =
     int4_of (uint c0 + push_bit 8 (uint c1) + push_bit 16 (uint c2) + push_bit 24 (uint c3))"

subsection \<open>Strings: strcmp\<close>

text \<open>On strings without a zero, the end of the shorter one counts as a zero.\<close>

fun strcmp :: "byte list \<Rightarrow> byte list \<Rightarrow> int" where
  "strcmp [] [] = 0"
| "strcmp [] (b # bs) = - uint b"
| "strcmp (a # as) [] = uint a"
| "strcmp (a # as) (b # bs) = (if a = b then strcmp as bs else uint a - uint b)"

subsection \<open>Comparison functions, UdmSort and UdmBSearch\<close>

text \<open>
  \<open>UdmSort\<close> is \<open>qsort\<close>: the result is a permutation of the input in the order of the
  comparison function.  The C standard does not fix the order of elements that compare
  equal; the function below is the stable choice (glibc's merge sort), and the locale
  \<open>sorter\<close> states what the standard promises.
\<close>

type_synonym 'a cmp = "'a \<Rightarrow> 'a \<Rightarrow> int"

fun cmp_insert :: "'a cmp \<Rightarrow> 'a \<Rightarrow> 'a list \<Rightarrow> 'a list" where
  "cmp_insert cmp x [] = [x]"
| "cmp_insert cmp x (y # ys) = (if cmp x y \<le> 0 then x # y # ys else y # cmp_insert cmp x ys)"

definition UdmSort :: "'a cmp \<Rightarrow> 'a list \<Rightarrow> 'a list" where
  "UdmSort cmp xs = foldr (cmp_insert cmp) xs []"

definition cmp_ok :: "'a cmp \<Rightarrow> bool" where
  "cmp_ok cmp \<longleftrightarrow>
     (\<forall>x y. cmp x y \<le> 0 \<or> cmp y x \<le> 0) \<and>
     (\<forall>x y z. cmp x y \<le> 0 \<longrightarrow> cmp y z \<le> 0 \<longrightarrow> cmp x z \<le> 0)"

abbreviation cmp_sorted :: "'a cmp \<Rightarrow> 'a list \<Rightarrow> bool" where
  "cmp_sorted cmp \<equiv> sorted_wrt (\<lambda>x y. cmp x y \<le> 0)"

locale sorter =
  fixes srt :: "'a cmp \<Rightarrow> 'a list \<Rightarrow> 'a list"
  assumes mset_srt: "mset (srt cmp xs) = mset xs"
    and sorted_srt: "cmp_ok cmp \<Longrightarrow> cmp_sorted cmp (srt cmp xs)"
begin

lemma set_srt: "set (srt cmp xs) = set xs"
  by (metis mset_srt set_mset_mset)

lemma length_srt: "length (srt cmp xs) = length xs"
  by (metis mset_srt size_mset)

lemma distinct_srt: "distinct (srt cmp xs) = distinct xs"
  by (metis mset_srt mset_eq_imp_distinct_iff)

lemma srt_Nil: "srt cmp [] = []"
  by (metis length_srt length_0_conv)

lemma filter_srt_mset: "mset (filter P (srt cmp xs)) = mset (filter P xs)"
  by (simp add: mset_srt)

end

lemma cmp_ok_total: "cmp_ok cmp \<Longrightarrow> \<not> cmp x y \<le> 0 \<Longrightarrow> cmp y x \<le> 0"
  by (auto simp: cmp_ok_def)

lemma cmp_ok_trans: "cmp_ok cmp \<Longrightarrow> cmp x y \<le> 0 \<Longrightarrow> cmp y z \<le> 0 \<Longrightarrow> cmp x z \<le> 0"
  unfolding cmp_ok_def by blast

lemma cmp_ok_refl: "cmp_ok cmp \<Longrightarrow> cmp x x \<le> 0"
  by (auto simp: cmp_ok_def)

lemma cmp_okI:
  assumes "\<And>x y. cmp x y \<le> 0 \<longleftrightarrow> key x \<le> (key y :: 'k :: linorder)"
  shows "cmp_ok cmp"
  unfolding cmp_ok_def using assms by (metis linear order_trans)

lemma mset_cmp_insert: "mset (cmp_insert cmp x ys) = add_mset x (mset ys)"
  by (induction ys) auto

lemma set_cmp_insert [simp]: "set (cmp_insert cmp x ys) = insert x (set ys)"
  by (metis mset_cmp_insert set_mset_add_mset_insert set_mset_mset)

lemma sorted_cmp_insert:
  assumes "cmp_ok cmp"
  shows "cmp_sorted cmp ys \<Longrightarrow> cmp_sorted cmp (cmp_insert cmp x ys)"
proof (induction ys)
  case (Cons y ys)
  show ?case
  proof (cases "cmp x y \<le> 0")
    case True
    with Cons.prems show ?thesis
      by (auto intro: cmp_ok_trans [OF assms])
  next
    case False
    with Cons cmp_ok_total [OF assms False] show ?thesis by auto
  qed
qed simp

interpretation qs: sorter UdmSort
proof
  fix cmp :: "'a cmp" and xs :: "'a list"
  show "mset (UdmSort cmp xs) = mset xs"
    by (induction xs) (simp_all add: UdmSort_def mset_cmp_insert)
  show "cmp_sorted cmp (UdmSort cmp xs)" if "cmp_ok cmp"
    by (induction xs) (simp_all add: UdmSort_def sorted_cmp_insert [OF that])
qed

lemma sorted_wrt_key_cong:
  assumes "\<And>x y. cmp x y \<le> 0 \<longleftrightarrow> key x \<le> (key y :: 'k :: linorder)"
  shows "cmp_sorted cmp xs \<longleftrightarrow> sorted (map key xs)"
  by (simp add: assms sorted_wrt_map)

text \<open>
  \<open>UdmBSearch\<close> is \<open>bsearch\<close>, as the C library implements it: halving of the index
  interval \<open>[l, u)\<close>.  The result is the index of an equal element, or none.
\<close>

function bsearch_loop :: "('k \<Rightarrow> 'a \<Rightarrow> int) \<Rightarrow> 'k \<Rightarrow> 'a list \<Rightarrow> nat \<Rightarrow> nat \<Rightarrow> nat option" where
  "bsearch_loop cmp k base l u =
     (if l < u then
        (let idx = (l + u) div 2; c = cmp k (base ! idx) in
         if c < 0 then bsearch_loop cmp k base l idx
         else if c > 0 then bsearch_loop cmp k base (Suc idx) u
         else Some idx)
      else None)"
  by pat_completeness auto
termination
  by (relation "measure (\<lambda>(cmp, k, base, l, u). u - l)") (auto simp: Let_def)

declare bsearch_loop.simps [simp del]

definition UdmBSearch :: "('k \<Rightarrow> 'a \<Rightarrow> int) \<Rightarrow> 'k \<Rightarrow> 'a list \<Rightarrow> nat option" where
  "UdmBSearch cmp k base = bsearch_loop cmp k base 0 (length base)"

lemma bsearch_loop_Some:
  "bsearch_loop cmp k base l u = Some i \<Longrightarrow> u \<le> length base \<Longrightarrow>
   l \<le> i \<and> i < u \<and> cmp k (base ! i) = 0"
proof (induction cmp k base l u rule: bsearch_loop.induct)
  case (1 cmp k base l u)
  let ?m = "(l + u) div 2"
  from "1.prems"(1) have lu: "l < u"
    by (subst (asm) bsearch_loop.simps) (auto split: if_splits)
  then have m: "l \<le> ?m" "?m < u" by auto
  consider (lt) "cmp k (base ! ?m) < 0" | (gt) "cmp k (base ! ?m) > 0"
    | (eq) "cmp k (base ! ?m) = 0" by linarith
  then show ?case
  proof cases
    case lt
    with "1.prems" lu have "bsearch_loop cmp k base l ?m = Some i"
      by (subst (asm) bsearch_loop.simps) (simp add: Let_def)
    with "1.IH"(1) [OF lu refl refl lt] m "1.prems"(2) show ?thesis by simp
  next
    case gt
    with "1.prems" lu have "bsearch_loop cmp k base (Suc ?m) u = Some i"
      by (subst (asm) bsearch_loop.simps) (simp add: Let_def)
    with "1.IH"(2) [OF lu refl refl _ gt] gt m "1.prems"(2) show ?thesis by simp
  next
    case eq
    with "1.prems" lu m show ?thesis
      by (subst (asm) bsearch_loop.simps) (simp add: Let_def)
  qed
qed

definition bsearch_mono :: "('k \<Rightarrow> 'a \<Rightarrow> int) \<Rightarrow> 'k \<Rightarrow> 'a list \<Rightarrow> bool" where
  "bsearch_mono cmp k base \<longleftrightarrow>
     (\<forall>i j. i \<le> j \<longrightarrow> j < length base \<longrightarrow>
        (cmp k (base ! j) > 0 \<longrightarrow> cmp k (base ! i) > 0) \<and>
        (cmp k (base ! i) < 0 \<longrightarrow> cmp k (base ! j) < 0))"

lemma bsearch_monoD:
  assumes "bsearch_mono cmp k base" "i \<le> j" "j < length base"
  shows "cmp k (base ! j) > 0 \<Longrightarrow> cmp k (base ! i) > 0"
    and "cmp k (base ! i) < 0 \<Longrightarrow> cmp k (base ! j) < 0"
  using assms unfolding bsearch_mono_def by blast+

lemma bsearch_loop_None:
  "bsearch_loop cmp k base l u = None \<Longrightarrow> bsearch_mono cmp k base \<Longrightarrow> u \<le> length base \<Longrightarrow>
   l \<le> i \<Longrightarrow> i < u \<Longrightarrow> cmp k (base ! i) \<noteq> 0"
proof (induction cmp k base l u rule: bsearch_loop.induct)
  case (1 cmp k base l u)
  let ?m = "(l + u) div 2"
  from "1.prems" have lu: "l < u" by simp
  then have m: "l \<le> ?m" "?m < u" by auto
  consider (lt) "cmp k (base ! ?m) < 0" | (gt) "cmp k (base ! ?m) > 0"
    | (eq) "cmp k (base ! ?m) = 0" by linarith
  then show ?case
  proof cases
    case lt
    with "1.prems"(1) lu have n: "bsearch_loop cmp k base l ?m = None"
      by (subst (asm) bsearch_loop.simps) (simp add: Let_def)
    show ?thesis
    proof (cases "i < ?m")
      case True
      with "1.IH"(1) [OF lu refl refl lt n "1.prems"(2)] "1.prems"(3,4) m show ?thesis by simp
    next
      case False
      with "1.prems"(3,5) bsearch_monoD(2) [OF "1.prems"(2) _ _ lt, of i] show ?thesis by simp
    qed
  next
    case gt
    with "1.prems"(1) lu have n: "bsearch_loop cmp k base (Suc ?m) u = None"
      by (subst (asm) bsearch_loop.simps) (simp add: Let_def)
    show ?thesis
    proof (cases "Suc ?m \<le> i")
      case True
      from gt have "\<not> cmp k (base ! ?m) < 0" by simp
      with "1.IH"(2) [OF lu refl refl _ gt n "1.prems"(2,3) True "1.prems"(5)] show ?thesis by simp
    next
      case False
      with "1.prems"(3) m bsearch_monoD(1) [OF "1.prems"(2) _ _ gt, of i] show ?thesis by simp
    qed
  next
    case eq
    with "1.prems"(1) lu show ?thesis
      by (subst (asm) bsearch_loop.simps) (simp add: Let_def)
  qed
qed

lemma UdmBSearch_iff:
  assumes "bsearch_mono cmp k base"
  shows "UdmBSearch cmp k base \<noteq> None \<longleftrightarrow> (\<exists>x \<in> set base. cmp k x = 0)"
proof
  assume "UdmBSearch cmp k base \<noteq> None"
  then obtain i where "bsearch_loop cmp k base 0 (length base) = Some i"
    by (auto simp: UdmBSearch_def)
  from bsearch_loop_Some [OF this] show "\<exists>x \<in> set base. cmp k x = 0" by auto
next
  assume "\<exists>x \<in> set base. cmp k x = 0"
  then obtain i where "i < length base" "cmp k (base ! i) = 0"
    by (auto simp: in_set_conv_nth)
  with bsearch_loop_None [of cmp k base 0 "length base" i] assms
  show "UdmBSearch cmp k base \<noteq> None" by (auto simp: UdmBSearch_def)
qed

lemma bsearch_mono_key:
  assumes "\<And>x. cmp k x < 0 \<longleftrightarrow> f k < (key x :: 'b :: linorder)"
    and "\<And>x. cmp k x > 0 \<longleftrightarrow> f k > key x"
    and "sorted (map key base)"
  shows "bsearch_mono cmp k base"
  unfolding bsearch_mono_def assms(1,2)
  using assms(3) by (fastforce simp: sorted_iff_nth_mono)

text \<open>
  The other search by halving that the code has: for the first index of \<open>[left, right)\<close>
  whose item does not satisfy a condition, where the condition holds for a prefix.
\<close>

function first_not :: "('a \<Rightarrow> bool) \<Rightarrow> 'a list \<Rightarrow> nat \<Rightarrow> nat \<Rightarrow> nat" where
  "first_not P base left right =
     (if left < right then
        let middle = left + (right - left) div 2 in
        if P (base ! middle) then first_not P base (middle + 1) right
        else first_not P base left middle
      else right)"
  by pat_completeness auto
termination
  by (relation "measure (\<lambda>(P, base, l, r). r - l)") (auto simp: Let_def)

declare first_not.simps [simp del]

lemma first_not_range:
  assumes "left \<le> right"
    and "\<forall>i j. i \<le> j \<longrightarrow> j < right \<longrightarrow> P (base ! j) \<longrightarrow> P (base ! i)"
  shows "left \<le> first_not P base left right \<and> first_not P base left right \<le> right \<and>
    (\<forall>i. left \<le> i \<and> i < first_not P base left right \<longrightarrow> P (base ! i)) \<and>
    (\<forall>i. first_not P base left right \<le> i \<and> i < right \<longrightarrow> \<not> P (base ! i))"
  using assms
proof (induction P base left right rule: first_not.induct)
  case (1 P base left right)
  define middle where "middle = left + (right - left) div 2"
  show ?case
  proof (cases "left < right")
    case True
    then have m: "left \<le> middle" "middle < right" by (auto simp: middle_def)
    show ?thesis
    proof (cases "P (base ! middle)")
      case P: True
      have e: "first_not P base left right = first_not P base (middle + 1) right"
        using True P by (subst first_not.simps) (simp add: Let_def middle_def)
      have "middle + 1 \<le> right" using m by simp
      from "1.IH"(1) [OF True middle_def P this "1.prems"(2)] m have
        IH: "left \<le> first_not P base (middle + 1) right" "first_not P base (middle + 1) right \<le> right"
        "\<And>i. middle < i \<Longrightarrow> i < first_not P base (middle + 1) right \<Longrightarrow> P (base ! i)"
        "\<And>i. first_not P base (middle + 1) right \<le> i \<Longrightarrow> i < right \<Longrightarrow> \<not> P (base ! i)" by auto
      have "P (base ! i)" if "i \<le> middle" for i using "1.prems"(2) that m(2) P by blast
      with IH(3) have "P (base ! i)" if "i < first_not P base (middle + 1) right" for i
        using that not_le by blast
      with IH show ?thesis unfolding e by blast
    next
      case P: False
      have e: "first_not P base left right = first_not P base left middle"
        using True P by (subst first_not.simps) (simp add: Let_def middle_def)
      have "\<forall>i j. i \<le> j \<longrightarrow> j < middle \<longrightarrow> P (base ! j) \<longrightarrow> P (base ! i)"
        using "1.prems"(2) less_trans [OF _ m(2)] by blast
      from "1.IH"(2) [OF True middle_def P m(1) this] m have
        IH: "left \<le> first_not P base left middle" "first_not P base left middle \<le> right"
        "\<And>i. left \<le> i \<Longrightarrow> i < first_not P base left middle \<Longrightarrow> P (base ! i)"
        "\<And>i. first_not P base left middle \<le> i \<Longrightarrow> i < middle \<Longrightarrow> \<not> P (base ! i)" by auto
      have "\<not> P (base ! i)" if "middle \<le> i" "i < right" for i using "1.prems"(2) that P by blast
      with IH(4) have "\<not> P (base ! i)" if "first_not P base left middle \<le> i" "i < right" for i
        using that not_le by blast
      with IH show ?thesis unfolding e by blast
    qed
  next
    case False
    with "1.prems"(1) have "first_not P base left right = right" by (subst first_not.simps) simp
    with "1.prems"(1) False show ?thesis by auto
  qed
qed

text \<open>With the whole list as the interval, the list is cut where the condition ends.\<close>

lemma first_not_cut:
  assumes mono: "\<And>i j. i \<le> j \<Longrightarrow> j < length base \<Longrightarrow> P (base ! j) \<Longrightarrow> P (base ! i)"
    and r: "r = first_not P base 0 (length base)"
  shows "r \<le> length base" "\<forall>x \<in> set (take r base). P x" "\<forall>x \<in> set (drop r base). \<not> P x"
proof -
  have "\<forall>i j. i \<le> j \<longrightarrow> j < length base \<longrightarrow> P (base ! j) \<longrightarrow> P (base ! i)" using mono by blast
  from first_not_range [OF _ this, of 0]
  have spec: "r \<le> length base" "\<And>i. i < r \<Longrightarrow> P (base ! i)" "\<And>i. r \<le> i \<Longrightarrow> i < length base \<Longrightarrow> \<not> P (base ! i)"
    by (simp_all add: r)
  then show "r \<le> length base" by blast
  show "\<forall>x \<in> set (take r base). P x" using spec(1,2) by (auto simp: in_set_conv_nth)
  show "\<forall>x \<in> set (drop r base). \<not> P x"
  proof
    fix x assume "x \<in> set (drop r base)"
    then obtain i where "i < length base - r" "x = base ! (r + i)" by (auto simp: in_set_conv_nth)
    with spec(3) [of "r + i"] show "\<not> P x" by simp
  qed
qed

lemma first_not_cong:
  "(\<And>i. i < right \<Longrightarrow> base ! i = base' ! i) \<Longrightarrow> first_not P base left right = first_not P base' left right"
proof (induction P base left right rule: first_not.induct)
  case (1 P base left right)
  define middle where "middle = left + (right - left) div 2"
  show ?case
  proof (cases "left < right")
    case True
    then have m: "middle < right" by (auto simp: middle_def)
    have nth: "base ! middle = base' ! middle" using "1.prems" m by blast
    have e: "first_not P B left right =
        (if P (B ! middle) then first_not P B (middle + 1) right else first_not P B left middle)" for B
      using True by (subst first_not.simps) (simp add: Let_def middle_def)
    show ?thesis
    proof (cases "P (base ! middle)")
      case P: True
      from "1.IH"(1) [OF True middle_def P "1.prems"] P show ?thesis by (simp add: e nth)
    next
      case P: False
      have "first_not P base left middle = first_not P base' left middle"
        by (rule "1.IH"(2) [OF True middle_def P]) (use "1.prems" m in \<open>meson less_trans\<close>)
      with P show ?thesis by (simp add: e nth)
    qed
  next
    case False
    then show ?thesis by (simp add: first_not.simps)
  qed
qed

lemma first_not_butlast:
  "first_not P (xs @ ys) left (length xs) = first_not P xs left (length xs)"
  by (rule first_not_cong) (simp add: nth_append)

subsection \<open>Masks as \<open>take_bit\<close>\<close>

lemma and_mask_num [mask_simps]:
  fixes w :: "'a :: len word"
  shows "w AND 1 = take_bit 1 w" "w AND 3 = take_bit 2 w" "w AND 7 = take_bit 3 w"
    "w AND 15 = take_bit 4 w" "w AND 31 = take_bit 5 w" "w AND 63 = take_bit 6 w"
    "w AND 127 = take_bit 7 w" "w AND 255 = take_bit 8 w" "w AND 65535 = take_bit 16 w"
  by (simp_all add: take_bit_eq_mask mask_eq_exp_minus_1)

lemma and_mask_nat [mask_simps]:
  fixes n :: nat
  shows "n AND 1 = n mod 2" "n AND 3 = n mod 4" "n AND 7 = n mod 8" "n AND 15 = n mod 16"
    "n AND 31 = n mod 32" "n AND 63 = n mod 64" "n AND 127 = n mod 128" "n AND 255 = n mod 256"
proof -
  have m: "n AND (2 ^ k - 1) = n mod 2 ^ k" for k
    by (metis mask_eq_exp_minus_1 take_bit_eq_mask take_bit_eq_mod)
  show "n AND 1 = n mod 2" "n AND 3 = n mod 4" "n AND 7 = n mod 8" "n AND 15 = n mod 16"
    "n AND 31 = n mod 32" "n AND 63 = n mod 64" "n AND 127 = n mod 128" "n AND 255 = n mod 256"
    using m [of 1] m [of 2] m [of 3] m [of 4] m [of 5] m [of 6] m [of 7] m [of 8] by simp_all
qed

lemma and_mask_int: "i AND 255 = i mod (256 :: int)"
proof -
  have "i AND (2 ^ 8 - 1) = i mod 2 ^ 8"
    by (metis mask_eq_exp_minus_1 take_bit_eq_mask take_bit_eq_mod)
  then show ?thesis by simp
qed

lemmas nat_bits = drop_bit_eq_div push_bit_eq_mult take_bit_eq_mod

lemma unat_byte_less [simp]: "unat (b :: byte) < 256"
  using unsigned_less [where w = b and 'a = nat] by simp

lemma replicate_2 [simp]: "replicate 2 x = [x, x]"
  by (simp add: numeral_2_eq_2)

lemma length_bstr [simp]: "length (bstr s) = length s"
  by (simp add: bstr_def)

subsection \<open>Bitwise or of disjoint numbers\<close>

lemma push_bit_or_nat: "x < 2 ^ n \<Longrightarrow> push_bit n k OR x = k * 2 ^ n + (x :: nat)"
proof -
  assume x: "x < 2 ^ n"
  have "push_bit n k AND x = 0"
  proof (rule bit_eqI)
    fix m
    have "\<not> bit x m" if "n \<le> m"
      using x that by (metis bit_take_bit_iff leD take_bit_nat_eq_self_iff)
    then show "bit (push_bit n k AND x) m \<longleftrightarrow> bit (0 :: nat) m"
      by (auto simp: bit_and_iff bit_push_bit_iff)
  qed
  then show ?thesis
    using disjunctive_add_eq_or [of "push_bit n k" x] by (simp add: push_bit_eq_mult)
qed

lemma or_nat_num:
  fixes x :: nat
  shows "x < 64 \<Longrightarrow> x OR 192 = 192 + x" "x < 2048 \<Longrightarrow> x OR 2048 = 2048 + x"
    "x < 65536 \<Longrightarrow> x OR 65536 = 65536 + x" "x < 128 \<Longrightarrow> 128 OR x = 128 + x"
proof -
  have e: "push_bit 6 3 = (192 :: nat)" "push_bit 11 1 = (2048 :: nat)" "push_bit 16 1 = (65536 :: nat)"
    "push_bit 7 1 = (128 :: nat)" by (simp_all add: push_bit_eq_mult)
  show "x < 64 \<Longrightarrow> x OR 192 = 192 + x"
    using push_bit_or_nat [of x 6 3, unfolded e] by (simp only: or.commute) simp
  show "x < 2048 \<Longrightarrow> x OR 2048 = 2048 + x"
    using push_bit_or_nat [of x 11 1, unfolded e] by (simp only: or.commute) simp
  show "x < 65536 \<Longrightarrow> x OR 65536 = 65536 + x"
    using push_bit_or_nat [of x 16 1, unfolded e] by (simp only: or.commute) simp
  show "x < 128 \<Longrightarrow> 128 OR x = 128 + x"
    using push_bit_or_nat [of x 7 1, unfolded e] by simp
qed

lemma xor_128: "n < 256 \<Longrightarrow> n XOR 128 = (if n < 128 then n + 128 else n - 128)" for n :: nat
proof -
  have lt: "m XOR 128 = m + 128" if "m < 128" for m :: nat
  proof -
    have "\<not> bit m 7" using that by (simp add: bit_iff_odd)
    then have "flip_bit 7 m = m + 128" by (simp add: flip_bit_eq_if set_bit_eq)
    then show ?thesis by (simp add: flip_bit_eq_xor push_bit_eq_mult)
  qed
  assume n: "n < 256"
  show ?thesis
  proof (cases "n < 128")
    case False
    with n have "n = (n - 128) XOR 128" by (subst lt) auto
    then have "n XOR 128 = n - 128" by (metis xor.assoc xor_self_eq xor.right_neutral)
    with False show ?thesis by simp
  qed (simp add: lt)
qed

subsection \<open>Fixed width integers\<close>

lemma uint_byte_of_int: "uint (word_of_int i :: byte) = i mod 256"
  by (simp add: uint_word_of_int)

lemma mod_split: "0 < c \<Longrightarrow> i mod (b * c) = i mod b + (i div b mod c) * b" for i b c :: int
  by (simp add: zmod_zmult2_eq mult.commute add.commute)

lemma bytes_join2: "i mod 256 + (i div 256 mod 256) * 256 = i mod (65536 :: int)"
proof -
  have n: "(65536 :: int) = 256 * 256" by simp
  show ?thesis unfolding n by (rule mod_split [symmetric]) simp
qed

lemma bytes_join3:
  "i mod 256 + (i div 256 mod 256) * 256 + (i div 65536 mod 256) * 65536 = i mod (16777216 :: int)"
proof -
  have n: "(16777216 :: int) = 65536 * 256" by simp
  show ?thesis unfolding bytes_join2 n by (rule mod_split [symmetric]) simp
qed

lemma bytes_join4:
  "i mod 256 + (i div 256 mod 256) * 256 + (i div 65536 mod 256) * 65536 +
   (i div 16777216 mod 256) * 16777216 = i mod (4294967296 :: int)"
proof -
  have n: "(4294967296 :: int) = 16777216 * 256" by simp
  show ?thesis unfolding bytes_join3 n by (rule mod_split [symmetric]) simp
qed

lemma int4_of_id: "is_int4 i \<Longrightarrow> int4_of i = i"
  unfolding int4_of_def by (rule signed_take_bit_int_eq_self) simp_all

lemma udm_get_put_int4:
  assumes "is_int4 i"
  shows "udm_get_int4 (word_of_int i) (word_of_int (drop_bit 8 i)) (word_of_int (drop_bit 16 i))
    (word_of_int (drop_bit 24 i)) = i"
proof -
  have "udm_get_int4 (word_of_int i) (word_of_int (drop_bit 8 i)) (word_of_int (drop_bit 16 i))
      (word_of_int (drop_bit 24 i)) = int4_of (i mod 4294967296)"
    by (simp add: udm_get_int4_def uint_byte_of_int drop_bit_eq_div push_bit_eq_mult bytes_join4 [symmetric])
  also have "\<dots> = int4_of (take_bit (Suc 31) i)" by (simp add: take_bit_eq_mod)
  also have "\<dots> = int4_of i" unfolding int4_of_def by (simp only: signed_take_bit_take_bit) simp
  finally show ?thesis using assms by (simp add: int4_of_id)
qed

end
