(* ===== verification/Bool_Query.thy ===== *)
theory Bool_Query
  imports Prelude
begin

text \<open>
  \<^verbatim>\<open>src/boolean.c\<close>: boolean queries.  A query is a sequence of items (words, quoted
  phrases, stop words, brackets and the operators or, and, not); \<open>UdmStackItemListCopy\<close>
  inserts the operators the user left out, \<open>UdmCalcBoolItems\<close> evaluates the sequence for
  one document with an operator stack and an argument stack.

  The stacks are lists with the top first; their growth by \<open>UDM_MAXSTACK\<close> is not
  modelled.  The command constants are the constructors of \<open>stack_cmd\<close>, with their values
  in \<open>cmd_code\<close>.  Where the code reads behind the last item (a phrase that is not closed)
  or behind the array of counters, the evaluation returns \<open>None\<close>.

  The lemmas show that the two stacks compute the value of the expression the items print,
  with the precedence not, and, or; and that the copied sequence has an operator between
  any two operands.
\<close>

datatype stack_cmd =
  UDM_STACK_LEFT | UDM_STACK_RIGHT | UDM_STACK_BOT | UDM_STACK_OR | UDM_STACK_AND
| UDM_STACK_NOT | UDM_STACK_PHRASE | UDM_STACK_WORD | UDM_STACK_STOP

fun cmd_code :: "stack_cmd \<Rightarrow> nat" where
  "cmd_code UDM_STACK_LEFT = 0"
| "cmd_code UDM_STACK_RIGHT = 1"
| "cmd_code UDM_STACK_BOT = 2"
| "cmd_code UDM_STACK_OR = 3"
| "cmd_code UDM_STACK_AND = 4"
| "cmd_code UDM_STACK_NOT = 5"
| "cmd_code UDM_STACK_PHRASE = 6"
| "cmd_code UDM_STACK_WORD = 200"
| "cmd_code UDM_STACK_STOP = 201"

record stack_item =
  cmd :: stack_cmd
  arg :: nat

record boolstack =
  cstack :: "stack_cmd list"
  astack :: "nat list"

subsection \<open>Stack operations\<close>

definition TOPCMD :: "boolstack \<Rightarrow> stack_cmd" where
  "TOPCMD s = (case cstack s of [] \<Rightarrow> UDM_STACK_BOT | c # _ \<Rightarrow> c)"

definition POPARG :: "boolstack \<Rightarrow> nat \<times> boolstack" where
  "POPARG s =
     (case astack s of
        [] \<Rightarrow> (cmd_code UDM_STACK_BOT, s)
      | a # as \<Rightarrow> (a, s\<lparr>astack := as\<rparr>))"

definition POPCMD :: "boolstack \<Rightarrow> stack_cmd \<times> boolstack" where
  "POPCMD s =
     (case cstack s of
        [] \<Rightarrow> (UDM_STACK_BOT, s)
      | c # cs \<Rightarrow> (c, s\<lparr>cstack := cs\<rparr>))"

definition PUSHARG :: "boolstack \<Rightarrow> nat \<Rightarrow> boolstack" where
  "PUSHARG s a = s\<lparr>astack := a # astack s\<rparr>"

definition PUSHCMD :: "boolstack \<Rightarrow> stack_cmd \<Rightarrow> boolstack" where
  "PUSHCMD s c = s\<lparr>cstack := c # cstack s\<rparr>"

definition perform :: "boolstack \<Rightarrow> stack_cmd \<Rightarrow> boolstack" where
  "perform s com =
     (case com of
        UDM_STACK_OR \<Rightarrow>
          (let (x1, s) = POPARG s; (x2, s) = POPARG s
           in PUSHARG s (if x1 \<noteq> 0 \<or> x2 \<noteq> 0 then 1 else 0))
      | UDM_STACK_AND \<Rightarrow>
          (let (x1, s) = POPARG s; (x2, s) = POPARG s
           in PUSHARG s (if x1 \<noteq> 0 \<and> x2 \<noteq> 0 then 1 else 0))
      | UDM_STACK_NOT \<Rightarrow>
          (let (x1, s) = POPARG s in PUSHARG s (if x1 \<noteq> 0 then 0 else 1))
      | _ \<Rightarrow> s)"

lemma perform_cstack [simp]: "cstack (perform s c) = cstack s"
  by (auto simp: perform_def POPARG_def PUSHARG_def split: stack_cmd.splits list.splits)

text \<open>
  The three loops over the operator stack.  The second is only called with the operators or
  and and; for both the comparison fails on an empty stack (\<open>UDM_STACK_BOT\<close> is smaller),
  so the second test of its guard only serves the termination proof.
\<close>

definition perform_top :: "boolstack \<Rightarrow> boolstack" where
  "perform_top s = (let (c, s) = POPCMD s in perform s c)"

lemma perform_top_cstack [simp]: "cstack (perform_top s) = tl (cstack s)"
  by (auto simp: perform_top_def POPCMD_def split: list.splits)

function perform_till_left :: "boolstack \<Rightarrow> boolstack" where
  "perform_till_left s =
     (if TOPCMD s \<noteq> UDM_STACK_LEFT \<and> TOPCMD s \<noteq> UDM_STACK_BOT
      then perform_till_left (perform_top s) else s)"
  by pat_completeness auto
termination
  by (relation "measure (\<lambda>s. length (cstack s))")
    (auto simp: TOPCMD_def split: list.splits)

function perform_while_ge :: "stack_cmd \<Rightarrow> boolstack \<Rightarrow> boolstack" where
  "perform_while_ge c s =
     (if cmd_code c \<le> cmd_code (TOPCMD s) \<and> cstack s \<noteq> []
      then perform_while_ge c (perform_top s) else s)"
  by pat_completeness auto
termination
  by (relation "measure (\<lambda>(c, s). length (cstack s))") auto

function perform_all :: "boolstack \<Rightarrow> boolstack" where
  "perform_all s = (if TOPCMD s \<noteq> UDM_STACK_BOT then perform_all (perform_top s) else s)"
  by pat_completeness auto
termination
  by (relation "measure (\<lambda>s. length (cstack s))")
    (auto simp: TOPCMD_def split: list.splits)

declare perform_till_left.simps [simp del] perform_while_ge.simps [simp del]
  perform_all.simps [simp del]

subsection \<open>Evaluation of an item sequence\<close>

definition count_flag :: "nat list \<Rightarrow> nat \<Rightarrow> nat option" where
  "count_flag counts a =
     (if a < length counts then Some (if counts ! a \<noteq> 0 then 1 else 0) else None)"

function calc_items :: "stack_item list \<Rightarrow> nat list \<Rightarrow> boolstack \<Rightarrow> boolstack option" where
  "calc_items [] counts s = Some s"
| "calc_items (it # items) counts s =
     (case cmd it of
        UDM_STACK_RIGHT \<Rightarrow>
          (let s = perform_till_left s;
               s = (if TOPCMD s = UDM_STACK_LEFT then snd (POPCMD s) else s)
           in calc_items items counts s)
      | UDM_STACK_OR \<Rightarrow> calc_items items counts (PUSHCMD (perform_while_ge UDM_STACK_OR s) UDM_STACK_OR)
      | UDM_STACK_AND \<Rightarrow> calc_items items counts (PUSHCMD (perform_while_ge UDM_STACK_AND s) UDM_STACK_AND)
      | UDM_STACK_LEFT \<Rightarrow> calc_items items counts (PUSHCMD s UDM_STACK_LEFT)
      | UDM_STACK_NOT \<Rightarrow> calc_items items counts (PUSHCMD s UDM_STACK_NOT)
      | UDM_STACK_PHRASE \<Rightarrow>
          (case items of
             [] \<Rightarrow> None
           | w # _ \<Rightarrow>
               (case count_flag counts (arg w) of
                  None \<Rightarrow> None
                | Some f \<Rightarrow>
                    (let rest = dropWhile (\<lambda>i. cmd i \<noteq> UDM_STACK_PHRASE) items
                     in if rest = [] then None
                        else calc_items (tl rest) counts (PUSHARG s f))))
      | UDM_STACK_STOP \<Rightarrow> calc_items items counts (PUSHARG s 1)
      | UDM_STACK_WORD \<Rightarrow>
          (case count_flag counts (arg it) of
             None \<Rightarrow> None
           | Some f \<Rightarrow> calc_items items counts (PUSHARG s f))
      | UDM_STACK_BOT \<Rightarrow> calc_items items counts s)"
  by pat_completeness auto
termination
  by (relation "measure (\<lambda>(items, counts, s). length items)")
    (auto simp: less_Suc_eq_le le_diff_conv intro: le_trans [OF length_dropWhile_le])

text \<open>
  An item with any other command only reaches \<open>UDM_ASSERT\<close>, which is empty in a release
  build, and is skipped.
\<close>

definition UdmCalcBoolItems :: "stack_item list \<Rightarrow> nat list \<Rightarrow> nat option" where
  "UdmCalcBoolItems items counts =
     (case calc_items items counts \<lparr>cstack = [], astack = []\<rparr> of
        None \<Rightarrow> None
      | Some s \<Rightarrow> Some (fst (POPARG (perform_all s))))"

subsection \<open>Copying a query, with the implicit operators\<close>

datatype search_mode =
  UDM_MODE_ALL | UDM_MODE_ANY | UDM_MODE_BOOL | UDM_MODE_PHRASE
| UDM_MODE_ALL_MINUS | UDM_MODE_ALL_MINUS_HALF

text \<open>
  The statistics count the items of each kind; only the counts of phrases, or and not are
  read.  The list of items is \<open>items\<close>, \<open>UdmStackItemListFree\<close> empties it.
\<close>

record stack_stat =
  n_left :: nat
  n_right :: nat
  n_or :: nat
  n_and :: nat
  n_not :: nat
  n_phrase :: nat
  n_word :: nat
  n_stop :: nat

definition UdmStackStatAdd :: "stack_stat \<Rightarrow> stack_item \<Rightarrow> stack_stat" where
  "UdmStackStatAdd S item =
     (case cmd item of
        UDM_STACK_LEFT \<Rightarrow> S\<lparr>n_left := n_left S + 1\<rparr>
      | UDM_STACK_RIGHT \<Rightarrow> S\<lparr>n_right := n_right S + 1\<rparr>
      | UDM_STACK_OR \<Rightarrow> S\<lparr>n_or := n_or S + 1\<rparr>
      | UDM_STACK_AND \<Rightarrow> S\<lparr>n_and := n_and S + 1\<rparr>
      | UDM_STACK_NOT \<Rightarrow> S\<lparr>n_not := n_not S + 1\<rparr>
      | UDM_STACK_PHRASE \<Rightarrow> S\<lparr>n_phrase := n_phrase S + 1\<rparr>
      | UDM_STACK_WORD \<Rightarrow> S\<lparr>n_word := n_word S + 1\<rparr>
      | UDM_STACK_STOP \<Rightarrow> S\<lparr>n_stop := n_stop S + 1\<rparr>
      | UDM_STACK_BOT \<Rightarrow> S)"

definition UdmStackItemListAdd :: "stack_item list \<Rightarrow> stack_item \<Rightarrow> stack_item list" where
  "UdmStackItemListAdd List item = List @ [item]"

definition UdmStackItemListFree :: "stack_item list \<Rightarrow> stack_item list" where
  "UdmStackItemListFree L = []"

definition UdmStackItemListAdd_with_Stat ::
    "stack_item list \<times> stack_stat \<Rightarrow> stack_item \<Rightarrow> stack_item list \<times> stack_stat" where
  "UdmStackItemListAdd_with_Stat LS item =
     (UdmStackItemListAdd (fst LS) item, UdmStackStatAdd (snd LS) item)"

definition ends_operand :: "stack_cmd \<Rightarrow> bool" where
  "ends_operand c \<longleftrightarrow>
     c = UDM_STACK_WORD \<or> c = UDM_STACK_STOP \<or> c = UDM_STACK_PHRASE \<or> c = UDM_STACK_RIGHT"

definition starts_operand :: "stack_cmd \<Rightarrow> bool" where
  "starts_operand c \<longleftrightarrow>
     c = UDM_STACK_WORD \<or> c = UDM_STACK_STOP \<or> c = UDM_STACK_PHRASE \<or>
     c = UDM_STACK_LEFT \<or> c = UDM_STACK_NOT"

fun copy_items ::
    "stack_cmd \<Rightarrow> stack_item \<Rightarrow> stack_item list \<Rightarrow> bool \<Rightarrow> stack_item list \<times> stack_stat \<Rightarrow>
     stack_item list \<times> stack_stat" where
  "copy_items add_cmd prev [] inphrase LS = LS"
| "copy_items add_cmd prev (it # src) inphrase LS =
     (let LS = (if ends_operand (cmd prev) \<and> starts_operand (cmd it) \<and> \<not> inphrase
                then UdmStackItemListAdd_with_Stat LS \<lparr>cmd = add_cmd, arg = 0\<rparr> else LS);
          inphrase = (if cmd it = UDM_STACK_PHRASE then \<not> inphrase else inphrase)
      in copy_items add_cmd it src inphrase (UdmStackItemListAdd_with_Stat LS it))"

text \<open>
  The code reads the first item without looking at the length; an empty source is outside
  the array and gives \<open>None\<close>.  \<open>UDM_MODE_PHRASE\<close> falls through the switch and keeps the
  initial \<open>UDM_STACK_AND\<close>.
\<close>

definition UdmStackItemListCopy :: "stack_item list \<Rightarrow> search_mode \<Rightarrow> stack_item list option" where
  "UdmStackItemListCopy src mode =
     (let add_cmd = (if mode = UDM_MODE_ANY then UDM_STACK_OR else UDM_STACK_AND);
          stat = \<lparr>n_left = 0, n_right = 0, n_or = 0, n_and = 0, n_not = 0, n_phrase = 0,
                  n_word = 0, n_stop = 0\<rparr>
      in case src of
           [] \<Rightarrow> None
         | first # rest \<Rightarrow>
             (let LS = UdmStackItemListAdd_with_Stat ([], stat) first;
                  (Dst, Stat) = copy_items add_cmd first rest (cmd first = UDM_STACK_PHRASE) LS;
                  Stat = (if mode = UDM_MODE_ALL_MINUS \<or> mode = UDM_MODE_ALL_MINUS_HALF
                          then Stat\<lparr>n_phrase := 0\<rparr> else Stat)
              in if n_phrase Stat = 0 \<and> n_or Stat = 0 \<and> n_not Stat = 0
                 then Some (UdmStackItemListFree Dst) else Some Dst))"


subsection \<open>The grammar of queries\<close>

text \<open>
  The queries the parser of the search produces, as trees: \<open>Juxt\<close> is two operands with no
  operator between them.  \<open>toks\<close> prints a tree, \<open>Juxt\<close> with the operator of the given
  list (\<open>[]\<close> for the query as the user wrote it).  \<open>well_formed j p q\<close> says that \<open>q\<close> may
  stand where an operand of level \<open>p\<close> is expected (levels as the command codes: or 3, and 4,
  not 5), \<open>j\<close> being the level of the juxtaposition.
\<close>

datatype query =
  Word nat | Stop nat | Phrase nat "stack_item list" | Paren query | Not query
| And query query | Or query query | Juxt query query

fun toks :: "stack_item list \<Rightarrow> query \<Rightarrow> stack_item list" where
  "toks op (Word w) = [\<lparr>cmd = UDM_STACK_WORD, arg = w\<rparr>]"
| "toks op (Stop w) = [\<lparr>cmd = UDM_STACK_STOP, arg = w\<rparr>]"
| "toks op (Phrase w ws) =
     \<lparr>cmd = UDM_STACK_PHRASE, arg = 0\<rparr> # \<lparr>cmd = UDM_STACK_WORD, arg = w\<rparr> # ws @
     [\<lparr>cmd = UDM_STACK_PHRASE, arg = 0\<rparr>]"
| "toks op (Paren q) =
     \<lparr>cmd = UDM_STACK_LEFT, arg = 0\<rparr> # toks op q @ [\<lparr>cmd = UDM_STACK_RIGHT, arg = 0\<rparr>]"
| "toks op (Not q) = \<lparr>cmd = UDM_STACK_NOT, arg = 0\<rparr> # toks op q"
| "toks op (And a b) = toks op a @ \<lparr>cmd = UDM_STACK_AND, arg = 0\<rparr> # toks op b"
| "toks op (Or a b) = toks op a @ \<lparr>cmd = UDM_STACK_OR, arg = 0\<rparr> # toks op b"
| "toks op (Juxt a b) = toks op a @ op @ toks op b"

fun well_formed :: "nat \<Rightarrow> nat \<Rightarrow> query \<Rightarrow> bool" where
  "well_formed j p (Word w) = True"
| "well_formed j p (Stop w) = True"
| "well_formed j p (Phrase w ws) =
     (\<forall>i \<in> set ws. cmd i = UDM_STACK_WORD \<or> cmd i = UDM_STACK_STOP)"
| "well_formed j p (Paren q) = well_formed j 3 q"
| "well_formed j p (Not q) = well_formed j 5 q"
| "well_formed j p (And a b) = (p \<le> 4 \<and> well_formed j 4 a \<and> well_formed j 5 b)"
| "well_formed j p (Or a b) = (p \<le> 3 \<and> well_formed j 3 a \<and> well_formed j 4 b)"
| "well_formed j p (Juxt a b) = (p \<le> j \<and> well_formed j j a \<and> well_formed j (Suc j) b)"

text \<open>The truth value of a query for a document; a phrase is found when its first word's
  counter is not zero (the counters of a phrase are set by the phrase search).\<close>

fun holds :: "bool \<Rightarrow> nat list \<Rightarrow> query \<Rightarrow> bool" where
  "holds any counts (Word w) = (counts ! w \<noteq> 0)"
| "holds any counts (Stop w) = True"
| "holds any counts (Phrase w ws) = (counts ! w \<noteq> 0)"
| "holds any counts (Paren q) = holds any counts q"
| "holds any counts (Not q) = (\<not> holds any counts q)"
| "holds any counts (And a b) = (holds any counts a \<and> holds any counts b)"
| "holds any counts (Or a b) = (holds any counts a \<or> holds any counts b)"
| "holds any counts (Juxt a b) =
     (if any then holds any counts a \<or> holds any counts b
      else holds any counts a \<and> holds any counts b)"

fun query_words :: "query \<Rightarrow> nat set" where
  "query_words (Word w) = {w}"
| "query_words (Stop w) = {}"
| "query_words (Phrase w ws) = {w}"
| "query_words (Paren q) = query_words q"
| "query_words (Not q) = query_words q"
| "query_words (And a b) = query_words a \<union> query_words b"
| "query_words (Or a b) = query_words a \<union> query_words b"
| "query_words (Juxt a b) = query_words a \<union> query_words b"

definition mode_cmd :: "search_mode \<Rightarrow> stack_cmd" where
  "mode_cmd mode = (if mode = UDM_MODE_ANY then UDM_STACK_OR else UDM_STACK_AND)"

abbreviation mode_op :: "search_mode \<Rightarrow> stack_item" where
  "mode_op mode \<equiv> \<lparr>cmd = mode_cmd mode, arg = 0\<rparr>"

subsection \<open>Evaluation of a printed query\<close>

abbreviation truth :: "bool \<Rightarrow> nat" where
  "truth v \<equiv> (if v then 1 else 0)"

lemma perform_while_ge_stop:
  "cmd_code (TOPCMD s) < cmd_code c \<Longrightarrow> perform_while_ge c s = s"
  by (subst perform_while_ge.simps) simp

lemma perform_while_ge_step:
  "cmd_code c \<le> cmd_code d \<Longrightarrow>
   perform_while_ge c \<lparr>cstack = d # cs, astack = as\<rparr> =
   perform_while_ge c (perform \<lparr>cstack = cs, astack = as\<rparr> d)"
  by (subst perform_while_ge.simps) (simp add: TOPCMD_def perform_top_def POPCMD_def)

lemma perform_all_while:
  "3 \<le> cmd_code c \<Longrightarrow> perform_all (perform_while_ge c s) = perform_all s"
proof (induction c s rule: perform_while_ge.induct)
  case (1 c s)
  show ?case
  proof (cases "cmd_code c \<le> cmd_code (TOPCMD s) \<and> cstack s \<noteq> []")
    case True
    with 1 have "perform_all (perform_while_ge c s) = perform_all (perform_top s)"
      by (subst perform_while_ge.simps) simp
    moreover from True 1(2) have "TOPCMD s \<noteq> UDM_STACK_BOT" by auto
    ultimately show ?thesis by (subst (2) perform_all.simps) simp
  qed (subst perform_while_ge.simps, auto)
qed

lemma perform_till_left_while:
  "3 \<le> cmd_code c \<Longrightarrow> perform_till_left (perform_while_ge c s) = perform_till_left s"
proof (induction c s rule: perform_while_ge.induct)
  case (1 c s)
  show ?case
  proof (cases "cmd_code c \<le> cmd_code (TOPCMD s) \<and> cstack s \<noteq> []")
    case True
    with 1 have "perform_till_left (perform_while_ge c s) = perform_till_left (perform_top s)"
      by (subst perform_while_ge.simps) simp
    moreover from True 1(2) have "TOPCMD s \<noteq> UDM_STACK_BOT" "TOPCMD s \<noteq> UDM_STACK_LEFT"
      by auto
    ultimately show ?thesis by (subst (2) perform_till_left.simps) simp
  qed (subst perform_while_ge.simps, auto)
qed

lemma PUSH_simps:
  "PUSHARG \<lparr>cstack = cs, astack = as\<rparr> a = \<lparr>cstack = cs, astack = a # as\<rparr>"
  "PUSHCMD \<lparr>cstack = cs, astack = as\<rparr> c = \<lparr>cstack = c # cs, astack = as\<rparr>"
  "TOPCMD \<lparr>cstack = c # cs, astack = as\<rparr> = c"
  "TOPCMD \<lparr>cstack = [], astack = as\<rparr> = UDM_STACK_BOT"
  by (simp_all add: PUSHARG_def PUSHCMD_def TOPCMD_def)

lemma perform_simps:
  "perform \<lparr>cstack = cs, astack = truth v # as\<rparr> UDM_STACK_NOT =
     \<lparr>cstack = cs, astack = truth (\<not> v) # as\<rparr>"
  "perform \<lparr>cstack = cs, astack = truth w # truth v # as\<rparr> UDM_STACK_AND =
     \<lparr>cstack = cs, astack = truth (v \<and> w) # as\<rparr>"
  "perform \<lparr>cstack = cs, astack = truth w # truth v # as\<rparr> UDM_STACK_OR =
     \<lparr>cstack = cs, astack = truth (v \<or> w) # as\<rparr>"
  by (simp_all add: perform_def POPARG_def PUSHARG_def)


definition computes ::
    "nat list \<Rightarrow> nat \<Rightarrow> stack_item list \<Rightarrow> bool \<Rightarrow> bool" where
  "computes counts p items v \<longleftrightarrow>
     (\<forall>rest cs as. cmd_code (TOPCMD \<lparr>cstack = cs, astack = as\<rparr>) < p \<or> p = 5 \<longrightarrow>
        (\<exists>s'. calc_items (items @ rest) counts \<lparr>cstack = cs, astack = as\<rparr> =
                calc_items rest counts s' \<and>
              (\<forall>c. 3 \<le> cmd_code c \<longrightarrow> cmd_code c \<le> p \<longrightarrow>
                 perform_while_ge c s' =
                 perform_while_ge c \<lparr>cstack = cs, astack = truth v # as\<rparr>)))"

lemma computesD:
  assumes "computes counts p items v"
    and "cmd_code (TOPCMD \<lparr>cstack = cs, astack = as\<rparr>) < p \<or> p = 5"
  shows "\<exists>s'. calc_items (items @ rest) counts \<lparr>cstack = cs, astack = as\<rparr> =
           calc_items rest counts s' \<and>
         (\<forall>c. 3 \<le> cmd_code c \<longrightarrow> cmd_code c \<le> p \<longrightarrow>
            perform_while_ge c s' = perform_while_ge c \<lparr>cstack = cs, astack = truth v # as\<rparr>)"
  using assms unfolding computes_def by blast

lemma computesD3:
  assumes "computes counts 3 items v" "cmd_code (TOPCMD \<lparr>cstack = cs, astack = as\<rparr>) < 3"
  shows "\<exists>s'. calc_items (items @ rest) counts \<lparr>cstack = cs, astack = as\<rparr> =
           calc_items rest counts s' \<and>
         perform_while_ge UDM_STACK_OR s' =
           perform_while_ge UDM_STACK_OR \<lparr>cstack = cs, astack = truth v # as\<rparr>"
  using computesD [OF assms(1), of cs as rest] assms(2) by (metis cmd_code.simps(4) order_refl)

lemma computes_push:
  assumes "\<And>rest cs as. calc_items (items @ rest) counts \<lparr>cstack = cs, astack = as\<rparr> =
             calc_items rest counts \<lparr>cstack = cs, astack = truth v # as\<rparr>"
  shows "computes counts p items v"
  unfolding computes_def using assms by metis

lemma computes_not:
  assumes "computes counts 5 items v" "p \<le> 5"
  shows "computes counts p (\<lparr>cmd = UDM_STACK_NOT, arg = 0\<rparr> # items) (\<not> v)"
  unfolding computes_def
proof (intro allI impI)
  fix rest cs as
  obtain s' where s': "calc_items (items @ rest) counts \<lparr>cstack = UDM_STACK_NOT # cs, astack = as\<rparr> =
      calc_items rest counts s'"
    and w: "\<And>c. 3 \<le> cmd_code c \<Longrightarrow> cmd_code c \<le> 5 \<Longrightarrow>
      perform_while_ge c s' = perform_while_ge c \<lparr>cstack = UDM_STACK_NOT # cs, astack = truth v # as\<rparr>"
    using computesD [OF assms(1), of "UDM_STACK_NOT # cs" as rest] by auto
  have "perform_while_ge c s' = perform_while_ge c \<lparr>cstack = cs, astack = truth (\<not> v) # as\<rparr>"
    if "3 \<le> cmd_code c" "cmd_code c \<le> p" for c
    using that assms(2) w [of c] by (simp only: perform_while_ge_step perform_simps cmd_code.simps)
  with s' show "\<exists>s'. calc_items ((\<lparr>cmd = UDM_STACK_NOT, arg = 0\<rparr> # items) @ rest) counts
              \<lparr>cstack = cs, astack = as\<rparr> = calc_items rest counts s' \<and>
            (\<forall>c. 3 \<le> cmd_code c \<longrightarrow> cmd_code c \<le> p \<longrightarrow>
               perform_while_ge c s' = perform_while_ge c \<lparr>cstack = cs, astack = truth (\<not> v) # as\<rparr>)"
    by (intro exI [of _ s']) (simp add: PUSH_simps)
qed

definition connective :: "stack_cmd \<Rightarrow> bool \<Rightarrow> bool \<Rightarrow> bool" where
  "connective d v w = (if d = UDM_STACK_OR then v \<or> w else v \<and> w)"

lemma computes_binary:
  assumes "computes counts (cmd_code d) xs v" "computes counts (Suc (cmd_code d)) ys w"
    and d: "d = UDM_STACK_OR \<or> d = UDM_STACK_AND" and p: "p \<le> cmd_code d"
  shows "computes counts p (xs @ \<lparr>cmd = d, arg = 0\<rparr> # ys) (connective d v w)"
  unfolding computes_def
proof (intro allI impI)
  fix rest cs as
  let ?push = "\<lambda>as. \<lparr>cstack = cs, astack = as\<rparr>"
  assume "cmd_code (TOPCMD (?push as)) < p \<or> p = 5"
  with p d have top: "cmd_code (TOPCMD (?push as')) < cmd_code d" for as'
    by (auto simp: TOPCMD_def)
  obtain s1 where s1: "calc_items (xs @ \<lparr>cmd = d, arg = 0\<rparr> # ys @ rest) counts (?push as) =
      calc_items (\<lparr>cmd = d, arg = 0\<rparr> # ys @ rest) counts s1"
    and "\<And>c. 3 \<le> cmd_code c \<Longrightarrow> cmd_code c \<le> cmd_code d \<Longrightarrow>
      perform_while_ge c s1 = perform_while_ge c (?push (truth v # as))"
    using computesD [OF assms(1) disjI1 [OF top [of as]], of "\<lparr>cmd = d, arg = 0\<rparr> # ys @ rest"]
    by blast
  then have "perform_while_ge d s1 = ?push (truth v # as)"
    using d perform_while_ge_stop [OF top] by auto
  with s1 d have s2: "calc_items (xs @ \<lparr>cmd = d, arg = 0\<rparr> # ys @ rest) counts (?push as) =
      calc_items (ys @ rest) counts \<lparr>cstack = d # cs, astack = truth v # as\<rparr>"
    by (auto simp: PUSH_simps)
  obtain s' where s': "calc_items (ys @ rest) counts \<lparr>cstack = d # cs, astack = truth v # as\<rparr> =
      calc_items rest counts s'"
    and w: "\<And>c. 3 \<le> cmd_code c \<Longrightarrow> cmd_code c \<le> Suc (cmd_code d) \<Longrightarrow>
      perform_while_ge c s' = perform_while_ge c \<lparr>cstack = d # cs, astack = truth w # truth v # as\<rparr>"
    using computesD [OF assms(2), of "d # cs" "truth v # as" rest] by (auto simp: PUSH_simps)
  have "perform_while_ge c s' = perform_while_ge c (?push (truth (connective d v w) # as))"
    if "3 \<le> cmd_code c" "cmd_code c \<le> p" for c
    using that p d w [of c]
    by (auto simp only: perform_while_ge_step perform_simps cmd_code.simps connective_def
        stack_cmd.distinct simp_thms if_True if_False)
  with s2 s' show "\<exists>s'. calc_items ((xs @ \<lparr>cmd = d, arg = 0\<rparr> # ys) @ rest) counts (?push as) =
        calc_items rest counts s' \<and>
      (\<forall>c. 3 \<le> cmd_code c \<longrightarrow> cmd_code c \<le> p \<longrightarrow>
         perform_while_ge c s' = perform_while_ge c (?push (truth (connective d v w) # as)))"
    by (intro exI [of _ s']) simp
qed

lemma computes_paren:
  assumes "computes counts 3 items v"
  shows "computes counts p (\<lparr>cmd = UDM_STACK_LEFT, arg = 0\<rparr> # items @
    [\<lparr>cmd = UDM_STACK_RIGHT, arg = 0\<rparr>]) v"
proof (rule computes_push)
  fix rest cs as
  let ?right = "\<lparr>cmd = UDM_STACK_RIGHT, arg = 0\<rparr>"
  obtain s' where s': "calc_items (items @ ?right # rest) counts
        \<lparr>cstack = UDM_STACK_LEFT # cs, astack = as\<rparr> = calc_items (?right # rest) counts s'"
    and "perform_while_ge UDM_STACK_OR s' =
      perform_while_ge UDM_STACK_OR \<lparr>cstack = UDM_STACK_LEFT # cs, astack = truth v # as\<rparr>"
    using computesD3 [OF assms, of "UDM_STACK_LEFT # cs" as "?right # rest"]
    by (metis PUSH_simps(3) cmd_code.simps(1) zero_less_numeral)
  then have "perform_till_left s' = perform_till_left \<lparr>cstack = UDM_STACK_LEFT # cs, astack = truth v # as\<rparr>"
    by (metis perform_till_left_while cmd_code.simps(4) order_refl)
  also have "\<dots> = \<lparr>cstack = UDM_STACK_LEFT # cs, astack = truth v # as\<rparr>"
    by (subst perform_till_left.simps) (simp add: PUSH_simps)
  finally show "calc_items ((\<lparr>cmd = UDM_STACK_LEFT, arg = 0\<rparr> # items @ [?right]) @ rest) counts
      \<lparr>cstack = cs, astack = as\<rparr> = calc_items rest counts \<lparr>cstack = cs, astack = truth v # as\<rparr>"
    using s' by (simp add: PUSH_simps POPCMD_def)
qed

lemma computes_toks:
  "well_formed (cmd_code (mode_cmd mode)) p q \<Longrightarrow> p \<le> 5 \<Longrightarrow> query_words q \<subseteq> {..<length counts} \<Longrightarrow>
   computes counts p (toks [mode_op mode] q) (holds (mode = UDM_MODE_ANY) counts q)"
proof (induction q arbitrary: p)
  case (Phrase w ws)
  then have "cmd i \<noteq> UDM_STACK_PHRASE" if "i \<in> set ws" for i using that by auto
  then have "dropWhile (\<lambda>i. cmd i \<noteq> UDM_STACK_PHRASE)
      (ws @ \<lparr>cmd = UDM_STACK_PHRASE, arg = 0\<rparr> # rest) = \<lparr>cmd = UDM_STACK_PHRASE, arg = 0\<rparr> # rest" for rest
    by (subst dropWhile_append2) auto
  with Phrase show ?case
    by (intro computes_push) (simp add: count_flag_def PUSH_simps)
next
  case (Not q)
  then show ?case using computes_not [of counts "toks [mode_op mode] q"] by simp
next
  case (Paren q)
  then show ?case using computes_paren [of counts "toks [mode_op mode] q"] by simp
next
  case (And a b)
  then show ?case
    using computes_binary [of counts UDM_STACK_AND "toks [mode_op mode] a"] by (simp add: connective_def)
next
  case (Or a b)
  then show ?case
    using computes_binary [of counts UDM_STACK_OR "toks [mode_op mode] a"] by (simp add: connective_def)
next
  case (Juxt a b)
  have "computes counts (cmd_code (mode_cmd mode)) (toks [mode_op mode] a)
          (holds (mode = UDM_MODE_ANY) counts a)"
    "computes counts (Suc (cmd_code (mode_cmd mode))) (toks [mode_op mode] b)
          (holds (mode = UDM_MODE_ANY) counts b)"
    using Juxt by (auto simp: mode_cmd_def split: if_splits)
  from computes_binary [OF this] Juxt.prems show ?case
    by (cases "mode = UDM_MODE_ANY") (simp_all add: connective_def mode_cmd_def)
qed (auto intro!: computes_push simp: count_flag_def PUSH_simps)

lemma UdmCalcBoolItems_toks:
  assumes "well_formed (cmd_code (mode_cmd mode)) 3 q" "query_words q \<subseteq> {..<length counts}"
  shows "UdmCalcBoolItems (toks [mode_op mode] q) counts =
    Some (truth (holds (mode = UDM_MODE_ANY) counts q))"
proof -
  let ?v = "truth (holds (mode = UDM_MODE_ANY) counts q)"
  obtain s' where s': "calc_items (toks [mode_op mode] q @ []) counts \<lparr>cstack = [], astack = []\<rparr> =
      calc_items [] counts s'"
    and "perform_while_ge UDM_STACK_OR s' =
      perform_while_ge UDM_STACK_OR \<lparr>cstack = [], astack = [?v]\<rparr>"
    using computesD3 [OF computes_toks [OF assms(1) _ assms(2)], of "[]" "[]" "[]"]
    by (auto simp: PUSH_simps)
  then have "perform_all s' = perform_all \<lparr>cstack = [], astack = [?v]\<rparr>"
    by (metis perform_all_while cmd_code.simps(4) order_refl)
  also have "\<dots> = \<lparr>cstack = [], astack = [?v]\<rparr>"
    by (subst perform_all.simps) (simp add: PUSH_simps)
  finally show ?thesis using s' by (simp add: UdmCalcBoolItems_def POPARG_def)
qed

subsection \<open>Copying a printed query\<close>

definition stat_of :: "stack_item list \<Rightarrow> stack_stat \<Rightarrow> stack_stat" where
  "stat_of items S = fold (\<lambda>i S. UdmStackStatAdd S i) items S"

lemma fold_add_with_stat:
  "fold (\<lambda>i LS. UdmStackItemListAdd_with_Stat LS i) items (L, S) = (L @ items, stat_of items S)"
  by (induction items arbitrary: L S)
    (simp_all add: UdmStackItemListAdd_with_Stat_def UdmStackItemListAdd_def stat_of_def)

lemma stat_of_fields:
  "n_or (stat_of items S) = n_or S + length (filter (\<lambda>i. cmd i = UDM_STACK_OR) items)"
  "n_not (stat_of items S) = n_not S + length (filter (\<lambda>i. cmd i = UDM_STACK_NOT) items)"
  "n_phrase (stat_of items S) =
     n_phrase S + length (filter (\<lambda>i. cmd i = UDM_STACK_PHRASE) items)"
  by (induction items arbitrary: S)
    (auto simp: stat_of_def UdmStackStatAdd_def split: stack_cmd.splits)

abbreviation add_items :: "stack_item list \<Rightarrow> stack_item list \<times> stack_stat \<Rightarrow>
    stack_item list \<times> stack_stat" where
  "add_items items LS \<equiv> fold (\<lambda>i LS. UdmStackItemListAdd_with_Stat LS i) items LS"

lemma copy_in_phrase:
  "\<forall>i \<in> set ws. cmd i \<noteq> UDM_STACK_PHRASE \<Longrightarrow>
   copy_items add_cmd prev (ws @ \<lparr>cmd = UDM_STACK_PHRASE, arg = 0\<rparr> # rest) True LS =
   copy_items add_cmd \<lparr>cmd = UDM_STACK_PHRASE, arg = 0\<rparr> rest False
     (add_items (ws @ [\<lparr>cmd = UDM_STACK_PHRASE, arg = 0\<rparr>]) LS)"
  by (induction ws arbitrary: prev LS) auto

lemmas operand_defs = starts_operand_def ends_operand_def

lemma copy_items_Cons:
  "copy_items c prev (i # src) False LS =
   copy_items c i src (cmd i = UDM_STACK_PHRASE)
     (add_items ((if ends_operand (cmd prev) \<and> starts_operand (cmd i)
                  then [\<lparr>cmd = c, arg = 0\<rparr>] else []) @ [i]) LS)"
  by (simp add: Let_def)

declare copy_items.simps(2) [simp del]

text \<open>\<open>copies c items out\<close>: an operand \<open>items\<close> is copied as \<open>out\<close>, after the operator \<open>c\<close>
  when the item before it ends an operand.\<close>

definition copies :: "stack_cmd \<Rightarrow> stack_item list \<Rightarrow> stack_item list \<Rightarrow> bool" where
  "copies c items out \<longleftrightarrow>
     (\<forall>prev rest LS. \<exists>l. ends_operand (cmd l) \<and>
        copy_items c prev (items @ rest) False LS =
        copy_items c l rest False
          (add_items ((if ends_operand (cmd prev) then [\<lparr>cmd = c, arg = 0\<rparr>] else []) @ out) LS))"

lemma copiesI:
  assumes "\<And>(prev :: stack_item) rest LS pre. pre = (if ends_operand (cmd prev) then [\<lparr>cmd = c, arg = 0\<rparr>] else []) \<Longrightarrow>
    \<exists>l. ends_operand (cmd l) \<and>
      copy_items c prev (items @ rest) False LS = copy_items c l rest False (add_items (pre @ out) LS)"
  shows "copies c items out"
  unfolding copies_def using assms by blast

lemma copiesD:
  assumes "copies c items out"
  shows "\<exists>l. ends_operand (cmd l) \<and>
    copy_items c prev (items @ rest) False LS =
    copy_items c l rest False
      (add_items ((if ends_operand (cmd prev) then [\<lparr>cmd = c, arg = 0\<rparr>] else []) @ out) LS)"
  using assms unfolding copies_def by blast

lemma copiesD_first:
  assumes "copies c items out" "\<not> ends_operand (cmd prev)"
  shows "\<exists>l. ends_operand (cmd l) \<and>
    copy_items c prev (items @ rest) False LS = copy_items c l rest False (add_items out LS)"
  using copiesD [OF assms(1), of prev rest LS] assms(2) by (simp only: if_False append_Nil)

lemma copies_atom:
  assumes "cmd i = UDM_STACK_WORD \<or> cmd i = UDM_STACK_STOP"
  shows "copies c [i] [i]"
proof (rule copiesI)
  fix prev :: stack_item and rest LS and pre :: "stack_item list"
  assume "pre = (if ends_operand (cmd prev) then [\<lparr>cmd = c, arg = 0\<rparr>] else [])"
  moreover from assms have "starts_operand (cmd i)" "ends_operand (cmd i)" "cmd i \<noteq> UDM_STACK_PHRASE"
    by (auto simp: operand_defs)
  ultimately show "\<exists>l. ends_operand (cmd l) \<and>
      copy_items c prev ([i] @ rest) False LS = copy_items c l rest False (add_items (pre @ [i]) LS)"
    by (intro exI [of _ i]) (simp add: copy_items_Cons)
qed

lemma copies_infix:
  assumes "copies c xs xs'" "copies c ys ys'" "\<not> starts_operand (cmd i)" "\<not> ends_operand (cmd i)"
  shows "copies c (xs @ i # ys) (xs' @ i # ys')"
proof (rule copiesI)
  fix prev :: stack_item and rest LS and pre :: "stack_item list"
  assume pre: "pre = (if ends_operand (cmd prev) then [\<lparr>cmd = c, arg = 0\<rparr>] else [])"
  from assms(3) have "cmd i \<noteq> UDM_STACK_PHRASE" by (auto simp: operand_defs)
  then have i: "copy_items c l (i # src) False LS' = copy_items c i src False (add_items [i] LS')"
    for l src LS' using assms(3) by (simp add: copy_items_Cons)
  from copiesD [OF assms(1), of prev "i # ys @ rest" LS] obtain l where
    "copy_items c prev ((xs @ i # ys) @ rest) False LS =
      copy_items c l (i # ys @ rest) False (add_items (pre @ xs') LS)"
    unfolding pre append_assoc append_Cons by blast
  also note i
  also from copiesD_first [OF assms(2), of i rest "add_items [i] (add_items (pre @ xs') LS)"] assms(4)
  obtain m where m: "ends_operand (cmd m)"
    "copy_items c i (ys @ rest) False (add_items [i] (add_items (pre @ xs') LS)) =
      copy_items c m rest False (add_items ys' (add_items [i] (add_items (pre @ xs') LS)))"
    by blast
  note m(2)
  finally show "\<exists>l. ends_operand (cmd l) \<and> copy_items c prev ((xs @ i # ys) @ rest) False LS =
      copy_items c l rest False (add_items (pre @ xs' @ i # ys') LS)"
    using m(1) by (intro exI [of _ m]) simp
qed

lemma copies_juxt:
  assumes "copies c xs xs'" "copies c ys ys'"
  shows "copies c (xs @ ys) (xs' @ \<lparr>cmd = c, arg = 0\<rparr> # ys')"
proof (rule copiesI)
  fix prev :: stack_item and rest LS and pre :: "stack_item list"
  let ?op = "\<lparr>cmd = c, arg = 0\<rparr>"
  assume pre: "pre = (if ends_operand (cmd prev) then [?op] else [])"
  from copiesD [OF assms(1), of prev "ys @ rest" LS] obtain l where l: "ends_operand (cmd l)"
    "copy_items c prev ((xs @ ys) @ rest) False LS =
      copy_items c l (ys @ rest) False (add_items (pre @ xs') LS)"
    unfolding pre append_assoc by blast
  note l(2)
  also from copiesD [OF assms(2), of l rest "add_items (pre @ xs') LS"] l(1)
  obtain m where m: "ends_operand (cmd m)"
    "copy_items c l (ys @ rest) False (add_items (pre @ xs') LS) =
      copy_items c m rest False (add_items ([?op] @ ys') (add_items (pre @ xs') LS))"
    by auto
  note m(2)
  finally show "\<exists>l. ends_operand (cmd l) \<and> copy_items c prev ((xs @ ys) @ rest) False LS =
      copy_items c l rest False (add_items (pre @ xs' @ ?op # ys') LS)"
    using m(1) by (intro exI [of _ m]) simp
qed

lemma copies_prefix:
  assumes "copies c xs xs'" "starts_operand (cmd i)" "\<not> ends_operand (cmd i)"
  shows "\<exists>l. ends_operand (cmd l) \<and> copy_items c prev (i # xs @ rest) False LS =
    copy_items c l rest False (add_items ((if ends_operand (cmd prev)
      then [\<lparr>cmd = c, arg = 0\<rparr>] else []) @ i # xs') LS)"
proof -
  define pre where "pre = (if ends_operand (cmd prev) then [\<lparr>cmd = c, arg = 0\<rparr>] else [])"
  from assms(3) have "cmd i \<noteq> UDM_STACK_PHRASE" by (auto simp: operand_defs)
  then have "copy_items c prev (i # xs @ rest) False LS =
      copy_items c i (xs @ rest) False (add_items (pre @ [i]) LS)"
    using assms(2) by (simp add: copy_items_Cons pre_def)
  also from copiesD_first [OF assms(1,3), of rest "add_items (pre @ [i]) LS"]
  obtain m where m: "ends_operand (cmd m)"
    "copy_items c i (xs @ rest) False (add_items (pre @ [i]) LS) =
      copy_items c m rest False (add_items xs' (add_items (pre @ [i]) LS))"
    by blast
  note m(2)
  finally show ?thesis using m(1) by (intro exI [of _ m]) (simp add: pre_def)
qed

lemma copies_not:
  assumes "copies c xs xs'"
  shows "copies c (\<lparr>cmd = UDM_STACK_NOT, arg = 0\<rparr> # xs) (\<lparr>cmd = UDM_STACK_NOT, arg = 0\<rparr> # xs')"
  unfolding copies_def append_Cons
  by (intro allI copies_prefix assms) (simp_all add: operand_defs)

lemma copies_paren:
  assumes "copies c xs xs'"
  shows "copies c (\<lparr>cmd = UDM_STACK_LEFT, arg = 0\<rparr> # xs @ [\<lparr>cmd = UDM_STACK_RIGHT, arg = 0\<rparr>])
    (\<lparr>cmd = UDM_STACK_LEFT, arg = 0\<rparr> # xs' @ [\<lparr>cmd = UDM_STACK_RIGHT, arg = 0\<rparr>])"
proof (rule copiesI)
  fix prev :: stack_item and rest LS and pre :: "stack_item list"
  let ?l = "\<lparr>cmd = UDM_STACK_LEFT, arg = 0\<rparr>" and ?r = "\<lparr>cmd = UDM_STACK_RIGHT, arg = 0\<rparr>"
  assume pre: "pre = (if ends_operand (cmd prev) then [\<lparr>cmd = c, arg = 0\<rparr>] else [])"
  have l: "starts_operand (cmd ?l)" "\<not> ends_operand (cmd ?l)" and
    r: "\<not> starts_operand (cmd ?r)" "ends_operand (cmd ?r)" by (simp_all add: operand_defs)
  from copies_prefix [OF assms l, of prev "?r # rest" LS] obtain m where
    "copy_items c prev ((?l # xs @ [?r]) @ rest) False LS =
      copy_items c m (?r # rest) False (add_items (pre @ ?l # xs') LS)"
    unfolding pre append_assoc append_Cons append_Nil by blast
  also have "\<dots> = copy_items c ?r rest False (add_items [?r] (add_items (pre @ ?l # xs') LS))"
    using r by (simp add: copy_items_Cons)
  finally show "\<exists>l. ends_operand (cmd l) \<and> copy_items c prev ((?l # xs @ [?r]) @ rest) False LS =
      copy_items c l rest False (add_items (pre @ ?l # xs' @ [?r]) LS)"
    using r(2) by (intro exI [of _ ?r]) simp
qed

lemma copies_phrase:
  assumes "\<forall>i \<in> set ws. cmd i \<noteq> UDM_STACK_PHRASE"
  shows "copies c (\<lparr>cmd = UDM_STACK_PHRASE, arg = 0\<rparr> # ws @ [\<lparr>cmd = UDM_STACK_PHRASE, arg = 0\<rparr>])
    (\<lparr>cmd = UDM_STACK_PHRASE, arg = 0\<rparr> # ws @ [\<lparr>cmd = UDM_STACK_PHRASE, arg = 0\<rparr>])"
proof (rule copiesI)
  fix prev :: stack_item and rest LS and pre :: "stack_item list"
  let ?p = "\<lparr>cmd = UDM_STACK_PHRASE, arg = 0\<rparr>"
  assume pre: "pre = (if ends_operand (cmd prev) then [\<lparr>cmd = c, arg = 0\<rparr>] else [])"
  have p: "ends_operand (cmd ?p)" "starts_operand (cmd ?p)" by (simp_all add: operand_defs)
  then have "copy_items c prev ((?p # ws @ [?p]) @ rest) False LS =
      copy_items c ?p (ws @ ?p # rest) True (add_items (pre @ [?p]) LS)"
    by (simp add: copy_items_Cons pre)
  also note copy_in_phrase [OF assms]
  finally show "\<exists>l. ends_operand (cmd l) \<and> copy_items c prev ((?p # ws @ [?p]) @ rest) False LS =
      copy_items c l rest False (add_items (pre @ ?p # ws @ [?p]) LS)"
    using p(1) by (intro exI [of _ ?p]) simp
qed

lemma copies_toks: "well_formed j p q \<Longrightarrow> copies c (toks [] q) (toks [\<lparr>cmd = c, arg = 0\<rparr>] q)"
proof (induction q arbitrary: p)
  case (Phrase w ws)
  then have "\<forall>i \<in> set (\<lparr>cmd = UDM_STACK_WORD, arg = w\<rparr> # ws). cmd i \<noteq> UDM_STACK_PHRASE" by auto
  from copies_phrase [OF this] show ?case by simp
next
  case (And a b)
  then show ?case by (auto intro!: copies_infix simp: operand_defs)
next
  case (Or a b)
  then show ?case by (auto intro!: copies_infix simp: operand_defs)
qed (auto intro: copies_atom copies_not copies_paren copies_juxt)

lemma toks_not_Nil: "toks op q \<noteq> []"
  by (induction q) auto

abbreviation no_stat :: stack_stat where
  "no_stat \<equiv> \<lparr>n_left = 0, n_right = 0, n_or = 0, n_and = 0, n_not = 0, n_phrase = 0,
     n_word = 0, n_stop = 0\<rparr>"

lemma copy_items_first:
  "copy_items c first rest (cmd first = UDM_STACK_PHRASE) (UdmStackItemListAdd_with_Stat ([], no_stat) first) =
   copy_items c \<lparr>cmd = UDM_STACK_BOT, arg = 0\<rparr> (first # rest) False ([], no_stat)"
  by (simp add: copy_items_Cons operand_defs)

definition no_calculation :: "search_mode \<Rightarrow> stack_item list \<Rightarrow> bool" where
  "no_calculation mode items \<longleftrightarrow>
     (\<forall>i \<in> set items. cmd i \<noteq> UDM_STACK_OR \<and> cmd i \<noteq> UDM_STACK_NOT \<and>
        (cmd i = UDM_STACK_PHRASE \<longrightarrow> mode = UDM_MODE_ALL_MINUS \<or> mode = UDM_MODE_ALL_MINUS_HALF))"

lemma UdmStackItemListCopy_toks:
  assumes "well_formed j p q"
  shows "UdmStackItemListCopy (toks [] q) mode =
    Some (if no_calculation mode (toks [mode_op mode] q) then [] else toks [mode_op mode] q)"
proof -
  obtain first rest where fr: "toks [] q = first # rest"
    using toks_not_Nil [of "[]" q] by (cases "toks [] q") auto
  have "\<not> ends_operand (cmd \<lparr>cmd = UDM_STACK_BOT, arg = 0\<rparr>)" by (simp add: operand_defs)
  from copiesD_first [OF copies_toks [OF assms] this, of "mode_cmd mode" "[]"]
  have "copy_items (mode_cmd mode) first rest (cmd first = UDM_STACK_PHRASE)
      (UdmStackItemListAdd_with_Stat ([], no_stat) first) =
    (toks [mode_op mode] q, stat_of (toks [mode_op mode] q) no_stat)"
    unfolding copy_items_first fr [symmetric] by (auto simp: fold_add_with_stat)
  then show ?thesis
    unfolding UdmStackItemListCopy_def fr
    by (auto simp: Let_def mode_cmd_def [symmetric] stat_of_fields no_calculation_def
        UdmStackItemListFree_def filter_empty_conv)
qed

lemma no_calculation_holds:
  "no_calculation mode (toks [mode_op mode] q) \<Longrightarrow>
   holds (mode = UDM_MODE_ANY) counts q \<longleftrightarrow> (\<forall>w \<in> query_words q. counts ! w \<noteq> 0)"
  by (induction q) (auto simp: no_calculation_def mode_cmd_def split: if_splits)

subsection \<open>Properties\<close>

text \<open>
  C3. A query copied by \<open>UdmStackItemListCopy\<close> and evaluated by \<open>UdmCalcBoolItems\<close> gives,
  for every document, the truth value of the query: with brackets, phrases, stop words and
  the precedence not, and, or, and with the juxtaposition of operands read as or in the mode
  any and as and in every other mode.  The copy is empty exactly for the queries that need
  no evaluation.
\<close>

theorem query_evaluation:
  assumes "well_formed (if mode = UDM_MODE_ANY then 3 else 4) 3 q"
    and "query_words q \<subseteq> {..<length counts}"
    and "UdmStackItemListCopy (toks [] q) mode = Some items" and "items \<noteq> []"
  shows "UdmCalcBoolItems items counts = Some (truth (holds (mode = UDM_MODE_ANY) counts q))"
proof -
  have j: "cmd_code (mode_cmd mode) = (if mode = UDM_MODE_ANY then 3 else 4)"
    by (simp add: mode_cmd_def)
  from assms(3,4) UdmStackItemListCopy_toks [OF assms(1)]
  have "items = toks [mode_op mode] q" by (auto split: if_splits)
  with UdmCalcBoolItems_toks [of mode q counts] assms(1,2) j show ?thesis by simp
qed

theorem query_evaluation_witness:
  "UdmCalcBoolItems
     [\<lparr>cmd = UDM_STACK_WORD, arg = 0\<rparr>, \<lparr>cmd = UDM_STACK_AND, arg = 0\<rparr>,
      \<lparr>cmd = UDM_STACK_NOT, arg = 0\<rparr>, \<lparr>cmd = UDM_STACK_WORD, arg = 1\<rparr>] [1, 0] = Some 1"
  using query_evaluation [of UDM_MODE_ALL "Juxt (Word 0) (Not (Word 1))" "[1, 0]"]
  by (simp add: UdmStackItemListCopy_def UdmStackItemListAdd_with_Stat_def
      UdmStackItemListAdd_def UdmStackStatAdd_def copy_items_Cons operand_defs subset_iff)

text \<open>
  When \<open>UdmStackItemListCopy\<close> leaves no items, so that no expression is evaluated, the
  query holds for exactly the documents that have every word of it.
\<close>

theorem query_all_words:
  assumes "well_formed (if mode = UDM_MODE_ANY then 3 else 4) 3 q"
    and "UdmStackItemListCopy (toks [] q) mode = Some []"
  shows "holds (mode = UDM_MODE_ANY) counts q \<longleftrightarrow> (\<forall>w \<in> query_words q. counts ! w \<noteq> 0)"
proof -
  from assms(2) UdmStackItemListCopy_toks [OF assms(1)] toks_not_Nil
  have "no_calculation mode (toks [mode_op mode] q)" by (auto split: if_splits)
  then show ?thesis by (rule no_calculation_holds)
qed

theorem query_all_words_witness:
  "holds False [5, 0] (Juxt (Word 0) (Word 1)) \<longleftrightarrow>
     (\<forall>w \<in> {0, 1}. [5, 0 :: nat] ! w \<noteq> 0)"
  using query_all_words [of UDM_MODE_ALL "Juxt (Word 0) (Word 1)" "[5, 0]"]
  by (simp add: UdmStackItemListCopy_def UdmStackItemListAdd_with_Stat_def
      UdmStackItemListAdd_def UdmStackItemListFree_def UdmStackStatAdd_def copy_items_Cons
      operand_defs)

end
