(* ===== verification/Url_Id_List.thy ===== *)
theory Url_Id_List
  imports Prelude
begin

text \<open>
  \<^verbatim>\<open>src/urlidlist.c\<close>: lists of document identifiers that limit a search
  (\<open>UDM_URLID_LIST\<close> of \<^verbatim>\<open>include/udm_common.h\<close>).  A list is either a list of the
  documents to search in or, with \<open>exclude\<close>, a list of documents to leave out; \<open>empty\<close>
  is set when a merge leaves nothing to search.  The length of the array, \<open>nurls\<close>, is the
  length of \<open>urls\<close>.

  The lemmas show what a merged list admits (\<open>list_allows\<close>) in terms of the two limits,
  and where the code departs from it: two exclusion lists, and an exclusion list merged
  with an inclusion list.
\<close>

record udm_urlid_list =
  empty :: bool
  exclude :: bool
  urls :: "urlid_t list"

definition UdmCmpURLID :: "urlid_t \<Rightarrow> urlid_t \<Rightarrow> int" where
  "UdmCmpURLID s1 s2 = (if s1 > s2 then 1 else if s1 < s2 then -1 else 0)"

definition UdmURLIdListSort :: "udm_urlid_list \<Rightarrow> udm_urlid_list" where
  "UdmURLIdListSort L =
     (if length (urls L) > 1 then L\<lparr>urls := UdmSort UdmCmpURLID (urls L)\<rparr> else L)"

text \<open>The loop of the join keeps the elements in place, in their order.\<close>

definition UdmURLIdListJoin :: "udm_urlid_list \<Rightarrow> udm_urlid_list \<Rightarrow> udm_urlid_list" where
  "UdmURLIdListJoin us fl_urls =
     (let bfound = \<not> exclude fl_urls;
          bnotfound = exclude fl_urls;
          kept = filter (\<lambda>u. if UdmBSearch UdmCmpURLID u (urls fl_urls) \<noteq> None
                             then bfound else bnotfound) (urls us)
      in us\<lparr>urls := kept, empty := (if kept = [] then True else empty us)\<rparr>)"

definition UdmURLIdListUnion :: "udm_urlid_list \<Rightarrow> udm_urlid_list \<Rightarrow> udm_urlid_list" where
  "UdmURLIdListUnion a b =
     (if urls b \<noteq> [] then a\<lparr>urls := UdmSort UdmCmpURLID (urls a @ urls b)\<rparr> else a)"

definition UdmURLIdListCopy :: "udm_urlid_list \<Rightarrow> udm_urlid_list \<Rightarrow> udm_urlid_list" where
  "UdmURLIdListCopy a b = a\<lparr>urls := urls b, exclude := exclude b\<rparr>"

text \<open>
  The union is not the end of the function: the tests that follow run on the united list.
\<close>

definition UdmURLIdListMerge :: "udm_urlid_list \<Rightarrow> udm_urlid_list \<Rightarrow> udm_urlid_list" where
  "UdmURLIdListMerge a b =
     (let a = (if exclude a \<and> exclude b then UdmURLIdListUnion a b else a)
      in if urls a \<noteq> [] \<and> urls b \<noteq> [] then UdmURLIdListJoin a b
         else if urls a = [] \<and> urls b \<noteq> [] then UdmURLIdListCopy a b
         else if urls b = [] then (if \<not> exclude b then a\<lparr>empty := True\<rparr> else a)
         else a)"

subsection \<open>The search interface\<close>

text \<open>
  What the callers of \<open>UdmBSearch\<close> on identifier lists rely on: on a sorted list the
  search finds exactly the members.
\<close>

locale id_search =
  fixes found :: "urlid_t \<Rightarrow> urlid_t list \<Rightarrow> bool"
  assumes found_iff: "sorted us \<Longrightarrow> found u us \<longleftrightarrow> u \<in> set us"
begin

lemma filter_found: "sorted us \<Longrightarrow> filter (\<lambda>u. found u us) xs = filter (\<lambda>u. u \<in> set us) xs"
  by (simp add: found_iff)

lemma filter_not_found: "sorted us \<Longrightarrow> filter (\<lambda>u. \<not> found u us) xs = filter (\<lambda>u. u \<notin> set us) xs"
  by (simp add: found_iff)

lemma found_set_cong: "sorted us \<Longrightarrow> sorted vs \<Longrightarrow> set us = set vs \<Longrightarrow> found u us = found u vs"
  by (simp add: found_iff)

end

lemma UdmCmpURLID_le: "UdmCmpURLID x y \<le> 0 \<longleftrightarrow> x \<le> y"
  by (auto simp: UdmCmpURLID_def)

lemma cmp_ok_URLID: "cmp_ok UdmCmpURLID"
  by (rule cmp_okI [of _ id]) (simp add: UdmCmpURLID_le)

lemma cmp_sorted_URLID: "cmp_sorted UdmCmpURLID xs = sorted xs"
  using sorted_wrt_key_cong [of UdmCmpURLID id xs] by (simp add: UdmCmpURLID_le)

lemma sorted_UdmSort_URLID [simp]: "sorted (UdmSort UdmCmpURLID xs)"
  using qs.sorted_srt [OF cmp_ok_URLID] by (simp add: cmp_sorted_URLID)

interpretation url: id_search "\<lambda>u us. UdmBSearch UdmCmpURLID u us \<noteq> None"
proof
  fix us :: "urlid_t list" and u :: urlid_t
  assume "sorted us"
  then have "bsearch_mono UdmCmpURLID u us"
    by (intro bsearch_mono_key [where f = id and key = id]) (auto simp: UdmCmpURLID_def)
  then show "(UdmBSearch UdmCmpURLID u us \<noteq> None) = (u \<in> set us)"
    by (subst UdmBSearch_iff) (auto simp: UdmCmpURLID_def split: if_splits)
qed

subsection \<open>What a list admits\<close>

text \<open>
  A limit admits a document when membership in \<open>urls\<close> agrees with its kind.  The
  accumulated list of a search, \<open>args->urls\<close>, starts without documents and then limits
  nothing (\<open>if (nurls)\<close> guards every use); \<open>empty\<close> stops the search.
\<close>

definition limit_allows :: "udm_urlid_list \<Rightarrow> urlid_t \<Rightarrow> bool" where
  "limit_allows b u \<longleftrightarrow> (u \<in> set (urls b)) = (\<not> exclude b)"

definition list_allows :: "udm_urlid_list \<Rightarrow> urlid_t \<Rightarrow> bool" where
  "list_allows a u \<longleftrightarrow> \<not> empty a \<and> (urls a = [] \<or> limit_allows a u)"

lemma Join_urls:
  assumes "sorted (urls b)"
  shows "urls (UdmURLIdListJoin a b) =
    filter (\<lambda>u. (u \<in> set (urls b)) = (\<not> exclude b)) (urls a)"
  by (simp add: UdmURLIdListJoin_def Let_def url.found_iff [OF assms] del: not_None_eq)
    (rule filter_cong, auto)

lemma Join_sel:
  "exclude (UdmURLIdListJoin a b) = exclude a"
  "empty (UdmURLIdListJoin a b) = (empty a \<or> urls (UdmURLIdListJoin a b) = [])"
  by (auto simp: UdmURLIdListJoin_def Let_def)

lemma list_allows_Join:
  assumes "\<not> exclude a" "sorted (urls b)" "urls a \<noteq> []"
  shows "list_allows (UdmURLIdListJoin a b) u \<longleftrightarrow> list_allows a u \<and> limit_allows b u"
  using assms
  by (auto simp: list_allows_def limit_allows_def Join_sel Join_urls filter_empty_conv)

text \<open>
  C17. Merging a limit into a list that is not an exclusion list is conjunction: a document
  passes the merged list exactly when it passed the list before and passes the new limit,
  whatever the kind of the new limit, an empty one included.
\<close>

theorem UdmURLIdListMerge_conj:
  assumes "\<not> exclude a" "sorted (urls b)"
  shows "list_allows (UdmURLIdListMerge a b) u \<longleftrightarrow> list_allows a u \<and> limit_allows b u"
proof (cases "urls a = [] \<or> urls b = []")
  case True
  with assms show ?thesis
    by (auto simp: UdmURLIdListMerge_def UdmURLIdListCopy_def list_allows_def limit_allows_def)
next
  case False
  then have "UdmURLIdListMerge a b = UdmURLIdListJoin a b"
    using assms by (simp add: UdmURLIdListMerge_def)
  with assms False show ?thesis by (simp add: list_allows_Join)
qed

theorem UdmURLIdListMerge_conj_witness:
  "list_allows (UdmURLIdListMerge \<lparr>empty = False, exclude = False, urls = [1, 2, 3]\<rparr>
                  \<lparr>empty = False, exclude = True, urls = [2]\<rparr>) 3 \<and>
   \<not> list_allows (UdmURLIdListMerge \<lparr>empty = False, exclude = False, urls = [1, 2, 3]\<rparr>
                  \<lparr>empty = False, exclude = True, urls = [2]\<rparr>) 2"
  by (subst (1 2) UdmURLIdListMerge_conj) (simp_all add: list_allows_def limit_allows_def)

text \<open>
  Two exclusion lists do not add up.  After the union the function goes on to the join,
  which removes the second list again, so every document of the second list passes the
  merged list (as long as the first list excludes some other document; otherwise the merged
  list is flagged empty and nothing passes).
\<close>

theorem UdmURLIdListMerge_two_excludes:
  assumes "exclude a" "exclude b" "\<not> empty a" "sorted (urls b)"
    and "v \<in> set (urls a)" "v \<notin> set (urls b)" "u \<in> set (urls b)"
  shows "list_allows (UdmURLIdListMerge a b) u"
proof -
  let ?a = "UdmURLIdListUnion a b"
  from assms have b: "urls b \<noteq> []" by auto
  then have set_a: "set (urls ?a) = set (urls a) \<union> set (urls b)" and sel: "exclude ?a" "\<not> empty ?a"
    using assms by (simp_all add: UdmURLIdListUnion_def qs.set_srt)
  with assms have "urls ?a \<noteq> []" by auto
  with assms b have "UdmURLIdListMerge a b = UdmURLIdListJoin ?a b"
    by (simp add: UdmURLIdListMerge_def)
  moreover have "set (urls (UdmURLIdListJoin ?a b)) = set (urls a) - set (urls b)"
    using assms set_a by (auto simp: Join_urls)
  ultimately show ?thesis
    using assms sel by (fastforce simp: list_allows_def limit_allows_def Join_sel)
qed

theorem UdmURLIdListMerge_two_excludes_witness:
  "list_allows (UdmURLIdListMerge \<lparr>empty = False, exclude = True, urls = [1]\<rparr>
                  \<lparr>empty = False, exclude = True, urls = [2]\<rparr>) 2"
  by (rule UdmURLIdListMerge_two_excludes [where v = 1]) simp_all

lemma sorted_UdmURLIdListSort: "sorted (urls (UdmURLIdListSort L))"
proof (cases "length (urls L) > 1")
  case False
  then have "urls L = [] \<or> (\<exists>x. urls L = [x])"
    by (cases "urls L") auto
  then show ?thesis by (auto simp: UdmURLIdListSort_def)
qed (simp add: UdmURLIdListSort_def)

lemma sorted_UdmURLIdListMerge:
  assumes "sorted (urls a)" "sorted (urls b)"
  shows "sorted (urls (UdmURLIdListMerge a b))"
  using assms
  by (auto simp: UdmURLIdListMerge_def UdmURLIdListCopy_def UdmURLIdListUnion_def Let_def
      Join_urls sorted_wrt_filter)

end
