(* ===== verification/Base64.thy ===== *)
theory Base64
  imports Prelude
begin

text \<open>
  \<^verbatim>\<open>src/base64.c\<close>: the base64 encoder, the simple decoder, and the decoder of
  multi-line data with its scanner state \<open>UDM_FROM_BASE64\<close>.  Bytes are promoted to
  \<open>nat\<close> by \<open>unat\<close>, as C promotes them to \<open>int\<close>; the collected bits stay a 32-bit word.

  A pointer into the source buffer is an index; the buffer itself is an argument.  The
  simple decoder reads four bytes at a time without looking for the terminator, so it
  returns an option: \<open>None\<close> is a read past the end of the buffer it was given.
\<close>

subsection \<open>Hexadecimal digits\<close>

definition UdmHex2Int :: "int \<Rightarrow> int" where
  "UdmHex2Int h =
     (if h \<ge> 48 \<and> h \<le> 57 then h - 48
      else if h \<ge> 65 \<and> h \<le> 70 then h - 65 + 10
      else if h \<ge> 97 \<and> h \<le> 102 then h - 97 + 10
      else 0)"

definition UdmInt2Hex :: "int \<Rightarrow> int" where
  "UdmInt2Hex i =
     (if i \<ge> 0 \<and> i \<le> 9 then i + 48
      else if i \<ge> 10 \<and> i \<le> 15 then i + 65 - 10
      else 48)"

subsection \<open>Encoder\<close>

definition base64 :: "byte list" where
  "base64 = bstr ''ABCDEFGHIJKLMNOPQRSTUVWXYZabcdefghijklmnopqrstuvwxyz0123456789+/''"

abbreviation pad_char :: byte where
  "pad_char \<equiv> 61"

fun udm_base64_encode :: "byte list \<Rightarrow> byte list" where
  "udm_base64_encode (s0 # s1 # s2 # s) =
     base64 ! drop_bit 2 (unat s0) #
     base64 ! (push_bit 4 (unat s0 AND 3) + drop_bit 4 (unat s1)) #
     base64 ! (push_bit 2 (unat s1 AND 15) + drop_bit 6 (unat s2)) #
     base64 ! (unat s2 AND 63) # udm_base64_encode s"
| "udm_base64_encode [s0, s1] =
     [base64 ! drop_bit 2 (unat s0),
      base64 ! (push_bit 4 (unat s0 AND 3) + drop_bit 4 (unat s1)),
      base64 ! push_bit 2 (unat s1 AND 15),
      pad_char]"
| "udm_base64_encode [s0] =
     [base64 ! drop_bit 2 (unat s0),
      base64 ! push_bit 4 (unat s0 AND 3),
      pad_char, pad_char]"
| "udm_base64_encode [] = []"

subsection \<open>Simple decoder\<close>

definition from_base64 :: "nat list" where
  "from_base64 =
    [0, 0, 0, 0, 0, 0, 0, 0, 0, 0, 0, 0, 0, 0, 0, 0,
     0, 0, 0, 0, 0, 0, 0, 0, 0, 0, 0, 0, 0, 0, 0, 0,
     0, 0, 0, 0, 0, 0, 0, 0, 0, 0, 0, 62, 0, 0, 0, 63,
     52, 53, 54, 55, 56, 57, 58, 59, 60, 61, 0, 0, 0, 0, 0, 0,
     0, 0, 1, 2, 3, 4, 5, 6, 7, 8, 9, 10, 11, 12, 13, 14,
     15, 16, 17, 18, 19, 20, 21, 22, 23, 24, 25, 0, 0, 0, 0, 0,
     0, 26, 27, 28, 29, 30, 31, 32, 33, 34, 35, 36, 37, 38, 39, 40,
     41, 42, 43, 44, 45, 46, 47, 48, 49, 50, 51, 0, 0, 0, 0, 0] @ replicate 128 0"

text \<open>
  \<open>src\<close> is the memory from the source pointer on, the terminating zero included.
\<close>

definition quartet_value :: "nat \<Rightarrow> nat \<Rightarrow> nat \<Rightarrow> nat \<Rightarrow> nat" where
  "quartet_value b0 b1 b2 b3 = b3 + b2 * 64 + b1 * 64 * 64 + b0 * 64 * 64 * 64"

definition quartet_bytes :: "nat \<Rightarrow> byte list" where
  "quartet_bytes res =
     [word_of_nat (drop_bit 16 res AND 255), word_of_nat (drop_bit 8 res AND 255),
      word_of_nat (res AND 255)]"

fun udm_base64_decode :: "byte list \<Rightarrow> nat \<Rightarrow> byte list option" where
  "udm_base64_decode (c0 # c1 # c2 # c3 # src) len =
     (if c0 \<noteq> 0 \<and> len > 3 then
        (let b0 = from_base64 ! unat c0; b1 = from_base64 ! unat c1;
             b2 = from_base64 ! unat c2; b3 = from_base64 ! unat c3;
             res = quartet_value b0 b1 b2 b3
         in map_option (\<lambda>dst. quartet_bytes res @ dst) (udm_base64_decode src (len - 4)))
      else Some [])"
| "udm_base64_decode (c0 # src) len = (if c0 \<noteq> 0 \<and> len > 3 then None else Some [])"
| "udm_base64_decode [] len = None"

subsection \<open>Decoder of multi-line data\<close>

record udm_from_base64 =
  src :: nat
  bits :: uint4
  error :: bool
  byte_count :: nat
  mark_count :: nat

definition B64SP :: int where "B64SP = -2"
definition B64ER :: int where "B64ER = -1"

definition from_base64_map :: "int list" where
  "from_base64_map =
    [-1,-1,-1,-1,-1,-1,-1,-1,-1,-2,-2,-2,-2,-2,-1,-1,
     -1,-1,-1,-1,-1,-1,-1,-1,-1,-1,-1,-1,-1,-1,-1,-1,
     -2,-1,-1,-1,-1,-1,-1,-1,-1,-1,-1,62,-1,-1,-1,63,
     52,53,54,55,56,57,58,59,60,61,-1,-1,-1,-1,-1,-1,
     -1, 0, 1, 2, 3, 4, 5, 6, 7, 8, 9,10,11,12,13,14,
     15,16,17,18,19,20,21,22,23,24,25,-1,-1,-1,-1,-1,
     -1,26,27,28,29,30,31,32,33,34,35,36,37,38,39,40,
     41,42,43,44,45,46,47,48,49,50,51,-1,-1,-1,-1,-1] @
    replicate 32 (-1) @ [-2] @ replicate 95 (-1)"

definition udm_base64_is_not_space :: "byte \<Rightarrow> bool" where
  "udm_base64_is_not_space ch \<longleftrightarrow> from_base64_map ! unat ch \<noteq> B64SP"

definition udm_base64_is_bad_encoding_char :: "byte \<Rightarrow> bool" where
  "udm_base64_is_bad_encoding_char ch \<longleftrightarrow> from_base64_map ! unat ch < 0"

text \<open>The flag in the results is the return value: \<open>True\<close> is failure, as in the code.\<close>

function udm_from_base64_skip_spaces ::
    "byte list \<Rightarrow> udm_from_base64 \<Rightarrow> bool \<times> udm_from_base64" where
  "udm_from_base64_skip_spaces m d =
     (if src d < length m then
        if udm_base64_is_not_space (m ! src d) then (False, d)
        else udm_from_base64_skip_spaces m (d\<lparr>src := src d + 1\<rparr>)
      else (True, if byte_count d > 0 then d\<lparr>error := True\<rparr> else d))"
  by pat_completeness auto
termination
  by (relation "measure (\<lambda>(m, d). length m - src d)") auto

declare udm_from_base64_skip_spaces.simps [simp del]

definition udm_from_base64_add ::
    "byte list \<Rightarrow> udm_from_base64 \<Rightarrow> bool \<times> udm_from_base64" where
  "udm_from_base64_add m d =
     (let d = d\<lparr>bits := push_bit 6 (bits d)\<rparr>;
          value = m ! src d;
          d = d\<lparr>src := src d + 1\<rparr>
      in if udm_base64_is_bad_encoding_char value then (True, d\<lparr>error := True\<rparr>)
         else (False, d\<lparr>bits := bits d + word_of_int (from_base64_map ! unat value)\<rparr>))"

definition udm_from_base64_getch ::
    "byte list \<Rightarrow> udm_from_base64 \<Rightarrow> bool \<times> udm_from_base64" where
  "udm_from_base64_getch m d =
     (case udm_from_base64_skip_spaces m d of
        (True, d) \<Rightarrow> (True, d)
      | (False, d) \<Rightarrow>
          (case udm_from_base64_add m d of
             (False, d) \<Rightarrow>
               if mark_count d > 0 then (True, d\<lparr>error := True, src := src d - 1\<rparr>)
               else (False, d\<lparr>byte_count := byte_count d + 1\<rparr>)
           | (True, d) \<Rightarrow>
               if byte_count d = 0 \<or> byte_count d = 1 then (True, d\<lparr>src := src d - 1\<rparr>)
               else if byte_count d = 2 \<or> byte_count d = 3 then
                 if m ! (src d - 1) = pad_char then
                   (False, d\<lparr>error := False, mark_count := mark_count d + 1,
                             byte_count := byte_count d + 1\<rparr>)
                 else (True, d\<lparr>src := src d - 1\<rparr>)
               else (True, d)))"

definition getch4 :: "byte list \<Rightarrow> udm_from_base64 \<Rightarrow> bool \<times> udm_from_base64" where
  "getch4 m d =
     (case udm_from_base64_getch m d of (True, d) \<Rightarrow> (True, d) | (False, d) \<Rightarrow>
     (case udm_from_base64_getch m d of (True, d) \<Rightarrow> (True, d) | (False, d) \<Rightarrow>
     (case udm_from_base64_getch m d of (True, d) \<Rightarrow> (True, d) | (False, d) \<Rightarrow>
      udm_from_base64_getch m d)))"

lemma skip_spaces_src:
  "udm_from_base64_skip_spaces m d = (r, d') \<Longrightarrow>
   src d \<le> src d' \<and> (r \<longrightarrow> length m \<le> src d') \<and> (\<not> r \<longrightarrow> src d' < length m)"
proof (induction m d rule: udm_from_base64_skip_spaces.induct)
  case (1 m d)
  from "1.prems" show ?case
    by (subst (asm) udm_from_base64_skip_spaces.simps)
      (auto split: if_splits dest: "1.IH")
qed

lemma getch_src:
  "udm_from_base64_getch m d = (False, d') \<Longrightarrow> src d < src d' \<and> src d' \<le> length m"
  unfolding udm_from_base64_getch_def udm_from_base64_add_def
  by (auto simp: Let_def dest!: skip_spaces_src split: prod.splits bool.splits if_splits)

lemma getch4_src: "getch4 m d = (False, d') \<Longrightarrow> src d < src d' \<and> src d' \<le> length m"
  unfolding getch4_def
  by (auto dest!: getch_src split: prod.splits bool.splits)

text \<open>
  The loop over the quartets.  \<open>dst\<close> is what has been written so far; moving the output
  pointer back over the padding cuts it.
\<close>

function decode_loop ::
    "byte list \<Rightarrow> bool \<Rightarrow> udm_from_base64 \<Rightarrow> byte list \<Rightarrow> udm_from_base64 \<times> byte list" where
  "decode_loop m multi d dst =
     (case getch4 m (d\<lparr>bits := 0, byte_count := 0\<rparr>) of
        (True, d) \<Rightarrow> (d, dst)
      | (False, d) \<Rightarrow>
          (let dst = dst @ [ucast (drop_bit 16 (bits d) AND 255),
                            ucast (drop_bit 8 (bits d) AND 255),
                            ucast (bits d AND 255)]
           in if mark_count d > 0 then
                (let dst = take (length dst - mark_count d) dst
                 in if \<not> multi then (d, dst)
                    else decode_loop m multi (d\<lparr>mark_count := 0\<rparr>) dst)
              else decode_loop m multi d dst))"
  by pat_completeness auto
termination
  by (relation "measure (\<lambda>(m, multi, d, dst). length m - src d)")
    (auto dest!: getch4_src [OF sym])

declare decode_loop.simps [simp del]

text \<open>
  The result is the decoded bytes (\<open>None\<close> for -1) and the position where reading stopped,
  which the code stores through \<open>end\<close>.
\<close>

definition UdmBase64Decode :: "byte list \<Rightarrow> bool \<Rightarrow> byte list option \<times> nat" where
  "UdmBase64Decode m multi =
     (let d = \<lparr>src = 0, bits = 0, error = False, byte_count = 0, mark_count = 0\<rparr>;
          (d, dst) = decode_loop m multi d [];
          d = d\<lparr>byte_count := 0\<rparr>;
          (eof, d) = udm_from_base64_skip_spaces m d;
          d = (if \<not> eof then d\<lparr>error := True\<rparr> else d)
      in (if error d then None else Some dst, src d))"

subsection \<open>The tables and the arithmetic of a quartet\<close>

lemma base64_tables:
  "map (\<lambda>c. from_base64 ! unat c) base64 = [0..<64]"
  "map (\<lambda>c. from_base64_map ! unat c) base64 = map int [0..<64]"
  "0 \<notin> set base64" "pad_char \<notin> set base64" "length base64 = 64"
  by (simp_all add: base64_def bstr_def from_base64_def from_base64_map_def upt_conv_Cons)

lemma base64_nth:
  assumes "v < 64"
  shows "from_base64 ! unat (base64 ! v) = v" "from_base64_map ! unat (base64 ! v) = int v"
    "base64 ! v \<noteq> 0" "base64 ! v \<noteq> pad_char"
proof -
  from assms have v: "v < length base64" by (simp add: base64_tables)
  show "from_base64 ! unat (base64 ! v) = v"
    using nth_map [OF v, of "\<lambda>c. from_base64 ! unat c"] assms by (simp add: base64_tables(1))
  show "from_base64_map ! unat (base64 ! v) = int v"
    using nth_map [OF v, of "\<lambda>c. from_base64_map ! unat c"] assms by (simp add: base64_tables(2))
  show "base64 ! v \<noteq> 0" "base64 ! v \<noteq> pad_char"
    using nth_mem [OF v] base64_tables(3,4) by force+
qed

lemma divmod_decomp: "0 < m \<Longrightarrow> \<exists>q r. (n :: nat) = m * q + r \<and> r < m"
  by (metis div_mult_mod_eq mod_less_divisor mult.commute)

lemma quartet_nat:
  fixes a b c :: nat
  shows "quartet_value (a div 4) (a mod 4 * 16 + b div 16) (b mod 16 * 4 + c div 64) (c mod 64) =
    c + b * 256 + a * 65536"
proof -
  obtain a1 a0 where a: "a = 4 * a1 + a0" "a0 < 4" using divmod_decomp [of 4 a] by auto
  obtain b1 b0 where b: "b = 16 * b1 + b0" "b0 < 16" using divmod_decomp [of 16 b] by auto
  obtain c1 c0 where c: "c = 64 * c1 + c0" "c0 < 64" using divmod_decomp [of 64 c] by auto
  from a(2) b(2) c(2) show ?thesis by (simp add: a(1) b(1) c(1) quartet_value_def)
qed

lemma triple_bytes:
  fixes a b c :: nat
  assumes "a < 256" "b < 256" "c < 256"
  shows "(c + b * 256 + a * 65536) div 65536 mod 256 = a"
    "(c + b * 256 + a * 65536) div 256 mod 256 = b"
    "(c + b * 256 + a * 65536) mod 256 = c"
proof -
  have n: "c + b * 256 + a * 65536 = c + 256 * (b + 256 * a)" by simp
  have d: "(c + b * 256 + a * 65536) div 256 = b + 256 * a"
    unfolding n using assms by simp
  have "(c + b * 256 + a * 65536) div 65536 = (c + b * 256 + a * 65536) div 256 div 256"
    by (simp add: div_mult2_eq [of _ 256 256, symmetric])
  with d assms show "(c + b * 256 + a * 65536) div 65536 mod 256 = a" by simp
  from d assms show "(c + b * 256 + a * 65536) div 256 mod 256 = b" by simp
  show "(c + b * 256 + a * 65536) mod 256 = c"
    unfolding n using assms by (simp only: mod_mult_self2 mod_less)
qed

lemma encode_nth_less:
  "unat (s0 :: byte) div 4 < 64"
  "unat s0 mod 4 * 16 + unat (s1 :: byte) div 16 < 64"
  "unat s0 mod 4 * 16 < 64"
  "unat s1 mod 16 * 4 + unat (s2 :: byte) div 64 < 64"
  "unat s1 mod 16 * 4 < 64"
  "unat s2 mod 64 < 64"
proof -
  have "unat s0 div 4 \<le> 63" "unat s1 div 16 \<le> 15" "unat s2 div 64 \<le> 3"
    using unat_byte_less [of s0] unat_byte_less [of s1] unat_byte_less [of s2]
    by (simp_all add: less_mult_imp_div_less flip: less_Suc_eq_le)
  moreover have "unat s0 mod 4 \<le> 3" "unat s1 mod 16 \<le> 15"
    by (simp_all flip: less_Suc_eq_le)
  ultimately show "unat s0 div 4 < 64" "unat s0 mod 4 * 16 + unat s1 div 16 < 64"
    "unat s0 mod 4 * 16 < 64" "unat s1 mod 16 * 4 + unat s2 div 64 < 64"
    "unat s1 mod 16 * 4 < 64" "unat s2 mod 64 < 64" by simp_all
qed

lemma from_base64_pad: "from_base64 ! 61 = 0"
  by (simp add: from_base64_def)

lemma quartet_bytes_value:
  "quartet_bytes (unat s2 + unat s1 * 256 + unat s0 * 65536) = [s0, s1, s2]"
  unfolding quartet_bytes_def mask_simps nat_bits
  using triple_bytes [of "unat s0" "unat s1" "unat s2"] by simp

lemmas encode_simps = base64_nth encode_nth_less nat_bits mask_simps quartet_nat
  quartet_bytes_value from_base64_pad

lemma quartet_nat_pad:
  "quartet_value (a div 4) (a mod 4 * 16 + b div 16) (b mod 16 * 4) 0 = b * 256 + a * 65536"
  "quartet_value (a div 4) (a mod 4 * 16) 0 0 = a * 65536"
  using quartet_nat [of a b 0] quartet_nat [of a 0 0] by simp_all

lemma quartet_bytes_pad:
  "quartet_bytes (unat s1 * 256 + unat s0 * 65536) = [s0, s1, 0]"
  "quartet_bytes (unat s0 * 65536) = [s0, 0, 0]"
  using quartet_bytes_value [of 0 s1 s0] quartet_bytes_value [of 0 0 s0] by simp_all

text \<open>
  The simple decoder inverts the encoder up to padding: on the encoded text, with its
  terminator, it reads inside the buffer and returns the source followed by one zero byte
  for each padding character.
\<close>

theorem udm_base64_roundtrip:
  "udm_base64_decode (udm_base64_encode s @ [0]) (length (udm_base64_encode s)) =
   Some (s @ replicate ((3 - length s mod 3) mod 3) 0)"
proof (induction s rule: udm_base64_encode.induct)
  case (1 s0 s1 s2 s)
  have len: "(3 - length (s0 # s1 # s2 # s) mod 3) mod 3 = (3 - length s mod 3) mod 3"
    by simp
  from 1 show ?case unfolding len by (simp add: encode_simps)
qed (simp_all add: encode_simps quartet_nat_pad quartet_bytes_pad)

subsection \<open>The scanner on text with spaces\<close>

abbreviation unspaced :: "byte list \<Rightarrow> byte list" where
  "unspaced \<equiv> filter udm_base64_is_not_space"

lemma skip_spaces_next:
  "unspaced (drop (src d) m) = c # cs \<Longrightarrow>
   \<exists>q. udm_from_base64_skip_spaces m d = (False, d\<lparr>src := q\<rparr>) \<and> q < length m \<and> m ! q = c \<and>
       unspaced (drop (q + 1) m) = cs"
proof (induction m d rule: udm_from_base64_skip_spaces.induct)
  case (1 m d)
  from "1.prems" have l: "src d < length m" by (cases "src d < length m") auto
  then have dr: "drop (src d) m = m ! src d # drop (src d + 1) m"
    by (simp add: Cons_nth_drop_Suc)
  show ?case
  proof (cases "udm_base64_is_not_space (m ! src d)")
    case True
    with "1.prems" dr l show ?thesis
      by (subst udm_from_base64_skip_spaces.simps) (intro exI [of _ "src d"], simp)
  next
    case False
    with "1.prems" dr have "unspaced (drop (src (d\<lparr>src := src d + 1\<rparr>)) m) = c # cs" by simp
    from "1.IH" [OF l False this] False l show ?thesis
      by (subst udm_from_base64_skip_spaces.simps) auto
  qed
qed

lemma skip_spaces_end:
  "unspaced (drop (src d) m) = [] \<Longrightarrow>
   \<exists>q. udm_from_base64_skip_spaces m d =
     (True, d\<lparr>src := q, error := (byte_count d > 0 \<or> error d)\<rparr>) \<and> length m \<le> q"
proof (induction m d rule: udm_from_base64_skip_spaces.induct)
  case (1 m d)
  show ?case
  proof (cases "src d < length m")
    case l: True
    then have "drop (src d) m = m ! src d # drop (src d + 1) m"
      by (simp add: Cons_nth_drop_Suc)
    with "1.prems" have n: "\<not> udm_base64_is_not_space (m ! src d)"
      "unspaced (drop (src (d\<lparr>src := src d + 1\<rparr>)) m) = []" by (auto split: if_splits)
    from "1.IH" [OF l n] n(1) l show ?thesis
      by (subst udm_from_base64_skip_spaces.simps) auto
  next
    case False
    then show ?thesis
      by (subst udm_from_base64_skip_spaces.simps) (intro exI [of _ "src d"], auto)
  qed
qed

lemma not_bad_base64_nth: "v < 64 \<Longrightarrow> \<not> udm_base64_is_bad_encoding_char (base64 ! v)"
  by (simp add: udm_base64_is_bad_encoding_char_def base64_nth)

lemma pad_char_class: "udm_base64_is_bad_encoding_char pad_char" "udm_base64_is_not_space pad_char"
  by (simp_all add: udm_base64_is_bad_encoding_char_def udm_base64_is_not_space_def
      from_base64_map_def B64SP_def)

lemma getch_char:
  assumes "unspaced (drop (src d) m) = base64 ! v # cs" "v < 64" "mark_count d = 0"
  shows "\<exists>d'. udm_from_base64_getch m d = (False, d') \<and>
    bits d' = push_bit 6 (bits d) + word_of_nat v \<and> byte_count d' = byte_count d + 1 \<and>
    mark_count d' = 0 \<and> error d' = error d \<and> unspaced (drop (src d') m) = cs"
proof -
  from skip_spaces_next [OF assms(1)] obtain q where
    "udm_from_base64_skip_spaces m d = (False, d\<lparr>src := q\<rparr>)" "m ! q = base64 ! v"
    "unspaced (drop (q + 1) m) = cs" by blast
  with assms(2,3) show ?thesis
    by (simp add: udm_from_base64_getch_def udm_from_base64_add_def not_bad_base64_nth base64_nth)
qed

lemma getch_pad:
  assumes "unspaced (drop (src d) m) = pad_char # cs" "byte_count d = 2 \<or> byte_count d = 3"
  shows "\<exists>d'. udm_from_base64_getch m d = (False, d') \<and>
    bits d' = push_bit 6 (bits d) \<and> byte_count d' = byte_count d + 1 \<and>
    mark_count d' = mark_count d + 1 \<and> \<not> error d' \<and> unspaced (drop (src d') m) = cs"
proof -
  from skip_spaces_next [OF assms(1)] obtain q where
    "udm_from_base64_skip_spaces m d = (False, d\<lparr>src := q\<rparr>)" "m ! q = pad_char"
    "unspaced (drop (q + 1) m) = cs" by blast
  with assms(2) show ?thesis
    by (auto simp add: udm_from_base64_getch_def udm_from_base64_add_def pad_char_class)
qed

lemma quartet_value_word:
  "push_bit 6 (push_bit 6 (push_bit 6 (word_of_nat v0) + word_of_nat v1) + word_of_nat v2) +
     word_of_nat v3 = (word_of_nat (quartet_value v0 v1 v2 v3) :: uint4)"
  by (simp add: push_bit_eq_mult quartet_value_def algebra_simps)

lemma quartet_value_less:
  assumes "v0 < 64" "v1 < 64" "v2 < 64" "v3 < 64"
  shows "quartet_value v0 v1 v2 v3 < 16777216"
  using assms by (simp add: quartet_value_def)

lemma word_bytes_quartet:
  fixes n :: nat
  assumes "n < 16777216"
  defines "w \<equiv> (word_of_nat n :: uint4)"
  shows "[ucast (drop_bit 16 w AND 255), ucast (drop_bit 8 w AND 255), ucast (w AND 255)] =
    quartet_bytes n"
proof -
  have w: "unat w = n" using assms(1) by (simp add: w_def unat_of_nat)
  have b: "ucast v = (word_of_nat (unat v) :: byte)" for v :: uint4
    by (simp add: unsigned_ucast_eq word_unat_eq_iff)
  show ?thesis unfolding b quartet_bytes_def
    by (simp add: unsigned_and_eq unat_drop_bit_eq w)
qed

lemma getch4_step:
  assumes "udm_from_base64_getch m d = (False, d1)" "udm_from_base64_getch m d1 = (False, d2)"
    "udm_from_base64_getch m d2 = (False, d3)" "udm_from_base64_getch m d3 = (False, d4)"
  shows "getch4 m d = (False, d4)"
  using assms by (simp add: getch4_def)

text \<open>A whole quartet, one with one padding character, and one with two.\<close>

lemma getch4_quartet:
  assumes pre: "unspaced (drop (src d) m) = map ((!) base64) vs @ replicate (4 - length vs) pad_char @ cs"
    and vs: "list_all (\<lambda>v. v < 64) vs" "length vs \<in> {2, 3, 4}"
    and d: "mark_count d = 0" "\<not> error d"
  shows "\<exists>d'. getch4 m (d\<lparr>bits := 0, byte_count := 0\<rparr>) = (False, d') \<and>
    (\<exists>v0 v1 v2 v3. vs @ replicate (4 - length vs) 0 = [v0, v1, v2, v3] \<and>
      bits d' = word_of_nat (quartet_value v0 v1 v2 v3)) \<and>
    mark_count d' = 4 - length vs \<and> \<not> error d' \<and> unspaced (drop (src d') m) = cs"
proof -
  let ?d = "d\<lparr>bits := 0, byte_count := 0\<rparr>"
  obtain v0 v1 us where us: "vs = v0 # v1 # us" using vs(2)
    by (cases vs; cases "tl vs") auto
  obtain d1 where 1: "udm_from_base64_getch m ?d = (False, d1)" "bits d1 = word_of_nat v0"
    "byte_count d1 = 1" "mark_count d1 = 0" "\<not> error d1" "unspaced (drop (src d1) m) =
      base64 ! v1 # map ((!) base64) us @ replicate (2 - length us) pad_char @ cs"
    using getch_char [of ?d m v0] assms us by auto
  obtain d2 where 2: "udm_from_base64_getch m d1 = (False, d2)"
    "bits d2 = push_bit 6 (word_of_nat v0) + word_of_nat v1" "byte_count d2 = 2"
    "mark_count d2 = 0" "\<not> error d2"
    "unspaced (drop (src d2) m) = map ((!) base64) us @ replicate (2 - length us) pad_char @ cs"
    using getch_char [OF 1(6)] 1 vs us by auto
  consider (a) v2 v3 where "us = [v2, v3]" | (b) v2 where "us = [v2]" | (c) "us = []"
    using vs(2) us by (cases us; cases "tl us") auto
  then show ?thesis
  proof cases
    case a
    with 2 obtain d3 where 3: "udm_from_base64_getch m d2 = (False, d3)"
      "bits d3 = push_bit 6 (bits d2) + word_of_nat v2" "mark_count d3 = 0" "\<not> error d3"
      "unspaced (drop (src d3) m) = base64 ! v3 # cs"
      using getch_char [of d2 m v2] vs us by auto
    with a obtain d4 where "udm_from_base64_getch m d3 = (False, d4)"
      "bits d4 = push_bit 6 (bits d3) + word_of_nat v3" "mark_count d4 = 0" "\<not> error d4"
      "unspaced (drop (src d4) m) = cs"
      using getch_char [of d3 m v3] vs us by auto
    with 2(2) 3(2) getch4_step [OF 1(1) 2(1) 3(1)] show ?thesis
      by (simp add: us a quartet_value_word)
  next
    case b
    with 2 obtain d3 where 3: "udm_from_base64_getch m d2 = (False, d3)"
      "bits d3 = push_bit 6 (bits d2) + word_of_nat v2" "byte_count d3 = 3" "mark_count d3 = 0"
      "unspaced (drop (src d3) m) = pad_char # cs"
      using getch_char [of d2 m v2] vs us by auto
    then obtain d4 where "udm_from_base64_getch m d3 = (False, d4)"
      "bits d4 = push_bit 6 (bits d3)" "mark_count d4 = 1" "\<not> error d4"
      "unspaced (drop (src d4) m) = cs"
      using getch_pad [of d3 m] by auto
    with 2(2) 3(2) getch4_step [OF 1(1) 2(1) 3(1)] quartet_value_word [of v0 v1 v2 0]
    show ?thesis by (simp add: us b)
  next
    case c
    with 2 obtain d3 where 3: "udm_from_base64_getch m d2 = (False, d3)"
      "bits d3 = push_bit 6 (bits d2)" "byte_count d3 = 3" "mark_count d3 = 1"
      "unspaced (drop (src d3) m) = pad_char # cs"
      using getch_pad [of d2 m] by auto
    then obtain d4 where "udm_from_base64_getch m d3 = (False, d4)"
      "bits d4 = push_bit 6 (bits d3)" "mark_count d4 = 2" "\<not> error d4"
      "unspaced (drop (src d4) m) = cs"
      using getch_pad [of d3 m] by auto
    with 2(2) 3(2) getch4_step [OF 1(1) 2(1) 3(1)] quartet_value_word [of v0 v1 0 0]
    show ?thesis by (simp add: us c)
  qed
qed

subsection \<open>Round trips\<close>

lemma take_quartet_bytes:
  assumes "quartet_bytes n = s @ replicate k 0"
  shows "take (length (dst @ quartet_bytes n) - k) (dst @ quartet_bytes n) = dst @ s"
  by (simp add: assms)

lemma decode_loop_quartet:
  assumes pre: "unspaced (drop (src d) m) = map ((!) base64) vs @ replicate (4 - length vs) pad_char @ cs"
    and vs: "list_all (\<lambda>v. v < 64) vs" "length vs \<in> {2, 3, 4}"
    and d: "mark_count d = 0" "\<not> error d"
    and val: "\<And>v0 v1 v2 v3. vs @ replicate (4 - length vs) 0 = [v0, v1, v2, v3] \<Longrightarrow>
      quartet_bytes (quartet_value v0 v1 v2 v3) = s @ replicate (4 - length vs) 0"
  shows "\<exists>d'. \<not> error d' \<and> unspaced (drop (src d') m) = cs \<and>
    (if length vs < 4 \<and> \<not> multi then decode_loop m multi d dst = (d', dst @ s)
     else mark_count d' = 0 \<and> decode_loop m multi d dst = decode_loop m multi d' (dst @ s))"
proof -
  from getch4_quartet [OF pre vs d] obtain d' v0 v1 v2 v3 where
    g: "getch4 m (d\<lparr>bits := 0, byte_count := 0\<rparr>) = (False, d')"
    and v: "vs @ replicate (4 - length vs) 0 = [v0, v1, v2, v3]"
    and b: "bits d' = word_of_nat (quartet_value v0 v1 v2 v3)"
    and m: "mark_count d' = 4 - length vs" "\<not> error d'" "unspaced (drop (src d') m) = cs"
    by blast
  have "list_all (\<lambda>v. v < 64) (vs @ replicate (4 - length vs) 0)"
    using vs(1) by (auto simp: list_all_iff)
  then have "v0 < 64" "v1 < 64" "v2 < 64" "v3 < 64"
    unfolding v by simp_all
  then have "quartet_value v0 v1 v2 v3 < 16777216" by (rule quartet_value_less)
  note bytes = word_bytes_quartet [OF this, folded b]
  note cut = take_quartet_bytes [OF val [OF v], of dst]
  show ?thesis
  proof (cases "length vs < 4")
    case True
    have "take (length dst + length (quartet_bytes (quartet_value v0 v1 v2 v3)) + length vs - 4)
        (dst @ quartet_bytes (quartet_value v0 v1 v2 v3)) = dst @ s"
      using cut True by (simp del: take_append)
    with True have "decode_loop m multi d dst =
        (if multi then decode_loop m multi (d'\<lparr>mark_count := 0\<rparr>) (dst @ s) else (d', dst @ s))"
      by (subst decode_loop.simps) (simp add: g bytes m(1) Let_def del: take_append)
    with True m(2,3) show ?thesis
      by (cases multi) (auto intro: exI [of _ "d'\<lparr>mark_count := 0\<rparr>"] exI [of _ d'])
  next
    case False
    with vs(2) have 4: "length vs = 4" by simp
    then have "decode_loop m multi d dst = decode_loop m multi d' (dst @ s)"
      using val [OF v] m(1) by (subst decode_loop.simps) (simp add: g bytes)
    with 4 m show ?thesis by auto
  qed
qed

lemma decode_loop_end:
  assumes "unspaced (drop (src d) m) = []"
  shows "\<exists>d'. decode_loop m multi d dst = (d', dst) \<and> error d' = error d \<and>
    unspaced (drop (src d') m) = []"
proof -
  from assms have "unspaced (drop (src (d\<lparr>bits := 0, byte_count := 0\<rparr>)) m) = []" by simp
  from skip_spaces_end [OF this] obtain q where
    "udm_from_base64_skip_spaces m (d\<lparr>bits := 0, byte_count := 0\<rparr>) =
       (True, d\<lparr>bits := 0, byte_count := 0, src := q\<rparr>)" "length m \<le> q" by auto
  then show ?thesis
    by (subst decode_loop.simps) (simp add: getch4_def udm_from_base64_getch_def)
qed

lemmas quartet_vs_simps = encode_nth_less nat_bits mask_simps quartet_nat quartet_nat_pad
  quartet_bytes_value quartet_bytes_pad

lemma decode_loop_encode:
  assumes "unspaced (drop (src d) m) = udm_base64_encode s @ cs"
    and "mark_count d = 0" "\<not> error d" "multi \<or> cs = []"
  shows "\<exists>d'. \<not> error d' \<and> unspaced (drop (src d') m) = cs \<and>
    (if multi then mark_count d' = 0 \<and> decode_loop m multi d dst = decode_loop m multi d' (dst @ s)
     else decode_loop m multi d dst = (d', dst @ s))"
  using assms
proof (induction s arbitrary: d dst rule: udm_base64_encode.induct)
  case (1 s0 s1 s2 s)
  obtain d' where d': "decode_loop m multi d dst = decode_loop m multi d' (dst @ [s0, s1, s2])"
    "mark_count d' = 0" "\<not> error d'" "unspaced (drop (src d') m) = udm_base64_encode s @ cs"
    using decode_loop_quartet [of d m "[unat s0 div 4, unat s0 mod 4 * 16 + unat s1 div 16,
        unat s1 mod 16 * 4 + unat s2 div 64, unat s2 mod 64]" "udm_base64_encode s @ cs" "[s0, s1, s2]" multi dst]
      "1.prems" by (auto simp: quartet_vs_simps)
  with "1.IH" [of d' "dst @ [s0, s1, s2]"] "1.prems"(4)
  show ?case by (cases multi) auto
next
  case (2 s0 s1)
  then show ?case
    using decode_loop_quartet [of d m "[unat s0 div 4, unat s0 mod 4 * 16 + unat s1 div 16,
        unat s1 mod 16 * 4]" cs "[s0, s1]" multi dst]
    by (cases multi) (auto simp: quartet_vs_simps)
next
  case (3 s0)
  then show ?case
    using decode_loop_quartet [of d m "[unat s0 div 4, unat s0 mod 4 * 16]" cs "[s0]" multi dst]
    by (cases multi) (auto simp: quartet_vs_simps)
next
  case 4
  then show ?case using decode_loop_end [of d m multi dst] by (cases multi) auto
qed

lemma UdmBase64Decode_loop:
  assumes "decode_loop m multi \<lparr>src = 0, bits = 0, error = False, byte_count = 0, mark_count = 0\<rparr> [] =
      (d', dst)" "\<not> error d'" "unspaced (drop (src d') m) = []"
  shows "fst (UdmBase64Decode m multi) = Some dst"
proof -
  from assms(3) have "unspaced (drop (src (d'\<lparr>byte_count := 0\<rparr>)) m) = []" by simp
  from skip_spaces_end [OF this] assms(1,2) show ?thesis
    by (auto simp: UdmBase64Decode_def)
qed

lemma decode_loop_chunks:
  assumes "unspaced (drop (src d) m) = concat (map udm_base64_encode ss)"
    and "mark_count d = 0" "\<not> error d"
  shows "\<exists>d'. decode_loop m True d dst = (d', dst @ concat ss) \<and> \<not> error d' \<and>
    unspaced (drop (src d') m) = []"
  using assms
proof (induction ss arbitrary: d dst)
  case Nil
  then show ?case using decode_loop_end [of d m True dst] by auto
next
  case (Cons s ss)
  then obtain d' where "\<not> error d'" "unspaced (drop (src d') m) = concat (map udm_base64_encode ss)"
    "mark_count d' = 0" "decode_loop m True d dst = decode_loop m True d' (dst @ s)"
    using decode_loop_encode [of d m s "concat (map udm_base64_encode ss)" True dst] by auto
  with Cons.IH [of d' "dst @ s"] show ?case by auto
qed

text \<open>
  C22. The multi-line decoder inverts the encoder exactly, wherever spaces and line ends are
  inserted into the encoded text.
\<close>

theorem UdmBase64Decode_encode:
  assumes "filter udm_base64_is_not_space m = udm_base64_encode s"
  shows "fst (UdmBase64Decode m False) = Some s"
  using decode_loop_encode [of "\<lparr>src = 0, bits = 0, error = False, byte_count = 0, mark_count = 0\<rparr>"
      m s "[]" False "[]"] assms
  by (auto intro: UdmBase64Decode_loop)

theorem UdmBase64Decode_encode_witness:
  "fst (UdmBase64Decode (bstr ''aGVs bG8= '') False) = Some (bstr ''hello'')"
  by (rule UdmBase64Decode_encode)
    (simp add: bstr_def udm_base64_is_not_space_def from_base64_map_def B64SP_def base64_def
      mask_simps nat_bits)

text \<open>
  With \<open>UDM_BASE64_ALLOW_MULTIPLE_CHUNKS\<close> the decoder accepts a sequence of separately
  encoded and padded chunks and returns the concatenation of their contents.
\<close>

theorem UdmBase64Decode_chunks:
  assumes "filter udm_base64_is_not_space m = concat (map udm_base64_encode ss)"
  shows "fst (UdmBase64Decode m True) = Some (concat ss)"
  using decode_loop_chunks [of "\<lparr>src = 0, bits = 0, error = False, byte_count = 0, mark_count = 0\<rparr>"
      m ss "[]"] assms
  by (auto intro: UdmBase64Decode_loop)

theorem UdmBase64Decode_chunks_witness:
  "fst (UdmBase64Decode (bstr ''aGVsbG8= aGk='') True) = Some (bstr ''hellohi'')"
  using UdmBase64Decode_chunks [of "bstr ''aGVsbG8= aGk=''" "[bstr ''hello'', bstr ''hi'']"]
  by (simp add: bstr_def udm_base64_is_not_space_def from_base64_map_def B64SP_def base64_def
      mask_simps nat_bits)

end
