(* ===== verification/Dstr.thy ===== *)
theory Dstr
  imports Prelude
begin

text \<open>
  \<^verbatim>\<open>src/dstr.c\<close>: strings that grow.  A \<open>dstr\<close> holds the bytes written so far (\<open>content\<close>,
  the first \<open>size_data\<close> bytes of the block), the size of the block (\<open>size_total\<close>) and the
  page the block grows by.  The operations put a zero after the content, so a block is safe
  when it is longer than its content.

  The lemmas show that every append adds exactly its bytes and leaves room for the zero,
  that \<open>UdmDSTRAppendf\<close> returns after growing the block, and that the capacity computed
  from the page suffices.  The locale \<open>byte_buffer\<close> is what the users of the buffer (the
  packing of index records) rely on.
\<close>

record dstr =
  content :: "byte list"
  size_total :: nat
  size_page :: nat
  free :: bool

abbreviation size_data :: "dstr \<Rightarrow> nat" where
  "size_data d \<equiv> length (content d)"

text \<open>\<open>UdmDSTRInit\<close> with (\<open>given\<close>) or without a structure to initialise.\<close>

definition UdmDSTRInit :: "bool \<Rightarrow> nat \<Rightarrow> dstr option" where
  "UdmDSTRInit given page =
     (if page = 0 then None
      else Some \<lparr>content = [], size_total = page, size_page = page, free = (\<not> given)\<rparr>)"

definition UdmDSTRFree :: "dstr \<Rightarrow> dstr" where
  "UdmDSTRFree d = d\<lparr>content := [], size_total := 0\<rparr>"

definition UdmDSTRAlloc :: "dstr \<Rightarrow> nat \<Rightarrow> udm_rc \<times> dstr" where
  "UdmDSTRAlloc d n =
     (if n \<le> size_total d then (UDM_OK, d)
      else (UDM_OK, d\<lparr>content := [],
                      size_total := (n div size_page d + 1) * size_page d\<rparr>))"

definition UdmDSTRRealloc :: "dstr \<Rightarrow> nat \<Rightarrow> udm_rc \<times> dstr" where
  "UdmDSTRRealloc d n =
     (if n \<le> size_total d then (UDM_OK, d)
      else (UDM_OK, d\<lparr>size_total := (n div size_page d + 1) * size_page d\<rparr>))"

definition UdmDSTRAppend :: "dstr \<Rightarrow> byte list \<Rightarrow> nat \<times> dstr" where
  "UdmDSTRAppend d bytes =
     (let bytes_left = size_total d - size_data d; n = length bytes in
      if n = 0 then (0, d)
      else
        (let d = (if bytes_left \<le> n
                  then d\<lparr>size_total :=
                         size_total d + ((n - bytes_left) div size_page d + 1) * size_page d\<rparr>
                  else d)
         in (n, d\<lparr>content := content d @ bytes\<rparr>)))"

definition hex_digits :: "byte list" where
  "hex_digits = bstr ''0123456789ABCDEF''"

definition hex_of :: "byte \<Rightarrow> byte list" where
  "hex_of ch = [hex_digits ! (unat (drop_bit 4 ch) AND 15), hex_digits ! (unat ch AND 15)]"

definition UdmDSTRAppendHex :: "dstr \<Rightarrow> byte list \<Rightarrow> nat \<times> dstr" where
  "UdmDSTRAppendHex d s =
     (let new_size = size_data d + 2 * length s in
      if s = [] then (0, d)
      else
        (case UdmDSTRRealloc d new_size of
           (UDM_ERROR, d) \<Rightarrow> (0, d)
         | (UDM_OK, d) \<Rightarrow> (new_size, d\<lparr>content := content d @ concat (map hex_of s)\<rparr>)))"

definition UdmDSTRAppendSTR :: "dstr \<Rightarrow> byte list \<Rightarrow> nat \<times> dstr" where
  "UdmDSTRAppendSTR d s = UdmDSTRAppend d (takeWhile (\<lambda>c. c \<noteq> 0) s)"

definition UdmDSTRAppendINT4 :: "dstr \<Rightarrow> int \<Rightarrow> nat \<times> dstr" where
  "UdmDSTRAppendINT4 d i = UdmDSTRAppend d (udm_put_int4 i)"

definition UdmDSTRAppendINT2 :: "dstr \<Rightarrow> int \<Rightarrow> nat \<times> dstr" where
  "UdmDSTRAppendINT2 d i =
     UdmDSTRAppend d [word_of_int (i AND 255), word_of_int (drop_bit 8 i)]"

text \<open>
  \<open>UdmDSTRAppendf\<close>: the C library's \<open>vsnprintf\<close>, with the format and its arguments, is a
  function from the size of the room it may fill to its result and the bytes it put there.  A
  result below zero, and one that is exactly the room for the text without the closing zero,
  make the block a page longer; a larger result makes it longer by as many pages as it needs.
\<close>

partial_function (option) UdmDSTRAppendf :: "(nat \<Rightarrow> int \<times> byte list) \<Rightarrow> dstr \<Rightarrow> (int \<times> dstr) option" where
  "UdmDSTRAppendf vsnprintf d =
     (let bytes_left = size_total d - size_data d;
          nc = fst (vsnprintf bytes_left); bytes = snd (vsnprintf bytes_left) in
      if nc > - 1 \<and> nc + 1 < int bytes_left
      then Some (nc, d\<lparr>content := content d @ take (nat nc) bytes\<rparr>)
      else
        (let asize = (if nc < 0 \<or> nc + 1 = int bytes_left then size_total d + size_page d
                      else size_total d + ((nat nc - bytes_left) div size_page d + 1) * size_page d)
         in UdmDSTRAppendf vsnprintf (d\<lparr>size_total := asize\<rparr>)))"

text \<open>
  What \<open>vsnprintf\<close> is documented to do for a format that prints \<open>out\<close>: when the text and its zero
  fit into the room it puts them there and returns the length of the text; otherwise it returns
  the length (C99) or a number below zero (the older libraries the code also provides for).
\<close>

definition prints :: "(nat \<Rightarrow> int \<times> byte list) \<Rightarrow> byte list \<Rightarrow> bool" where
  "prints vsnprintf out \<longleftrightarrow>
     (\<forall>room. if length out < room then vsnprintf room = (int (length out), out)
             else fst (vsnprintf room) = int (length out) \<or> fst (vsnprintf room) < 0)"

definition UdmDSTRReset :: "dstr \<Rightarrow> dstr" where
  "UdmDSTRReset d = d\<lparr>content := []\<rparr>"

subsection \<open>The buffer as its users see it\<close>

definition dstr_ok :: "dstr \<Rightarrow> bool" where
  "dstr_ok d \<longleftrightarrow> 0 < size_page d \<and> size_data d \<le> size_total d"

locale byte_buffer =
  fixes append :: "'b \<Rightarrow> byte list \<Rightarrow> nat \<times> 'b"
    and contents :: "'b \<Rightarrow> byte list"
    and ok :: "'b \<Rightarrow> bool"
  assumes append_empty: "append b [] = (0, b)"
    and append_size: "fst (append b xs) = length xs"
    and contents_append: "contents (snd (append b xs)) = contents b @ xs"
    and ok_append: "ok b \<Longrightarrow> ok (snd (append b xs))"
begin

lemma append_Pair: "append b xs = (length xs, snd (append b xs))"
  by (metis append_size prod.collapse)

definition appends :: "'b \<Rightarrow> byte list list \<Rightarrow> 'b" where
  "appends b xss = fold (\<lambda>xs b. snd (append b xs)) xss b"

lemma contents_appends: "contents (appends b xss) = contents b @ concat xss"
  by (induction xss arbitrary: b) (simp_all add: appends_def contents_append)

lemma ok_appends: "ok b \<Longrightarrow> ok (appends b xss)"
  by (induction xss arbitrary: b) (simp_all add: appends_def ok_append)

end

lemma page_grows: "0 < p \<Longrightarrow> n < (n div p + 1) * p" for n p :: nat
  using dividend_less_times_div [of p n] by (simp add: algebra_simps)

lemma UdmDSTRAppend_content:
  "content (snd (UdmDSTRAppend d bytes)) = content d @ bytes"
  "fst (UdmDSTRAppend d bytes) = length bytes"
  "size_page (snd (UdmDSTRAppend d bytes)) = size_page d"
  by (simp_all add: UdmDSTRAppend_def Let_def)

lemma UdmDSTRAppend_room:
  assumes "dstr_ok d" "bytes \<noteq> []"
  shows "size_data d + length bytes < size_total (snd (UdmDSTRAppend d bytes))"
proof -
  let ?left = "size_total d - size_data d"
  from assms have "0 < size_page d" "size_data d \<le> size_total d" by (auto simp: dstr_ok_def)
  with page_grows [of "size_page d" "length bytes - ?left"] assms(2) show ?thesis
    by (auto simp: UdmDSTRAppend_def Let_def)
qed

lemma dstr_ok_append: "dstr_ok d \<Longrightarrow> dstr_ok (snd (UdmDSTRAppend d bytes))"
proof (cases "bytes = []")
  case False
  assume "dstr_ok d"
  with UdmDSTRAppend_room [OF this False] show ?thesis
    by (simp add: dstr_ok_def UdmDSTRAppend_content)
qed (simp add: UdmDSTRAppend_def)

interpretation dbuf: byte_buffer UdmDSTRAppend content dstr_ok
  by unfold_locales
    (auto simp: UdmDSTRAppend_content dstr_ok_append, simp add: UdmDSTRAppend_def)

lemma UdmDSTRRealloc_room:
  assumes "dstr_ok d" "UdmDSTRRealloc d n = (rc, d')"
  shows "rc = UDM_OK \<and> dstr_ok d' \<and> n \<le> size_total d' \<and> content d' = content d"
proof -
  from assms(1) have p: "0 < size_page d" by (simp add: dstr_ok_def)
  from assms page_grows [OF p, of n] show ?thesis
    by (auto simp: UdmDSTRRealloc_def dstr_ok_def split: if_splits)
qed

lemma length_hex: "length (concat (map hex_of s)) = 2 * length s"
  by (induction s) (simp_all add: hex_of_def)

text \<open>
  Every append leaves the old content in place, adds exactly its bytes after it and
  keeps the block longer than the content whenever something was added, so that the
  terminating zero is written inside the block; the hexadecimal append, which writes no
  zero, stays within the block.
\<close>

theorem UdmDSTRAppend_safe:
  assumes "dstr_ok d"
  shows "content (snd (UdmDSTRAppend d bytes)) = content d @ bytes \<and>
    (bytes \<noteq> [] \<longrightarrow>
       size_data (snd (UdmDSTRAppend d bytes)) < size_total (snd (UdmDSTRAppend d bytes))) \<and>
    content (snd (UdmDSTRAppendHex d bytes)) = content d @ concat (map hex_of bytes) \<and>
    size_data (snd (UdmDSTRAppendHex d bytes)) \<le> size_total (snd (UdmDSTRAppendHex d bytes))"
proof -
  have 1: "content (snd (UdmDSTRAppend d bytes)) = content d @ bytes"
    by (rule dbuf.contents_append)
  have 2: "size_data (snd (UdmDSTRAppend d bytes)) < size_total (snd (UdmDSTRAppend d bytes))"
    if "bytes \<noteq> []"
    using UdmDSTRAppend_room [OF assms that] by (simp add: dbuf.contents_append)
  obtain rc d' where r: "UdmDSTRRealloc d (size_data d + 2 * length bytes) = (rc, d')" by fastforce
  from UdmDSTRRealloc_room [OF assms r] r
  have "content (snd (UdmDSTRAppendHex d bytes)) = content d @ concat (map hex_of bytes) \<and>
      size_data (snd (UdmDSTRAppendHex d bytes)) \<le> size_total (snd (UdmDSTRAppendHex d bytes))"
    using assms by (auto simp: UdmDSTRAppendHex_def Let_def length_hex dstr_ok_def)
  with 1 2 show ?thesis by blast
qed

theorem UdmDSTRAppend_safe_witness:
  "size_data (snd (UdmDSTRAppend \<lparr>content = [1, 2], size_total = 4, size_page = 4, free = False\<rparr> [3, 4])) < 8 \<and>
   dstr_ok \<lparr>content = [1, 2], size_total = 4, size_page = 4, free = False\<rparr>"
  using UdmDSTRAppend_safe [of "\<lparr>content = [1, 2], size_total = 4, size_page = 4, free = False\<rparr>" "[3, 4]"]
  by (simp add: dstr_ok_def UdmDSTRAppend_def)

text \<open>
  C26. \<open>UdmDSTRAppendf\<close> returns on every well-formed string, with a \<open>vsnprintf\<close> that returns the
  length of a text that does not fit and with one that returns a number below zero: it grows the
  block until the text and its zero fit, appends the text and returns its length.
\<close>

theorem UdmDSTRAppendf_returns:
  assumes "dstr_ok d" "prints vsnprintf out"
  shows "\<exists>d'. UdmDSTRAppendf vsnprintf d = Some (int (length out), d') \<and> content d' = content d @ out \<and>
    dstr_ok d' \<and> size_data d' + 1 < size_total d'"
  using assms(1)
proof (induction "length out + 2 + size_data d - size_total d" arbitrary: d rule: less_induct)
  case less
  let ?left = "size_total d - size_data d"
  from less.prems have p: "0 < size_page d" and le: "size_data d \<le> size_total d"
    by (auto simp: dstr_ok_def)
  have vs: "if length out < ?left then vsnprintf ?left = (int (length out), out)
      else fst (vsnprintf ?left) = int (length out) \<or> fst (vsnprintf ?left) < 0"
    using assms(2) unfolding prints_def by blast
  show ?case
  proof (cases "length out + 1 < ?left")
    case True
    then have "size_data d + length out + 1 < size_total d" by linarith
    with True p vs show ?thesis by (subst UdmDSTRAppendf.simps) (simp add: dstr_ok_def)
  next
    case False
    let ?nc = "fst (vsnprintf ?left)"
    define asize where "asize = (if ?nc < 0 \<or> ?nc + 1 = int ?left then size_total d + size_page d
      else size_total d + ((nat ?nc - ?left) div size_page d + 1) * size_page d)"
    from p have a: "size_total d < asize" by (simp add: asize_def)
    have "\<not> (?nc > - 1 \<and> ?nc + 1 < int ?left)" using False vs by (auto split: if_splits)
    then have eq: "UdmDSTRAppendf vsnprintf d = UdmDSTRAppendf vsnprintf (d\<lparr>size_total := asize\<rparr>)"
      by (subst UdmDSTRAppendf.simps) (simp only: asize_def Let_def if_False)
    have "dstr_ok (d\<lparr>size_total := asize\<rparr>)" using p le a by (simp add: dstr_ok_def)
    moreover have "length out + 2 + size_data d - asize < length out + 2 + size_data d - size_total d"
      using a False by simp
    ultimately show ?thesis using less.hyps [of "d\<lparr>size_total := asize\<rparr>"] eq by simp
  qed
qed

text \<open>A \<open>vsnprintf\<close> of the older kind, which does not say how much room it needs.\<close>

definition old_vsnprintf :: "byte list \<Rightarrow> nat \<Rightarrow> int \<times> byte list" where
  "old_vsnprintf out room = (if length out < room then (int (length out), out) else (- 1, take (room - 1) out))"

lemma prints_old_vsnprintf: "prints (old_vsnprintf out) out"
  by (simp add: prints_def old_vsnprintf_def)

theorem UdmDSTRAppendf_returns_witness:
  "\<exists>d'. UdmDSTRAppendf (old_vsnprintf [65, 66, 67, 68, 69]) \<lparr>content = [7], size_total = 2, size_page = 2, free = False\<rparr> = Some (5, d') \<and>
     content d' = [7, 65, 66, 67, 68, 69]"
  using UdmDSTRAppendf_returns [OF _ prints_old_vsnprintf, of "\<lparr>content = [7], size_total = 2, size_page = 2, free = False\<rparr>"
      "[65, 66, 67, 68, 69]"]
  by (auto simp: dstr_ok_def)

text \<open>A format that can not be printed at all keeps the loop growing the block for ever.\<close>

lemma UdmDSTRAppendf_Some:
  assumes "UdmDSTRAppendf vsnprintf d = Some r"
  shows "\<exists>room. 0 \<le> fst (vsnprintf room)"
proof (rule UdmDSTRAppendf.raw_induct [OF _ assms])
  fix f d r and vsnprintf :: "nat \<Rightarrow> int \<times> byte list"
  assume IH: "\<And>vsnprintf d y. f vsnprintf d = Some y \<Longrightarrow> \<exists>room. 0 \<le> fst (vsnprintf room)"
    and eq: "(let bytes_left = size_total d - size_data d;
          nc = fst (vsnprintf bytes_left); bytes = snd (vsnprintf bytes_left) in
      if nc > - 1 \<and> nc + 1 < int bytes_left
      then Some (nc, d\<lparr>content := content d @ take (nat nc) bytes\<rparr>)
      else
        (let asize = (if nc < 0 \<or> nc + 1 = int bytes_left then size_total d + size_page d
                      else size_total d + ((nat nc - bytes_left) div size_page d + 1) * size_page d)
         in f vsnprintf (d\<lparr>size_total := asize\<rparr>))) = Some r"
  show "\<exists>room. 0 \<le> fst (vsnprintf room)"
  proof (cases "0 \<le> fst (vsnprintf (size_total d - size_data d))")
    case False
    with eq obtain d' where "f vsnprintf d' = Some r" by (auto simp: Let_def split: if_splits)
    then show ?thesis by (rule IH)
  qed blast
qed

lemma UdmDSTRAppendf_never_returns:
  assumes "\<And>room. fst (vsnprintf room) < 0"
  shows "UdmDSTRAppendf vsnprintf d = None"
  using UdmDSTRAppendf_Some assms by (metis not_le option.exhaust)

end
