(* ===== verification/Coord.thy ===== *)
theory Coord
  imports Prelude
begin

text \<open>
  \<^verbatim>\<open>src/dbmode-blob.c\<close>, the coordinate codec: numbers below 2 ^ 21 in one to four bytes, as
  UTF-8 does it.  A pair of pointers \<open>s\<close>, \<open>e\<close> is the list of the bytes from \<open>s\<close> up to \<open>e\<close>.
  A reader returns the number of bytes it read (0 for an error) and the number it stored
  through its pointer, \<open>None\<close> when it stored nothing: for a byte between 0x80 and 0xC1 the
  code returns \<open>UDM_ERROR\<close>, which is 1, and leaves the number unset.  The quick reader does
  not look at \<open>e\<close>; reading behind it is \<open>None\<close>.

  The lemmas show that the readers return what the writer wrote, that the two readers agree,
  and what the loops over coordinates compute.
\<close>

definition COORD_MAX_LEN :: nat where
  "COORD_MAX_LEN = 4"

definition UDM_ERROR_code :: nat where
  "UDM_ERROR_code = 1"

subsection \<open>Readers\<close>

text \<open>\<open>s[i] ^ 0x80\<close>, which is below 0x40 for a continuation byte.\<close>

definition tail6 :: "byte \<Rightarrow> nat" where
  "tail6 b = unat b XOR 128"

definition udm_coord_get :: "byte list \<Rightarrow> nat \<times> nat option" where
  "udm_coord_get s =
     (if s = [] then (0, None)
      else let c = unat (s ! 0) in
        if c < 128 then (1, Some c)
        else if c < 194 then (UDM_ERROR_code, None)
        else if c < 224 then
          (if length s < 2 then (0, None)
           else if \<not> tail6 (s ! 1) < 64 then (0, None)
           else (2, Some (push_bit 6 (c AND 31) OR tail6 (s ! 1))))
        else if c < 240 then
          (if length s < 3 then (0, None)
           else if \<not> (tail6 (s ! 1) < 64 \<and> tail6 (s ! 2) < 64 \<and>
                       (225 \<le> c \<or> 160 \<le> unat (s ! 1))) then (0, None)
           else (3, Some (push_bit 12 (c AND 15) OR push_bit 6 (tail6 (s ! 1)) OR tail6 (s ! 2))))
        else if c < 248 then
          (if length s < 4 then (0, None)
           else if \<not> (tail6 (s ! 1) < 64 \<and> tail6 (s ! 2) < 64 \<and> tail6 (s ! 3) < 64 \<and>
                       (241 \<le> c \<or> 144 \<le> unat (s ! 1))) then (0, None)
           else (4, Some (push_bit 18 (c AND 7) OR push_bit 12 (tail6 (s ! 1)) OR
                          push_bit 6 (tail6 (s ! 2)) OR tail6 (s ! 3))))
        else (0, None))"

text \<open>The conjunctions of the quick reader stop at the first byte that is no continuation.\<close>

definition udm_coord_get_quick :: "byte list \<Rightarrow> (nat \<times> nat option) option" where
  "udm_coord_get_quick s =
     (case s of [] \<Rightarrow> None | c # _ \<Rightarrow>
        let c = unat c in
        if c < 128 then Some (1, Some c)
        else if c < 194 then Some (UDM_ERROR_code, None)
        else if c < 224 then
          (if length s < 2 then None
           else if \<not> tail6 (s ! 1) < 64 then Some (0, None)
           else Some (2, Some (push_bit 6 (c AND 31) OR tail6 (s ! 1))))
        else if c < 240 then
          (if length s < 2 then None
           else if \<not> tail6 (s ! 1) < 64 then Some (0, None)
           else if length s < 3 then None
           else if \<not> (tail6 (s ! 2) < 64 \<and> (225 \<le> c \<or> 160 \<le> unat (s ! 1))) then Some (0, None)
           else Some (3, Some (push_bit 12 (c AND 15) OR push_bit 6 (tail6 (s ! 1)) OR tail6 (s ! 2))))
        else if c < 248 then
          (if length s < 2 then None
           else if \<not> tail6 (s ! 1) < 64 then Some (0, None)
           else if length s < 3 then None
           else if \<not> tail6 (s ! 2) < 64 then Some (0, None)
           else if length s < 4 then None
           else if \<not> (tail6 (s ! 3) < 64 \<and> (241 \<le> c \<or> 144 \<le> unat (s ! 1))) then Some (0, None)
           else Some (4, Some (push_bit 18 (c AND 7) OR push_bit 12 (tail6 (s ! 1)) OR
                               push_bit 6 (tail6 (s ! 2)) OR tail6 (s ! 3))))
        else Some (0, None))"

subsection \<open>Writer\<close>

text \<open>The fall-through cases of \<open>udm_coord_put\<close>, for one to four bytes.\<close>

definition coord_put_1 :: "nat \<Rightarrow> byte list" where
  "coord_put_1 wc = [of_nat wc]"

definition coord_put_2 :: "nat \<Rightarrow> byte list" where
  "coord_put_2 wc = coord_put_1 (drop_bit 6 wc OR 192) @ [of_nat (128 OR (wc AND 63))]"

definition coord_put_3 :: "nat \<Rightarrow> byte list" where
  "coord_put_3 wc = coord_put_2 (drop_bit 6 wc OR 2048) @ [of_nat (128 OR (wc AND 63))]"

definition coord_put_4 :: "nat \<Rightarrow> byte list" where
  "coord_put_4 wc = coord_put_3 (drop_bit 6 wc OR 65536) @ [of_nat (128 OR (wc AND 63))]"

text \<open>\<open>room\<close> is the space \<open>e - r\<close>; the result is what was written, nothing for 0.\<close>

definition udm_coord_put :: "nat \<Rightarrow> nat \<Rightarrow> byte list" where
  "udm_coord_put wc room =
     (if room = 0 then []
      else if wc < 128 then (if 1 > room then [] else coord_put_1 wc)
      else if wc < 2048 then (if 2 > room then [] else coord_put_2 wc)
      else if wc < 65536 then (if 3 > room then [] else coord_put_3 wc)
      else if wc < 2097152 then (if 4 > room then [] else coord_put_4 wc)
      else [])"

subsection \<open>Loops over coordinates\<close>

fun sum_leading :: "byte list \<Rightarrow> nat \<Rightarrow> nat \<Rightarrow> byte list \<times> nat \<times> nat" where
  "sum_leading (b # s) (Suc n) acc =
     (if unat b < 128 then sum_leading s n (acc + unat b) else (b # s, Suc n, acc))"
| "sum_leading s n acc = (s, n, acc)"

text \<open>
  One loop for the two readers: \<open>tmp\<close> is the variable the reader stores into, \<open>None\<close> while
  it is not set; summing an unset variable is \<open>None\<close>.  An error returns the end of the
  string and leaves the sum unset.
\<close>

fun sum_loop ::
    "(byte list \<Rightarrow> (nat \<times> nat option) option) \<Rightarrow> nat \<Rightarrow> byte list \<Rightarrow> nat option \<Rightarrow> nat \<Rightarrow>
     (nat option \<times> byte list) option" where
  "sum_loop get 0 s tmp acc = Some (Some acc, s)"
| "sum_loop get (Suc n) s tmp acc =
     (case get s of
        None \<Rightarrow> None
      | Some (nbytes, v) \<Rightarrow>
          if nbytes = 0 then Some (None, [])
          else
            (let tmp = (if v = None then tmp else v) in
             case tmp of
               None \<Rightarrow> None
             | Some t \<Rightarrow> sum_loop get n (drop nbytes s) tmp (acc + t)))"

definition udm_coord_sum :: "byte list \<Rightarrow> nat \<Rightarrow> (nat option \<times> byte list) option" where
  "udm_coord_sum s n =
     (if length s < n * 4 then sum_loop (\<lambda>s. Some (udm_coord_get s)) n s None 0
      else (let (s, n, acc) = sum_leading s n 0
            in sum_loop udm_coord_get_quick n s None acc))"

fun udm_coord_skip :: "byte list \<Rightarrow> nat \<Rightarrow> byte list" where
  "udm_coord_skip [] n = []"
| "udm_coord_skip s 0 = s"
| "udm_coord_skip (c # s) (Suc n) =
     (if unat c < 128 then udm_coord_skip s n
      else if unat c < 194 then []
      else if unat c < 224 then (if length s < 1 then [] else udm_coord_skip (drop 1 s) n)
      else if unat c < 240 then (if length s < 2 then [] else udm_coord_skip (drop 2 s) n)
      else if unat c < 248 then (if length s < 3 then [] else udm_coord_skip (drop 3 s) n)
      else [])"

function coord_len_loop :: "byte list \<Rightarrow> nat \<Rightarrow> nat" where
  "coord_len_loop s len =
     (if s = [] then len
      else let nbytes = fst (udm_coord_get s) in
        if nbytes = 0 then len else coord_len_loop (drop nbytes s) (len + 1))"
  by pat_completeness auto
termination by (relation "measure (length \<circ> fst)") auto

declare coord_len_loop.simps [simp del]

definition udm_coord_len :: "byte list option \<Rightarrow> nat" where
  "udm_coord_len str =
     (case str of None \<Rightarrow> 0 | Some s \<Rightarrow> coord_len_loop (takeWhile (\<lambda>c. c \<noteq> 0) s) 0)"

text \<open>\<open>(nbytes, ncoords)\<close>; \<open>crd\<close> keeps its value when a reader stores nothing.\<close>

function coord_statistics_loop ::
    "byte list \<Rightarrow> nat option \<Rightarrow> nat \<Rightarrow> nat \<Rightarrow> (nat \<times> nat) option" where
  "coord_statistics_loop s crd nbytes ncoords =
     (if s = [] then Some (nbytes, ncoords)
      else let (tmp, v) = udm_coord_get s; crd' = (if v = None then crd else v) in
        if tmp = 0 then Some (nbytes, ncoords)
        else if crd' = None then None
        else if crd' = Some 0 then Some (nbytes, ncoords)
        else coord_statistics_loop (drop tmp s) crd' (nbytes + tmp) (ncoords + 1))"
  by pat_completeness auto
termination by (relation "measure (length \<circ> fst)") auto

declare coord_statistics_loop.simps [simp del]

definition udm_coord_statistics :: "byte list \<Rightarrow> (nat \<times> nat) option" where
  "udm_coord_statistics s = coord_statistics_loop s None 0 0"

subsection \<open>Fixed width integers\<close>

definition udm_put_int2 :: "int \<Rightarrow> byte list" where
  "udm_put_int2 i = [word_of_int (i AND 255), word_of_int (drop_bit 8 i)]"

definition udm_get_int2 :: "byte list \<Rightarrow> int" where
  "udm_get_int2 s = uint (s ! 0) + push_bit 8 (uint (s ! 1))"

definition udm_put_int3 :: "int \<Rightarrow> byte list" where
  "udm_put_int3 i =
     [word_of_int (i AND 255), word_of_int (drop_bit 8 i AND 255), word_of_int (drop_bit 16 i AND 255)]"

definition udm_get_int3 :: "byte list \<Rightarrow> int" where
  "udm_get_int3 s = uint (s ! 0) + push_bit 8 (uint (s ! 1)) + push_bit 16 (uint (s ! 2))"

text \<open>In the variable format the int is converted to \<open>size_t\<close>; a negative one is then too
  large for the writer.\<close>

definition udm_put_int_with_format :: "int \<Rightarrow> nat \<Rightarrow> byte list" where
  "udm_put_int_with_format i format =
     (if format = 1 then [word_of_int i]
      else if format = 2 then udm_put_int2 i
      else if format = 3 then udm_put_int3 i
      else if format = 4 then udm_put_int4 i
      else if format = 5 then udm_coord_put (nat (i mod 2 ^ 64)) 4
      else [])"

subsection \<open>Reading back what was written\<close>

lemma unat_of_nat_byte: "x < 256 \<Longrightarrow> unat (of_nat x :: byte) = x"
  by (simp add: unat_of_nat)

lemma tail6_of_nat:
  assumes "x < 64"
  shows "tail6 (of_nat (128 + x)) = x"
proof -
  have "unat (of_nat (128 + x) :: byte) = 128 + x" by (rule unat_of_nat_byte) (use assms in simp)
  then show ?thesis using assms by (simp only: tail6_def) (simp add: xor_128)
qed

lemma of_nat_128: "of_nat (128 OR (x AND 63)) = (of_nat (128 + x mod 64) :: byte)"
  by (simp add: mask_simps or_nat_num)

lemma coord_put_2_eq:
  "wc < 2048 \<Longrightarrow> coord_put_2 wc = [of_nat (192 + wc div 64), of_nat (128 + wc mod 64)]"
  unfolding coord_put_2_def coord_put_1_def of_nat_128
  by (simp add: nat_bits or_nat_num less_mult_imp_div_less)

lemma coord_put_3_eq:
  assumes "wc < 65536"
  shows "coord_put_3 wc = [of_nat (224 + wc div 4096), of_nat (128 + wc div 64 mod 64),
    of_nat (128 + wc mod 64)]"
proof -
  have a: "drop_bit 6 wc OR 2048 = 2048 + wc div 64"
    using assms by (simp add: nat_bits or_nat_num less_mult_imp_div_less)
  have b: "(2048 + wc div 64) div 64 = 32 + wc div 4096"
    by (simp add: div_mult2_eq [symmetric])
  have c: "(2048 + wc div 64) mod 64 = wc div 64 mod 64"
    using mod_mult_self3 [of 32 64 "wc div 64"] by simp
  have "32 + wc div 4096 < 64" using assms by (simp add: less_mult_imp_div_less)
  then have d: "drop_bit 6 (2048 + wc div 64) OR 192 = 224 + wc div 4096"
    unfolding drop_bit_eq_div using b or_nat_num(1) [of "32 + wc div 4096"] by simp
  show ?thesis
    unfolding coord_put_3_def a coord_put_2_def coord_put_1_def d of_nat_128 c by simp
qed

lemma coord_put_4_eq:
  assumes "wc < 2097152"
  shows "coord_put_4 wc = [of_nat (240 + wc div 262144), of_nat (128 + wc div 4096 mod 64),
    of_nat (128 + wc div 64 mod 64), of_nat (128 + wc mod 64)]"
proof -
  have a: "drop_bit 6 wc OR 65536 = 65536 + wc div 64"
    using assms by (simp add: nat_bits or_nat_num less_mult_imp_div_less)
  have c: "(65536 + wc div 64) mod 64 = wc div 64 mod 64"
    using mod_mult_self3 [of 1024 64 "wc div 64"] by simp
  have "(65536 + wc div 64) div 64 = 1024 + wc div 4096"
    by (simp add: div_mult2_eq [symmetric])
  moreover have lt: "1024 + wc div 4096 < 2048" using assms by (simp add: less_mult_imp_div_less)
  ultimately have d: "drop_bit 6 (65536 + wc div 64) OR 2048 = 3072 + wc div 4096"
    unfolding drop_bit_eq_div using or_nat_num(2) [of "1024 + wc div 4096"] by simp
  have e: "(3072 + wc div 4096) mod 64 = wc div 4096 mod 64"
    using mod_mult_self3 [of 48 64 "wc div 4096"] by simp
  have "(3072 + wc div 4096) div 64 = 48 + wc div 262144"
    by (simp add: div_mult2_eq [symmetric])
  moreover have "48 + wc div 262144 < 64" using assms by (simp add: less_mult_imp_div_less)
  ultimately have f: "drop_bit 6 (3072 + wc div 4096) OR 192 = 240 + wc div 262144"
    unfolding drop_bit_eq_div using or_nat_num(1) [of "48 + wc div 262144"] by simp
  show ?thesis
    unfolding coord_put_4_def a coord_put_3_def d coord_put_2_def coord_put_1_def f of_nat_128 c e
    by simp
qed

definition coord_size :: "nat \<Rightarrow> nat" where
  "coord_size wc = (if wc < 128 then 1 else if wc < 2048 then 2 else if wc < 65536 then 3 else 4)"

abbreviation put_coord :: "nat \<Rightarrow> byte list" where
  "put_coord wc \<equiv> udm_coord_put wc 4"

lemma length_put_coord: "wc < 2097152 \<Longrightarrow> length (put_coord wc) = coord_size wc"
  by (simp add: udm_coord_put_def coord_size_def coord_put_1_def coord_put_2_eq coord_put_3_eq coord_put_4_eq)

lemma coord_size_bounds: "0 < coord_size wc" "coord_size wc \<le> 4"
  by (simp_all add: coord_size_def)


lemma coord_join:
  "a = wc div 64 \<Longrightarrow> push_bit 6 a OR (wc mod 64) = wc"
  "push_bit 12 (wc div 4096) OR push_bit 6 (wc div 64 mod 64) OR wc mod 64 = wc"
  "push_bit 18 (wc div 262144) OR push_bit 12 (wc div 4096 mod 64) OR
     push_bit 6 (wc div 64 mod 64) OR wc mod 64 = wc"
  for wc :: nat
proof -
  have 1: "push_bit 6 (wc div 64) OR wc mod 64 = wc" for wc :: nat
    using push_bit_or_nat [of "wc mod 64" 6 "wc div 64"] by simp
  have p: "push_bit 12 a = push_bit 6 (push_bit 6 a)" "push_bit 18 a = push_bit 6 (push_bit 12 a)"
    for a :: nat by (simp_all add: push_bit_push_bit)
  have 2: "push_bit 12 (wc div 4096) OR push_bit 6 (wc div 64 mod 64) OR wc mod 64 = wc" for wc :: nat
  proof -
    have "push_bit 6 (wc div 4096) OR wc div 64 mod 64 = wc div 64"
      using 1 [of "wc div 64"] by (simp add: div_mult2_eq [symmetric])
    then show ?thesis
      using 1 [of wc] by (simp only: p(1) or.assoc [symmetric] push_bit_or [symmetric])
  qed
  show "a = wc div 64 \<Longrightarrow> push_bit 6 a OR (wc mod 64) = wc" using 1 by simp
  show "push_bit 12 (wc div 4096) OR push_bit 6 (wc div 64 mod 64) OR wc mod 64 = wc" by (rule 2)
  have "push_bit 12 (wc div 262144) OR push_bit 6 (wc div 4096 mod 64) OR wc div 64 mod 64 = wc div 64"
    using 2 [of "wc div 64"] by (simp add: div_mult2_eq [symmetric])
  then have "push_bit 6 (push_bit 12 (wc div 262144) OR push_bit 6 (wc div 4096 mod 64) OR wc div 64 mod 64)
      OR wc mod 64 = wc"
    using 1 [of wc] by simp
  then show "push_bit 18 (wc div 262144) OR push_bit 12 (wc div 4096 mod 64) OR
     push_bit 6 (wc div 64 mod 64) OR wc mod 64 = wc"
    by (simp only: push_bit_or push_bit_push_bit or.assoc) simp
qed

lemma udm_coord_get_put:
  assumes "wc < 2097152"
  shows "udm_coord_get (put_coord wc @ rest) = (coord_size wc, Some wc)"
proof -
  have m: "wc mod 64 < 64" "wc div 64 mod 64 < 64" "wc div 4096 mod 64 < 64" by simp_all
  consider "wc < 128" | "128 \<le> wc" "wc < 2048" | "2048 \<le> wc" "wc < 65536"
    | "65536 \<le> wc" "wc < 2097152" using assms by linarith
  then show ?thesis
  proof cases
    case 1
    then show ?thesis
      by (simp add: udm_coord_get_def udm_coord_put_def coord_put_1_def coord_size_def unat_of_nat)
  next
    case 2
    then have d: "2 \<le> wc div 64" "wc div 64 < 32" by linarith+
    have c: "unat (of_nat (192 + wc div 64) :: byte) = 192 + wc div 64"
      by (rule unat_of_nat_byte) (use d in linarith)
    have "(192 + wc div 64) AND 31 = wc div 64"
      using d mod_mult_self3 [of 6 32 "wc div 64"] by (simp add: mask_simps)
    then show ?thesis
      using 2 d by (simp del: of_nat_add add: udm_coord_get_def udm_coord_put_def coord_put_2_eq
          coord_size_def c tail6_of_nat coord_join Let_def)
  next
    case 3
    then have d: "wc div 4096 < 16" by linarith
    have c: "unat (of_nat (224 + wc div 4096) :: byte) = 224 + wc div 4096"
      "unat (of_nat (128 + wc div 64 mod 64) :: byte) = 128 + wc div 64 mod 64"
      by (rule unat_of_nat_byte, use d m in linarith)+
    have e: "(224 + wc div 4096) AND 15 = wc div 4096"
      using d mod_mult_self3 [of 14 16 "wc div 4096"] by (simp add: mask_simps)
    have "225 \<le> 224 + wc div 4096 \<or> 160 \<le> 128 + wc div 64 mod 64"
    proof (cases "wc < 4096")
      case True
      with 3 have "wc div 64 < 64" "32 \<le> wc div 64" by linarith+
      then show ?thesis by simp
    next
      case False
      then have "1 \<le> wc div 4096" by linarith
      then show ?thesis by simp
    qed
    then show ?thesis
      using 3 d by (simp del: of_nat_add add: udm_coord_get_def udm_coord_put_def coord_put_3_eq
          coord_size_def c e tail6_of_nat coord_join Let_def)
  next
    case 4
    then have d: "wc div 262144 < 8" by linarith
    have c: "unat (of_nat (240 + wc div 262144) :: byte) = 240 + wc div 262144"
      "unat (of_nat (128 + wc div 4096 mod 64) :: byte) = 128 + wc div 4096 mod 64"
      by (rule unat_of_nat_byte, use d m in linarith)+
    have e: "(240 + wc div 262144) AND 7 = wc div 262144"
      using d mod_mult_self3 [of 30 8 "wc div 262144"] by (simp add: mask_simps)
    have "241 \<le> 240 + wc div 262144 \<or> 144 \<le> 128 + wc div 4096 mod 64"
    proof (cases "wc < 262144")
      case True
      with 4 have "wc div 4096 < 64" "16 \<le> wc div 4096" by linarith+
      then show ?thesis by simp
    next
      case False
      then have "1 \<le> wc div 262144" by linarith
      then show ?thesis by simp
    qed
    then show ?thesis
      using 4 d by (simp del: of_nat_add add: udm_coord_get_def udm_coord_put_def coord_put_4_eq
          coord_size_def c e tail6_of_nat coord_join Let_def)
  qed
qed

lemma udm_coord_get_quick_eq: "4 \<le> length s \<Longrightarrow> udm_coord_get_quick s = Some (udm_coord_get s)"
  by (cases s) (auto simp: udm_coord_get_quick_def udm_coord_get_def Let_def)

lemma udm_coord_get_quick_Some:
  "udm_coord_get s = (n, Some v) \<Longrightarrow> udm_coord_get_quick s = Some (n, Some v)"
  by (cases s) (auto simp: udm_coord_get_quick_def udm_coord_get_def Let_def split: if_splits)

lemma udm_coord_get_quick_put:
  "wc < 2097152 \<Longrightarrow> udm_coord_get_quick (put_coord wc @ rest) = Some (coord_size wc, Some wc)"
  by (rule udm_coord_get_quick_Some) (rule udm_coord_get_put)

lemma drop_put_coord:
  "wc < 2097152 \<Longrightarrow> drop (coord_size wc) (put_coord wc @ rest) = rest"
  by (simp add: length_put_coord)

lemma put_coord_not_Nil: "wc < 2097152 \<Longrightarrow> put_coord wc \<noteq> []"
  using length_put_coord [of wc] coord_size_bounds(1) [of wc] by auto

lemma hd_put_coord:
  assumes "wc < 2097152"
  shows "unat (hd (put_coord wc)) =
    (if wc < 128 then wc else if wc < 2048 then 192 + wc div 64
     else if wc < 65536 then 224 + wc div 4096 else 240 + wc div 262144)"
proof -
  have "x < 256 \<Longrightarrow> unat (of_nat x :: byte) = x" for x by (rule unat_of_nat_byte)
  moreover have "wc < 2048 \<Longrightarrow> 192 + wc div 64 < 256" "wc < 65536 \<Longrightarrow> 224 + wc div 4096 < 256"
    "240 + wc div 262144 < 256" using assms by linarith+
  ultimately show ?thesis
    using assms by (simp del: of_nat_add add: udm_coord_put_def coord_put_1_def coord_put_2_eq
        coord_put_3_eq coord_put_4_eq)
qed

lemma coord_byte_class:
  assumes "wc < 2097152"
  shows "128 \<le> wc \<Longrightarrow> 194 \<le> unat (hd (put_coord wc))"
    and "unat (hd (put_coord wc)) < 248"
    and "unat (hd (put_coord wc)) < 128 \<longleftrightarrow> wc < 128"
    and "unat (hd (put_coord wc)) < 224 \<longleftrightarrow> wc < 2048"
    and "unat (hd (put_coord wc)) < 240 \<longleftrightarrow> wc < 65536"
proof -
  have "128 \<le> wc \<Longrightarrow> 2 \<le> wc div 64" "wc < 2048 \<Longrightarrow> wc div 64 < 32" "wc < 65536 \<Longrightarrow> wc div 4096 < 16"
    "wc div 262144 < 8" using assms by linarith+
  then show "128 \<le> wc \<Longrightarrow> 194 \<le> unat (hd (put_coord wc))"
    "unat (hd (put_coord wc)) < 248" "unat (hd (put_coord wc)) < 128 \<longleftrightarrow> wc < 128"
    "unat (hd (put_coord wc)) < 224 \<longleftrightarrow> wc < 2048" "unat (hd (put_coord wc)) < 240 \<longleftrightarrow> wc < 65536"
    unfolding hd_put_coord [OF assms] by auto
qed

definition put_coords :: "nat list \<Rightarrow> byte list" where
  "put_coords ds = concat (map put_coord ds)"

abbreviation coords_ok :: "nat list \<Rightarrow> bool" where
  "coords_ok ds \<equiv> \<forall>d \<in> set ds. d < 2097152"

lemma put_coords_simps [simp]:
  "put_coords [] = []"
  "put_coords (d # ds) = put_coord d @ put_coords ds"
  "put_coords (ds @ ds') = put_coords ds @ put_coords ds'"
  by (simp_all add: put_coords_def)

lemma length_put_coords: "coords_ok ds \<Longrightarrow> length ds \<le> length (put_coords ds)"
proof (induction ds)
  case (Cons d ds)
  with coord_size_bounds(1) [of d] show ?case by (simp add: length_put_coord)
qed simp

lemma udm_coord_skip_put:
  assumes "wc < 2097152"
  shows "udm_coord_skip (put_coord wc @ rest) (Suc n) = udm_coord_skip rest n"
proof -
  obtain c s where cs: "put_coord wc = c # s"
    using put_coord_not_Nil [OF assms] by (cases "put_coord wc") auto
  have l: "Suc (length s) = coord_size wc" using length_put_coord [OF assms] cs by simp
  have "wc < 128 \<Longrightarrow> s = []" using l by (simp add: coord_size_def)
  with coord_byte_class [OF assms] l show ?thesis
    unfolding cs by (auto simp: coord_size_def split: if_splits)
qed

lemma udm_coord_skip_0: "udm_coord_skip s 0 = s"
  by (cases s) simp_all

lemma udm_coord_skip_put_coords:
  "coords_ok ds \<Longrightarrow> udm_coord_skip (put_coords ds @ rest) (length ds) = rest"
  by (induction ds) (simp_all add: udm_coord_skip_0 udm_coord_skip_put)

lemma sum_loop_put_coords:
  assumes "\<And>wc rest. wc < 2097152 \<Longrightarrow> get (put_coord wc @ rest) = Some (coord_size wc, Some wc)"
  shows "coords_ok ds \<Longrightarrow>
    sum_loop get (length ds) (put_coords ds @ rest) tmp acc = Some (Some (acc + sum_list ds), rest)"
proof (induction ds arbitrary: tmp acc)
  case (Cons d ds)
  then have d: "d < 2097152" by simp
  have "coord_size d \<noteq> 0" using coord_size_bounds(1) [of d] by simp
  with Cons d show ?case
    by (simp add: assms [OF d] length_put_coord)
qed simp

lemma sum_leading_put_coords:
  "coords_ok ds \<Longrightarrow> \<exists>ds'. sum_leading (put_coords ds @ rest) (length ds) acc =
     (put_coords ds' @ rest, length ds', acc + (sum_list ds - sum_list ds')) \<and> coords_ok ds' \<and>
     sum_list ds' \<le> sum_list ds"
proof (induction ds arbitrary: acc)
  case Nil
  show ?case by (intro exI [of _ "[]"]) simp
next
  case (Cons d ds)
  then have d: "d < 2097152" by simp
  obtain c s where cs: "put_coord d = c # s"
    using put_coord_not_Nil [OF d] by (cases "put_coord d") auto
  show ?case
  proof (cases "d < 128")
    case True
    then have "s = []" using length_put_coord [OF d] cs by (simp add: coord_size_def)
    moreover have "unat c = d" using hd_put_coord [OF d] cs True by simp
    moreover obtain ds' where "sum_leading (put_coords ds @ rest) (length ds) (acc + d) =
        (put_coords ds' @ rest, length ds', acc + d + (sum_list ds - sum_list ds'))"
      "coords_ok ds'" "sum_list ds' \<le> sum_list ds"
      using Cons.IH [of "acc + d"] Cons.prems by auto
    ultimately show ?thesis using True cs by (intro exI [of _ ds']) simp
  next
    case False
    then have "\<not> unat c < 128" using coord_byte_class(3) [OF d] cs by simp
    then show ?thesis using Cons.prems cs by (intro exI [of _ "d # ds"]) simp
  qed
qed

lemma udm_coord_sum_put_coords:
  assumes "coords_ok ds"
  shows "udm_coord_sum (put_coords ds @ rest) (length ds) = Some (Some (sum_list ds), rest)"
proof (cases "length (put_coords ds @ rest) < length ds * 4")
  case True
  then show ?thesis
    using sum_loop_put_coords [of "\<lambda>s. Some (udm_coord_get s)", OF _ assms] udm_coord_get_put
    by (simp add: udm_coord_sum_def)
next
  case False
  obtain ds' where ds': "sum_leading (put_coords ds @ rest) (length ds) 0 =
     (put_coords ds' @ rest, length ds', sum_list ds - sum_list ds')" "coords_ok ds'"
    "sum_list ds' \<le> sum_list ds"
    using sum_leading_put_coords [OF assms, of rest 0] by auto
  with False show ?thesis
    using sum_loop_put_coords [of udm_coord_get_quick, OF udm_coord_get_quick_put ds'(2)]
    by (simp add: udm_coord_sum_def)
qed

lemma coord_len_loop_put_coords:
  "coords_ok ds \<Longrightarrow> coord_len_loop (put_coords ds) len = len + length ds"
proof (induction ds arbitrary: len)
  case Nil
  show ?case by (subst coord_len_loop.simps) simp
next
  case (Cons d ds)
  then have d: "d < 2097152" by simp
  with Cons put_coord_not_Nil [OF d] coord_size_bounds(1) [of d] show ?case
    by (subst coord_len_loop.simps) (simp add: udm_coord_get_put length_put_coord)
qed

lemma put_coord_no_zero:
  assumes "wc < 2097152" "wc \<noteq> 0"
  shows "0 \<notin> set (put_coord wc)"
proof -
  have n: "(of_nat x :: byte) \<noteq> 0" if "x < 256" "x \<noteq> 0" for x
    using unat_of_nat_byte [OF that(1)] that(2) by (metis unat_0)
  have "x mod 64 < 128" for x :: nat by (rule less_trans [of _ 64]) simp_all
  then have "128 + x mod 64 < 256" for x :: nat by simp
  moreover have "wc < 2048 \<Longrightarrow> 192 + wc div 64 < 256" "wc < 65536 \<Longrightarrow> 224 + wc div 4096 < 256"
    "240 + wc div 262144 < 256" using assms by linarith+
  ultimately show ?thesis
    using assms n [THEN not_sym] by (auto simp del: of_nat_add simp: udm_coord_put_def coord_put_1_def coord_put_2_eq
        coord_put_3_eq coord_put_4_eq split: if_splits)
qed

lemma put_coords_no_zero: "coords_ok ds \<Longrightarrow> 0 \<notin> set ds \<Longrightarrow> 0 \<notin> set (put_coords ds)"
  by (induction ds) (auto dest: put_coord_no_zero)

lemma udm_coord_len_put_coords:
  assumes "coords_ok ds" "0 \<notin> set ds"
  shows "udm_coord_len (Some (put_coords ds @ 0 # rest)) = length ds"
proof -
  have "takeWhile (\<lambda>c. c \<noteq> 0) (put_coords ds @ 0 # rest) = put_coords ds"
    using put_coords_no_zero [OF assms] by (subst takeWhile_append2) auto
  then show ?thesis by (simp add: udm_coord_len_def coord_len_loop_put_coords [OF assms(1)])
qed

lemma coord_statistics_put_coords:
  "coords_ok ds \<Longrightarrow> 0 \<notin> set ds \<Longrightarrow> rest = [] \<or> hd rest = 0 \<Longrightarrow>
   coord_statistics_loop (put_coords ds @ rest) crd nbytes n =
     Some (nbytes + length (put_coords ds), n + length ds)"
proof (induction ds arbitrary: crd nbytes n)
  case Nil
  then show ?case
    by (cases rest; subst coord_statistics_loop.simps) (auto simp: udm_coord_get_def)
next
  case (Cons d ds)
  then have d: "d < 2097152" "d \<noteq> 0" by auto
  with Cons put_coord_not_Nil [OF d(1)] coord_size_bounds(1) [of d] show ?case
    by (subst coord_statistics_loop.simps) (simp add: udm_coord_get_put length_put_coord)
qed

text \<open>
  The coordinate codec: every number below 2 ^ 21 is written in at most four bytes and
  both readers get it back, with the number of bytes written, whatever follows; a number
  that is not zero is written without a zero byte, which the formats use as a terminator.
\<close>

theorem udm_coord_roundtrip:
  assumes "wc < 2097152"
  shows "udm_coord_get (udm_coord_put wc COORD_MAX_LEN @ rest) =
      (length (udm_coord_put wc COORD_MAX_LEN), Some wc) \<and>
    udm_coord_get_quick (udm_coord_put wc COORD_MAX_LEN @ rest) =
      Some (length (udm_coord_put wc COORD_MAX_LEN), Some wc) \<and>
    (wc \<noteq> 0 \<longrightarrow> 0 \<notin> set (udm_coord_put wc COORD_MAX_LEN))"
  unfolding COORD_MAX_LEN_def
  using assms udm_coord_get_put udm_coord_get_quick_put length_put_coord put_coord_no_zero
  by auto

theorem udm_coord_roundtrip_witness:
  "udm_coord_get (udm_coord_put 100000 COORD_MAX_LEN @ [7]) = (4, Some 100000) \<and>
   0 \<notin> set (udm_coord_put 100000 COORD_MAX_LEN)"
  using udm_coord_roundtrip [of 100000 "[7]"]
    length_put_coord [of 100000]
  by (simp add: COORD_MAX_LEN_def coord_size_def)

text \<open>
  On a list of coordinates as the index stores it, \<open>udm_coord_sum\<close> returns the sum and
  the position behind them by either of its two loops, \<open>udm_coord_skip\<close> the same position,
  and, where no coordinate is zero, \<open>udm_coord_len\<close> and \<open>udm_coord_statistics\<close> their number
  up to the terminating zero.
\<close>

theorem udm_coord_loops:
  assumes "\<forall>d \<in> set ds. d < 2097152"
  shows "udm_coord_sum (put_coords ds @ rest) (length ds) = Some (Some (sum_list ds), rest) \<and>
    udm_coord_skip (put_coords ds @ rest) (length ds) = rest \<and>
    (0 \<notin> set ds \<longrightarrow> udm_coord_len (Some (put_coords ds @ 0 # rest)) = length ds \<and>
      udm_coord_statistics (put_coords ds @ 0 # rest) = Some (length (put_coords ds), length ds))"
  using assms udm_coord_sum_put_coords udm_coord_skip_put_coords udm_coord_len_put_coords
    coord_statistics_put_coords [of ds "0 # rest"]
  by (auto simp: udm_coord_statistics_def)

theorem udm_coord_loops_witness:
  "udm_coord_sum (put_coords [5, 300, 70000] @ [1, 2]) 3 = Some (Some 70305, [1, 2]) \<and>
   udm_coord_len (Some (put_coords [5, 300, 70000] @ [0, 2])) = 3"
  using udm_coord_loops [of "[5, 300, 70000]" "[1, 2]"] udm_coord_loops [of "[5, 300, 70000]" "[2]"]
  by (simp add: numeral_3_eq_3)

end
