(* ===== verification/Blob_Pack.thy ===== *)
theory Blob_Pack
  imports Dstr Coord "HOL-Library.Signed_Division"
begin

text \<open>
  \<^verbatim>\<open>src/dbmode-blob.c\<close>, the indexing side: the cache of words, its order, and the packing
  of all documents of a word and section into one record of the table \<open>bdict\<close>, in one of
  the formats the statistics of the document identifiers choose.

  A word of the cache has the coordinates (\<open>bw_intags\<close>, the first \<open>bw_ntaglen\<close> bytes of it)
  already packed by the indexer.  The fields carry a prefix, \<open>bw_url_id\<close> for
  \<open>W->url_id\<close>; \<open>First\<close> and \<open>Last\<close> are the list of the words between them.  Identifiers
  are \<open>int\<close>; the differences of identifiers, which the code computes in \<open>int4\<close>, are wrapped.
  Allocation does not fail, so an append fails only when it has nothing to append.
\<close>

record blob_cache_word =
  bw_word :: "byte list"
  bw_url_id :: urlid_t
  bw_nintags :: nat
  bw_ntaglen :: nat
  bw_intags :: "byte list"
  bw_secno :: nat
  bw_freeme :: bool

record blob_cache =
  bc_free :: bool
  bc_errors :: nat
  bc_awords :: nat
  bc_words :: "blob_cache_word list"

subsection \<open>The cache\<close>

definition UdmBlobCacheInit :: "bool \<Rightarrow> blob_cache" where
  "UdmBlobCacheInit given =
     \<lparr>bc_free = (\<not> given), bc_errors = 0, bc_awords = 0, bc_words = []\<rparr>"

definition UdmBlobCacheFree :: "blob_cache \<Rightarrow> blob_cache" where
  "UdmBlobCacheFree cache = cache\<lparr>bc_errors := 0, bc_awords := 0, bc_words := []\<rparr>"

definition UdmBlobCacheCheckValue ::
    "urlid_t \<Rightarrow> nat \<Rightarrow> byte list option \<Rightarrow> nat \<Rightarrow> byte list option \<Rightarrow> bool" where
  "UdmBlobCacheCheckValue url_id secno word nintags intag \<longleftrightarrow>
     url_id = 0 \<or> secno = 0 \<or> word = None \<or> nintags = 0 \<or> intag = None"

definition BLOB_CACHE_REALLOC :: nat where
  "BLOB_CACHE_REALLOC = 16 * 1024"

definition UdmBlobCacheRealloc :: "blob_cache \<Rightarrow> blob_cache" where
  "UdmBlobCacheRealloc cache =
     (if length (bc_words cache) = bc_awords cache
      then cache\<lparr>bc_awords := bc_awords cache + BLOB_CACHE_REALLOC\<rparr> else cache)"

text \<open>The word is copied up to its terminating zero, the coordinates up to their length.\<close>

definition UdmBlobCacheAdd ::
    "blob_cache \<Rightarrow> urlid_t \<Rightarrow> nat \<Rightarrow> byte list option \<Rightarrow> nat \<Rightarrow> byte list option \<Rightarrow> nat \<Rightarrow>
     nat \<times> blob_cache" where
  "UdmBlobCacheAdd cache url_id secno word nintags intag intaglen =
     (if UdmBlobCacheCheckValue url_id secno word nintags intag then (0, cache)
      else
        (let cache = UdmBlobCacheRealloc cache;
             W = \<lparr>bw_word = takeWhile (\<lambda>c. c \<noteq> 0) (the word), bw_url_id = url_id,
                  bw_nintags = nintags, bw_ntaglen = intaglen,
                  bw_intags = take intaglen (the intag), bw_secno = secno, bw_freeme = True\<rparr>
         in (1, cache\<lparr>bc_words := bc_words cache @ [W]\<rparr>)))"

definition UdmBlobCacheAdd2 ::
    "blob_cache \<Rightarrow> urlid_t \<Rightarrow> nat \<Rightarrow> byte list option \<Rightarrow> nat \<Rightarrow> byte list option \<Rightarrow> nat \<Rightarrow>
     nat \<times> blob_cache" where
  "UdmBlobCacheAdd2 cache url_id secno word nintags intag intaglen =
     (if UdmBlobCacheCheckValue url_id secno word nintags intag then (0, cache)
      else
        (let cache = UdmBlobCacheRealloc cache;
             W = \<lparr>bw_word = the word, bw_url_id = url_id, bw_nintags = nintags,
                  bw_ntaglen = intaglen, bw_intags = the intag, bw_secno = secno, bw_freeme = False\<rparr>
         in (1, cache\<lparr>bc_words := bc_words cache @ [W]\<rparr>)))"

definition bccmpwrd :: "blob_cache_word cmp" where
  "bccmpwrd s1 s2 =
     (let r = strcmp (bw_word s1) (bw_word s2);
          r = (if r = 0 then int (bw_secno s1) - int (bw_secno s2) else r)
      in if r = 0
         then (if bw_url_id s1 > bw_url_id s2 then 1
               else if bw_url_id s1 < bw_url_id s2 then -1 else 0)
         else r)"

definition UdmBlobCacheSort :: "blob_cache \<Rightarrow> blob_cache" where
  "UdmBlobCacheSort cache =
     (if bc_words cache \<noteq> [] then cache\<lparr>bc_words := UdmSort bccmpwrd (bc_words cache)\<rparr> else cache)"

subsection \<open>Compression types\<close>

definition UDM_BLOB_COMP_NONE :: nat where "UDM_BLOB_COMP_NONE = 0"
definition UDM_BLOB_COMP_ZINT4_DEFLATE :: nat where "UDM_BLOB_COMP_ZINT4_DEFLATE = 3"
definition UDM_BLOB_COMP_SINGLE_RANGE :: nat where "UDM_BLOB_COMP_SINGLE_RANGE = 4"
definition UDM_BLOB_COMP_URLID_DELTA_VARIABLE :: nat where "UDM_BLOB_COMP_URLID_DELTA_VARIABLE = 5"
definition UDM_BLOB_COMP_URLID_DELTA_2BYTES :: nat where "UDM_BLOB_COMP_URLID_DELTA_2BYTES = 6"
definition UDM_BLOB_COMP_URLID_DELTA_2BYTES_WITH_OFFSET :: nat where
  "UDM_BLOB_COMP_URLID_DELTA_2BYTES_WITH_OFFSET = 7"
definition UDM_BLOB_COMP_URLID_DELTA_3BYTES :: nat where "UDM_BLOB_COMP_URLID_DELTA_3BYTES = 8"
definition UDM_BLOB_COMP_URLID_DELTA_1BYTES_WITH_OFFSET :: nat where
  "UDM_BLOB_COMP_URLID_DELTA_1BYTES_WITH_OFFSET = 9"
definition UDM_BLOB_COMP_URLID_RANGE_MULTI :: nat where "UDM_BLOB_COMP_URLID_RANGE_MULTI = 10"

lemmas comp_defs = UDM_BLOB_COMP_NONE_def UDM_BLOB_COMP_ZINT4_DEFLATE_def
  UDM_BLOB_COMP_SINGLE_RANGE_def UDM_BLOB_COMP_URLID_DELTA_VARIABLE_def
  UDM_BLOB_COMP_URLID_DELTA_2BYTES_def UDM_BLOB_COMP_URLID_DELTA_2BYTES_WITH_OFFSET_def
  UDM_BLOB_COMP_URLID_DELTA_3BYTES_def UDM_BLOB_COMP_URLID_DELTA_1BYTES_WITH_OFFSET_def
  UDM_BLOB_COMP_URLID_RANGE_MULTI_def

text \<open>0xFFFFFFFF passed as an \<open>int\<close> is -1.\<close>

definition UdmDSTRAppendCompressionType :: "dstr \<Rightarrow> nat \<Rightarrow> nat \<times> dstr" where
  "UdmDSTRAppendCompressionType d compression_type =
     (let (n, d) = UdmDSTRAppendINT4 d (-1) in
      if n = 0 then (0, d)
      else if compression_type \<le> UDM_BLOB_COMP_ZINT4_DEFLATE
           then UdmDSTRAppendINT4 d (int compression_type)
           else UdmDSTRAppendINT2 d (int compression_type))"

subsection \<open>Statistics of a word\<close>

record word_stat =
  cur_url_id :: urlid_t
  min_url_id :: urlid_t
  max_url_id :: urlid_t
  max_url_id_delta :: urlid_t
  range_min_url_id :: urlid_t
  range_max_url_id :: urlid_t
  ndistinct_url_ids_minus_one :: nat
  compression_type :: nat
  range_offset :: nat
  nranges :: nat

fun word_stat_loop ::
    "blob_cache_word \<Rightarrow> blob_cache_word list \<Rightarrow> word_stat \<Rightarrow> nat \<Rightarrow> nat \<times> word_stat" where
  "word_stat_loop First [] Stat n = (n, Stat)"
| "word_stat_loop First (W # ws) Stat n =
     (if bw_secno W \<noteq> bw_secno First \<or> strcmp (bw_word W) (bw_word First) \<noteq> 0 then (n, Stat)
      else
        (let Stat =
           (if bw_url_id W \<noteq> max_url_id Stat
            then
              (let url_id_delta = int4_of (bw_url_id W - max_url_id Stat);
                   Stat = Stat\<lparr>ndistinct_url_ids_minus_one := ndistinct_url_ids_minus_one Stat + 1\<rparr>
               in if url_id_delta > max_url_id_delta Stat
                  then Stat\<lparr>max_url_id_delta := url_id_delta\<rparr> else Stat)
            else Stat)
         in word_stat_loop First ws (Stat\<lparr>max_url_id := bw_url_id W\<rparr>) (n + 1)))"

text \<open>The structure is not initialised; \<open>Stat\<close> is what is in it.\<close>

definition UdmBlobCacheOneWordStat ::
    "blob_cache_word list \<Rightarrow> word_stat \<Rightarrow> nat \<times> word_stat" where
  "UdmBlobCacheOneWordStat ws Stat =
     word_stat_loop (hd ws) ws
       (Stat\<lparr>min_url_id := bw_url_id (hd ws), max_url_id := bw_url_id (hd ws),
             ndistinct_url_ids_minus_one := 0, max_url_id_delta := 0\<rparr>) 0"

subsection \<open>Formats\<close>

definition intag_bytes :: "blob_cache_word \<Rightarrow> byte list" where
  "intag_bytes w = take (bw_ntaglen w) (bw_intags w)"

definition pack_simple_word :: "blob_cache_word \<Rightarrow> dstr \<Rightarrow> dstr" where
  "pack_simple_word w d =
     (let utmp = udm_put_int4 (bw_url_id w);
          ubuf = udm_coord_put (bw_nintags w) COORD_MAX_LEN in
      if ubuf = [] then d
      else
        (let (n, d) = UdmDSTRAppend d utmp in
         if n = 0 then d
         else
           (let (n, d) = UdmDSTRAppend d ubuf in
            if n = 0 then d else snd (UdmDSTRAppend d (intag_bytes w)))))"

definition UdmBlobCachePackOneWordForBdictSimple :: "blob_cache_word list \<Rightarrow> dstr \<Rightarrow> dstr" where
  "UdmBlobCachePackOneWordForBdictSimple ws d = fold pack_simple_word ws d"

definition UdmBlobCachePackOneWordDocForBdict ::
    "dstr \<Rightarrow> urlid_t \<Rightarrow> blob_cache_word \<Rightarrow> nat \<Rightarrow> dstr" where
  "UdmBlobCachePackOneWordDocForBdict d urlid w urlid_format =
     (let urlidbuf = udm_put_int_with_format urlid urlid_format;
          ncoordsbuf = udm_coord_put (bw_nintags w) 4 in
      if ncoordsbuf = [] then d
      else
        (let (n, d) = UdmDSTRAppend d urlidbuf in
         if n = 0 \<and> urlid_format \<noteq> 0 then d
         else
           (let (n, d) = UdmDSTRAppend d ncoordsbuf in
            if n = 0 then d else snd (UdmDSTRAppend d (intag_bytes w)))))"

fun pack_deltas :: "blob_cache_word list \<Rightarrow> urlid_t \<Rightarrow> nat \<Rightarrow> dstr \<Rightarrow> dstr" where
  "pack_deltas [] url_id_prev delta_format d = d"
| "pack_deltas (w # ws) url_id_prev delta_format d =
     pack_deltas ws (bw_url_id w) delta_format
       (UdmBlobCachePackOneWordDocForBdict d (int4_of (bw_url_id w - url_id_prev)) w delta_format)"

definition UdmBlobCachePackOneWordForBdictURLIDDeltaFixed ::
    "blob_cache_word list \<Rightarrow> dstr \<Rightarrow> nat \<Rightarrow> nat \<Rightarrow> dstr" where
  "UdmBlobCachePackOneWordForBdictURLIDDeltaFixed ws d delta_format offset =
     (if delta_format = 1 then
        (let (n, d) = UdmDSTRAppendCompressionType d UDM_BLOB_COMP_URLID_DELTA_1BYTES_WITH_OFFSET in
         if n = 0 then d
         else
           (let (n, d) = UdmDSTRAppendINT4 d (int4_of (int offset)) in
            if n = 0 then d else pack_deltas ws (int4_of (int offset)) delta_format d))
      else
        (let url_id_prev = int4_of (int (offset AND 4294901760)) in
         if offset = 0 then
           (let compr_type = (if delta_format = 2 then UDM_BLOB_COMP_URLID_DELTA_2BYTES
                              else UDM_BLOB_COMP_URLID_DELTA_3BYTES);
                (n, d) = UdmDSTRAppendCompressionType d compr_type in
            if n = 0 then d else pack_deltas ws url_id_prev delta_format d)
         else
           (let (n, d) = UdmDSTRAppendCompressionType d UDM_BLOB_COMP_URLID_DELTA_2BYTES_WITH_OFFSET in
            if n = 0 then d
            else
              (let (n, d) = UdmDSTRAppendINT2 d (int4_of (int (drop_bit 16 offset))) in
               if n = 0 then d else pack_deltas ws url_id_prev delta_format d))))"

definition UdmBlobCachePackOneWordForBdictURLIDDeltaVariable ::
    "blob_cache_word list \<Rightarrow> dstr \<Rightarrow> dstr" where
  "UdmBlobCachePackOneWordForBdictURLIDDeltaVariable ws d =
     (let (n, d) = UdmDSTRAppendCompressionType d UDM_BLOB_COMP_URLID_DELTA_VARIABLE in
      if n = 0 then d else pack_deltas ws 0 5 d)"

definition pack_docs :: "blob_cache_word list \<Rightarrow> dstr \<Rightarrow> dstr" where
  "pack_docs ws d = fold (\<lambda>w d. UdmBlobCachePackOneWordDocForBdict d 0 w 0) ws d"

definition UdmBlobCachePackOneWordForBdictURLIDRange ::
    "blob_cache_word list \<Rightarrow> word_stat \<Rightarrow> dstr \<Rightarrow> dstr" where
  "UdmBlobCachePackOneWordForBdictURLIDRange ws Stat d =
     (let (n, d) = UdmDSTRAppendCompressionType d UDM_BLOB_COMP_SINGLE_RANGE in
      if n = 0 then d
      else
        (let (n, d) = UdmDSTRAppendINT4 d (min_url_id Stat) in
         if n = 0 then d
         else
           (let (n, d) = UdmDSTRAppendINT4 d (max_url_id Stat) in
            if n = 0 then d else pack_docs ws d)))"

text \<open>
  The ranges: the inner loop of \<open>UdmBlobCachePackOneWordForBdictURLIDRangeMulti\<close> goes to
  the last word of a range (\<open>range_last\<close> returns it and the words after it), the outer loop
  counts the ranges.
\<close>

fun range_last :: "blob_cache_word \<Rightarrow> blob_cache_word list \<Rightarrow> blob_cache_word \<times> blob_cache_word list" where
  "range_last w [] = (w, [])"
| "range_last w (w1 # ws) =
     (if bw_url_id w1 > bw_url_id w + 1 then (w, w1 # ws) else range_last w1 ws)"

lemma range_last_length: "length (snd (range_last w ws)) \<le> length ws"
  by (induction w ws rule: range_last.induct) auto

function pack_ranges :: "blob_cache_word list \<Rightarrow> nat \<Rightarrow> dstr \<Rightarrow> nat \<times> dstr" where
  "pack_ranges [] n d = (n, d)"
| "pack_ranges (w # ws) n d =
     (let (l, rest) = range_last w ws;
          d = snd (UdmDSTRAppendINT4 d (bw_url_id w));
          d = snd (UdmDSTRAppendINT4 d (bw_url_id l))
      in pack_ranges rest (n + 1) d)"
  by pat_completeness auto
termination
  by (relation "measure (length \<circ> fst)") (auto simp: less_Suc_eq_le, metis range_last_length snd_conv)

definition put_at :: "nat \<Rightarrow> byte list \<Rightarrow> byte list \<Rightarrow> byte list" where
  "put_at i bs xs = take i xs @ bs @ drop (i + length bs) xs"

definition UdmBlobCachePackOneWordForBdictURLIDRangeMulti ::
    "blob_cache_word list \<Rightarrow> word_stat \<Rightarrow> dstr \<Rightarrow> dstr" where
  "UdmBlobCachePackOneWordForBdictURLIDRangeMulti ws Stat d =
     (let (n, d) = UdmDSTRAppendCompressionType d UDM_BLOB_COMP_URLID_RANGE_MULTI in
      if n = 0 then d
      else
        (let nranges_offset = size_data d in
         if nranges_offset = 0 then d
         else
           (let (n, d) = UdmDSTRAppendINT4 d 0 in
            if n = 0 then d
            else
              (let (nr, d) = pack_ranges ws 0 d;
                   d = d\<lparr>content := put_at nranges_offset (udm_put_int4 (int nr)) (content d)\<rparr>
               in pack_docs ws d))))"

subsection \<open>The choice of the format\<close>

text \<open>
  The arithmetic of the choice: identifiers are \<open>int4\<close>, the count is a \<open>size_t\<close>; a
  comparison of the two converts the \<open>int4\<close> to \<open>size_t\<close> (\<open>size_of_int\<close>).
\<close>

definition size_of_int :: "int \<Rightarrow> int" where
  "size_of_int i = i mod 2 ^ 64"

definition UdmBlobCachePackOneWordForBdict ::
    "blob_cache_word list \<Rightarrow> word_stat \<Rightarrow> dstr \<Rightarrow> bool \<Rightarrow> nat \<times> dstr" where
  "UdmBlobCachePackOneWordForBdict words Stat0 d use_compr =
     (let (count, Stat) = UdmBlobCacheOneWordStat words Stat0;
          ws = take count words;
          nd = int (ndistinct_url_ids_minus_one Stat);
          range_size = int4_of (max_url_id Stat - min_url_id Stat);
          missing = int4_of (range_size - nd)
      in (count,
          if use_compr \<and> nd > 2 \<and> size_of_int range_size = nd
          then UdmBlobCachePackOneWordForBdictURLIDRange ws Stat d
          else if use_compr \<and> missing + 1 < (range_size + 1) sdiv 8 \<and> range_size > 16
          then UdmBlobCachePackOneWordForBdictURLIDRangeMulti ws Stat d
          else if use_compr \<and> nd > 1 \<and> nd > size_of_int (range_size sdiv 256)
          then UdmBlobCachePackOneWordForBdictURLIDDeltaVariable ws d
          else if use_compr \<and> max_url_id_delta Stat \<le> 65535 \<and> min_url_id Stat \<le> 65535 \<and> nd > 2
          then UdmBlobCachePackOneWordForBdictURLIDDeltaFixed ws d 2 0
          else if use_compr \<and> max_url_id_delta Stat \<le> 65535 \<and> min_url_id Stat \<ge> 65535 \<and> nd > 3
          then UdmBlobCachePackOneWordForBdictURLIDDeltaFixed ws d 2 (nat (size_of_int (min_url_id Stat)))
          else if use_compr \<and> max_url_id_delta Stat \<le> 16777215 \<and> min_url_id Stat \<le> 16777215 \<and> nd > 4
          then UdmBlobCachePackOneWordForBdictURLIDDeltaFixed ws d 3 0
          else UdmBlobCachePackOneWordForBdictSimple ws d))"

end
