(* ===== verification/Blob_Unpack.thy ===== *)
theory Blob_Unpack
  imports Blob_Pack Url_Id_List
begin

text \<open>
  \<^verbatim>\<open>src/dbmode-blob.c\<close>, the search side: one record of the table \<open>bdict\<close> is unpacked into
  the sections of a word (\<open>UdmSectionListBlobCoordsUnpack\<close>), one section for every
  document the limit admits, with its coordinates or only the positions of the first and
  the last and the length.

  A pointer into the record is the list of the bytes from it to the end \<open>e\<close>.  The array of
  coordinates is the list of the elements before the pointer \<open>Coord\<close>, \<open>None\<close> for an element
  that was passed over without being written; \<open>Section->Coord\<close> is its length.  The array
  of sections is the list of the sections completed; the section that is being filled is the
  element behind them.  Positions are 24-bit fields.

  The functions are there twice.  The first ones compute the values only: reading behind the
  record, or using a number that was never set, is \<open>Fail\<close>, and the arrays grow as needed.  The
  second ones, which have the names of the code, write into the arrays that were allocated:
  they test every write and stop with \<open>Write_behind\<close> where it is outside of its array.  That the
  two never differ is the content of \<^verbatim>\<open>Blob_Bounds\<close>.
\<close>

record coord2 =
  pos :: nat
  corder :: nat

record udm_section =
  Coord :: nat
  PackedCoord :: "byte list"
  url_id :: urlid_t
  ncoords :: nat
  seclen :: nat
  minpos :: nat
  maxpos :: nat
  secno :: nat
  wordnum :: nat
  order :: nat

record udm_sectionlist =
  mcoords :: nat
  sl_ncoords :: nat
  Coords :: "coord2 option list"
  msections :: nat
  Sections :: "udm_section list"

datatype 'a step = Fail | Break 'a | Next 'a

definition pos24 :: "nat \<Rightarrow> nat" where
  "pos24 n = n mod 16777216"

subsection \<open>Unpacking coordinates\<close>

text \<open>
  The two loops of \<open>packed_values\<close>, by the reader they use; the
  check \<open>s < e\<close> of the second is the case of the empty list.  The result is the array, the
  current coordinate and the end.
\<close>

fun coords_values ::
    "(byte list \<Rightarrow> (nat \<times> nat option) option) \<Rightarrow> byte list \<Rightarrow> nat \<Rightarrow> coord2 \<Rightarrow>
     coord2 option list \<Rightarrow> (coord2 option list \<times> coord2 \<times> byte list) option" where
  "coords_values get s 0 C coords = Some (coords, C, s)"
| "coords_values get s (Suc nrecs) C coords =
     (if s \<noteq> [] \<and> unat (hd s) < 128 then
        (let C = C\<lparr>pos := pos24 (pos C + unat (hd s))\<rparr>
         in coords_values get (tl s) nrecs C (coords @ [Some C]))
      else
        (case get s of
           None \<Rightarrow> None
         | Some (nbytes, crd) \<Rightarrow>
             if nbytes = 0 then Some (coords, C, s)
             else
               (case crd of
                  None \<Rightarrow> None
                | Some crd \<Rightarrow>
                    (let C = C\<lparr>pos := pos24 (pos C + crd)\<rparr>
                     in coords_values get (drop nbytes s) nrecs C (coords @ [Some C])))))"

definition packed_values ::
    "byte list \<Rightarrow> nat \<Rightarrow> coord2 \<Rightarrow> coord2 option list \<Rightarrow>
     (coord2 option list \<times> coord2 \<times> byte list) option" where
  "packed_values s nrecs C coords =
     (if nrecs * COORD_MAX_LEN < length s
      then coords_values udm_coord_get_quick s nrecs C coords
      else coords_values (\<lambda>s. Some (udm_coord_get s)) s nrecs C coords)"

text \<open>The variable \<open>crd\<close> keeps the sum when the reader of the section length stores nothing.\<close>

definition UdmBlobPackedCoordsUnpackMinMaxLen ::
    "byte list \<Rightarrow> nat \<Rightarrow> coord2 \<Rightarrow> coord2 option list \<Rightarrow> bool \<Rightarrow> udm_section \<Rightarrow>
     (coord2 option list \<times> coord2 \<times> udm_section \<times> byte list) option" where
  "UdmBlobPackedCoordsUnpackMinMaxLen s nrecs C coords save_section_size S =
     (if save_section_size then
        (case (if nrecs > 1
               then (case udm_coord_sum s (nrecs - 1) of
                       None \<Rightarrow> None
                     | Some (None, s) \<Rightarrow> None
                     | Some (Some crd, s) \<Rightarrow>
                         (let C = C\<lparr>pos := pos24 (pos C + crd)\<rparr>
                          in Some (s, Some crd, C, S\<lparr>maxpos := pos C\<rparr>)))
               else Some (s, None, C, S\<lparr>maxpos := pos C\<rparr>)) of
           None \<Rightarrow> None
         | Some (s, crd, C, S) \<Rightarrow>
             (let (nbytes, v) = udm_coord_get s in
              if nbytes \<noteq> 0 then
                (case (if v = None then crd else v) of
                   None \<Rightarrow> None
                 | Some crd \<Rightarrow>
                     (let C = C\<lparr>pos := pos24 (pos C + crd)\<rparr>
                      in Some (coords @ replicate nrecs None, C,
                               S\<lparr>seclen := pos C, ncoords := nrecs\<rparr>, drop nbytes s)))
              else Some (coords, C, S\<lparr>seclen := 0, ncoords := 0\<rparr>, s)))
      else
        (case udm_coord_sum s nrecs of
           None \<Rightarrow> None
         | Some (None, s) \<Rightarrow> None
         | Some (Some crd, s) \<Rightarrow>
             (let C = C\<lparr>pos := pos24 (pos C + crd)\<rparr>
              in Some (coords @ replicate (nrecs + 1) None, C,
                       S\<lparr>maxpos := pos C, seclen := 0, ncoords := nrecs + 1\<rparr>, s))))"

subsection \<open>The header\<close>

text \<open>
  The statistics are zeroed and filled from the header; the result is the number of bytes
  to skip.  A header shorter than its type says is outside the record.
\<close>

definition zero_stat :: word_stat where
  "zero_stat = \<lparr>cur_url_id = 0, min_url_id = 0, max_url_id = 0, max_url_id_delta = 0,
     range_min_url_id = 0, range_max_url_id = 0, ndistinct_url_ids_minus_one = 0,
     compression_type = 0, range_offset = 0, nranges = 0\<rparr>"

definition get_int4 :: "byte list \<Rightarrow> int" where
  "get_int4 s = udm_get_int4 (s ! 0) (s ! 1) (s ! 2) (s ! 3)"

definition UdmBlobCoordsGetCompressionType :: "byte list \<Rightarrow> (nat \<times> word_stat) option" where
  "UdmBlobCoordsGetCompressionType s =
     (let type = (if length s > 10 \<and> get_int4 s = -1
                  then nat (size_of_int (get_int4 (drop 4 s))) else 0);
          header_size = (if type AND 4294901760 \<noteq> 0 then 6 else 8 :: nat);
          type = type AND 65535;
          Stat = zero_stat\<lparr>compression_type := type\<rparr>;
          h = drop header_size s
      in if type = UDM_BLOB_COMP_SINGLE_RANGE then
           (if length h < 8 then None
            else Some (header_size + 8,
                   Stat\<lparr>min_url_id := get_int4 h, max_url_id := get_int4 (drop 4 h),
                        cur_url_id := get_int4 h\<rparr>))
         else if type = UDM_BLOB_COMP_URLID_DELTA_VARIABLE \<or> type = UDM_BLOB_COMP_URLID_DELTA_2BYTES \<or>
                 type = UDM_BLOB_COMP_URLID_DELTA_3BYTES then Some (header_size, Stat)
         else if type = UDM_BLOB_COMP_URLID_DELTA_2BYTES_WITH_OFFSET then
           (if length h < 2 then None
            else Some (header_size + 2, Stat\<lparr>cur_url_id := int4_of (push_bit 16 (udm_get_int2 h))\<rparr>))
         else if type = UDM_BLOB_COMP_URLID_DELTA_1BYTES_WITH_OFFSET then
           (if length h < 4 then None else Some (header_size + 4, Stat\<lparr>cur_url_id := get_int4 h\<rparr>))
         else if type = UDM_BLOB_COMP_URLID_RANGE_MULTI then
           (if length h < 4 then None
            else (let n = nat (size_of_int (get_int4 h))
                  in Some (header_size + 4 + 8 * n,
                           Stat\<lparr>nranges := n, range_offset := header_size + 4\<rparr>)))
         else Some (0, Stat))"

definition UdmExpectedSectionCount :: "nat \<Rightarrow> nat \<Rightarrow> nat" where
  "UdmExpectedSectionCount type n =
     (if type = UDM_BLOB_COMP_NONE then n div 6
      else if type = UDM_BLOB_COMP_URLID_DELTA_VARIABLE then n div 3
      else if type = UDM_BLOB_COMP_SINGLE_RANGE \<or> type = UDM_BLOB_COMP_URLID_RANGE_MULTI then n div 2
      else if type = UDM_BLOB_COMP_URLID_DELTA_1BYTES_WITH_OFFSET then n div 3
      else if type = UDM_BLOB_COMP_URLID_DELTA_2BYTES \<or>
              type = UDM_BLOB_COMP_URLID_DELTA_2BYTES_WITH_OFFSET then n div 4
      else if type = UDM_BLOB_COMP_URLID_DELTA_3BYTES then n div 5
      else n)"

text \<open>With no coordinates nothing is allocated.\<close>

definition UdmSectionListAlloc :: "nat \<Rightarrow> nat \<Rightarrow> udm_sectionlist" where
  "UdmSectionListAlloc nc ns =
     (if nc = 0 then \<lparr>mcoords = 0, sl_ncoords = 0, Coords = [], msections = 0, Sections = []\<rparr>
      else \<lparr>mcoords = nc, sl_ncoords = 0, Coords = [], msections = ns, Sections = []\<rparr>)"

subsection \<open>The loop over the documents\<close>

record unpack_state =
  us_s :: "byte list"
  us_stat :: word_stat
  us_range_ptr :: "byte list"
  us_coords :: "coord2 option list"
  us_sections :: "udm_section list"
  us_ncoords :: nat

text \<open>
  The identifier of the next document.  A type the code does not know leaves
  \<open>Section->url_id\<close> as the allocator returned it, which is \<open>Fail\<close>.
\<close>

definition next_delta :: "unpack_state \<Rightarrow> nat \<Rightarrow> nat \<Rightarrow> (urlid_t \<times> unpack_state) step" where
  "next_delta st n delta =
     (let uid = int4_of (cur_url_id (us_stat st) + int delta)
      in Next (uid, st\<lparr>us_s := drop n (us_s st), us_stat := (us_stat st)\<lparr>cur_url_id := uid\<rparr>\<rparr>))"

definition next_url_id :: "unpack_state \<Rightarrow> (urlid_t \<times> unpack_state) step" where
  "next_url_id st =
     (let Stat = us_stat st; s = us_s st; type = compression_type Stat in
      if type \<noteq> 0 then
        (if type = UDM_BLOB_COMP_SINGLE_RANGE then
           Next (cur_url_id Stat,
                 st\<lparr>us_stat := Stat\<lparr>cur_url_id := int4_of (cur_url_id Stat + 1)\<rparr>\<rparr>)
         else if type = UDM_BLOB_COMP_URLID_RANGE_MULTI then
           (if cur_url_id Stat = range_max_url_id Stat \<and> nranges Stat \<noteq> 0 then
              (if length (us_range_ptr st) < 8 then Fail
               else
                 (let lo = get_int4 (us_range_ptr st); hi = get_int4 (drop 4 (us_range_ptr st))
                  in Next (lo, st\<lparr>us_range_ptr := drop 8 (us_range_ptr st),
                                  us_stat := Stat\<lparr>nranges := nranges Stat - 1,
                                                  range_min_url_id := lo, range_max_url_id := hi,
                                                  cur_url_id := lo\<rparr>\<rparr>)))
            else
              (let Stat = (if cur_url_id Stat = range_max_url_id Stat
                           then Stat\<lparr>nranges := 2 ^ 64 - 1\<rparr> else Stat);
                   uid = int4_of (cur_url_id Stat + 1)
               in Next (uid, st\<lparr>us_stat := Stat\<lparr>cur_url_id := uid\<rparr>\<rparr>)))
         else if type = UDM_BLOB_COMP_URLID_DELTA_VARIABLE then
           (case udm_coord_get s of
              (nbytes, v) \<Rightarrow>
                if nbytes = 0 then Break (0, st)
                else (case v of None \<Rightarrow> Fail | Some delta \<Rightarrow> next_delta st nbytes delta))
         else if type = UDM_BLOB_COMP_URLID_DELTA_1BYTES_WITH_OFFSET then
           (if s = [] then Fail else next_delta st 1 (unat (hd s)))
         else if type = UDM_BLOB_COMP_URLID_DELTA_2BYTES \<or>
                 type = UDM_BLOB_COMP_URLID_DELTA_2BYTES_WITH_OFFSET then
           (if length s < 2 then Fail else next_delta st 2 (nat (udm_get_int2 s)))
         else if type = UDM_BLOB_COMP_URLID_DELTA_3BYTES then
           (if length s < 3 then Fail else next_delta st 3 (nat (udm_get_int3 s)))
         else Fail)
      else if length s < 4 then Fail
      else Next (get_int4 s, st\<lparr>us_s := drop 4 s\<rparr>))"

text \<open>One number, read the quick way when it is one byte.\<close>

definition get_number :: "byte list \<Rightarrow> (nat \<times> byte list) step" where
  "get_number s =
     (if s = [] then Fail
      else if unat (hd s) < 128 then Next (unat (hd s), tl s)
      else
        (case udm_coord_get s of
           (nbytes, v) \<Rightarrow>
             if nbytes = 0 then Break (0, s)
             else (case v of None \<Rightarrow> Fail | Some n \<Rightarrow> Next (n, drop nbytes s))))"

definition url_active :: "udm_urlid_list \<Rightarrow> urlid_t \<Rightarrow> bool" where
  "url_active us uid =
     (if urls us = [] then True
      else (let found = UdmBSearch UdmCmpURLID uid (urls us) \<noteq> None
            in \<not> (found \<and> exclude us) \<and> \<not> (\<not> found \<and> \<not> exclude us)))"

definition add_section :: "udm_section \<Rightarrow> unpack_state \<Rightarrow> unpack_state" where
  "add_section S st = st\<lparr>us_sections := us_sections st @ [S]\<rparr>"

text \<open>The rest of the loop's body, once the first coordinate is read into \<open>C\<close>: \<open>nrecs\<close> is
  the number of coordinates left.\<close>

definition rest_values ::
    "bool \<Rightarrow> bool \<Rightarrow> udm_section \<Rightarrow> coord2 \<Rightarrow> nat \<Rightarrow> unpack_state \<Rightarrow> unpack_state step" where
  "rest_values save_section_size need_coords S C nrecs st =
     (if nrecs = 0 then
        Next (add_section (S\<lparr>seclen := pos C, ncoords := 1, maxpos := pos C\<rparr>)
                (st\<lparr>us_coords := us_coords st @ [if need_coords then Some C else None]\<rparr>))
      else if \<not> need_coords then
        (case UdmBlobPackedCoordsUnpackMinMaxLen (us_s st) nrecs C (us_coords st) save_section_size S of
           None \<Rightarrow> Fail
         | Some (coords, C, S, s) \<Rightarrow> Next (add_section S (st\<lparr>us_coords := coords, us_s := s\<rparr>)))
      else
        (case packed_values (us_s st) nrecs C (us_coords st @ [Some C]) of
           None \<Rightarrow> Fail
         | Some (coords, C, s) \<Rightarrow>
             (let nrecs = length coords - Coord S in
              if save_section_size then
                (case last coords of
                   None \<Rightarrow> Fail
                 | Some C1 \<Rightarrow>
                     (let coords = butlast coords in
                      if coords = [] then Fail
                      else
                        (case last coords of
                           None \<Rightarrow> Fail
                         | Some C2 \<Rightarrow>
                             Next (add_section (S\<lparr>seclen := pos C1, ncoords := nrecs - 1, maxpos := pos C2\<rparr>)
                                     (st\<lparr>us_coords := coords, us_s := s\<rparr>)))))
              else
                Next (add_section (S\<lparr>seclen := 0, ncoords := nrecs, maxpos := pos C\<rparr>)
                        (st\<lparr>us_coords := coords, us_s := s\<rparr>)))))"

definition new_section :: "udm_section \<Rightarrow> nat \<Rightarrow> urlid_t \<Rightarrow> byte list \<Rightarrow> nat \<Rightarrow> udm_section" where
  "new_section T c uid packed minp =
     \<lparr>Coord = c, PackedCoord = packed, url_id = uid, ncoords = 0, seclen = 0, minpos = minp,
      maxpos = 0, secno = secno T, wordnum = wordnum T, order = order T\<rparr>"

definition doc_values ::
    "udm_urlid_list \<Rightarrow> udm_section \<Rightarrow> bool \<Rightarrow> bool \<Rightarrow> unpack_state \<Rightarrow> unpack_state step" where
  "doc_values us T save_section_size need_coords st =
     (case next_url_id st of
        Fail \<Rightarrow> Fail
      | Break (_, st) \<Rightarrow> Break st
      | Next (uid, st) \<Rightarrow>
          (case get_number (us_s st) of
             Fail \<Rightarrow> Fail
           | Break _ \<Rightarrow> Break st
           | Next (nrecs, s) \<Rightarrow>
               if nrecs = 0 then Break (st\<lparr>us_s := s\<rparr>)
               else if \<not> url_active us uid then Next (st\<lparr>us_s := udm_coord_skip s nrecs\<rparr>)
               else
                 (let st = st\<lparr>us_ncoords := us_ncoords st + nrecs -
                                (if save_section_size \<and> nrecs > 1 then 1 else 0)\<rparr>
                  in case get_number s of
                       Fail \<Rightarrow> Fail
                     | Break _ \<Rightarrow> Break (st\<lparr>us_s := s\<rparr>)
                     | Next (crd, s1) \<Rightarrow>
                         rest_values save_section_size need_coords
                           (new_section T (length (us_coords st)) uid s (pos24 crd))
                           \<lparr>pos = pos24 crd, corder = order T\<rparr> (nrecs - 1) (st\<lparr>us_s := s1\<rparr>))))"

subsection \<open>The loop ends\<close>

lemma sum_loop_length:
  "sum_loop get n s tmp acc = Some (v, s') \<Longrightarrow> length s' \<le> length s"
proof (induction get n s tmp acc rule: sum_loop.induct)
  case (2 get n s tmp acc)
  then show ?case
    by (auto split: option.splits prod.splits if_splits simp: Let_def)
      (meson diff_le_self le_trans)+
qed simp

lemma sum_leading_length: "length (fst (sum_leading s n acc)) \<le> length s"
  by (induction s n acc rule: sum_leading.induct) auto

lemma udm_coord_sum_length: "udm_coord_sum s n = Some (v, s') \<Longrightarrow> length s' \<le> length s"
  using sum_leading_length [of s n 0]
  by (auto simp: udm_coord_sum_def split: if_splits prod.splits dest!: sum_loop_length)

lemma udm_coord_skip_length: "length (udm_coord_skip s n) \<le> length s"
  by (induction s n rule: udm_coord_skip.induct) auto

lemma coords_values_length:
  "coords_values get s n C cs = Some (cs', C', s') \<Longrightarrow> length s' \<le> length s"
proof (induction get s n C cs rule: coords_values.induct)
  case (2 get s n C cs)
  then show ?case
    by (auto split: option.splits prod.splits if_splits simp: Let_def)
      (meson diff_le_self le_trans)+
qed simp

lemma MinMaxLen_length:
  "UdmBlobPackedCoordsUnpackMinMaxLen s n C cs save S = Some (cs', C', S', s') \<Longrightarrow>
   length s' \<le> length s"
  by (auto simp: UdmBlobPackedCoordsUnpackMinMaxLen_def Let_def
      split: option.splits prod.splits if_splits dest!: udm_coord_sum_length)

lemma get_number_length: "get_number s = Next (n, s') \<Longrightarrow> length s' < length s"
  by (auto simp: get_number_def split: if_splits prod.splits option.splits)

lemma next_url_id_length: "next_url_id st = Next (uid, st') \<Longrightarrow> length (us_s st') \<le> length (us_s st)"
  by (auto simp: next_url_id_def next_delta_def Let_def split: if_splits prod.splits option.splits)

lemma rest_values_length:
  "rest_values save need S C n st = Next st' \<Longrightarrow> length (us_s st') \<le> length (us_s st)"
  by (auto simp: rest_values_def add_section_def Let_def packed_values_def
      split: if_splits prod.splits option.splits dest!: coords_values_length MinMaxLen_length)

lemma doc_values_length:
  assumes "doc_values us T save need st = Next st'"
  shows "length (us_s st') < length (us_s st)"
proof -
  from assms obtain uid st1 where 1: "next_url_id st = Next (uid, st1)"
    by (auto simp: doc_values_def split: step.splits)
  from assms 1 obtain n s where 2: "get_number (us_s st1) = Next (n, s)"
    by (auto simp: doc_values_def split: step.splits)
  have le: "length s < length (us_s st)"
    using next_url_id_length [OF 1] get_number_length [OF 2] by simp
  show ?thesis
  proof (cases "url_active us uid")
    case False
    with assms 1 2 have "st' = st1\<lparr>us_s := udm_coord_skip s n\<rparr>"
      by (auto simp: doc_values_def split: if_splits)
    with udm_coord_skip_length [of s n] le show ?thesis by simp
  next
    case True
    with assms 1 2 obtain m s1 where 3: "get_number s = Next (m, s1)"
      by (auto simp: doc_values_def Let_def split: step.splits if_splits)
    from assms 1 2 3 True have "\<exists>S C k st2. rest_values save need S C k st2 = Next st' \<and> us_s st2 = s1"
      by (fastforce simp: doc_values_def Let_def split: if_splits)
    with rest_values_length get_number_length [OF 3] le show ?thesis by fastforce
  qed
qed

text \<open>\<open>keep\<close> is the number of bytes between \<open>last_urlid_start\<close> and the end.\<close>

function loop_values ::
    "udm_urlid_list \<Rightarrow> udm_section \<Rightarrow> bool \<Rightarrow> bool \<Rightarrow> nat \<Rightarrow> unpack_state \<Rightarrow> unpack_state option" where
  "loop_values us T save_section_size need_coords keep st =
     (if keep < length (us_s st) then
        (case doc_values us T save_section_size need_coords st of
           Fail \<Rightarrow> None
         | Break st \<Rightarrow> Some st
         | Next st \<Rightarrow> loop_values us T save_section_size need_coords keep st)
      else Some st)"
  by pat_completeness auto
termination
  by (relation "measure (\<lambda>(us, T, save, need, keep, st). length (us_s st))")
    (auto dest: doc_values_length)

declare loop_values.simps [simp del]

definition record_values ::
    "udm_urlid_list \<Rightarrow> udm_section \<Rightarrow> byte list \<Rightarrow> bool \<Rightarrow> bool \<Rightarrow> udm_sectionlist option" where
  "record_values us SectionTemplate s save_section_size need_coords =
     (case UdmBlobCoordsGetCompressionType s of
        None \<Rightarrow> None
      | Some (hdr, Stat) \<Rightarrow>
          (let type = compression_type Stat;
               keep = (if type = UDM_BLOB_COMP_SINGLE_RANGE \<or> type = UDM_BLOB_COMP_URLID_RANGE_MULTI
                       then 1 else 5);
               List = UdmSectionListAlloc (length s) (UdmExpectedSectionCount type (length s));
               st = \<lparr>us_s = drop hdr s, us_stat = Stat, us_range_ptr = drop (range_offset Stat) s,
                     us_coords = [], us_sections = [], us_ncoords = 0\<rparr>
           in case loop_values us SectionTemplate save_section_size need_coords keep st of
                None \<Rightarrow> None
              | Some st \<Rightarrow> Some (List\<lparr>sl_ncoords := us_ncoords st, Coords := us_coords st,
                                      Sections := us_sections st\<rparr>)))"

subsection \<open>The same with the arrays that are allocated\<close>

datatype 'a run = Read_behind | Write_behind | Halt 'a | Go 'a

fun unpack_coords ::
    "nat \<Rightarrow> (byte list \<Rightarrow> (nat \<times> nat option) option) \<Rightarrow> byte list \<Rightarrow> nat \<Rightarrow> coord2 \<Rightarrow>
     coord2 option list \<Rightarrow> (coord2 option list \<times> coord2 \<times> byte list) run" where
  "unpack_coords room get s 0 C coords = Go (coords, C, s)"
| "unpack_coords room get s (Suc nrecs) C coords =
     (if s \<noteq> [] \<and> unat (hd s) < 128 then
        (let C = C\<lparr>pos := pos24 (pos C + unat (hd s))\<rparr>
         in if length coords < room then unpack_coords room get (tl s) nrecs C (coords @ [Some C])
            else Write_behind)
      else
        (case get s of
           None \<Rightarrow> Read_behind
         | Some (nbytes, crd) \<Rightarrow>
             if nbytes = 0 then Go (coords, C, s)
             else
               (case crd of
                  None \<Rightarrow> Read_behind
                | Some crd \<Rightarrow>
                    (let C = C\<lparr>pos := pos24 (pos C + crd)\<rparr>
                     in if length coords < room
                        then unpack_coords room get (drop nbytes s) nrecs C (coords @ [Some C])
                        else Write_behind))))"

definition UdmBlobPackedCoordsToUnpackedCoords ::
    "nat \<Rightarrow> byte list \<Rightarrow> nat \<Rightarrow> coord2 \<Rightarrow> coord2 option list \<Rightarrow>
     (coord2 option list \<times> coord2 \<times> byte list) run" where
  "UdmBlobPackedCoordsToUnpackedCoords room s nrecs C coords =
     (if nrecs * COORD_MAX_LEN < length s
      then unpack_coords room udm_coord_get_quick s nrecs C coords
      else unpack_coords room (\<lambda>s. Some (udm_coord_get s)) s nrecs C coords)"

text \<open>
  The loop's body once the first coordinate is read.  Without \<open>need_coords\<close> the pointer
  \<open>Coord\<close> is moved but nothing is written through it.
\<close>

definition unpack_rest ::
    "nat \<Rightarrow> bool \<Rightarrow> bool \<Rightarrow> udm_section \<Rightarrow> coord2 \<Rightarrow> nat \<Rightarrow> unpack_state \<Rightarrow> unpack_state run" where
  "unpack_rest room save_section_size need_coords S C nrecs st =
     (if nrecs = 0 then
        (if need_coords \<and> \<not> length (us_coords st) < room then Write_behind
         else Go (add_section (S\<lparr>seclen := pos C, ncoords := 1, maxpos := pos C\<rparr>)
                (st\<lparr>us_coords := us_coords st @ [if need_coords then Some C else None]\<rparr>)))
      else if \<not> need_coords then
        (case UdmBlobPackedCoordsUnpackMinMaxLen (us_s st) nrecs C (us_coords st) save_section_size S of
           None \<Rightarrow> Read_behind
         | Some (coords, C, S, s) \<Rightarrow> Go (add_section S (st\<lparr>us_coords := coords, us_s := s\<rparr>)))
      else if \<not> length (us_coords st) < room then Write_behind
      else
        (case UdmBlobPackedCoordsToUnpackedCoords room (us_s st) nrecs C (us_coords st @ [Some C]) of
           Read_behind \<Rightarrow> Read_behind
         | Write_behind \<Rightarrow> Write_behind
         | Halt _ \<Rightarrow> Read_behind
         | Go (coords, C, s) \<Rightarrow>
             (let nrecs = length coords - Coord S in
              if save_section_size then
                (case last coords of
                   None \<Rightarrow> Read_behind
                 | Some C1 \<Rightarrow>
                     (let coords = butlast coords in
                      if coords = [] then Read_behind
                      else
                        (case last coords of
                           None \<Rightarrow> Read_behind
                         | Some C2 \<Rightarrow>
                             Go (add_section (S\<lparr>seclen := pos C1, ncoords := nrecs - 1, maxpos := pos C2\<rparr>)
                                     (st\<lparr>us_coords := coords, us_s := s\<rparr>)))))
              else
                Go (add_section (S\<lparr>seclen := 0, ncoords := nrecs, maxpos := pos C\<rparr>)
                        (st\<lparr>us_coords := coords, us_s := s\<rparr>)))))"

text \<open>Each run of the body begins with a write to the section behind those completed.\<close>

definition unpack_doc ::
    "nat \<Rightarrow> nat \<Rightarrow> udm_urlid_list \<Rightarrow> udm_section \<Rightarrow> bool \<Rightarrow> bool \<Rightarrow> unpack_state \<Rightarrow> unpack_state run" where
  "unpack_doc room sections us T save_section_size need_coords st =
     (if \<not> length (us_sections st) < sections then Write_behind
      else
        (case next_url_id st of
           Fail \<Rightarrow> Read_behind
         | Break (_, st) \<Rightarrow> Halt st
         | Next (uid, st) \<Rightarrow>
             (case get_number (us_s st) of
                Fail \<Rightarrow> Read_behind
              | Break _ \<Rightarrow> Halt st
              | Next (nrecs, s) \<Rightarrow>
                  if nrecs = 0 then Halt (st\<lparr>us_s := s\<rparr>)
                  else if \<not> url_active us uid then Go (st\<lparr>us_s := udm_coord_skip s nrecs\<rparr>)
                  else
                    (let st = st\<lparr>us_ncoords := us_ncoords st + nrecs -
                                   (if save_section_size \<and> nrecs > 1 then 1 else 0)\<rparr>
                     in case get_number s of
                          Fail \<Rightarrow> Read_behind
                        | Break _ \<Rightarrow> Halt (st\<lparr>us_s := s\<rparr>)
                        | Next (crd, s1) \<Rightarrow>
                            unpack_rest room save_section_size need_coords
                              (new_section T (length (us_coords st)) uid s (pos24 crd))
                              \<lparr>pos = pos24 crd, corder = order T\<rparr> (nrecs - 1) (st\<lparr>us_s := s1\<rparr>)))))"

text \<open>A run with the arrays stops at a write behind one of them or computes the values.\<close>

fun run_of :: "'a step \<Rightarrow> 'a run" where
  "run_of Fail = Read_behind"
| "run_of (Break a) = Halt a"
| "run_of (Next a) = Go a"

definition run_computes :: "'a run \<Rightarrow> 'a step \<Rightarrow> bool" where
  "run_computes r v \<longleftrightarrow> r = Write_behind \<or> r = run_of v"

definition step_of :: "'a option \<Rightarrow> 'a step" where
  "step_of x = (case x of None \<Rightarrow> Fail | Some a \<Rightarrow> Next a)"

lemma step_of_simps [simp]: "step_of None = Fail" "step_of (Some a) = Next a"
  by (simp_all add: step_of_def)

lemma unpack_coords_computes:
  "run_computes (unpack_coords room get s n C cs) (step_of (coords_values get s n C cs))"
  by (induction room get s n C cs rule: unpack_coords.induct)
    (auto simp: run_computes_def Let_def split: option.splits)

lemma unpack_packed_computes:
  "run_computes (UdmBlobPackedCoordsToUnpackedCoords room s n C cs) (step_of (packed_values s n C cs))"
  by (simp add: UdmBlobPackedCoordsToUnpackedCoords_def packed_values_def unpack_coords_computes)

lemma unpack_rest_computes:
  "run_computes (unpack_rest room save need S C n st) (rest_values save need S C n st)"
proof (cases "n \<noteq> 0 \<and> need")
  case True
  with unpack_packed_computes [of room "us_s st" n C "us_coords st @ [Some C]"] show ?thesis
    by (auto simp: run_computes_def unpack_rest_def rest_values_def Let_def split: option.splits prod.splits)
qed (auto simp: run_computes_def unpack_rest_def rest_values_def split: option.splits prod.splits)

lemma unpack_doc_computes:
  "run_computes (unpack_doc room sections us T save need st) (doc_values us T save need st)"
  using unpack_rest_computes
  by (auto simp: unpack_doc_def doc_values_def Let_def run_computes_def split: step.splits)

lemma unpack_doc_length:
  assumes "unpack_doc room sections us T save need st = Go st'"
  shows "length (us_s st') < length (us_s st)"
proof -
  from unpack_doc_computes [of room sections us T save need st] assms
  have "doc_values us T save need st = Next st'"
    by (cases "doc_values us T save need st") (auto simp: run_computes_def)
  then show ?thesis by (rule doc_values_length)
qed

function unpack_loop ::
    "nat \<Rightarrow> nat \<Rightarrow> udm_urlid_list \<Rightarrow> udm_section \<Rightarrow> bool \<Rightarrow> bool \<Rightarrow> nat \<Rightarrow> unpack_state \<Rightarrow> unpack_state run" where
  "unpack_loop room sections us T save_section_size need_coords keep st =
     (if keep < length (us_s st) then
        (case unpack_doc room sections us T save_section_size need_coords st of
           Read_behind \<Rightarrow> Read_behind
         | Write_behind \<Rightarrow> Write_behind
         | Halt st \<Rightarrow> Go st
         | Go st \<Rightarrow> unpack_loop room sections us T save_section_size need_coords keep st)
      else Go st)"
  by pat_completeness auto
termination
  by (relation "measure (\<lambda>(room, sections, us, T, save, need, keep, st). length (us_s st))")
    (auto dest: unpack_doc_length)

declare unpack_loop.simps [simp del]

definition UdmSectionListBlobCoordsUnpack ::
    "udm_urlid_list \<Rightarrow> udm_section \<Rightarrow> byte list \<Rightarrow> bool \<Rightarrow> bool \<Rightarrow> udm_sectionlist run" where
  "UdmSectionListBlobCoordsUnpack us SectionTemplate s save_section_size need_coords =
     (case UdmBlobCoordsGetCompressionType s of
        None \<Rightarrow> Read_behind
      | Some (hdr, Stat) \<Rightarrow>
          (let type = compression_type Stat;
               keep = (if type = UDM_BLOB_COMP_SINGLE_RANGE \<or> type = UDM_BLOB_COMP_URLID_RANGE_MULTI
                       then 1 else 5);
               List = UdmSectionListAlloc (length s) (UdmExpectedSectionCount type (length s));
               st = \<lparr>us_s = drop hdr s, us_stat = Stat, us_range_ptr = drop (range_offset Stat) s,
                     us_coords = [], us_sections = [], us_ncoords = 0\<rparr>
           in case unpack_loop (mcoords List) (msections List) us SectionTemplate save_section_size need_coords keep st of
                Read_behind \<Rightarrow> Read_behind
              | Write_behind \<Rightarrow> Write_behind
              | Halt st \<Rightarrow> Read_behind
              | Go st \<Rightarrow> Go (List\<lparr>sl_ncoords := us_ncoords st, Coords := us_coords st,
                                      Sections := us_sections st\<rparr>)))"

end
