(* ===== verification/Blob_Bounds.thy ===== *)
theory Blob_Bounds
  imports Blob_Unpack
begin

text \<open>
  \<^verbatim>\<open>src/dbmode-blob.c\<close>: the arrays \<open>UdmSectionListBlobCoordsUnpack\<close> allocates from the
  length of the record alone are large enough for every record, well-formed or not, so that the
  functions that test every write compute the values of those that test none
  (\<open>unpack_values\<close>).  Every
  iteration takes at least the bytes \<open>UdmExpectedSectionCount\<close> divides by, and at least one
  byte for every element of the array of coordinates it passes.
\<close>

definition reads_input :: "(byte list \<Rightarrow> (nat \<times> nat option) option) \<Rightarrow> bool" where
  "reads_input get \<longleftrightarrow> (\<forall>s n v. get s = Some (n, v) \<longrightarrow> n \<noteq> 0 \<longrightarrow> s \<noteq> [])"

lemma reads_input_get: "reads_input (\<lambda>s. Some (udm_coord_get s))" "reads_input udm_coord_get_quick"
  by (auto simp: reads_input_def udm_coord_get_def udm_coord_get_quick_def)

lemma length_drop_less: "n \<noteq> 0 \<Longrightarrow> s \<noteq> [] \<Longrightarrow> Suc (length (drop n s)) \<le> length s"
  by (cases s) auto

lemma sum_loop_consumes:
  "reads_input get \<Longrightarrow> sum_loop get n s tmp acc = Some (Some v, s') \<Longrightarrow> length s' + n \<le> length s"
proof (induction get n s tmp acc rule: sum_loop.induct)
  case (2 get n s tmp acc)
  from 2(3) obtain nb w t where g: "get s = Some (nb, w)" "nb \<noteq> 0"
    and t: "(if w = None then tmp else w) = Some t"
    and r: "sum_loop get n (drop nb s) (if w = None then tmp else w) (acc + t) = Some (Some v, s')"
    by (auto split: option.splits prod.splits if_splits simp: Let_def)
  from 2(1) [OF g(1) refl g(2) refl t 2(2) r] have "length s' + n \<le> length (drop nb s)" .
  moreover have "Suc (length (drop nb s)) \<le> length s"
    using length_drop_less [OF g(2)] 2(2) g by (auto simp: reads_input_def)
  ultimately show ?case by simp
qed simp

lemma sum_leading_consumes:
  "sum_leading s n acc = (s', n', acc') \<Longrightarrow> length s' + n = length s + n'"
  by (induction s n acc rule: sum_leading.induct) (auto split: if_splits)

lemma udm_coord_sum_consumes:
  assumes "udm_coord_sum s n = Some (Some v, s')"
  shows "length s' + n \<le> length s"
proof (cases "length s < n * 4")
  case True
  with assms sum_loop_consumes [OF reads_input_get(1)] show ?thesis
    by (auto simp: udm_coord_sum_def)
next
  case False
  obtain s1 n1 a1 where l: "sum_leading s n 0 = (s1, n1, a1)" by (cases "sum_leading s n 0")
  with assms False have "sum_loop udm_coord_get_quick n1 s1 None a1 = Some (Some v, s')"
    by (simp add: udm_coord_sum_def)
  from sum_loop_consumes [OF reads_input_get(2) this] sum_leading_consumes [OF l]
  show ?thesis by simp
qed

lemma unpack_coords_consumes:
  "reads_input get \<Longrightarrow> coords_values get s n C cs = Some (cs', C', s') \<Longrightarrow>
   length cs' + length s' \<le> length cs + length s \<and> length cs \<le> length cs'"
proof (induction get s n C cs rule: coords_values.induct)
  case (2 get s n C cs)
  show ?case
  proof (cases "s \<noteq> [] \<and> unat (hd s) < 128")
    case True
    with 2(1) [OF True refl 2(3)] 2(4) show ?thesis by (cases s) (auto simp: Let_def)
  next
    case False
    with 2(4) obtain nb w where g: "get s = Some (nb, w)"
      by (auto split: option.splits)
    show ?thesis
    proof (cases "nb = 0")
      case True
      with g 2(4) False show ?thesis by (auto split: if_splits)
    next
      case nb: False
      with g 2(4) False obtain crd where w: "w = Some crd"
        by (cases w) (auto split: if_splits)
      have "Suc (length (drop nb s)) \<le> length s"
        using length_drop_less [OF nb] 2(3) g nb by (auto simp: reads_input_def)
      with 2(2) [OF False g refl nb w refl 2(3)] 2(4) False g nb w show ?thesis
        by (fastforce simp: Let_def)
    qed
  qed
qed simp

lemma udm_coord_get_consumes:
  "fst (udm_coord_get s) \<noteq> 0 \<Longrightarrow> Suc (length (drop (fst (udm_coord_get s)) s)) \<le> length s"
  by (rule length_drop_less) (auto simp: udm_coord_get_def)

lemma MinMaxLen_consumes:
  assumes "UdmBlobPackedCoordsUnpackMinMaxLen s n C cs save S = Some (cs', C', S', s')" "0 < n"
  shows "length cs' + length s' \<le> Suc (length cs + length s)"
proof (cases save)
  case False
  with assms obtain crd where "udm_coord_sum s n = Some (Some crd, s')" "length cs' = length cs + n + 1"
    by (auto simp: UdmBlobPackedCoordsUnpackMinMaxLen_def Let_def split: option.splits prod.splits)
  with udm_coord_sum_consumes show ?thesis by fastforce
next
  case True
  have "\<exists>s1. length s1 + (n - 1) \<le> length s \<and>
      (fst (udm_coord_get s1) \<noteq> 0 \<and> s' = drop (fst (udm_coord_get s1)) s1 \<and> length cs' = length cs + n \<or>
       s' = s1 \<and> cs' = cs)"
  proof (cases "n > 1")
    case True
    with \<open>save\<close> assms show ?thesis
      by (fastforce simp: UdmBlobPackedCoordsUnpackMinMaxLen_def Let_def
          split: option.splits prod.splits if_splits dest: udm_coord_sum_consumes)
  next
    case False
    with \<open>save\<close> assms show ?thesis
      by (intro exI [of _ s]) (auto simp: UdmBlobPackedCoordsUnpackMinMaxLen_def Let_def
          split: option.splits prod.splits if_splits)
  qed
  then obtain s1 where s1: "length s1 + (n - 1) \<le> length s"
    "fst (udm_coord_get s1) \<noteq> 0 \<and> s' = drop (fst (udm_coord_get s1)) s1 \<and> length cs' = length cs + n \<or>
     s' = s1 \<and> cs' = cs" by blast
  from s1(2) show ?thesis
  proof
    assume "fst (udm_coord_get s1) \<noteq> 0 \<and> s' = drop (fst (udm_coord_get s1)) s1 \<and> length cs' = length cs + n"
    then have "Suc (length s') \<le> length s1" "length cs' = length cs + n"
      using udm_coord_get_consumes [of s1] by auto
    with s1(1) assms(2) show ?thesis by linarith
  next
    assume "s' = s1 \<and> cs' = cs"
    with s1(1) show ?thesis by simp
  qed
qed

lemma unpack_rest_consumes:
  assumes "rest_values save need S C n st = Next st'"
  shows "length (us_coords st') + length (us_s st') \<le> Suc (length (us_coords st) + length (us_s st))"
    and "length (us_sections st') = Suc (length (us_sections st))" "us_stat st' = us_stat st"
proof -
  have "length (us_coords st') + length (us_s st') \<le> Suc (length (us_coords st) + length (us_s st))"
    if "n = 0"
    using assms that by (auto simp: rest_values_def add_section_def)
  moreover have "us_stat st' = us_stat st \<and> length (us_sections st') = Suc (length (us_sections st))"
    using assms by (auto simp: rest_values_def add_section_def Let_def
        split: if_splits option.splits prod.splits)
  moreover have "length (us_coords st') + length (us_s st') \<le> Suc (length (us_coords st) + length (us_s st))"
    if "n \<noteq> 0" "\<not> need"
    using assms that by (auto simp: rest_values_def add_section_def
        split: option.splits prod.splits dest!: MinMaxLen_consumes)
  moreover have "length (us_coords st') + length (us_s st') \<le> Suc (length (us_coords st) + length (us_s st))"
    if "n \<noteq> 0" need
  proof -
    from assms that obtain cs C' s' where
      u: "packed_values (us_s st) n C (us_coords st @ [Some C]) = Some (cs, C', s')"
      and st': "length (us_coords st') \<le> length cs" "us_s st' = s'"
      by (auto simp: rest_values_def add_section_def Let_def split: option.splits if_splits prod.splits)
    from u have "length cs + length s' \<le> length (us_coords st @ [Some C]) + length (us_s st)"
      using unpack_coords_consumes [OF reads_input_get(1)] unpack_coords_consumes [OF reads_input_get(2)]
      by (fastforce simp: packed_values_def split: if_splits)
    with st' show ?thesis by simp
  qed
  ultimately show "length (us_coords st') + length (us_s st') \<le> Suc (length (us_coords st) + length (us_s st))"
    "length (us_sections st') = Suc (length (us_sections st))" "us_stat st' = us_stat st"
    by blast+
qed

text \<open>The least number of bytes of a document for each type of compression.\<close>

definition doc_size :: "nat \<Rightarrow> nat" where
  "doc_size type =
     (if type = UDM_BLOB_COMP_NONE then 6
      else if type = UDM_BLOB_COMP_SINGLE_RANGE \<or> type = UDM_BLOB_COMP_URLID_RANGE_MULTI then 2
      else if type = UDM_BLOB_COMP_URLID_DELTA_2BYTES \<or>
              type = UDM_BLOB_COMP_URLID_DELTA_2BYTES_WITH_OFFSET then 4
      else if type = UDM_BLOB_COMP_URLID_DELTA_3BYTES then 5 else 3)"

lemma next_url_id_consumes:
  assumes "next_url_id st = Next (uid, st')"
  shows "length (us_s st') + doc_size (compression_type (us_stat st)) \<le> length (us_s st) + 2"
    and "compression_type (us_stat st') = compression_type (us_stat st)"
    and "us_coords st' = us_coords st" "us_sections st' = us_sections st"
proof -
  have get: "n \<noteq> 0 \<Longrightarrow> udm_coord_get s = (n, v) \<Longrightarrow> s \<noteq> []" for n v s
    by (auto simp: udm_coord_get_def)
  have dr: "n \<noteq> 0 \<Longrightarrow> s \<noteq> [] \<Longrightarrow> length s - n + 3 \<le> length s + 2" for n and s :: "byte list"
    using length_drop_less [of n s] by simp
  show "length (us_s st') + doc_size (compression_type (us_stat st)) \<le> length (us_s st) + 2"
    using assms dr get
    by (fastforce simp: next_url_id_def next_delta_def Let_def doc_size_def comp_defs
        split: if_splits prod.splits option.splits)
  show "compression_type (us_stat st') = compression_type (us_stat st)"
    "us_coords st' = us_coords st" "us_sections st' = us_sections st"
    using assms by (auto simp: next_url_id_def next_delta_def Let_def
        split: if_splits prod.splits option.splits)
qed

lemma next_url_id_Break:
  "next_url_id st = Break (uid, st') \<Longrightarrow> us_coords st' = us_coords st \<and> us_sections st' = us_sections st"
  by (auto simp: next_url_id_def next_delta_def Let_def split: if_splits prod.splits option.splits)

text \<open>The invariant of the loop: what was written fits what was read.\<close>

definition fits :: "nat \<Rightarrow> unpack_state \<Rightarrow> bool" where
  "fits N st \<longleftrightarrow>
     length (us_coords st) + length (us_s st) \<le> N \<and>
     doc_size (compression_type (us_stat st)) * length (us_sections st) + length (us_s st) \<le> N"

lemma unpack_doc_Break:
  "doc_values us T save need st = Break st' \<Longrightarrow>
   us_coords st' = us_coords st \<and> us_sections st' = us_sections st"
  by (auto simp: doc_values_def Let_def rest_values_def split: step.splits if_splits option.splits prod.splits
      dest: next_url_id_consumes(3,4) next_url_id_Break)

lemma unpack_doc_fits:
  assumes "doc_values us T save need st = Next st'" "fits N st"
  shows "fits N st' \<and> compression_type (us_stat st') = compression_type (us_stat st)"
proof -
  from assms(1) obtain uid st1 where 1: "next_url_id st = Next (uid, st1)"
    by (auto simp: doc_values_def split: step.splits)
  note c = next_url_id_consumes [OF 1]
  from assms(1) 1 obtain n s where 2: "get_number (us_s st1) = Next (n, s)"
    by (auto simp: doc_values_def split: step.splits)
  note l2 = get_number_length [OF 2] and l1 = next_url_id_length [OF 1]
  show ?thesis
  proof (cases "url_active us uid")
    case False
    with assms(1) 1 2 have "st' = st1\<lparr>us_s := udm_coord_skip s n\<rparr>"
      by (auto simp: doc_values_def split: if_splits)
    with udm_coord_skip_length [of s n] l1 l2 c(2-) assms(2) show ?thesis by (auto simp: fits_def)
  next
    case True
    with assms(1) 1 2 obtain m s1 where 3: "get_number s = Next (m, s1)"
      by (auto simp: doc_values_def Let_def split: step.splits if_splits)
    from assms(1) 1 2 3 True obtain S C k st2 where r: "rest_values save need S C k st2 = Next st'"
      and st2: "us_s st2 = s1" "us_coords st2 = us_coords st1" "us_sections st2 = us_sections st1"
        "us_stat st2 = us_stat st1"
      by (fastforce simp: doc_values_def Let_def split: if_splits)
    note q = unpack_rest_consumes [OF r] rest_values_length [OF r] and l3 = get_number_length [OF 3]
    have "length (us_coords st') + length (us_s st') \<le> N"
      using q(1) st2 c(3) l1 l2 l3 assms(2) by (simp add: fits_def)
    moreover have "doc_size (compression_type (us_stat st')) * length (us_sections st') + length (us_s st') \<le> N"
      using q(2,3,4) st2 c l2 l3 assms(2) by (simp add: fits_def)
    ultimately show ?thesis using q(3) st2 c(2) by (simp add: fits_def)
  qed
qed

lemma unpack_loop_fits:
  "loop_values us T save need keep st = Some st' \<Longrightarrow> fits N st \<Longrightarrow>
   length (us_coords st') \<le> N \<and>
   doc_size (compression_type (us_stat st)) * length (us_sections st') \<le> N"
proof (induction us T save need keep st rule: loop_values.induct)
  case (1 us T save need keep st)
  show ?case
  proof (cases "keep < length (us_s st)")
    case False
    with 1 have "st' = st" by (subst (asm) (2) loop_values.simps) simp
    with 1(3) show ?thesis by (auto simp: fits_def)
  next
    case True
    show ?thesis
    proof (cases "doc_values us T save need st")
      case Fail
      with 1(2) True show ?thesis by (subst (asm) loop_values.simps) simp
    next
      case (Break st1)
      with 1(2) True have "st' = st1" by (subst (asm) loop_values.simps) simp
      with unpack_doc_Break [OF Break] 1(3) show ?thesis by (auto simp: fits_def)
    next
      case (Next st1)
      with 1(2) True have "loop_values us T save need keep st1 = Some st'"
        by (subst (asm) loop_values.simps) simp
      from 1(1) [OF True Next this] unpack_doc_fits [OF Next 1(3)] show ?thesis by simp
    qed
  qed
qed

lemma expected_count:
  "doc_size type * n \<le> N \<Longrightarrow> n \<le> UdmExpectedSectionCount type N"
proof -
  assume n: "doc_size type * n \<le> N"
  have d: "0 < k \<Longrightarrow> k * n \<le> N \<Longrightarrow> n \<le> N div k" for k
    by (simp add: less_eq_div_iff_mult_less_eq mult.commute)
  from n d [of "doc_size type"] have "n \<le> N div doc_size type" by (simp add: doc_size_def)
  moreover have "N div doc_size type \<le> UdmExpectedSectionCount type N"
    by (auto simp: doc_size_def UdmExpectedSectionCount_def comp_defs)
  ultimately show ?thesis by simp
qed

lemma record_values_within:
  assumes "record_values us T s save need = Some L"
  shows "length (Sections L) \<le> msections L \<and> length (Coords L) \<le> mcoords L"
proof -
  from assms obtain hdr Stat where h: "UdmBlobCoordsGetCompressionType s = Some (hdr, Stat)"
    by (auto simp: record_values_def split: option.splits)
  let ?type = "compression_type Stat"
  let ?st = "\<lparr>us_s = drop hdr s, us_stat = Stat, us_range_ptr = drop (range_offset Stat) s,
    us_coords = [], us_sections = [], us_ncoords = 0\<rparr>"
  from assms h obtain keep st where l: "loop_values us T save need keep ?st = Some st"
    and L: "L = (UdmSectionListAlloc (length s) (UdmExpectedSectionCount ?type (length s)))
      \<lparr>sl_ncoords := us_ncoords st, Coords := us_coords st, Sections := us_sections st\<rparr>"
    by (auto simp: record_values_def Let_def split: option.splits)
  have "fits (length s) ?st" by (simp add: fits_def)
  from unpack_loop_fits [OF l this]
  have b: "length (us_coords st) \<le> length s" "doc_size ?type * length (us_sections st) \<le> length s"
    by simp_all
  have "length (us_sections st) \<le> UdmExpectedSectionCount ?type (length s)"
    using expected_count [OF b(2)] by simp
  with b show ?thesis
    by (auto simp: L UdmSectionListAlloc_def doc_size_def split: if_splits)
qed

subsection \<open>No write is outside of the arrays\<close>

lemma unpack_coords_room:
  "reads_input get \<Longrightarrow> length cs + length s \<le> room \<Longrightarrow> unpack_coords room get s n C cs \<noteq> Write_behind"
proof (induction room get s n C cs rule: unpack_coords.induct)
  case (2 room get s n C cs)
  show ?case
  proof (cases "s \<noteq> [] \<and> unat (hd s) < 128")
    case True
    with 2(1) [OF True refl _ 2(3)] 2(4) show ?thesis by (cases s) (auto simp: Let_def)
  next
    case False
    show ?thesis
    proof (cases "get s")
      case None
      with False show ?thesis by (simp only: unpack_coords.simps if_False option.case run.distinct not_False_eq_True)
    next
      case (Some r)
      obtain nb w where r: "r = (nb, w)" by fastforce
      show ?thesis
      proof (cases "nb = 0 \<or> w = None")
        case True
        with Some r show ?thesis unfolding unpack_coords.simps if_not_P [OF False] by auto
      next
        case nw: False
        then obtain crd where w: "w = Some crd" by auto
        from nw have nb: "nb \<noteq> 0" by simp
        have "Suc (length (drop nb s)) \<le> length s"
          using length_drop_less [OF nb] 2(3) Some r nb by (auto simp: reads_input_def)
        with 2(2) [OF False Some r [symmetric] nb w refl _ 2(3)] 2(4) Some r nb w show ?thesis
          unfolding unpack_coords.simps if_not_P [OF False] by (simp add: Let_def)
      qed
    qed
  qed
qed simp

lemma unpack_packed_room:
  "length cs + length s \<le> room \<Longrightarrow> UdmBlobPackedCoordsToUnpackedCoords room s n C cs \<noteq> Write_behind"
  using unpack_coords_room [OF reads_input_get(1)] unpack_coords_room [OF reads_input_get(2)]
  by (simp add: UdmBlobPackedCoordsToUnpackedCoords_def)

lemma unpack_rest_room:
  assumes "length (us_coords st) + length (us_s st) < room"
  shows "unpack_rest room save need S C n st \<noteq> Write_behind"
  using assms unpack_packed_room [of "us_coords st @ [Some C]" "us_s st" room n C]
  by (auto simp: unpack_rest_def Let_def split: option.splits run.splits prod.splits)

lemma unpack_doc_room:
  assumes "fits N st" "N \<le> room" "length (us_sections st) < sections"
  shows "unpack_doc room sections us T save need st \<noteq> Write_behind"
proof
  assume w: "unpack_doc room sections us T save need st = Write_behind"
  then obtain uid st1 where 1: "next_url_id st = Next (uid, st1)"
    using assms(3) by (auto simp: unpack_doc_def split: step.splits)
  from w 1 assms(3) obtain n s where 2: "get_number (us_s st1) = Next (n, s)"
    by (auto simp: unpack_doc_def split: step.splits)
  from w 1 2 assms(3) obtain m s1 where 3: "get_number s = Next (m, s1)"
    by (auto simp: unpack_doc_def Let_def split: step.splits if_splits)
  from w 1 2 3 assms(3) obtain S C k st2 where r: "unpack_rest room save need S C k st2 = Write_behind"
    and st2: "us_s st2 = s1" "us_coords st2 = us_coords st1"
    by (fastforce simp: unpack_doc_def Let_def split: if_splits)
  have "length (us_coords st2) + length (us_s st2) < room"
    using st2 next_url_id_consumes(3) [OF 1] next_url_id_length [OF 1] get_number_length [OF 2] get_number_length [OF 3] assms(1,2)
    by (simp add: fits_def)
  with unpack_rest_room r show False by blast
qed

lemma expected_count_less:
  "doc_size type * Suc n \<le> N \<Longrightarrow> n < UdmExpectedSectionCount type N"
  using expected_count [of type "Suc n" N] by simp

lemma unpack_loop_values:
  assumes "fits N st" "N \<le> room" "doc_size (compression_type (us_stat st)) \<le> Suc keep"
    and "sections = UdmExpectedSectionCount (compression_type (us_stat st)) N"
  shows "unpack_loop room sections us T save need keep st = run_of (step_of (loop_values us T save need keep st))"
  using assms
proof (induction us T save need keep st rule: loop_values.induct)
  case (1 us T save need keep st)
  show ?case
  proof (cases "keep < length (us_s st)")
    case False
    then show ?thesis by (simp add: unpack_loop.simps loop_values.simps)
  next
    case True
    let ?type = "compression_type (us_stat st)"
    have "doc_size ?type * Suc (length (us_sections st)) \<le> N"
      using "1.prems"(1,3) True by (simp add: fits_def)
    then have "length (us_sections st) < sections" unfolding "1.prems"(4) by (rule expected_count_less)
    with unpack_doc_room [OF "1.prems"(1,2)] unpack_doc_computes [of room sections us T save need st]
    have doc: "unpack_doc room sections us T save need st = run_of (doc_values us T save need st)"
      by (auto simp: run_computes_def)
    show ?thesis
    proof (cases "doc_values us T save need st")
      case Fail
      then show ?thesis using doc by (simp add: unpack_loop.simps loop_values.simps)
    next
      case (Break st1)
      then show ?thesis using doc by (simp add: unpack_loop.simps [of _ _ _ _ _ _ _ st] loop_values.simps [of _ _ _ _ _ st])
    next
      case (Next st1)
      note f = unpack_doc_fits [OF Next "1.prems"(1)]
      have "unpack_loop room sections us T save need keep st1 = run_of (step_of (loop_values us T save need keep st1))"
        by (rule "1.IH" [OF True Next]) (use f "1.prems" in auto)
      with Next doc True show ?thesis
        by (simp add: unpack_loop.simps [of _ _ _ _ _ _ _ st] loop_values.simps [of _ _ _ _ _ st])
    qed
  qed
qed

lemma unpack_values:
  "UdmSectionListBlobCoordsUnpack us T s save need = run_of (step_of (record_values us T s save need))"
proof (cases "UdmBlobCoordsGetCompressionType s")
  case None
  then show ?thesis by (simp add: UdmSectionListBlobCoordsUnpack_def record_values_def)
next
  case (Some h)
  obtain hdr Stat where h: "h = (hdr, Stat)" by fastforce
  define type where "type = compression_type Stat"
  define keep :: nat where "keep = (if type = UDM_BLOB_COMP_SINGLE_RANGE \<or> type = UDM_BLOB_COMP_URLID_RANGE_MULTI then 1 else 5)"
  define List where "List = UdmSectionListAlloc (length s) (UdmExpectedSectionCount type (length s))"
  define st where "st = \<lparr>us_s = drop hdr s, us_stat = Stat, us_range_ptr = drop (range_offset Stat) s,
    us_coords = [], us_sections = [], us_ncoords = 0\<rparr>"
  have "fits (length s) st" by (simp add: fits_def st_def)
  moreover have "doc_size (compression_type (us_stat st)) \<le> Suc keep"
    by (simp add: st_def keep_def type_def doc_size_def comp_defs)
  moreover have "s \<noteq> [] \<Longrightarrow> mcoords List = length s \<and> msections List = UdmExpectedSectionCount type (length s)"
    by (simp add: List_def UdmSectionListAlloc_def)
  moreover have "s = [] \<Longrightarrow> unpack_loop r n us T save need keep st = Go st \<and> loop_values us T save need keep st = Some st" for r n
    by (simp add: unpack_loop.simps loop_values.simps st_def)
  ultimately have "unpack_loop (mcoords List) (msections List) us T save need keep st =
      run_of (step_of (loop_values us T save need keep st))"
    using unpack_loop_values [of "length s" st "length s" keep "UdmExpectedSectionCount type (length s)" us T save need]
    by (cases "s = []") (simp_all add: st_def type_def)
  then show ?thesis
    unfolding UdmSectionListBlobCoordsUnpack_def record_values_def Some h option.case prod.case Let_def
      type_def [symmetric] keep_def [symmetric] List_def [symmetric] st_def [symmetric]
    by (cases "loop_values us T save need keep st") simp_all
qed


end
