(* ===== verification/Blob_Roundtrip.thy ===== *)
theory Blob_Roundtrip
  imports Blob_Bounds
begin

text \<open>
  The record of a word in the table \<open>bdict\<close>, from the indexer's \<open>UdmBlobCachePackOneWordForBdict\<close>
  to the search's \<open>UdmSectionListBlobCoordsUnpack\<close>.  A document is its identifier and the list
  of the numbers its coordinates were packed from: the distances of the positions and, with
  section sizes, the distance from the last position to the length of the section.
\<close>

type_synonym blob_doc = "urlid_t \<times> nat list"

definition doc_ok :: "blob_doc \<Rightarrow> bool" where
  "doc_ok doc \<longleftrightarrow> 0 < fst doc \<and> fst doc < 2147483648 \<and> snd doc \<noteq> [] \<and>
     (\<forall>d \<in> set (snd doc). d < 2097152) \<and> length (snd doc) < 2097152 \<and>
     sum_list (snd doc) < 16777216"

definition word_of_doc :: "byte list \<Rightarrow> nat \<Rightarrow> blob_doc \<Rightarrow> blob_cache_word" where
  "word_of_doc wd sec doc =
     \<lparr>bw_word = wd, bw_url_id = fst doc, bw_nintags = length (snd doc),
      bw_ntaglen = length (put_coords (snd doc)), bw_intags = put_coords (snd doc),
      bw_secno = sec, bw_freeme = False\<rparr>"

lemma word_of_doc_simps [simp]:
  "bw_url_id (word_of_doc wd sec doc) = fst doc"
  "bw_word (word_of_doc wd sec doc) = wd"
  "bw_secno (word_of_doc wd sec doc) = sec"
  "bw_nintags (word_of_doc wd sec doc) = length (snd doc)"
  "intag_bytes (word_of_doc wd sec doc) = put_coords (snd doc)"
  by (simp_all add: word_of_doc_def intag_bytes_def)

lemma doc_okD:
  assumes "doc_ok doc"
  shows "0 < fst doc" "fst doc < 2147483648" "snd doc \<noteq> []" "coords_ok (snd doc)"
    "length (snd doc) < 2097152" "sum_list (snd doc) < 16777216" "0 < length (snd doc)"
  using assms by (auto simp: doc_ok_def)

subsection \<open>What a section says of a document\<close>

fun prefix_sums :: "nat \<Rightarrow> nat list \<Rightarrow> nat list" where
  "prefix_sums p [] = []"
| "prefix_sums p (d # ds) = (p + d) # prefix_sums (p + d) ds"

definition positions :: "nat list \<Rightarrow> nat list" where
  "positions ds = prefix_sums 0 ds"

definition kept_positions :: "bool \<Rightarrow> nat list \<Rightarrow> nat list" where
  "kept_positions save ds =
     (if save \<and> length ds > 1 then butlast (positions ds) else positions ds)"

definition section_length :: "bool \<Rightarrow> nat list \<Rightarrow> nat" where
  "section_length save ds = (if save \<or> length ds = 1 then last (positions ds) else 0)"

definition describes ::
    "udm_section \<Rightarrow> bool \<Rightarrow> bool \<Rightarrow> coord2 option list \<Rightarrow> udm_section \<Rightarrow> blob_doc \<Rightarrow> bool" where
  "describes T save need coords S doc \<longleftrightarrow>
     (let ps = kept_positions save (snd doc) in
      url_id S = fst doc \<and> secno S = secno T \<and> wordnum S = wordnum T \<and> order S = order T \<and>
      ncoords S = length ps \<and> minpos S = hd ps \<and> maxpos S = last ps \<and>
      seclen S = section_length save (snd doc) \<and>
      (\<exists>rest. PackedCoord S = put_coords (snd doc) @ rest) \<and>
      Coord S + length ps \<le> length coords \<and>
      (need \<longrightarrow> take (length ps) (drop (Coord S) coords) =
         map (\<lambda>p. Some \<lparr>pos = p, corder = order T\<rparr>) ps))"

lemma describes_append:
  "describes T save need coords S doc \<Longrightarrow> describes T save need (coords @ cs) S doc"
  by (auto simp: describes_def Let_def)

lemma length_prefix_sums [simp]: "length (prefix_sums p ds) = length ds"
  by (induction ds arbitrary: p) auto

lemma prefix_sums_append: "prefix_sums p (xs @ ys) = prefix_sums p xs @ prefix_sums (p + sum_list xs) ys"
  by (induction xs arbitrary: p) (auto simp: algebra_simps)

lemma prefix_sums_Nil_iff [simp]: "prefix_sums p ds = [] \<longleftrightarrow> ds = []"
  by (cases ds) auto

lemma last_prefix_sums: "ds \<noteq> [] \<Longrightarrow> last (prefix_sums p ds) = p + sum_list ds"
proof (induction ds arbitrary: p)
  case (Cons d ds)
  then show ?case by (cases "ds = []") simp_all
qed simp

lemma positions_Cons: "positions (d # ds) = d # prefix_sums d ds"
  by (simp add: positions_def)

subsection \<open>Unpacking the coordinates of a document\<close>

lemma pos24_less: "n < 16777216 \<Longrightarrow> pos24 n = n"
  by (simp add: pos24_def)

lemma get_number_put:
  assumes "wc < 2097152"
  shows "get_number (put_coord wc @ rest) = Next (wc, rest)"
proof -
  obtain c s where cs: "put_coord wc = c # s"
    using put_coord_not_Nil [OF assms] by (cases "put_coord wc") auto
  have g: "udm_coord_get (c # s @ rest) = (coord_size wc, Some wc)"
    using udm_coord_get_put [OF assms, of rest] cs by simp
  have d: "drop (coord_size wc) (c # s @ rest) = rest"
    using drop_put_coord [OF assms, of rest] cs by simp
  show ?thesis
  proof (cases "wc < 128")
    case True
    then have "s = []" using length_put_coord [OF assms] cs by (simp add: coord_size_def)
    with True cs hd_put_coord [OF assms] show ?thesis by (simp add: get_number_def)
  next
    case False
    then have "\<not> unat c < 128" using coord_byte_class(3) [OF assms] cs by simp
    with cs g d coord_size_bounds(1) [of wc] show ?thesis by (simp add: get_number_def)
  qed
qed

lemma unpack_coords_put:
  assumes "\<And>wc rest. wc < 2097152 \<Longrightarrow> get (put_coord wc @ rest) = Some (coord_size wc, Some wc)"
  shows "coords_ok ds \<Longrightarrow> pos C + sum_list ds < 16777216 \<Longrightarrow>
    coords_values get (put_coords ds @ rest) (length ds) C cs =
      Some (cs @ map (\<lambda>p. Some (C\<lparr>pos := p\<rparr>)) (prefix_sums (pos C) ds),
            C\<lparr>pos := pos C + sum_list ds\<rparr>, rest)"
proof (induction ds arbitrary: C cs)
  case (Cons d ds)
  then have d: "d < 2097152" and p: "pos24 (pos C + d) = pos C + d" by (simp_all add: pos24_less)
  obtain c s where cs: "put_coord d = c # s"
    using put_coord_not_Nil [OF d] by (cases "put_coord d") auto
  let ?C = "C\<lparr>pos := pos C + d\<rparr>"
  have "coords_values get (put_coords (d # ds) @ rest) (length (d # ds)) C cs =
      coords_values get (put_coords ds @ rest) (length ds) ?C (cs @ [Some ?C])"
  proof (cases "d < 128")
    case True
    then have "s = []" using length_put_coord [OF d] cs by (simp add: coord_size_def)
    with True cs hd_put_coord [OF d] p show ?thesis by (simp add: Let_def)
  next
    case False
    then have "\<not> unat c < 128" using coord_byte_class(3) [OF d] cs by simp
    moreover have "get (c # s @ put_coords ds @ rest) = Some (coord_size d, Some d)"
      using assms [OF d, of "put_coords ds @ rest"] cs by simp
    moreover have "drop (coord_size d) (c # s @ put_coords ds @ rest) = put_coords ds @ rest"
      using drop_put_coord [OF d, of "put_coords ds @ rest"] cs by simp
    ultimately show ?thesis using cs p coord_size_bounds(1) [of d] by (simp add: Let_def)
  qed
  also have "\<dots> = Some ((cs @ [Some ?C]) @ map (\<lambda>p. Some (?C\<lparr>pos := p\<rparr>)) (prefix_sums (pos ?C) ds),
      ?C\<lparr>pos := pos ?C + sum_list ds\<rparr>, rest)"
    using Cons.prems by (intro Cons.IH) auto
  finally show ?case by (simp add: algebra_simps)
qed simp

lemma UdmBlobPackedCoords_put:
  assumes "coords_ok ds" "pos C + sum_list ds < 16777216"
  shows "packed_values (put_coords ds @ rest) (length ds) C cs =
      Some (cs @ map (\<lambda>p. Some (C\<lparr>pos := p\<rparr>)) (prefix_sums (pos C) ds),
            C\<lparr>pos := pos C + sum_list ds\<rparr>, rest)"
  using unpack_coords_put [of udm_coord_get_quick, OF udm_coord_get_quick_put assms]
    unpack_coords_put [of "\<lambda>s. Some (udm_coord_get s)", OF _ assms] udm_coord_get_put
  by (simp add: packed_values_def)

lemma MinMaxLen_save:
  assumes "coords_ok (ds @ [l])" "pos C + sum_list (ds @ [l]) < 16777216"
  shows "UdmBlobPackedCoordsUnpackMinMaxLen (put_coords (ds @ [l]) @ rest) (Suc (length ds)) C cs True S =
    Some (cs @ replicate (Suc (length ds)) None, C\<lparr>pos := pos C + sum_list (ds @ [l])\<rparr>,
      S\<lparr>maxpos := pos C + sum_list ds, seclen := pos C + sum_list (ds @ [l]), ncoords := Suc (length ds)\<rparr>,
      rest)"
proof -
  have l: "l < 2097152" and ok: "coords_ok ds" using assms(1) by auto
  have s: "udm_coord_sum (put_coords ds @ put_coord l @ rest) (length ds) =
      Some (Some (sum_list ds), put_coord l @ rest)"
    by (rule udm_coord_sum_put_coords [OF ok])
  have g: "udm_coord_get (put_coord l @ rest) = (coord_size l, Some l)" by (rule udm_coord_get_put [OF l])
  show ?thesis
    using assms(2) s g drop_put_coord [OF l, of rest] coord_size_bounds(1) [of l]
    by (cases ds) (simp_all add: UdmBlobPackedCoordsUnpackMinMaxLen_def pos24_less add.assoc)
qed

lemma MinMaxLen_no_save:
  assumes "coords_ok ds" "pos C + sum_list ds < 16777216"
  shows "UdmBlobPackedCoordsUnpackMinMaxLen (put_coords ds @ rest) (length ds) C cs False S =
    Some (cs @ replicate (length ds + 1) None, C\<lparr>pos := pos C + sum_list ds\<rparr>,
      S\<lparr>maxpos := pos C + sum_list ds, seclen := 0, ncoords := length ds + 1\<rparr>, rest)"
  using udm_coord_sum_put_coords [OF assms(1), of rest] assms(2)
  by (simp add: UdmBlobPackedCoordsUnpackMinMaxLen_def pos24_less)

text \<open>The section built from the first coordinate \<open>d\<close> and the others \<open>ds\<close>.\<close>

lemma unpack_rest_put:
  assumes ok: "coords_ok (d # ds)" "sum_list (d # ds) < 16777216"
    and S: "S = new_section T (length (us_coords st)) uid (put_coords (d # ds) @ rest) d"
    and st: "us_s st = put_coords ds @ rest"
  shows "\<exists>S' cs. rest_values save need S \<lparr>pos = d, corder = order T\<rparr> (length ds) st =
      Next (st\<lparr>us_s := rest, us_coords := us_coords st @ cs, us_sections := us_sections st @ [S']\<rparr>) \<and>
    describes T save need (us_coords st @ cs) S' (uid, d # ds)"
proof -
  let ?C = "\<lparr>pos = d, corder = order T\<rparr>"
  have ok': "coords_ok ds" "pos ?C + sum_list ds < 16777216" using ok by auto
  consider "ds = []" | (min) "ds \<noteq> []" "\<not> need" | (need) "ds \<noteq> []" "need" by blast
  then show ?thesis
  proof cases
    case 1
    let ?S = "S\<lparr>seclen := d, ncoords := 1, maxpos := d\<rparr>"
    have "st = st\<lparr>us_s := rest\<rparr>" using st 1 by simp
    then show ?thesis
      using 1 S
      by (intro exI [of _ ?S] exI [of _ "[if need then Some ?C else None]"])
        (auto simp: rest_values_def add_section_def describes_def new_section_def kept_positions_def
          section_length_def positions_def Let_def)
  next
    case min
    show ?thesis
    proof (cases save)
      case True
      from min obtain ds' l where ds: "ds = ds' @ [l]" by (metis rev_exhaust)
      let ?S = "S\<lparr>maxpos := d + sum_list ds', seclen := d + sum_list ds, ncoords := Suc (length ds')\<rparr>"
      have "UdmBlobPackedCoordsUnpackMinMaxLen (us_s st) (length ds) ?C (us_coords st) save S =
          Some (us_coords st @ replicate (Suc (length ds')) None, ?C\<lparr>pos := d + sum_list ds\<rparr>, ?S, rest)"
        using MinMaxLen_save [of ds' l ?C rest "us_coords st" S] ok' ds True st by simp
      then show ?thesis
        using min True S
        by (intro exI [of _ ?S] exI [of _ "replicate (Suc (length ds')) None"])
          (auto simp: rest_values_def add_section_def describes_def new_section_def kept_positions_def
            section_length_def positions_def Let_def ds prefix_sums_append last_prefix_sums butlast_append)
    next
      case False
      let ?S = "S\<lparr>maxpos := d + sum_list ds, seclen := 0, ncoords := length ds + 1\<rparr>"
      have "UdmBlobPackedCoordsUnpackMinMaxLen (us_s st) (length ds) ?C (us_coords st) save S =
          Some (us_coords st @ replicate (length ds + 1) None, ?C\<lparr>pos := d + sum_list ds\<rparr>, ?S, rest)"
        using MinMaxLen_no_save [OF ok'] False st by simp
      then show ?thesis
        using min False S
        by (intro exI [of _ ?S] exI [of _ "replicate (length ds + 1) None"])
          (auto simp: rest_values_def add_section_def describes_def new_section_def kept_positions_def
            section_length_def positions_def Let_def last_prefix_sums)
    qed
  next
    case need
    let ?all = "map (\<lambda>p. Some (?C\<lparr>pos := p\<rparr>)) (prefix_sums d ds)"
    let ?fst = "Some ?C"
    have u: "packed_values (us_s st) (length ds) ?C (us_coords st @ [?fst]) =
        Some ((us_coords st @ [?fst]) @ ?all, ?C\<lparr>pos := d + sum_list ds\<rparr>, rest)"
      using UdmBlobPackedCoords_put [OF ok', of rest "us_coords st @ [?fst]"] st by simp
    show ?thesis
    proof (cases save)
      case True
      from need obtain ds' l where ds: "ds = ds' @ [l]" by (metis rev_exhaust)
      let ?kept = "map (\<lambda>p. Some (?C\<lparr>pos := p\<rparr>)) (prefix_sums d ds')"
      have all: "?all = ?kept @ [Some (?C\<lparr>pos := d + sum_list ds\<rparr>)]"
        by (simp add: ds prefix_sums_append)
      let ?S = "S\<lparr>seclen := d + sum_list ds, ncoords := Suc (length ds'), maxpos := d + sum_list ds'\<rparr>"
      have last: "last (?fst # ?kept) = Some (?C\<lparr>pos := d + sum_list ds'\<rparr>)"
        by (cases "ds' = []") (simp_all add: last_map last_prefix_sums)
      have "rest_values save need S ?C (length ds) st =
          Next (add_section ?S (st\<lparr>us_coords := us_coords st @ ?fst # ?kept, us_s := rest\<rparr>))"
        using need True u S last unfolding all
        by (simp add: rest_values_def Let_def new_section_def ds butlast_append)
      then show ?thesis
        using need True S
        by (intro exI [of _ ?S] exI [of _ "?fst # ?kept"])
          (auto simp: add_section_def describes_def new_section_def kept_positions_def
            section_length_def positions_def Let_def ds prefix_sums_append last_prefix_sums butlast_append)
    next
      case False
      let ?S = "S\<lparr>seclen := 0, ncoords := Suc (length ds), maxpos := d + sum_list ds\<rparr>"
      have "rest_values save need S ?C (length ds) st =
          Next (add_section ?S (st\<lparr>us_coords := us_coords st @ ?fst # ?all, us_s := rest\<rparr>))"
        using need False u S by (simp add: rest_values_def Let_def new_section_def)
      then show ?thesis
        using need False S
        by (intro exI [of _ ?S] exI [of _ "?fst # ?all"])
          (auto simp: add_section_def describes_def new_section_def kept_positions_def
            section_length_def positions_def Let_def last_prefix_sums)
    qed
  qed
qed

subsection \<open>The loop over the documents\<close>

definition doc_bytes :: "blob_doc \<Rightarrow> byte list" where
  "doc_bytes doc = put_coord (length (snd doc)) @ put_coords (snd doc)"

lemma unpack_doc_put:
  assumes next': "next_url_id st = Next (fst doc, st1)"
    and s1: "us_s st1 = doc_bytes doc @ rest" and ok: "doc_ok doc"
  shows "\<exists>S cs n. doc_values us T save need st = Next (st1\<lparr>us_s := rest,
      us_coords := us_coords st1 @ cs,
      us_sections := us_sections st1 @ (if url_active us (fst doc) then [S] else []),
      us_ncoords := n\<rparr>) \<and>
    (url_active us (fst doc) \<longrightarrow> describes T save need (us_coords st1 @ cs) S doc)"
proof -
  note D = doc_okD [OF ok]
  from D(3) obtain d ds where ds: "snd doc = d # ds" by (cases "snd doc") auto
  have d: "d < 2097152" "d < 16777216" using D(4) ds by auto
  have g: "get_number (us_s st1) = Next (length (snd doc), put_coords (snd doc) @ rest)"
    using get_number_put [OF D(5), of "put_coords (snd doc) @ rest"] s1 by (simp add: doc_bytes_def)
  show ?thesis
  proof (cases "url_active us (fst doc)")
    case False
    then show ?thesis
      using next' g D(7) udm_coord_skip_put_coords [OF D(4), of rest]
      by (intro exI [of _ undefined] exI [of _ "[]"] exI [of _ "us_ncoords st1"])
        (simp add: doc_values_def)
  next
    case True
    define n where "n = us_ncoords st1 + length (snd doc) - (if save \<and> length (snd doc) > 1 then 1 else 0)"
    let ?st2 = "st1\<lparr>us_ncoords := n, us_s := put_coords ds @ rest\<rparr>"
    let ?S = "new_section T (length (us_coords st1)) (fst doc) (put_coords (d # ds) @ rest) d"
    have g2: "get_number (put_coords (snd doc) @ rest) = Next (d, put_coords ds @ rest)"
      using get_number_put [OF d(1), of "put_coords ds @ rest"] ds by simp
    have "doc_values us T save need st =
        rest_values save need ?S \<lparr>pos = d, corder = order T\<rparr> (length ds) ?st2"
      using next' g g2 True D(7) d pos24_less [OF d(2)] ds
      by (simp add: doc_values_def n_def Let_def)
    moreover obtain S' cs where "rest_values save need ?S \<lparr>pos = d, corder = order T\<rparr> (length ds) ?st2 =
        Next (?st2\<lparr>us_s := rest, us_coords := us_coords ?st2 @ cs,
          us_sections := us_sections ?st2 @ [S']\<rparr>)"
      "describes T save need (us_coords ?st2 @ cs) S' (fst doc, d # ds)"
      using unpack_rest_put [of d ds ?S T ?st2 "fst doc" rest save need] D(4,6) ds by auto
    ultimately show ?thesis
      using True ds by (intro exI [of _ S'] exI [of _ cs] exI [of _ n]) (cases doc, simp)
  qed
qed

text \<open>
  \<open>codes keep s Stat rp docs\<close>: from the bytes \<open>s\<close> and the state of the decompression, the
  identifiers of \<open>docs\<close> are read one after the other, each before the bytes of its document,
  and the loop stops behind the last.
\<close>

fun codes :: "nat \<Rightarrow> byte list \<Rightarrow> word_stat \<Rightarrow> byte list \<Rightarrow> blob_doc list \<Rightarrow> bool" where
  "codes keep s Stat rp [] \<longleftrightarrow> length s \<le> keep"
| "codes keep s Stat rp (doc # docs) \<longleftrightarrow>
     keep < length s \<and>
     (\<exists>rest Stat' rp'. codes keep rest Stat' rp' docs \<and>
        (\<forall>st. us_s st = s \<longrightarrow> us_stat st = Stat \<longrightarrow> us_range_ptr st = rp \<longrightarrow>
           next_url_id st = Next (fst doc, st\<lparr>us_s := doc_bytes doc @ rest, us_stat := Stat',
                                              us_range_ptr := rp'\<rparr>)))"

lemma list_all2_describes_append:
  "list_all2 (describes T save need coords) Ss docs \<Longrightarrow>
   list_all2 (describes T save need (coords @ cs)) Ss docs"
  by (auto elim!: list_all2_mono intro: describes_append)

lemma unpack_loop_codes:
  assumes "codes keep (us_s st) (us_stat st) (us_range_ptr st) docs" "\<forall>doc \<in> set docs. doc_ok doc"
    and "list_all2 (describes T save need (us_coords st)) (us_sections st) done"
  shows "\<exists>st'. loop_values us T save need keep st = Some st' \<and>
    list_all2 (describes T save need (us_coords st')) (us_sections st')
      (done @ filter (\<lambda>doc. url_active us (fst doc)) docs)"
  using assms
proof (induction docs arbitrary: st "done")
  case Nil
  then show ?case by (subst loop_values.simps) simp
next
  case (Cons doc docs)
  from Cons.prems(1) obtain rest Stat' rp' where k: "keep < length (us_s st)"
    and c: "codes keep rest Stat' rp' docs"
    and n: "next_url_id st = Next (fst doc, st\<lparr>us_s := doc_bytes doc @ rest, us_stat := Stat',
      us_range_ptr := rp'\<rparr>)" by auto
  let ?act = "url_active us (fst doc)"
  let ?st1 = "st\<lparr>us_s := doc_bytes doc @ rest, us_stat := Stat', us_range_ptr := rp'\<rparr>"
  have ok: "doc_ok doc" and s1: "us_s ?st1 = doc_bytes doc @ rest" using Cons.prems(2) by simp_all
  obtain S cs m where u: "doc_values us T save need st = Next (?st1\<lparr>us_s := rest,
      us_coords := us_coords ?st1 @ cs,
      us_sections := us_sections ?st1 @ (if ?act then [S] else []), us_ncoords := m\<rparr>)"
    and S: "?act \<longrightarrow> describes T save need (us_coords ?st1 @ cs) S doc"
    using unpack_doc_put [OF n s1 ok] by blast
  let ?st = "?st1\<lparr>us_s := rest, us_coords := us_coords ?st1 @ cs,
      us_sections := us_sections ?st1 @ (if ?act then [S] else []), us_ncoords := m\<rparr>"
  have "list_all2 (describes T save need (us_coords ?st)) (us_sections ?st)
      (done @ (if ?act then [doc] else []))"
    using list_all2_describes_append [OF Cons.prems(3), of cs] S
    by (auto intro: list_all2_appendI)
  from Cons.IH [OF _ _ this] c Cons.prems(2) obtain st' where
    "loop_values us T save need keep ?st = Some st'"
    "list_all2 (describes T save need (us_coords st')) (us_sections st')
      ((done @ (if ?act then [doc] else [])) @ filter (\<lambda>doc. url_active us (fst doc)) docs)"
    by auto
  moreover have "loop_values us T save need keep st = loop_values us T save need keep ?st"
    using k u by (subst loop_values.simps) simp
  ultimately show ?case by (auto split: if_splits)
qed

lemma unpack_codes:
  assumes hdr: "UdmBlobCoordsGetCompressionType s = Some (h, Stat)"
    and codes: "codes (if compression_type Stat = UDM_BLOB_COMP_SINGLE_RANGE \<or>
                          compression_type Stat = UDM_BLOB_COMP_URLID_RANGE_MULTI then 1 else 5)
                  (drop h s) Stat (drop (range_offset Stat) s) docs"
    and ok: "\<forall>doc \<in> set docs. doc_ok doc"
  shows "\<exists>L. record_values us T s save need = Some L \<and>
    list_all2 (describes T save need (Coords L)) (Sections L)
      (filter (\<lambda>doc. url_active us (fst doc)) docs)"
proof -
  let ?st = "\<lparr>us_s = drop h s, us_stat = Stat, us_range_ptr = drop (range_offset Stat) s,
    us_coords = [], us_sections = [], us_ncoords = 0\<rparr>"
  show ?thesis
    using unpack_loop_codes [of _ ?st docs T save need "[]" us] codes ok hdr
    by (fastforce simp: record_values_def Let_def)
qed

subsection \<open>Fixed width integers\<close>

lemma get_put_int4: "is_int4 i \<Longrightarrow> get_int4 (udm_put_int4 i @ rest) = i"
  using udm_get_put_int4 [of i] by (simp add: get_int4_def udm_put_int4_def)

lemma get_put_int2: "0 \<le> i \<Longrightarrow> i < 65536 \<Longrightarrow> udm_get_int2 (udm_put_int2 i @ rest) = i"
  using bytes_join2 [of i]
  by (simp add: udm_get_int2_def udm_put_int2_def uint_byte_of_int drop_bit_eq_div push_bit_eq_mult
      and_mask_int)

lemma length_put_ints [simp]:
  "length (udm_put_int4 i) = 4" "length (udm_put_int2 i) = 2" "length (udm_put_int3 i) = 3"
  by (simp_all add: udm_put_int4_def udm_put_int2_def udm_put_int3_def)

lemma get_put_int3: "0 \<le> i \<Longrightarrow> i < 16777216 \<Longrightarrow> udm_get_int3 (udm_put_int3 i @ rest) = i"
  using bytes_join3 [of i]
  by (simp add: udm_get_int3_def udm_put_int3_def uint_byte_of_int drop_bit_eq_div push_bit_eq_mult
      and_mask_int)

subsection \<open>The bytes of the formats\<close>

abbreviation words_of :: "byte list \<Rightarrow> nat \<Rightarrow> blob_doc list \<Rightarrow> blob_cache_word list" where
  "words_of wd sec docs \<equiv> map (word_of_doc wd sec) docs"

abbreviation docs_ok :: "blob_doc list \<Rightarrow> bool" where
  "docs_ok docs \<equiv> \<forall>doc \<in> set docs. doc_ok doc"

lemma put_int4_not_Nil: "udm_put_int4 i \<noteq> []"
  by (simp add: udm_put_int4_def)

lemma put_count_not_Nil: "doc_ok doc \<Longrightarrow> put_coord (length (snd doc)) \<noteq> []"
  using doc_okD(5) put_coord_not_Nil by blast

lemma content_AppendINT4: "content (snd (UdmDSTRAppendINT4 d i)) = content d @ udm_put_int4 i"
  "fst (UdmDSTRAppendINT4 d i) = 4"
  by (simp_all add: UdmDSTRAppendINT4_def dbuf.contents_append dbuf.append_size)

lemma content_AppendINT2: "content (snd (UdmDSTRAppendINT2 d i)) = content d @ udm_put_int2 i"
  "fst (UdmDSTRAppendINT2 d i) = 2"
  by (simp_all add: UdmDSTRAppendINT2_def dbuf.contents_append dbuf.append_size udm_put_int2_def)

lemma content_AppendCompressionType:
  assumes "3 < c"
  shows "\<exists>d'. UdmDSTRAppendCompressionType d c = (2, d') \<and>
    content d' = content d @ udm_put_int4 (-1) @ udm_put_int2 (int c)"
  using assms
  by (intro exI [of _ "snd (UdmDSTRAppendCompressionType d c)"])
    (simp add: UdmDSTRAppendCompressionType_def split_beta content_AppendINT4 content_AppendINT2
      comp_defs prod_eq_iff)

lemma content_pack_simple:
  assumes "docs_ok docs"
  shows "content (UdmBlobCachePackOneWordForBdictSimple (words_of wd sec docs) d) =
    content d @ concat (map (\<lambda>doc. udm_put_int4 (fst doc) @ doc_bytes doc) docs)"
  using assms
proof (induction docs arbitrary: d)
  case (Cons doc docs)
  have "content (pack_simple_word (word_of_doc wd sec doc) d) =
      content d @ udm_put_int4 (fst doc) @ doc_bytes doc"
    using put_count_not_Nil [of doc] Cons.prems put_int4_not_Nil
    by (simp add: pack_simple_word_def COORD_MAX_LEN_def Let_def split_beta
        dbuf.append_size dbuf.contents_append doc_bytes_def)
  with Cons show ?case by (simp add: UdmBlobCachePackOneWordForBdictSimple_def)
qed (simp add: UdmBlobCachePackOneWordForBdictSimple_def)

lemma content_pack_doc:
  assumes "doc_ok doc" "fmt = 0 \<or> udm_put_int_with_format i fmt \<noteq> []"
  shows "content (UdmBlobCachePackOneWordDocForBdict d i (word_of_doc wd sec doc) fmt) =
    content d @ udm_put_int_with_format i fmt @ doc_bytes doc"
  using put_count_not_Nil [OF assms(1)] assms(2)
  by (auto simp: UdmBlobCachePackOneWordDocForBdict_def Let_def split_beta
      dbuf.append_size dbuf.contents_append doc_bytes_def)

lemma content_pack_docs:
  assumes "docs_ok docs"
  shows "content (pack_docs (words_of wd sec docs) d) = content d @ concat (map doc_bytes docs)"
  using assms
proof (induction docs arbitrary: d)
  case (Cons doc docs)
  then have "content (UdmBlobCachePackOneWordDocForBdict d 0 (word_of_doc wd sec doc) 0) =
      content d @ doc_bytes doc"
    by (subst content_pack_doc) (auto simp: udm_put_int_with_format_def)
  with Cons show ?case by (simp add: pack_docs_def)
qed (simp add: pack_docs_def)

fun delta_bytes :: "nat \<Rightarrow> urlid_t \<Rightarrow> blob_doc list \<Rightarrow> byte list" where
  "delta_bytes fmt prev [] = []"
| "delta_bytes fmt prev (doc # docs) =
     udm_put_int_with_format (fst doc - prev) fmt @ doc_bytes doc @ delta_bytes fmt (fst doc) docs"

text \<open>The differences of the identifiers, all of them non-negative and below a bound.\<close>

fun deltas_below :: "int \<Rightarrow> urlid_t \<Rightarrow> blob_doc list \<Rightarrow> bool" where
  "deltas_below b prev [] = True"
| "deltas_below b prev (doc # docs) =
     (0 \<le> fst doc - prev \<and> fst doc - prev < b \<and> deltas_below b (fst doc) docs)"

definition format_bound :: "nat \<Rightarrow> int" where
  "format_bound fmt =
     (if fmt = 1 then 256 else if fmt = 2 then 65536 else if fmt = 3 then 16777216 else 2097152)"

lemma format_bound_le: "format_bound fmt \<le> 16777216"
  by (simp add: format_bound_def)

lemma put_int_not_Nil:
  assumes "0 \<le> i" "i < format_bound fmt" "fmt \<in> {1, 2, 3, 5}"
  shows "udm_put_int_with_format i fmt \<noteq> []"
proof -
  have "fmt = 5 \<Longrightarrow> nat (i mod 2 ^ 64) < 2097152"
    using assms by (simp add: format_bound_def)
  from put_coord_not_Nil [OF this] show ?thesis
    using assms(3)
    by (auto simp: udm_put_int_with_format_def udm_put_int2_def udm_put_int3_def)
qed

lemma content_pack_deltas:
  assumes "docs_ok docs" "deltas_below (format_bound fmt) prev docs" "fmt \<in> {1, 2, 3, 5}"
  shows "content (pack_deltas (words_of wd sec docs) prev fmt d) = content d @ delta_bytes fmt prev docs"
  using assms
proof (induction docs arbitrary: prev d)
  case (Cons doc docs)
  let ?i = "fst doc - prev"
  have i: "0 \<le> ?i" "?i < format_bound fmt" using Cons.prems by auto
  then have "int4_of ?i = ?i" using format_bound_le [of fmt] by (intro int4_of_id) simp
  then have "content (UdmBlobCachePackOneWordDocForBdict d (int4_of ?i) (word_of_doc wd sec doc) fmt) =
      content d @ udm_put_int_with_format ?i fmt @ doc_bytes doc"
    using content_pack_doc [of doc fmt ?i] put_int_not_Nil [OF i Cons.prems(3)] Cons.prems(1) by simp
  with Cons show ?case by simp
qed simp

subsection \<open>Reading the header\<close>

lemma and_high_half: "t AND 4294901760 = 0 \<longleftrightarrow> t div 65536 mod 65536 = 0" for t :: nat
proof -
  have "t AND push_bit 16 (mask 16) = push_bit 16 (take_bit 16 (drop_bit 16 t))"
    by (rule bit_eqI)
      (auto simp: bit_and_iff bit_push_bit_iff bit_take_bit_iff bit_drop_bit_eq bit_mask_iff)
  moreover have "push_bit 16 (mask 16) = (4294901760 :: nat)"
    by (simp add: push_bit_eq_mult mask_eq_exp_minus_1)
  ultimately show ?thesis
    by (simp add: push_bit_eq_mult take_bit_eq_mod drop_bit_eq_div)
qed

lemma and_low_half: "t AND 65535 = t mod 65536" for t :: nat
proof -
  have "t AND (2 ^ 16 - 1) = t mod 2 ^ 16"
    by (metis mask_eq_exp_minus_1 take_bit_eq_mask take_bit_eq_mod)
  then show ?thesis by simp
qed

lemma int4_of_mod: "int4_of i mod 4294967296 = i mod 4294967296"
proof -
  have "take_bit 32 (signed_take_bit 31 i) = take_bit 32 i"
    by (simp add: take_bit_signed_take_bit)
  then show ?thesis by (simp add: int4_of_def take_bit_eq_mod)
qed

lemma nat_size_of_int:
  assumes "X < 4294967296"
  shows "nat (size_of_int (int4_of (int X))) mod 4294967296 = X"
proof -
  have "int (nat (size_of_int (int4_of (int X)))) mod 4294967296 = int4_of (int X) mod 2 ^ 64 mod 2 ^ 32"
    by (simp add: size_of_int_def)
  also have "\<dots> = int4_of (int X) mod 2 ^ 32" by (intro mod_mod_cancel le_imp_power_dvd) simp
  also have "\<dots> = int X" using assms by (simp add: int4_of_mod)
  finally have "int (nat (size_of_int (int4_of (int X))) mod 4294967296) = int X"
    by (simp add: zmod_int)
  then show ?thesis by (simp only: of_nat_eq_iff)
qed

text \<open>
  The code takes the header for one of six bytes when the two bytes behind the type are not
  both zero, and for one of the older eight bytes otherwise.
\<close>

definition header :: "nat \<Rightarrow> byte list" where
  "header c = udm_put_int4 (-1) @ udm_put_int2 (int c)"

definition not_zero2 :: "byte list \<Rightarrow> bool" where
  "not_zero2 s \<longleftrightarrow> 2 \<le> length s \<and> (s ! 0 \<noteq> 0 \<or> s ! 1 \<noteq> 0)"

lemma header_type:
  assumes "not_zero2 s" "c < 256"
  shows "nat (size_of_int (get_int4 (udm_put_int2 (int c) @ s))) AND 4294901760 \<noteq> 0"
    "nat (size_of_int (get_int4 (udm_put_int2 (int c) @ s))) AND 65535 = c"
proof -
  let ?Y = "unat (s ! 0) + 256 * unat (s ! 1)"
  let ?X = "c + 65536 * ?Y"
  have Y: "?Y < 65536" "0 < ?Y"
  proof -
    have "unat (s ! 0) \<noteq> 0 \<or> unat (s ! 1) \<noteq> 0"
      using assms(1) by (simp add: not_zero2_def unsigned_eq_0_iff)
    then show "?Y < 65536" "0 < ?Y"
      using unat_byte_less [of "s ! 0"] unat_byte_less [of "s ! 1"] by linarith+
  qed
  have "get_int4 (udm_put_int2 (int c) @ s) = int4_of (int ?X)"
  proof -
    have "int c mod 256 = int c" "int c div 256 mod 256 = 0" "uint (word_of_nat c :: byte) = int c"
      using assms(2) by (simp_all add: unsigned_of_nat take_bit_eq_mod)
    then have "get_int4 (udm_put_int2 (int c) @ s) =
        int4_of (int c + push_bit 16 (int (unat (s ! 0))) + push_bit 24 (int (unat (s ! 1))))"
      by (simp add: get_int4_def udm_get_int4_def udm_put_int2_def uint_byte_of_int drop_bit_eq_div
          and_mask_int)
    also have "int c + push_bit 16 (int (unat (s ! 0))) + push_bit 24 (int (unat (s ! 1))) = int ?X"
      by (simp add: push_bit_eq_mult)
    finally show ?thesis .
  qed
  then have m: "nat (size_of_int (get_int4 (udm_put_int2 (int c) @ s))) mod 4294967296 = ?X"
    using nat_size_of_int [of ?X] assms(2) Y by simp
  define t where "t = nat (size_of_int (get_int4 (udm_put_int2 (int c) @ s)))"
  obtain q where t: "t = ?X + 4294967296 * q"
    using m unfolding t_def by (metis div_mult_mod_eq add.commute mult.commute)
  define k where "k = ?Y + 65536 * q"
  have t2: "t = c + 65536 * k" using t unfolding k_def by (simp add: algebra_simps)
  have lo: "t mod 65536 = c" unfolding t2 using assms(2) by simp
  have "t div 65536 = ?Y + 65536 * q"
    using t2 assms(2) unfolding k_def [symmetric] by simp
  then have hi: "t div 65536 mod 65536 = ?Y" using Y by simp
  show "nat (size_of_int (get_int4 (udm_put_int2 (int c) @ s))) AND 4294901760 \<noteq> 0"
    using and_high_half [of t] hi Y unfolding t_def by simp
  show "nat (size_of_int (get_int4 (udm_put_int2 (int c) @ s))) AND 65535 = c"
    using and_low_half [of t] lo unfolding t_def by simp
qed

lemma get_header:
  assumes "not_zero2 s" "c < 256" "4 < length s"
  shows "UdmBlobCoordsGetCompressionType (header c @ s) =
    (let Stat = zero_stat\<lparr>compression_type := c\<rparr> in
     if c = UDM_BLOB_COMP_SINGLE_RANGE then
       (if length s < 8 then None
        else Some (14, Stat\<lparr>min_url_id := get_int4 s, max_url_id := get_int4 (drop 4 s),
                            cur_url_id := get_int4 s\<rparr>))
     else if c = UDM_BLOB_COMP_URLID_DELTA_VARIABLE \<or> c = UDM_BLOB_COMP_URLID_DELTA_2BYTES \<or>
             c = UDM_BLOB_COMP_URLID_DELTA_3BYTES then Some (6, Stat)
     else if c = UDM_BLOB_COMP_URLID_DELTA_2BYTES_WITH_OFFSET then
       Some (8, Stat\<lparr>cur_url_id := int4_of (push_bit 16 (udm_get_int2 s))\<rparr>)
     else if c = UDM_BLOB_COMP_URLID_DELTA_1BYTES_WITH_OFFSET then
       Some (10, Stat\<lparr>cur_url_id := get_int4 s\<rparr>)
     else if c = UDM_BLOB_COMP_URLID_RANGE_MULTI then
       (let n = nat (size_of_int (get_int4 s))
        in Some (10 + 8 * n, Stat\<lparr>nranges := n, range_offset := 10\<rparr>))
     else Some (0, Stat))"
proof -
  have l: "length (header c @ s) > 10" using assms(3) by (simp add: header_def)
  have g: "get_int4 (header c @ s) = -1" unfolding header_def append_assoc by (rule get_put_int4) simp
  have d: "drop 4 (header c @ s) = udm_put_int2 (int c) @ s" "drop 6 (header c @ s) = s"
    by (simp_all add: header_def)
  define n where "n = nat (size_of_int (get_int4 (udm_put_int2 (int c) @ s)))"
  have n: "n AND 4294901760 \<noteq> 0" "n AND 65535 = c"
    unfolding n_def by (rule header_type [OF assms(1,2)])+
  have type: "(if length (header c @ s) > 10 \<and> get_int4 (header c @ s) = -1
      then nat (size_of_int (get_int4 (drop 4 (header c @ s)))) else 0) = n"
    unfolding d n_def using l g by simp
  show ?thesis
    unfolding UdmBlobCoordsGetCompressionType_def Let_def type
    using assms(3)
    by (simp only: n d if_True simp_thms) (simp add: not_less)
qed

subsection \<open>The identifiers of the formats\<close>

lemma length_doc_bytes:
  assumes "doc_ok doc"
  shows "length (put_coords (snd doc)) < length (doc_bytes doc)" "2 \<le> length (doc_bytes doc)"
proof -
  note D = doc_okD [OF assms]
  from put_coord_not_Nil [OF D(5)] have "0 < length (put_coord (length (snd doc)))" by blast
  moreover have "length (snd doc) \<le> length (put_coords (snd doc))"
    using length_put_coords [OF D(4)] .
  ultimately show "length (put_coords (snd doc)) < length (doc_bytes doc)" "2 \<le> length (doc_bytes doc)"
    using D(7) unfolding doc_bytes_def length_append by linarith+
qed

lemma codes_ConsI:
  assumes "keep < length s" "codes keep rest Stat' rp' docs"
    and "\<And>st. us_s st = s \<Longrightarrow> us_stat st = Stat \<Longrightarrow> us_range_ptr st = rp \<Longrightarrow>
      next_url_id st = Next (fst doc, st\<lparr>us_s := doc_bytes doc @ rest, us_stat := Stat',
        us_range_ptr := rp'\<rparr>)"
  shows "codes keep s Stat rp (doc # docs)"
  using assms by auto

lemma codes_simple:
  assumes "compression_type Stat = 0"
  shows "docs_ok docs \<Longrightarrow>
    codes 5 (concat (map (\<lambda>doc. udm_put_int4 (fst doc) @ doc_bytes doc) docs)) Stat rp docs"
proof (induction docs)
  case (Cons doc docs)
  let ?rest = "concat (map (\<lambda>doc. udm_put_int4 (fst doc) @ doc_bytes doc) docs)"
  have ok: "doc_ok doc" using Cons.prems by simp
  have i: "get_int4 (udm_put_int4 (fst doc) @ doc_bytes doc @ ?rest) = fst doc"
    by (rule get_put_int4) (use doc_okD(1,2) [OF ok] in simp)
  have n: "next_url_id st = Next (fst doc, st\<lparr>us_s := doc_bytes doc @ ?rest, us_stat := Stat,
        us_range_ptr := rp\<rparr>)"
    if "us_s st = udm_put_int4 (fst doc) @ doc_bytes doc @ ?rest" "us_stat st = Stat"
      "us_range_ptr st = rp" for st
    using that i assms by (cases st) (simp add: next_url_id_def Let_def)
  have "5 < length (udm_put_int4 (fst doc) @ doc_bytes doc @ ?rest)"
    using length_doc_bytes(2) [OF ok] by simp
  with n Cons show ?case by (auto intro: codes_ConsI simp del: codes.simps)
qed simp

text \<open>The format of the differences for each type of compression.\<close>

definition delta_format :: "nat \<Rightarrow> nat option" where
  "delta_format c =
     (if c = UDM_BLOB_COMP_URLID_DELTA_VARIABLE then Some 5
      else if c = UDM_BLOB_COMP_URLID_DELTA_1BYTES_WITH_OFFSET then Some 1
      else if c = UDM_BLOB_COMP_URLID_DELTA_2BYTES \<or> c = UDM_BLOB_COMP_URLID_DELTA_2BYTES_WITH_OFFSET
      then Some 2
      else if c = UDM_BLOB_COMP_URLID_DELTA_3BYTES then Some 3 else None)"

lemma next_url_id_delta:
  assumes fmt: "delta_format (compression_type Stat) = Some fmt"
    and i: "0 \<le> i" "i < format_bound fmt"
    and st: "us_s st = udm_put_int_with_format i fmt @ rest" "us_stat st = Stat"
    and id: "is_int4 (cur_url_id Stat + i)"
  shows "next_url_id st = Next (cur_url_id Stat + i,
    st\<lparr>us_s := rest, us_stat := Stat\<lparr>cur_url_id := cur_url_id Stat + i\<rparr>\<rparr>)"
proof -
  have n: "int (nat i) = i" using i by simp
  consider (1) "compression_type Stat = UDM_BLOB_COMP_URLID_DELTA_VARIABLE" "fmt = 5"
    | (2) "compression_type Stat = UDM_BLOB_COMP_URLID_DELTA_1BYTES_WITH_OFFSET" "fmt = 1"
    | (3) "compression_type Stat = UDM_BLOB_COMP_URLID_DELTA_2BYTES \<or>
           compression_type Stat = UDM_BLOB_COMP_URLID_DELTA_2BYTES_WITH_OFFSET" "fmt = 2"
    | (4) "compression_type Stat = UDM_BLOB_COMP_URLID_DELTA_3BYTES" "fmt = 3"
    using fmt by (auto simp: delta_format_def split: if_splits)
  then show ?thesis
  proof cases
    case 1
    let ?n = "nat i"
    have lt: "?n < 2097152" using i 1 by (simp add: format_bound_def)
    have "udm_put_int_with_format i fmt = put_coord ?n"
      using 1 i by (simp add: udm_put_int_with_format_def format_bound_def)
    with udm_coord_get_put [OF lt, of rest] drop_put_coord [OF lt, of rest] coord_size_bounds(1) [of ?n]
    show ?thesis
      using 1 st id n
      by (simp add: next_url_id_def next_delta_def Let_def comp_defs int4_of_id)
  next
    case 2
    have "unat (word_of_int i :: byte) = nat i"
      using i 2 by (simp add: format_bound_def unat_eq_nat_uint uint_byte_of_int)
    then show ?thesis
      using 2 st id n
      by (simp add: next_url_id_def next_delta_def Let_def comp_defs int4_of_id udm_put_int_with_format_def)
  next
    case 3
    have "udm_get_int2 (udm_put_int2 i @ rest) = i"
      using i 3 by (intro get_put_int2) (simp_all add: format_bound_def)
    then show ?thesis
      using 3 st id n
      by (elim disjE)
        (simp_all add: next_url_id_def next_delta_def Let_def comp_defs int4_of_id udm_put_int_with_format_def)
  next
    case 4
    have "udm_get_int3 (udm_put_int3 i @ rest) = i"
      using i 4 by (intro get_put_int3) (simp_all add: format_bound_def)
    then show ?thesis
      using 4 st id n
      by (auto simp: next_url_id_def next_delta_def Let_def comp_defs int4_of_id udm_put_int_with_format_def)
  qed
qed

lemma length_delta_doc:
  assumes "doc_ok doc" "deltas_below (format_bound fmt) prev (doc # docs)" "fmt \<in> {1, 2, 3, 5}"
  shows "2 + length (put_coords (snd doc)) + length (delta_bytes fmt (fst doc) docs)
      \<le> length (delta_bytes fmt prev (doc # docs))"
    "3 \<le> length (delta_bytes fmt prev (doc # docs))"
proof -
  have "udm_put_int_with_format (fst doc - prev) fmt \<noteq> []"
    using assms(2,3) by (intro put_int_not_Nil) auto
  then have "0 < length (udm_put_int_with_format (fst doc - prev) fmt)" by blast
  with length_doc_bytes [OF assms(1)]
  show "2 + length (put_coords (snd doc)) + length (delta_bytes fmt (fst doc) docs)
      \<le> length (delta_bytes fmt prev (doc # docs))" "3 \<le> length (delta_bytes fmt prev (doc # docs))"
    unfolding delta_bytes.simps length_append by linarith+
qed

lemma delta_format_cases: "delta_format c = Some fmt \<Longrightarrow> fmt \<in> {1, 2, 3, 5}"
  by (auto simp: delta_format_def split: if_splits)

lemma codes_delta:
  assumes fmt: "delta_format (compression_type Stat) = Some fmt"
  shows "docs_ok (docs @ lost) \<Longrightarrow> deltas_below (format_bound fmt) (cur_url_id Stat) (docs @ lost) \<Longrightarrow>
    length (delta_bytes fmt (last (cur_url_id Stat # map fst docs)) lost) \<le> 5 \<Longrightarrow>
    docs = [] \<or> lost \<noteq> [] \<or> 4 \<le> length (put_coords (snd (last docs))) \<Longrightarrow>
    codes 5 (delta_bytes fmt (cur_url_id Stat) (docs @ lost)) Stat rp docs"
  using fmt
proof (induction docs arbitrary: Stat)
  case (Cons doc docs)
  let ?prev = "cur_url_id Stat" and ?rest = "delta_bytes fmt (fst doc) (docs @ lost)"
  let ?Stat = "Stat\<lparr>cur_url_id := fst doc\<rparr>"
  note fin = delta_format_cases [OF Cons.prems(5)]
  have ok: "doc_ok doc" and d: "deltas_below (format_bound fmt) ?prev (doc # (docs @ lost))"
    using Cons.prems by auto
  have id: "is_int4 (fst doc)" using doc_okD(1,2) [OF ok] by simp
  have "codes 5 (delta_bytes fmt (cur_url_id ?Stat) (docs @ lost)) ?Stat rp docs"
    using Cons.prems by (intro Cons.IH) (auto split: if_splits)
  moreover have "next_url_id st = Next (fst doc, st\<lparr>us_s := doc_bytes doc @ ?rest, us_stat := ?Stat,
      us_range_ptr := rp\<rparr>)"
    if "us_s st = delta_bytes fmt ?prev ((doc # docs) @ lost)" "us_stat st = Stat" "us_range_ptr st = rp"
    for st
    using next_url_id_delta [OF Cons.prems(5), of "fst doc - ?prev" st "doc_bytes doc @ ?rest"] that d id
    by (cases st) simp
  moreover have "5 < length (delta_bytes fmt ?prev ((doc # docs) @ lost))"
  proof (cases "docs @ lost")
    case Nil
    with Cons.prems(4) length_delta_doc(1) [OF ok d fin] show ?thesis by simp
  next
    case (Cons doc' rest)
    have "doc_ok doc'" "deltas_below (format_bound fmt) (fst doc) (doc' # rest)"
      using Cons.prems(1) d Cons by auto
    from length_delta_doc(2) [OF this fin] length_delta_doc(1) [OF ok d fin] show ?thesis
      using length_put_coords [OF doc_okD(4) [OF ok]] doc_okD(7) [OF ok]
      unfolding append_Cons Cons by linarith
  qed
  ultimately show ?case by (intro codes_ConsI [where Stat' = ?Stat and rp' = rp]) auto
qed simp

fun consecutive :: "urlid_t \<Rightarrow> blob_doc list \<Rightarrow> bool" where
  "consecutive u [] = True"
| "consecutive u (doc # docs) = (fst doc = u \<and> consecutive (u + 1) docs)"

lemma codes_range:
  assumes "compression_type Stat = UDM_BLOB_COMP_SINGLE_RANGE"
  shows "docs_ok docs \<Longrightarrow> consecutive (cur_url_id Stat) docs \<or> docs = [] \<Longrightarrow>
    codes 1 (concat (map doc_bytes docs)) Stat rp docs"
  using assms
proof (induction docs arbitrary: Stat)
  case (Cons doc docs)
  let ?Stat = "Stat\<lparr>cur_url_id := int4_of (fst doc + 1)\<rparr>"
  have ok: "doc_ok doc" and cur: "cur_url_id Stat = fst doc" and c: "consecutive (fst doc + 1) docs"
    using Cons.prems by auto
  have "cur_url_id ?Stat = fst doc + 1 \<or> docs = []"
  proof (cases docs)
    case (Cons doc' docs')
    with c Cons.prems(1) doc_okD(1,2) [of doc'] show ?thesis by (auto simp: int4_of_id)
  qed simp
  with c have "codes 1 (concat (map doc_bytes docs)) ?Stat rp docs"
    using Cons.prems by (intro Cons.IH) auto
  moreover have "next_url_id st = Next (fst doc, st\<lparr>us_s := doc_bytes doc @ concat (map doc_bytes docs),
      us_stat := ?Stat, us_range_ptr := rp\<rparr>)"
    if "us_s st = concat (map doc_bytes (doc # docs))" "us_stat st = Stat" "us_range_ptr st = rp" for st
    using that cur Cons.prems(3) by (cases st) (simp add: next_url_id_def Let_def comp_defs)
  moreover have "1 < length (concat (map doc_bytes (doc # docs)))"
    using length_doc_bytes(2) [OF ok] by simp
  ultimately show ?case by (intro codes_ConsI [where Stat' = ?Stat and rp' = rp]) auto
qed simp

text \<open>The multiple ranges: \<open>cur\<close> and \<open>rmax\<close> are the current identifier and the end of its range.\<close>

fun in_ranges :: "urlid_t \<Rightarrow> urlid_t \<Rightarrow> (urlid_t \<times> urlid_t) list \<Rightarrow> blob_doc list \<Rightarrow> bool" where
  "in_ranges cur rmax rs [] = True"
| "in_ranges cur rmax rs (doc # docs) =
     (if cur = rmax
      then (case rs of [] \<Rightarrow> False
            | (lo, hi) # rs' \<Rightarrow> fst doc = lo \<and> is_int4 hi \<and> in_ranges lo hi rs' docs)
      else fst doc = cur + 1 \<and> in_ranges (fst doc) rmax rs docs)"

definition range_bytes :: "(urlid_t \<times> urlid_t) list \<Rightarrow> byte list" where
  "range_bytes rs = concat (map (\<lambda>(lo, hi). udm_put_int4 lo @ udm_put_int4 hi) rs)"

lemma codes_ranges:
  "docs_ok docs \<Longrightarrow> in_ranges (cur_url_id Stat) (range_max_url_id Stat) rs docs \<Longrightarrow>
   compression_type Stat = UDM_BLOB_COMP_URLID_RANGE_MULTI \<Longrightarrow> nranges Stat = length rs \<Longrightarrow>
   codes 1 (concat (map doc_bytes docs)) Stat (range_bytes rs @ tail) docs"
proof (induction docs arbitrary: Stat rs)
  case (Cons doc docs)
  have ok: "doc_ok doc" using Cons.prems by simp
  have id: "is_int4 (fst doc)" using doc_okD(1,2) [OF ok] by simp
  have len: "1 < length (concat (map doc_bytes (doc # docs)))"
    using length_doc_bytes(2) [OF ok] by simp
  show ?case
  proof (cases "cur_url_id Stat = range_max_url_id Stat")
    case True
    with Cons.prems(2) obtain lo hi rs' where rs: "rs = (lo, hi) # rs'" and lo: "fst doc = lo"
      and hi: "is_int4 hi" and r: "in_ranges lo hi rs' docs"
      by (cases rs) auto
    let ?Stat = "Stat\<lparr>nranges := nranges Stat - 1, range_min_url_id := lo, range_max_url_id := hi,
      cur_url_id := lo\<rparr>"
    have "codes 1 (concat (map doc_bytes docs)) ?Stat (range_bytes rs' @ tail) docs"
      using Cons.prems r rs by (intro Cons.IH) auto
    moreover have b: "range_bytes rs @ tail = udm_put_int4 lo @ udm_put_int4 hi @ range_bytes rs' @ tail"
      by (simp add: rs range_bytes_def)
    have "get_int4 (range_bytes rs @ tail) = lo"
      unfolding b by (rule get_put_int4) (use id lo in simp)
    moreover have "get_int4 (drop 4 (range_bytes rs @ tail)) = hi"
    proof -
      have "drop 4 (range_bytes rs @ tail) = udm_put_int4 hi @ range_bytes rs' @ tail"
        unfolding b by simp
      then show ?thesis using hi by (simp only: get_put_int4)
    qed
    moreover have "drop 8 (range_bytes rs @ tail) = range_bytes rs' @ tail"
      "\<not> length (range_bytes rs @ tail) < 8"
      unfolding b by simp_all
    ultimately show ?thesis
      using Cons.prems(3,4) True lo len rs
      by (intro codes_ConsI [where Stat' = ?Stat and rp' = "range_bytes rs' @ tail"])
        (auto simp add: next_url_id_def Let_def comp_defs simp del: drop_append length_append)
  next
    case False
    with Cons.prems(2) have cur: "fst doc = cur_url_id Stat + 1"
      and r: "in_ranges (fst doc) (range_max_url_id Stat) rs docs" by auto
    let ?Stat = "Stat\<lparr>cur_url_id := fst doc\<rparr>"
    have "codes 1 (concat (map doc_bytes docs)) ?Stat (range_bytes rs @ tail) docs"
      using Cons.prems r by (intro Cons.IH) auto
    moreover have "next_url_id st = Next (fst doc, st\<lparr>us_s := doc_bytes doc @ concat (map doc_bytes docs),
        us_stat := ?Stat, us_range_ptr := range_bytes rs @ tail\<rparr>)"
      if "us_s st = concat (map doc_bytes (doc # docs))" "us_stat st = Stat"
        "us_range_ptr st = range_bytes rs @ tail" for st
      using that cur id False Cons.prems(3)
      by (cases st) (simp add: next_url_id_def Let_def comp_defs int4_of_id)
    ultimately show ?thesis
      using len by (intro codes_ConsI [where Stat' = ?Stat and rp' = "range_bytes rs @ tail"]) auto
  qed
qed simp

subsection \<open>The statistics\<close>

lemma strcmp_refl [simp]: "strcmp s s = 0"
  by (induction s) auto

definition other_key :: "byte list \<Rightarrow> nat \<Rightarrow> blob_cache_word list \<Rightarrow> bool" where
  "other_key wd sec ws \<longleftrightarrow>
     ws = [] \<or> bw_secno (hd ws) \<noteq> sec \<or> strcmp (bw_word (hd ws)) wd \<noteq> 0"

abbreviation ids :: "blob_doc list \<Rightarrow> urlid_t list" where
  "ids docs \<equiv> map fst docs"

lemma deltas_below_mono: "deltas_below b prev docs \<Longrightarrow> b \<le> b' \<Longrightarrow> deltas_below b' prev docs"
  by (induction docs arbitrary: prev) fastforce+

lemma word_stat_loop_docs:
  assumes "bw_word F = wd" "bw_secno F = sec" "other_key wd sec others"
  shows "sorted_wrt (<) (max_url_id Stat # ids docs) \<Longrightarrow> 0 \<le> max_url_id Stat \<Longrightarrow>
    0 \<le> max_url_id_delta Stat \<Longrightarrow> docs_ok docs \<Longrightarrow>
    \<exists>Stat'. word_stat_loop F (words_of wd sec docs @ others) Stat n = (n + length docs, Stat') \<and>
      ndistinct_url_ids_minus_one Stat' = ndistinct_url_ids_minus_one Stat + length docs \<and>
      min_url_id Stat' = min_url_id Stat \<and> max_url_id Stat' = last (max_url_id Stat # ids docs) \<and>
      max_url_id_delta Stat \<le> max_url_id_delta Stat' \<and>
      deltas_below (max_url_id_delta Stat' + 1) (max_url_id Stat) docs"
proof (induction docs arbitrary: Stat n)
  case Nil
  show ?case using assms by (cases others) (auto simp: other_key_def)
next
  case (Cons doc docs)
  let ?d = "fst doc - max_url_id Stat"
  let ?Stat = "Stat\<lparr>ndistinct_url_ids_minus_one := ndistinct_url_ids_minus_one Stat + 1,
    max_url_id_delta := (if ?d > max_url_id_delta Stat then ?d else max_url_id_delta Stat),
    max_url_id := fst doc\<rparr>"
  have gt: "fst doc > max_url_id Stat" "int4_of ?d = ?d"
    using Cons.prems doc_okD(1,2) [of doc] by (auto intro!: int4_of_id)
  then have "word_stat_loop F (words_of wd sec (doc # docs) @ others) Stat n =
      word_stat_loop F (words_of wd sec docs @ others) ?Stat (n + 1)"
    using assms by (cases Stat) (auto simp: Let_def)
  moreover have "\<exists>Stat'. word_stat_loop F (words_of wd sec docs @ others) ?Stat (n + 1) =
        (n + 1 + length docs, Stat') \<and>
      ndistinct_url_ids_minus_one Stat' = ndistinct_url_ids_minus_one ?Stat + length docs \<and>
      min_url_id Stat' = min_url_id ?Stat \<and> max_url_id Stat' = last (max_url_id ?Stat # ids docs) \<and>
      max_url_id_delta ?Stat \<le> max_url_id_delta Stat' \<and>
      deltas_below (max_url_id_delta Stat' + 1) (max_url_id ?Stat) docs"
    by (rule Cons.IH) (use Cons.prems gt in auto)
  then obtain Stat' where "word_stat_loop F (words_of wd sec docs @ others) ?Stat (n + 1) =
        (n + 1 + length docs, Stat')"
    "ndistinct_url_ids_minus_one Stat' = ndistinct_url_ids_minus_one Stat + 1 + length docs"
    "min_url_id Stat' = min_url_id Stat" "max_url_id Stat' = last (fst doc # ids docs)"
    "(if ?d > max_url_id_delta Stat then ?d else max_url_id_delta Stat) \<le> max_url_id_delta Stat'"
    "deltas_below (max_url_id_delta Stat' + 1) (fst doc) docs" by auto
  ultimately show ?case using gt by (auto split: if_splits)
qed

lemma UdmBlobCacheOneWordStat_docs:
  assumes "sorted_wrt (<) (ids (doc # docs))" "docs_ok (doc # docs)" "other_key wd sec others"
  obtains Stat where
    "UdmBlobCacheOneWordStat (words_of wd sec (doc # docs) @ others) Stat0 = (Suc (length docs), Stat)"
    "ndistinct_url_ids_minus_one Stat = length docs" "min_url_id Stat = fst doc"
    "max_url_id Stat = last (ids (doc # docs))" "0 \<le> max_url_id_delta Stat"
    "deltas_below (max_url_id_delta Stat + 1) (fst doc) docs"
proof -
  let ?F = "word_of_doc wd sec doc"
  let ?Stat = "Stat0\<lparr>min_url_id := fst doc, max_url_id := fst doc,
    ndistinct_url_ids_minus_one := 0, max_url_id_delta := 0\<rparr>"
  have "UdmBlobCacheOneWordStat (words_of wd sec (doc # docs) @ others) Stat0 =
      word_stat_loop ?F (words_of wd sec docs @ others) ?Stat 1"
    by (cases Stat0) (simp add: UdmBlobCacheOneWordStat_def Let_def)
  moreover have "0 < fst doc" using assms(2) doc_okD(1) [of doc] by simp
  ultimately show thesis
    using word_stat_loop_docs [OF _ _ assms(3), of ?F ?Stat docs 1] assms(1,2) that by auto
qed

lemma ascending_last:
  "sorted_wrt (<) (a # ids docs) \<Longrightarrow> a + int (length docs) \<le> last (a # ids docs)"
proof (induction docs arbitrary: a)
  case (Cons doc docs)
  from Cons.IH [of "fst doc"] Cons.prems show ?case by auto
qed simp

lemma ascending_consecutive:
  "sorted_wrt (<) (a # ids docs) \<Longrightarrow> last (a # ids docs) = a + int (length docs) \<Longrightarrow>
   consecutive (a + 1) docs"
proof (induction docs arbitrary: a)
  case (Cons doc docs)
  from Cons.prems have gt: "a < fst doc" and s: "sorted_wrt (<) (fst doc # ids docs)" by auto
  have "last (fst doc # ids docs) = a + 1 + int (length docs)" using Cons.prems by auto
  with ascending_last [OF s] gt have e: "fst doc = a + 1" by linarith
  with Cons.IH [OF s] Cons.prems(2) show ?case by auto
qed simp

subsection \<open>The ranges of the packer\<close>

function ranges_of :: "blob_cache_word list \<Rightarrow> (urlid_t \<times> urlid_t) list" where
  "ranges_of [] = []"
| "ranges_of (w # ws) =
     (bw_url_id w, bw_url_id (fst (range_last w ws))) # ranges_of (snd (range_last w ws))"
  by pat_completeness auto
termination
  by (relation "measure length") (auto simp: less_Suc_eq_le range_last_length)

lemma length_ranges_of: "length (ranges_of ws) \<le> length ws"
proof (induction ws rule: ranges_of.induct)
  case (2 w ws)
  with range_last_length [of w ws] show ?case by simp
qed simp

lemma content_pack_ranges:
  "fst (pack_ranges ws n d) = n + length (ranges_of ws)"
  "content (snd (pack_ranges ws n d)) = content d @ range_bytes (ranges_of ws)"
  by (induction ws n d rule: pack_ranges.induct)
    (auto simp: split_beta content_AppendINT4 range_bytes_def)

lemma range_last_docs:
  "sorted_wrt (<) (ids (doc # docs)) \<Longrightarrow> \<exists>l docs'.
     range_last (word_of_doc wd sec doc) (words_of wd sec docs) =
       (word_of_doc wd sec l, words_of wd sec docs') \<and>
     l \<in> set (doc # docs) \<and> set docs' \<subseteq> set docs \<and> sorted_wrt (<) (ids docs') \<and> fst doc \<le> fst l \<and>
     (\<forall>rs. in_ranges (fst l) (fst l) rs docs' \<longrightarrow> in_ranges (fst doc) (fst l) rs docs)"
proof (induction docs arbitrary: doc)
  case Nil
  show ?case by (intro exI [of _ doc] exI [of _ "[]"]) simp
next
  case (Cons doc1 docs)
  show ?case
  proof (cases "fst doc1 > fst doc + 1")
    case True
    with Cons.prems show ?thesis by (intro exI [of _ doc] exI [of _ "doc1 # docs"]) auto
  next
    case False
    with Cons.prems have e: "fst doc1 = fst doc + 1" and s: "sorted_wrt (<) (ids (doc1 # docs))" by auto
    from Cons.IH [OF s] obtain l docs' where
      l: "range_last (word_of_doc wd sec doc1) (words_of wd sec docs) =
        (word_of_doc wd sec l, words_of wd sec docs')" "l \<in> set (doc1 # docs)"
      "set docs' \<subseteq> set docs" "sorted_wrt (<) (ids docs')" "fst doc1 \<le> fst l"
      "\<forall>rs. in_ranges (fst l) (fst l) rs docs' \<longrightarrow> in_ranges (fst doc1) (fst l) rs docs"
      by blast
    then have "in_ranges (fst doc) (fst l) rs (doc1 # docs)" if "in_ranges (fst l) (fst l) rs docs'" for rs
      using e that by auto
    with l False e show ?thesis by (intro exI [of _ l] exI [of _ docs']) auto
  qed
qed

lemma in_ranges_pack:
  "sorted_wrt (<) (ids docs) \<Longrightarrow> docs_ok docs \<Longrightarrow> in_ranges u u (ranges_of (words_of wd sec docs)) docs"
proof (induction "words_of wd sec docs" arbitrary: docs u rule: ranges_of.induct)
  case (2 w ws)
  then obtain doc docs0 where docs: "docs = doc # docs0" and w: "w = word_of_doc wd sec doc"
    "ws = words_of wd sec docs0" by (cases docs) auto
  have "sorted_wrt (<) (ids (doc # docs0))" using 2(3) docs by simp
  from range_last_docs [OF this, of wd sec] obtain l docs' where
    l0: "range_last (word_of_doc wd sec doc) (words_of wd sec docs0) =
      (word_of_doc wd sec l, words_of wd sec docs')" "l \<in> set (doc # docs0)"
    "set docs' \<subseteq> set docs0" "sorted_wrt (<) (ids docs')"
    "\<forall>rs. in_ranges (fst l) (fst l) rs docs' \<longrightarrow> in_ranges (fst doc) (fst l) rs docs0"
    by blast
  then have l: "range_last w ws = (word_of_doc wd sec l, words_of wd sec docs')" "l \<in> set docs"
    "set docs' \<subseteq> set docs" using w docs by auto
  note l = l l0(4,5)
  have "in_ranges (fst l) (fst l) (ranges_of (words_of wd sec docs')) docs'"
    using 2(1) [of docs' "fst l"] l 2(4) by auto
  with l docs w 2(4) doc_okD(1,2) [of l] show ?case by auto
qed simp

subsection \<open>Unpacking each format\<close>

definition unpacks ::
    "udm_urlid_list \<Rightarrow> udm_section \<Rightarrow> bool \<Rightarrow> bool \<Rightarrow> byte list \<Rightarrow> blob_doc list \<Rightarrow> bool" where
  "unpacks us T save need s docs \<longleftrightarrow>
     (\<exists>L. UdmSectionListBlobCoordsUnpack us T s save need = Go L \<and>
        list_all2 (describes T save need (Coords L)) (Sections L)
          (filter (\<lambda>doc. url_active us (fst doc)) docs))"

lemma unpacksI:
  assumes "UdmBlobCoordsGetCompressionType s = Some (h, Stat)" "drop h s = b"
    "drop (range_offset Stat) s = rp" "codes keep b Stat rp docs" "docs_ok docs"
    and "keep = (if compression_type Stat = UDM_BLOB_COMP_SINGLE_RANGE \<or>
                    compression_type Stat = UDM_BLOB_COMP_URLID_RANGE_MULTI then 1 else 5)"
  shows "unpacks us T save need s docs"
proof -
  have "\<exists>L. record_values us T s save need = Some L \<and>
      list_all2 (describes T save need (Coords L)) (Sections L) (filter (\<lambda>doc. url_active us (fst doc)) docs)"
    using assms by (intro unpack_codes) auto
  then show ?thesis unfolding unpacks_def unpack_values by auto
qed

lemma unpacks_simple:
  assumes "docs_ok docs"
  shows "unpacks us T save need (concat (map (\<lambda>doc. udm_put_int4 (fst doc) @ doc_bytes doc) docs)) docs"
proof -
  let ?s = "concat (map (\<lambda>doc. udm_put_int4 (fst doc) @ doc_bytes doc) docs)"
  have "\<not> (length ?s > 10 \<and> get_int4 ?s = -1)"
  proof (cases docs)
    case (Cons doc docs')
    then have "get_int4 ?s = fst doc"
      using get_put_int4 [of "fst doc" "doc_bytes doc @ concat (map (\<lambda>doc. udm_put_int4 (fst doc) @ doc_bytes doc) docs')"]
        assms doc_okD(1,2) [of doc] by simp
    then show ?thesis using assms doc_okD(1) [of doc] Cons by simp
  qed simp
  then have "UdmBlobCoordsGetCompressionType ?s = Some (0, zero_stat)"
    by (auto simp: UdmBlobCoordsGetCompressionType_def Let_def comp_defs zero_stat_def)
  then show ?thesis
    by (rule unpacksI [OF _ _ refl codes_simple]) (use assms in \<open>simp_all add: comp_defs zero_stat_def\<close>)
qed

lemma mod_65536_parts: "i mod 65536 \<noteq> 0 \<Longrightarrow> i mod 256 \<noteq> 0 \<or> i div 256 mod 256 \<noteq> 0" for i :: int
  unfolding bytes_join2 [symmetric] by (metis add_0 mult_zero_left)

lemma not_zero2_int4: "0 \<le> i \<Longrightarrow> i mod 65536 \<noteq> 0 \<Longrightarrow> not_zero2 (udm_put_int4 i @ s)"
proof -
  assume i: "0 \<le> i" "i mod 65536 \<noteq> 0"
  from i(2) have "i mod 256 \<noteq> 0 \<or> i div 256 mod 256 \<noteq> 0" by (rule mod_65536_parts)
  then have "uint (word_of_int i :: byte) \<noteq> 0 \<or> uint (word_of_int (drop_bit 8 i) :: byte) \<noteq> 0"
    by (simp only: uint_byte_of_int drop_bit_eq_div) simp
  then have "(word_of_int i :: byte) \<noteq> 0 \<or> (word_of_int (drop_bit 8 i) :: byte) \<noteq> 0"
    by auto
  then show ?thesis by (simp add: not_zero2_def udm_put_int4_def)
qed

lemma not_zero2_int2: "0 < i \<Longrightarrow> i < 65536 \<Longrightarrow> not_zero2 (udm_put_int2 i @ s)"
proof -
  assume i: "0 < i" "i < 65536"
  have "i mod 65536 \<noteq> 0" using i by simp
  then have "i mod 256 \<noteq> 0 \<or> i div 256 mod 256 \<noteq> 0" by (rule mod_65536_parts)
  then have "uint (word_of_int (i mod 256) :: byte) \<noteq> 0 \<or> uint (word_of_int (drop_bit 8 i) :: byte) \<noteq> 0"
    by (simp only: uint_byte_of_int drop_bit_eq_div) simp
  then have "(word_of_int (i mod 256) :: byte) \<noteq> 0 \<or> (word_of_int (drop_bit 8 i) :: byte) \<noteq> 0"
    by auto
  then show ?thesis by (simp add: not_zero2_def udm_put_int2_def and_mask_int)
qed

lemma not_zero2_int3: "0 \<le> i \<Longrightarrow> i mod 65536 \<noteq> 0 \<Longrightarrow> not_zero2 (udm_put_int3 i @ s)"
proof -
  assume i: "0 \<le> i" "i mod 65536 \<noteq> 0"
  from i(2) have "i mod 256 \<noteq> 0 \<or> i div 256 mod 256 \<noteq> 0" by (rule mod_65536_parts)
  then have "uint (word_of_int (i mod 256) :: byte) \<noteq> 0 \<or> uint (word_of_int (drop_bit 8 i mod 256) :: byte) \<noteq> 0"
    by (simp only: uint_byte_of_int drop_bit_eq_div) simp
  then have "(word_of_int (i mod 256) :: byte) \<noteq> 0 \<or> (word_of_int (drop_bit 8 i mod 256) :: byte) \<noteq> 0"
    by auto
  then show ?thesis by (simp add: not_zero2_def udm_put_int3_def and_mask_int)
qed

lemma unpacks_range:
  assumes ok: "docs_ok docs" and docs: "docs \<noteq> []" and c: "consecutive (fst (hd docs)) docs"
    and min: "fst (hd docs) mod 65536 \<noteq> 0"
  shows "unpacks us T save need
    (header UDM_BLOB_COMP_SINGLE_RANGE @ udm_put_int4 (fst (hd docs)) @ udm_put_int4 m @
     concat (map doc_bytes docs)) docs"
proof -
  let ?u = "fst (hd docs)"
  let ?s = "udm_put_int4 ?u @ udm_put_int4 m @ concat (map doc_bytes docs)"
  have u: "0 < ?u" "is_int4 ?u" using ok docs doc_okD(1,2) [of "hd docs"] by auto
  have h: "\<not> length ?s < 8" "4 < length ?s" by simp_all
  obtain m' where g: "UdmBlobCoordsGetCompressionType (header UDM_BLOB_COMP_SINGLE_RANGE @ ?s) =
      Some (14, zero_stat\<lparr>compression_type := UDM_BLOB_COMP_SINGLE_RANGE,
                          min_url_id := ?u, max_url_id := m', cur_url_id := ?u\<rparr>)"
    using get_header [OF not_zero2_int4 [OF _ min] _ h(2), of UDM_BLOB_COMP_SINGLE_RANGE] h(1) u
      get_put_int4 [OF u(2), of "udm_put_int4 m @ concat (map doc_bytes docs)"]
    by (simp add: Let_def comp_defs)
  have "drop 14 (header UDM_BLOB_COMP_SINGLE_RANGE @ ?s) = concat (map doc_bytes docs)"
    by (simp add: header_def)
  from unpacksI [OF g this refl codes_range [OF _ ok] ok] c show ?thesis by simp
qed

lemma unpacks_ranges:
  assumes ok: "docs_ok docs" and r: "in_ranges 0 0 rs docs" and n: "length rs mod 65536 \<noteq> 0"
    "length rs < 2147483648"
  shows "unpacks us T save need
    (header UDM_BLOB_COMP_URLID_RANGE_MULTI @ udm_put_int4 (int (length rs)) @ range_bytes rs @
     concat (map doc_bytes docs)) docs"
proof -
  let ?n = "int (length rs)"
  let ?s = "udm_put_int4 ?n @ range_bytes rs @ concat (map doc_bytes docs)"
  have len: "length (range_bytes rs) = 8 * length rs"
    by (induction rs) (auto simp: range_bytes_def)
  have "rs \<noteq> []" using n(1) by auto
  with len have h: "4 < length ?s" by simp
  have "int (length rs mod 65536) \<noteq> 0" using n(1) by simp
  then have "?n mod 65536 \<noteq> 0" by (simp add: zmod_int)
  from not_zero2_int4 [OF _ this] have z: "not_zero2 ?s" by simp
  have gi: "get_int4 ?s = ?n" by (rule get_put_int4) (use n(2) in simp)
  have g: "UdmBlobCoordsGetCompressionType (header UDM_BLOB_COMP_URLID_RANGE_MULTI @ ?s) =
      Some (10 + 8 * length rs, zero_stat\<lparr>compression_type := UDM_BLOB_COMP_URLID_RANGE_MULTI,
                          nranges := length rs, range_offset := 10\<rparr>)"
    using get_header [OF z _ h, of UDM_BLOB_COMP_URLID_RANGE_MULTI] gi n(2)
    by (simp add: Let_def comp_defs size_of_int_def)
  have d: "drop (10 + 8 * length rs) (header UDM_BLOB_COMP_URLID_RANGE_MULTI @ ?s) =
      concat (map doc_bytes docs)"
    "drop 10 (header UDM_BLOB_COMP_URLID_RANGE_MULTI @ ?s) = range_bytes rs @ concat (map doc_bytes docs)"
    by (simp_all add: header_def len)
  let ?Stat = "zero_stat\<lparr>compression_type := UDM_BLOB_COMP_URLID_RANGE_MULTI,
                          nranges := length rs, range_offset := 10\<rparr>"
  have o: "drop (range_offset ?Stat) (header UDM_BLOB_COMP_URLID_RANGE_MULTI @ ?s) =
      range_bytes rs @ concat (map doc_bytes docs)"
    using d(2) by simp
  have "codes 1 (concat (map doc_bytes docs)) ?Stat (range_bytes rs @ concat (map doc_bytes docs)) docs"
    by (rule codes_ranges [OF ok]) (use r in \<open>simp_all add: zero_stat_def\<close>)
  from unpacksI [OF g d(1) o this ok] show ?thesis by simp
qed

lemma unpacks_delta:
  assumes ok: "docs_ok (docs @ lost)" and z: "not_zero2 (delta_bytes fmt 0 (docs @ lost))"
    and l: "4 < length (delta_bytes fmt 0 (docs @ lost))"
    and c: "c \<in> {UDM_BLOB_COMP_URLID_DELTA_VARIABLE, UDM_BLOB_COMP_URLID_DELTA_2BYTES,
                 UDM_BLOB_COMP_URLID_DELTA_3BYTES}" "delta_format c = Some fmt"
    and d: "deltas_below (format_bound fmt) 0 (docs @ lost)"
    and lost: "length (delta_bytes fmt (last (0 # ids docs)) lost) \<le> 5"
      "docs = [] \<or> lost \<noteq> [] \<or> 4 \<le> length (put_coords (snd (last docs)))"
  shows "unpacks us T save need (header c @ delta_bytes fmt 0 (docs @ lost)) docs"
proof -
  have "c < 256" using c(1) by (auto simp: comp_defs)
  then have g: "UdmBlobCoordsGetCompressionType (header c @ delta_bytes fmt 0 (docs @ lost)) =
      Some (6, zero_stat\<lparr>compression_type := c\<rparr>)"
    using get_header [OF z _ l, of c] c(1) by (auto simp: Let_def comp_defs)
  let ?Stat = "zero_stat\<lparr>compression_type := c\<rparr>"
  have dr: "drop 6 (header c @ delta_bytes fmt 0 (docs @ lost)) = delta_bytes fmt 0 (docs @ lost)"
    by (simp add: header_def)
  have "codes 5 (delta_bytes fmt (cur_url_id ?Stat) (docs @ lost)) ?Stat rp docs" for rp
    by (rule codes_delta) (use assms in \<open>simp_all add: zero_stat_def\<close>)
  then have "codes 5 (delta_bytes fmt 0 (docs @ lost)) ?Stat rp docs" for rp
    by (simp add: zero_stat_def)
  from unpacksI [OF g dr refl this] ok c(1) show ?thesis by (auto simp: comp_defs)
qed

lemma unpacks_delta_offset_lost:
  assumes ok: "docs_ok (docs @ lost)" and o: "0 < o'" "o' < 32768" and docs: "docs \<noteq> []"
    and d: "deltas_below 65536 (o' * 65536) (docs @ lost)"
    and lost: "length (delta_bytes 2 (last (ids docs)) lost) \<le> 5" "lost \<noteq> [] \<or> 4 \<le> length (put_coords (snd (last docs)))"
  shows "unpacks us T save need
    (header UDM_BLOB_COMP_URLID_DELTA_2BYTES_WITH_OFFSET @ udm_put_int2 o' @
     delta_bytes 2 (o' * 65536) (docs @ lost)) docs"
proof -
  let ?c = UDM_BLOB_COMP_URLID_DELTA_2BYTES_WITH_OFFSET
  let ?s = "udm_put_int2 o' @ delta_bytes 2 (o' * 65536) (docs @ lost)"
  have d': "deltas_below (format_bound 2) (o' * 65536) (docs @ lost)" using d by (simp add: format_bound_def)
  obtain doc docs0 where "docs = doc # docs0" using docs by (cases docs) auto
  with length_delta_doc(2) [of doc 2 "o' * 65536" "docs0 @ lost"] ok d' have h: "4 < length ?s" by simp
  let ?Stat = "zero_stat\<lparr>compression_type := ?c, cur_url_id := o' * 65536\<rparr>"
  have "int4_of (push_bit 16 o') = o' * 65536"
    using o by (simp add: push_bit_eq_mult int4_of_id)
  moreover have "udm_get_int2 ?s = o'" using o by (intro get_put_int2) simp_all
  moreover have "not_zero2 ?s" using o by (intro not_zero2_int2) simp_all
  ultimately have g: "UdmBlobCoordsGetCompressionType (header ?c @ ?s) = Some (8, ?Stat)"
    using get_header [of ?s ?c] h by (simp add: Let_def comp_defs)
  have dr: "drop 8 (header ?c @ ?s) = delta_bytes 2 (cur_url_id ?Stat) (docs @ lost)"
    by (simp add: header_def)
  have "codes 5 (delta_bytes 2 (cur_url_id ?Stat) (docs @ lost)) ?Stat rp docs" for rp
    by (rule codes_delta) (use ok d' lost docs in \<open>auto simp: delta_format_def comp_defs\<close>)
  from unpacksI [OF g dr refl this] ok show ?thesis by (simp add: comp_defs)
qed

lemma unpacks_delta_offset:
  assumes "docs_ok docs" "0 < o'" "o' < 32768" "docs \<noteq> []"
    and "deltas_below 65536 (o' * 65536) docs" "4 \<le> length (put_coords (snd (last docs)))"
  shows "unpacks us T save need
    (header UDM_BLOB_COMP_URLID_DELTA_2BYTES_WITH_OFFSET @ udm_put_int2 o' @
     delta_bytes 2 (o' * 65536) docs) docs"
  using unpacks_delta_offset_lost [of docs "[]" o'] assms by simp

subsection \<open>The chosen format\<close>

text \<open>
  What the compressed formats need of the documents: the lower half of the first identifier
  is not zero, the last document has at least four bytes of coordinates, and the
  identifiers grow by less than 2 ^ 21.
\<close>

definition compressible :: "blob_doc list \<Rightarrow> bool" where
  "compressible docs \<longleftrightarrow>
     fst (hd docs) mod 65536 \<noteq> 0 \<and> 4 \<le> length (put_coords (snd (last docs))) \<and>
     deltas_below 2097152 0 docs \<and> length docs < 65536"

lemma content_range:
  assumes "docs_ok docs"
  shows "content (UdmBlobCachePackOneWordForBdictURLIDRange (words_of wd sec docs) Stat d) =
    content d @ header UDM_BLOB_COMP_SINGLE_RANGE @ udm_put_int4 (min_url_id Stat) @
    udm_put_int4 (max_url_id Stat) @ concat (map doc_bytes docs)"
proof -
  obtain d' where "UdmDSTRAppendCompressionType d UDM_BLOB_COMP_SINGLE_RANGE = (2, d')"
    "content d' = content d @ header UDM_BLOB_COMP_SINGLE_RANGE"
    using content_AppendCompressionType [of UDM_BLOB_COMP_SINGLE_RANGE d]
    by (auto simp: comp_defs header_def)
  then show ?thesis
    using assms by (simp add: UdmBlobCachePackOneWordForBdictURLIDRange_def split_beta
        content_AppendINT4 content_pack_docs)
qed

lemma put_at_append: "length bs = length ys \<Longrightarrow> put_at (length xs) bs (xs @ ys @ zs) = xs @ bs @ zs"
  by (simp add: put_at_def)

lemma content_range_multi:
  assumes "docs_ok docs"
  shows "content (UdmBlobCachePackOneWordForBdictURLIDRangeMulti (words_of wd sec docs) Stat d) =
    content d @ header UDM_BLOB_COMP_URLID_RANGE_MULTI @
    udm_put_int4 (int (length (ranges_of (words_of wd sec docs)))) @
    range_bytes (ranges_of (words_of wd sec docs)) @ concat (map doc_bytes docs)"
proof -
  obtain d' where d': "UdmDSTRAppendCompressionType d UDM_BLOB_COMP_URLID_RANGE_MULTI = (2, d')"
    "content d' = content d @ header UDM_BLOB_COMP_URLID_RANGE_MULTI"
    using content_AppendCompressionType [of UDM_BLOB_COMP_URLID_RANGE_MULTI d]
    by (auto simp: comp_defs header_def)
  have "header UDM_BLOB_COMP_URLID_RANGE_MULTI \<noteq> []" by (simp add: header_def udm_put_int4_def)
  with d' show ?thesis
    using assms put_at_append [of "udm_put_int4 (int (length (ranges_of (words_of wd sec docs))))"
        "udm_put_int4 0" "content d'" "range_bytes (ranges_of (words_of wd sec docs))"]
    by (simp add: UdmBlobCachePackOneWordForBdictURLIDRangeMulti_def split_beta
        content_AppendINT4 content_pack_docs content_pack_ranges)
qed

lemma content_delta_variable:
  assumes "docs_ok docs" "deltas_below 2097152 0 docs"
  shows "content (UdmBlobCachePackOneWordForBdictURLIDDeltaVariable (words_of wd sec docs) d) =
    content d @ header UDM_BLOB_COMP_URLID_DELTA_VARIABLE @ delta_bytes 5 0 docs"
proof -
  obtain d' where "UdmDSTRAppendCompressionType d UDM_BLOB_COMP_URLID_DELTA_VARIABLE = (2, d')"
    "content d' = content d @ header UDM_BLOB_COMP_URLID_DELTA_VARIABLE"
    using content_AppendCompressionType [of UDM_BLOB_COMP_URLID_DELTA_VARIABLE d]
    by (auto simp: comp_defs header_def)
  then show ?thesis
    using content_pack_deltas [OF assms(1), of 5] assms(2)
    by (simp add: UdmBlobCachePackOneWordForBdictURLIDDeltaVariable_def format_bound_def)
qed

lemma content_delta_fixed:
  assumes "docs_ok docs" "fmt = 2 \<and> c = UDM_BLOB_COMP_URLID_DELTA_2BYTES \<or>
      fmt = 3 \<and> c = UDM_BLOB_COMP_URLID_DELTA_3BYTES" "deltas_below (format_bound fmt) 0 docs"
  shows "content (UdmBlobCachePackOneWordForBdictURLIDDeltaFixed (words_of wd sec docs) d fmt 0) =
    content d @ header c @ delta_bytes fmt 0 docs"
proof -
  obtain d' where "UdmDSTRAppendCompressionType d c = (2, d')" "content d' = content d @ header c"
    using content_AppendCompressionType [of c d] assms(2) by (auto simp: comp_defs header_def)
  moreover have "int4_of 0 = 0" by (rule int4_of_id) simp
  ultimately show ?thesis
    using content_pack_deltas [OF assms(1,3)] assms(2)
    by (auto simp: UdmBlobCachePackOneWordForBdictURLIDDeltaFixed_def)
qed

lemma content_delta_offset:
  assumes ok: "docs_ok docs" and m: "65536 \<le> m" "m < 2147483648"
    and d: "deltas_below 65536 (m div 65536 * 65536) docs"
  shows "content (UdmBlobCachePackOneWordForBdictURLIDDeltaFixed (words_of wd sec docs) d 2
      (nat (size_of_int m))) =
    content d @ header UDM_BLOB_COMP_URLID_DELTA_2BYTES_WITH_OFFSET @ udm_put_int2 (m div 65536) @
    delta_bytes 2 (m div 65536 * 65536) docs"
proof -
  let ?n = "nat m"
  have n: "nat (size_of_int m) = ?n" "int ?n = m" using m by (simp_all add: size_of_int_def)
  have "?n AND 4294901760 = push_bit 16 (take_bit 16 (drop_bit 16 ?n))"
  proof -
    have "push_bit 16 (mask 16) = (4294901760 :: nat)"
      by (simp add: push_bit_eq_mult mask_eq_exp_minus_1)
    moreover have "?n AND push_bit 16 (mask 16) = push_bit 16 (take_bit 16 (drop_bit 16 ?n))"
      by (rule bit_eqI)
        (auto simp: bit_and_iff bit_push_bit_iff bit_take_bit_iff bit_drop_bit_eq bit_mask_iff)
    ultimately show ?thesis by simp
  qed
  also have "\<dots> = ?n div 65536 * 65536"
  proof -
    have "?n div 65536 < 65536" using m by simp
    then show ?thesis by (simp add: push_bit_eq_mult take_bit_eq_mod drop_bit_eq_div)
  qed
  finally have "int (?n AND 4294901760) = m div 65536 * 65536"
    using n(2) by (simp add: zdiv_int)
  then have prev: "int4_of (int (?n AND 4294901760)) = m div 65536 * 65536"
    using m by (simp add: int4_of_id)
  have "int (drop_bit 16 ?n) = m div 65536" using n(2) by (simp add: drop_bit_eq_div zdiv_int)
  then have off: "int4_of (int (drop_bit 16 ?n)) = m div 65536" using m by (simp add: int4_of_id)
  obtain d' where "UdmDSTRAppendCompressionType d UDM_BLOB_COMP_URLID_DELTA_2BYTES_WITH_OFFSET = (2, d')"
    "content d' = content d @ header UDM_BLOB_COMP_URLID_DELTA_2BYTES_WITH_OFFSET"
    using content_AppendCompressionType [of UDM_BLOB_COMP_URLID_DELTA_2BYTES_WITH_OFFSET d]
    by (auto simp: comp_defs header_def)
  moreover have "deltas_below (format_bound 2) (m div 65536 * 65536) docs"
    using d by (simp add: format_bound_def)
  ultimately show ?thesis
    using content_pack_deltas [OF ok] m(1) unfolding n
    by (simp add: UdmBlobCachePackOneWordForBdictURLIDDeltaFixed_def split_beta content_AppendINT2
        prev off Let_def)
qed

lemma put_coord_not_zero2:
  assumes "0 < wc" "wc < 2097152" "s \<noteq> []"
  shows "not_zero2 (put_coord wc @ s)"
proof -
  obtain c r where "put_coord wc = c # r"
    using put_coord_not_Nil [OF assms(2)] by (cases "put_coord wc") auto
  with put_coord_no_zero [OF assms(2)] assms(1,3) show ?thesis
    by (cases "r @ s") (auto simp: not_zero2_def)
qed

lemma doc_bytes_not_Nil: "doc_ok doc \<Longrightarrow> doc_bytes doc \<noteq> []"
  using length_doc_bytes(2) by fastforce

lemma unpacks_delta_lost:
  assumes ok: "docs_ok (docs @ lost)" and docs: "docs \<noteq> []"
    and lost: "length (delta_bytes fmt (last (ids docs)) lost) \<le> 5" "lost \<noteq> [] \<or> 4 \<le> length (put_coords (snd (last docs)))"
    and c: "c = UDM_BLOB_COMP_URLID_DELTA_VARIABLE \<and> fmt = 5 \<or> c = UDM_BLOB_COMP_URLID_DELTA_2BYTES \<and> fmt = 2 \<or>
      c = UDM_BLOB_COMP_URLID_DELTA_3BYTES \<and> fmt = 3 \<and> fst (hd docs) mod 65536 \<noteq> 0"
    and d: "deltas_below (format_bound fmt) 0 (docs @ lost)"
  shows "unpacks us T save need (header c @ delta_bytes fmt 0 (docs @ lost)) docs"
proof -
  obtain doc docs1 where dd1: "docs = doc # docs1" using docs by (cases docs) auto
  define docs0 where "docs0 = docs1 @ lost"
  have dd: "docs @ lost = doc # docs0" by (simp add: dd1 docs0_def)
  have okd: "doc_ok doc" and b: "fst doc < format_bound fmt" using ok d dd by auto
  let ?tail = "doc_bytes doc @ delta_bytes fmt (fst doc) docs0"
  have z: "not_zero2 (delta_bytes fmt 0 (docs @ lost))"
  proof -
    have e: "delta_bytes fmt 0 (docs @ lost) = udm_put_int_with_format (fst doc) fmt @ ?tail" by (simp add: dd)
    have p: "0 < fst doc" "?tail \<noteq> []" using doc_okD(1) [OF okd] doc_bytes_not_Nil [OF okd] by auto
    from c consider (5) "fmt = 5" | (2) "fmt = 2" | (3) "fmt = 3" "fst doc mod 65536 \<noteq> 0"
      using dd1 by auto
    then show ?thesis
    proof cases
      case 5
      then have "udm_put_int_with_format (fst doc) fmt = put_coord (nat (fst doc))"
        "nat (fst doc) < 2097152" "0 < nat (fst doc)"
        using p(1) b by (simp_all add: udm_put_int_with_format_def format_bound_def)
      with put_coord_not_zero2 [OF _ _ p(2)] show ?thesis unfolding e by simp
    next
      case 2
      with p(1) b show ?thesis
        unfolding e by (simp add: udm_put_int_with_format_def format_bound_def not_zero2_int2)
    next
      case 3
      with not_zero2_int3 [OF _ 3(2), of ?tail] p(1) show ?thesis
        unfolding e by (simp add: udm_put_int_with_format_def)
    qed
  qed
  have cf: "c \<in> {UDM_BLOB_COMP_URLID_DELTA_VARIABLE, UDM_BLOB_COMP_URLID_DELTA_2BYTES,
      UDM_BLOB_COMP_URLID_DELTA_3BYTES}" "delta_format c = Some fmt"
    using c by (auto simp: delta_format_def comp_defs)
  have len: "4 < length (delta_bytes fmt 0 (docs @ lost))"
  proof -
    have "4 + 2 \<le> length (delta_bytes fmt 0 (docs @ lost))"
    proof (cases "docs0 = []")
      case True
      then have "docs1 = []" "lost = []" by (simp_all add: docs0_def)
      with lost(2) dd1 length_delta_doc(1) [of doc fmt 0 docs0] okd d delta_format_cases [OF cf(2)] dd
      show ?thesis by simp
    next
      case False
      then obtain doc1 docs2 where d1: "docs0 = doc1 # docs2" by (cases docs0) auto
      have "doc_ok doc1" using ok dd d1 by simp
      then have "3 \<le> length (delta_bytes fmt (fst doc) docs0)"
        using length_delta_doc(2) [of doc1 fmt "fst doc" docs2] d delta_format_cases [OF cf(2)] dd d1 by simp
      moreover have "2 + length (put_coords (snd doc)) + length (delta_bytes fmt (fst doc) docs0)
          \<le> length (delta_bytes fmt 0 (docs @ lost))"
        using length_delta_doc(1) [of doc fmt 0 docs0] okd d delta_format_cases [OF cf(2)] dd by simp
      ultimately show ?thesis
        using length_put_coords [OF doc_okD(4) [OF okd]] doc_okD(7) [OF okd] by linarith
    qed
    then show ?thesis by simp
  qed
  have lst: "last (0 # ids docs) = last (ids docs)" by (simp add: dd1)
  show ?thesis
    by (rule unpacks_delta [OF ok z len cf d]) (use lost docs lst in auto)
qed

lemma unpacks_delta_all:
  assumes "docs_ok docs" "docs \<noteq> []" "4 \<le> length (put_coords (snd (last docs)))"
    and "c = UDM_BLOB_COMP_URLID_DELTA_VARIABLE \<and> fmt = 5 \<or> c = UDM_BLOB_COMP_URLID_DELTA_2BYTES \<and> fmt = 2 \<or>
      c = UDM_BLOB_COMP_URLID_DELTA_3BYTES \<and> fmt = 3 \<and> fst (hd docs) mod 65536 \<noteq> 0"
    and "deltas_below (format_bound fmt) 0 docs"
  shows "unpacks us T save need (header c @ delta_bytes fmt 0 docs) docs"
  using unpacks_delta_lost [of docs "[]" fmt c] assms by simp

lemma pack_unpacks:
  assumes asc: "sorted_wrt (<) (ids docs)" and ok: "docs_ok docs" and ne: "docs \<noteq> []"
    and oth: "other_key wd sec others" and cmp: "use_compr \<longrightarrow> compressible docs"
    and cont: "content d = []"
  shows "\<exists>d'. UdmBlobCachePackOneWordForBdict (words_of wd sec docs @ others) Stat0 d use_compr =
      (length docs, d') \<and> unpacks us T save need (content d') docs"
proof -
  obtain doc docs0 where dd: "docs = doc # docs0" using ne by (cases docs) auto
  obtain Stat where st: "UdmBlobCacheOneWordStat (words_of wd sec docs @ others) Stat0 = (length docs, Stat)"
    "ndistinct_url_ids_minus_one Stat = length docs0" "min_url_id Stat = fst doc"
    "max_url_id Stat = last (ids docs)" "0 \<le> max_url_id_delta Stat"
    "deltas_below (max_url_id_delta Stat + 1) (fst doc) docs0"
    using UdmBlobCacheOneWordStat_docs [of doc docs0 wd sec others Stat0] asc ok oth dd by auto
  let ?ws = "words_of wd sec docs"
  have take: "take (length docs) (?ws @ others) = ?ws" by simp
  have min: "0 < fst doc" "fst doc < 2147483648" using doc_okD(1,2) [of doc] ok dd by auto
  have lastd: "0 < last (ids docs)" "last (ids docs) < 2147483648"
    using doc_okD(1,2) [of "last docs"] ok ne by (auto simp: last_map)
  have asc0: "sorted_wrt (<) (fst doc # ids docs0)" using asc dd by simp
  have nd: "fst doc + int (length docs0) \<le> last (ids docs)" using ascending_last [OF asc0] dd by simp
  have range: "int4_of (max_url_id Stat - min_url_id Stat) = last (ids docs) - fst doc"
    using st min lastd nd by (simp add: int4_of_id)
  define nd' where "nd' = int (ndistinct_url_ids_minus_one Stat)"
  define rsz where "rsz = int4_of (max_url_id Stat - min_url_id Stat)"
  have rsz: "rsz = last (ids docs) - fst doc" "0 \<le> rsz" "rsz < 2147483648"
    using range nd min lastd by (simp_all add: rsz_def)
  have first: "hd docs = doc" by (simp add: dd)
  have c: "fst doc mod 65536 \<noteq> 0" "4 \<le> length (put_coords (snd (last docs)))"
    "deltas_below 2097152 0 docs" "length docs < 65536" if use_compr
    using cmp that by (simp_all add: compressible_def dd)
  let ?P = "\<lambda>d'. unpacks us T save need (content d') docs"
  have simple: "?P (UdmBlobCachePackOneWordForBdictSimple ?ws d)"
    unfolding content_pack_simple [OF ok] cont append_Nil by (rule unpacks_simple [OF ok])
  have rng: "?P (UdmBlobCachePackOneWordForBdictURLIDRange ?ws Stat d)"
    if "use_compr" "size_of_int rsz = nd'"
  proof -
    have "rsz = int (length docs0)" using that(2) rsz st(2) by (simp add: size_of_int_def nd'_def)
    then have "consecutive (fst doc) docs"
      using ascending_consecutive [OF asc0] rsz(1) dd by simp
    then show ?thesis
      unfolding content_range [OF ok] cont append_Nil st(3)
      using unpacks_range [OF ok ne] c(1) [OF that(1)] by (simp add: first)
  qed
  have multi: "?P (UdmBlobCachePackOneWordForBdictURLIDRangeMulti ?ws Stat d)" if "use_compr"
  proof -
    have "0 < length (ranges_of ?ws)" by (simp add: dd)
    moreover have "length (ranges_of ?ws) < 65536"
      using length_ranges_of [of ?ws] c(4) [OF that] by simp
    ultimately show ?thesis
      unfolding content_range_multi [OF ok] cont append_Nil
      by (intro unpacks_ranges [OF ok in_ranges_pack [OF asc ok]]) simp_all
  qed
  have var: "?P (UdmBlobCachePackOneWordForBdictURLIDDeltaVariable ?ws d)" if "use_compr"
    unfolding content_delta_variable [OF ok c(3) [OF that]] cont append_Nil
    by (rule unpacks_delta_all [OF ok ne c(2) [OF that]])
      (use c(3) [OF that] in \<open>simp_all add: format_bound_def\<close>)
  have two: "?P (UdmBlobCachePackOneWordForBdictURLIDDeltaFixed ?ws d 2 0)"
    if "use_compr" "max_url_id_delta Stat \<le> 65535" "min_url_id Stat \<le> 65535"
  proof -
    have b: "deltas_below (format_bound 2) 0 docs"
      using that st(3,6) min dd deltas_below_mono [OF st(6), of 65536] by (simp add: format_bound_def)
    show ?thesis
      by (subst content_delta_fixed [OF ok _ b, of UDM_BLOB_COMP_URLID_DELTA_2BYTES])
        (auto simp: cont intro!: unpacks_delta_all [OF ok ne c(2) [OF that(1)] _ b])
  qed
  have off: "?P (UdmBlobCachePackOneWordForBdictURLIDDeltaFixed ?ws d 2 (nat (size_of_int (min_url_id Stat))))"
    if "use_compr" "max_url_id_delta Stat \<le> 65535" "min_url_id Stat > 65535"
  proof -
    have m: "65536 \<le> fst doc" using that(3) st(3) by simp
    let ?o = "fst doc div 65536"
    have "fst doc - ?o * 65536 = fst doc mod 65536" by (simp add: minus_div_mult_eq_mod)
    moreover have "0 \<le> fst doc mod 65536" "fst doc mod 65536 < 65536" by simp_all
    ultimately have "0 \<le> fst doc - ?o * 65536" "fst doc - ?o * 65536 < 65536" by linarith+
    then have b: "deltas_below 65536 (?o * 65536) docs"
      using deltas_below_mono [OF st(6), of 65536] that(2) by (simp add: dd)
    show ?thesis
      unfolding st(3) content_delta_offset [OF ok m min(2) b] cont append_Nil
      by (rule unpacks_delta_offset [OF ok _ _ ne b c(2) [OF that(1)]]) (use m min in auto)
  qed
  have three: "?P (UdmBlobCachePackOneWordForBdictURLIDDeltaFixed ?ws d 3 0)"
    if "use_compr" "max_url_id_delta Stat \<le> 16777215" "min_url_id Stat \<le> 16777215"
  proof -
    have b: "deltas_below (format_bound 3) 0 docs"
      using that st(3,6) min dd deltas_below_mono [OF st(6), of 16777216] by (simp add: format_bound_def)
    show ?thesis
      using c(1) [OF that(1)]
      by (subst content_delta_fixed [OF ok _ b, of UDM_BLOB_COMP_URLID_DELTA_3BYTES])
        (auto simp: cont first dvd_eq_mod_eq_0 intro!: unpacks_delta_all [OF ok ne c(2) [OF that(1)] _ b])
  qed
  show ?thesis
    unfolding UdmBlobCachePackOneWordForBdict_def st(1) Let_def split_conv take
    using simple rng multi var two off three
    unfolding nd'_def [symmetric] rsz_def [symmetric]
    by (auto simp: not_le)
qed

subsection \<open>Properties\<close>

text \<open>
  C1. The index record of a word: whatever format the statistics choose, the search reads
  back from the packed record one section for every document the limit admits, in order,
  with the document's identifier, the number of coordinates, the first and the last
  position, the section length and, when coordinates are wanted, all positions.  Without
  compression this holds for all documents; with it, for documents that are
  \<open>compressible\<close>.
\<close>

theorem blob_record_roundtrip:
  assumes "sorted_wrt (<) (map fst docs)" "\<forall>doc \<in> set docs. doc_ok doc" "docs \<noteq> []"
    and "other_key wd sec others" "use_compr \<longrightarrow> compressible docs" "content d = []"
  shows "\<exists>d' L.
    UdmBlobCachePackOneWordForBdict (map (word_of_doc wd sec) docs @ others) Stat0 d use_compr =
      (length docs, d') \<and>
    UdmSectionListBlobCoordsUnpack us T (content d') save need = Go L \<and>
    list_all2 (describes T save need (Coords L)) (Sections L)
      (filter (\<lambda>doc. url_active us (fst doc)) docs)"
  using pack_unpacks [OF assms] unfolding unpacks_def by blast

theorem blob_record_roundtrip_witness:
  "\<exists>d' L.
    UdmBlobCachePackOneWordForBdict
      (map (word_of_doc [97] 1) [(3, [1, 4]), (4, [7]), (9, [5, 1, 2, 3])]) zero_stat
      \<lparr>content = [], size_total = 8, size_page = 8, free = False\<rparr> True = (3, d') \<and>
    UdmSectionListBlobCoordsUnpack \<lparr>empty = False, exclude = True, urls = [4]\<rparr>
      (new_section undefined 0 0 [] 0) (content d') True True = Go L \<and>
    list_all2 (describes (new_section undefined 0 0 [] 0) True True (Coords L)) (Sections L)
      [(3, [1, 4]), (9, [5, 1, 2, 3])]"
proof -
  have "length (put_coords [5, 1, 2, 3]) = 4"
    by (simp add: length_put_coord coord_size_def)
  moreover have "url_active \<lparr>empty = False, exclude = True, urls = [4]\<rparr> u \<longleftrightarrow> u \<noteq> 4" for u
    by (simp add: url_active_def UdmBSearch_iff UdmBSearch_def bsearch_loop.simps Let_def UdmCmpURLID_def)
  ultimately show ?thesis
    using blob_record_roundtrip [of "[(3, [1, 4]), (4, [7]), (9, [5, 1, 2, 3])]" "[97]" 1 "[]" True
        "\<lparr>content = [], size_total = 8, size_page = 8, free = False\<rparr>" zero_stat
        "\<lparr>empty = False, exclude = True, urls = [4]\<rparr>" "new_section undefined 0 0 [] 0" True True]
    by (simp add: doc_ok_def other_key_def compressible_def numeral_3_eq_3)
qed

subsection \<open>The last document of the formats with differences\<close>

text \<open>
  The number of the format of the differences, when the compressing packer chooses one of the
  formats that store differences of identifiers: 5 for variable length, 2 (with an offset or
  without) and 3 for fixed lengths.
\<close>

definition chosen_format :: "blob_cache_word list \<Rightarrow> word_stat \<Rightarrow> nat option" where
  "chosen_format words Stat0 =
     (let (count, Stat) = UdmBlobCacheOneWordStat words Stat0;
          nd = int (ndistinct_url_ids_minus_one Stat);
          range_size = int4_of (max_url_id Stat - min_url_id Stat);
          missing = int4_of (range_size - nd)
      in if nd > 2 \<and> size_of_int range_size = nd then None
         else if missing + 1 < (range_size + 1) sdiv 8 \<and> range_size > 16 then None
         else if nd > 1 \<and> nd > size_of_int (range_size sdiv 256) then Some 5
         else if max_url_id_delta Stat \<le> 65535 \<and> min_url_id Stat \<le> 65535 \<and> nd > 2 then Some 2
         else if max_url_id_delta Stat \<le> 65535 \<and> min_url_id Stat \<ge> 65535 \<and> nd > 3 then Some 2
         else if max_url_id_delta Stat \<le> 16777215 \<and> min_url_id Stat \<le> 16777215 \<and> nd > 4 then Some 3
         else None)"

lemma delta_bytes_append:
  "delta_bytes fmt prev (xs @ ys) = delta_bytes fmt prev xs @ delta_bytes fmt (last (prev # ids xs)) ys"
  by (induction xs arbitrary: prev) simp_all

text \<open>The documents are packed, the \<open>lost\<close> ones at the end, and all but these are unpacked.\<close>

definition packed_but_lost ::
    "udm_urlid_list \<Rightarrow> udm_section \<Rightarrow> bool \<Rightarrow> bool \<Rightarrow> byte list \<Rightarrow> nat \<Rightarrow> blob_doc list \<Rightarrow> blob_doc list \<Rightarrow> bool" where
  "packed_but_lost us T save need s fmt docs lost \<longleftrightarrow>
     (\<exists>front. s = front @ delta_bytes fmt (last (ids docs)) lost) \<and> unpacks us T save need s docs"

lemma packed_but_lostI:
  assumes "docs \<noteq> []" "unpacks us T save need (h @ delta_bytes fmt prev (docs @ lost)) docs"
  shows "packed_but_lost us T save need (h @ delta_bytes fmt prev (docs @ lost)) fmt docs lost"
proof -
  have "last (prev # ids docs) = last (ids docs)" using assms(1) by simp
  with assms(2) show ?thesis
    unfolding packed_but_lost_def delta_bytes_append by (intro conjI exI [of _ "h @ delta_bytes fmt prev docs"]) simp_all
qed

lemma pack_lost:
  assumes asc: "sorted_wrt (<) (ids (docs @ lost))" and ok: "docs_ok (docs @ lost)" and ne: "docs \<noteq> []" "lost \<noteq> []"
    and oth: "other_key wd sec others" and c: "fst (hd docs) mod 65536 \<noteq> 0" "deltas_below 2097152 0 (docs @ lost)"
    and fmt: "chosen_format (words_of wd sec (docs @ lost) @ others) Stat0 = Some fmt"
    and lost: "length (delta_bytes fmt (last (ids docs)) lost) \<le> 5" and cont: "content d = []"
  shows "\<exists>d'. UdmBlobCachePackOneWordForBdict (words_of wd sec (docs @ lost) @ others) Stat0 d True =
      (length (docs @ lost), d') \<and> packed_but_lost us T save need (content d') fmt docs lost"
proof -
  let ?all = "docs @ lost"
  obtain doc docs1 where dd1: "docs = doc # docs1" using ne by (cases docs) auto
  define docs0 where "docs0 = docs1 @ lost"
  have dd: "?all = doc # docs0" by (simp add: dd1 docs0_def)
  have "sorted_wrt (<) (ids (doc # docs0))" "docs_ok (doc # docs0)" using asc ok unfolding dd by blast+
  then obtain Stat where st0: "UdmBlobCacheOneWordStat (words_of wd sec (doc # docs0) @ others) Stat0 = (Suc (length docs0), Stat)"
    "ndistinct_url_ids_minus_one Stat = length docs0" "min_url_id Stat = fst doc"
    "max_url_id Stat = last (ids (doc # docs0))" "0 \<le> max_url_id_delta Stat"
    "deltas_below (max_url_id_delta Stat + 1) (fst doc) docs0"
    by (rule UdmBlobCacheOneWordStat_docs [OF _ _ oth])
  have "length ?all = Suc (length docs0)" by (simp add: dd)
  note st = st0 [folded dd this]
  let ?ws = "words_of wd sec ?all"
  have take: "take (length ?all) (?ws @ others) = ?ws" by simp
  have min: "0 < fst doc" "fst doc < 2147483648" using doc_okD(1,2) [of doc] ok dd by auto
  have first: "hd docs = doc" by (simp add: dd1)
  define nd' where "nd' = int (ndistinct_url_ids_minus_one Stat)"
  define rsz where "rsz = int4_of (max_url_id Stat - min_url_id Stat)"
  let ?P = "\<lambda>d' fmt. packed_but_lost us T save need (content d') fmt docs lost"
  have var: "?P (UdmBlobCachePackOneWordForBdictURLIDDeltaVariable ?ws d) 5" if "fmt = 5"
    unfolding content_delta_variable [OF ok c(2)] cont append_Nil
    by (rule packed_but_lostI [OF ne(1) unpacks_delta_lost [OF ok ne(1)]])
      (use that c ne lost in \<open>simp_all add: format_bound_def\<close>)
  have two: "?P (UdmBlobCachePackOneWordForBdictURLIDDeltaFixed ?ws d 2 0) 2"
    if "fmt = 2" "max_url_id_delta Stat \<le> 65535" "min_url_id Stat \<le> 65535"
  proof -
    have b: "deltas_below (format_bound 2) 0 ?all"
      unfolding dd using that st(3,6) min deltas_below_mono [OF st(6), of 65536] by (simp add: format_bound_def)
    show ?thesis
      unfolding content_delta_fixed [OF ok disjI1 [OF conjI [OF refl refl]] b] cont append_Nil
      by (rule packed_but_lostI [OF ne(1) unpacks_delta_lost [OF ok ne(1) _ _ _ b]]) (use that ne lost in simp_all)
  qed
  have off: "?P (UdmBlobCachePackOneWordForBdictURLIDDeltaFixed ?ws d 2 (nat (size_of_int (min_url_id Stat)))) 2"
    if "fmt = 2" "max_url_id_delta Stat \<le> 65535" "min_url_id Stat > 65535"
  proof -
    have m: "65536 \<le> fst doc" using that(3) st(3) by simp
    let ?o = "fst doc div 65536"
    have "fst doc - ?o * 65536 = fst doc mod 65536" by (simp add: minus_div_mult_eq_mod)
    moreover have "0 \<le> fst doc mod 65536" "fst doc mod 65536 < 65536" by simp_all
    ultimately have "0 \<le> fst doc - ?o * 65536" "fst doc - ?o * 65536 < 65536" by linarith+
    then have b: "deltas_below 65536 (?o * 65536) ?all"
      unfolding dd using deltas_below_mono [OF st(6), of 65536] that(2) by simp
    have u: "unpacks us T save need
        ((header UDM_BLOB_COMP_URLID_DELTA_2BYTES_WITH_OFFSET @ udm_put_int2 ?o) @ delta_bytes 2 (?o * 65536) ?all) docs"
      unfolding append_assoc
      by (rule unpacks_delta_offset_lost [OF ok _ _ ne(1) b]) (use m min ne lost that(1) in auto)
    show ?thesis
      using packed_but_lostI [OF ne(1) u] unfolding st(3) content_delta_offset [OF ok m min(2) b] cont append_Nil append_assoc .
  qed
  have three: "?P (UdmBlobCachePackOneWordForBdictURLIDDeltaFixed ?ws d 3 0) 3"
    if "fmt = 3" "max_url_id_delta Stat \<le> 16777215" "min_url_id Stat \<le> 16777215"
  proof -
    have b: "deltas_below (format_bound 3) 0 ?all"
      unfolding dd using that st(3,6) min deltas_below_mono [OF st(6), of 16777216] by (simp add: format_bound_def)
    show ?thesis
      unfolding content_delta_fixed [OF ok disjI2 [OF conjI [OF refl refl]] b] cont append_Nil
      by (rule packed_but_lostI [OF ne(1) unpacks_delta_lost [OF ok ne(1) _ _ _ b]]) (use that ne lost c in simp_all)
  qed
  show ?thesis
    using fmt unfolding chosen_format_def UdmBlobCachePackOneWordForBdict_def st(1) Let_def split_conv take
    using var two off three
    unfolding nd'_def [symmetric] rsz_def [symmetric]
    by (auto simp: not_le split: if_splits)
qed



lemma delta_bytes_shift:
  "delta_bytes fmt (prev - u) (map (\<lambda>doc. (fst doc - u, snd doc)) docs) = delta_bytes fmt prev docs"
  by (induction docs arbitrary: prev) (simp_all add: doc_bytes_def)

lemma deltas_below_shift:
  "deltas_below b (prev - u) (map (\<lambda>doc. (fst doc - u, snd doc)) docs) = deltas_below b prev docs"
  by (induction docs arbitrary: prev) simp_all

text \<open>
  In the format of variable differences a first identifier of 2 ^ 21 or more cannot be
  written: its document is left out of the record, while the next difference is still taken
  from it, so that every other document of the word is found under its identifier minus the
  first one.
\<close>

theorem blob_delta_shifts_ids:
  assumes "\<forall>doc \<in> set (doc # docs). doc_ok doc" "sorted_wrt (<) (map fst (doc # docs))" "docs \<noteq> []"
    and "2097152 \<le> fst doc" "deltas_below 2097152 (fst doc) docs"
    and "4 \<le> length (put_coords (snd (last docs)))" "content d = []"
  shows "\<exists>L. UdmSectionListBlobCoordsUnpack us T
      (content (UdmBlobCachePackOneWordForBdictURLIDDeltaVariable (map (word_of_doc wd sec) (doc # docs)) d))
      save need = Go L \<and>
    list_all2 (describes T save need (Coords L)) (Sections L)
      (filter (\<lambda>doc. url_active us (fst doc)) (map (\<lambda>doc'. (fst doc' - fst doc, snd doc')) docs))"
proof -
  let ?docs = "map (\<lambda>doc'. (fst doc' - fst doc, snd doc')) docs"
  have b: "2097152 \<le> fst doc" "fst doc < 2147483648"
    using assms(4) doc_okD(2) [of doc] assms(1) by auto
  then have n: "nat (int4_of (fst doc) mod 2 ^ 64) = nat (fst doc)" by (simp add: int4_of_id)
  have "2097152 \<le> nat (fst doc)" using b by linarith
  then have "udm_coord_put (nat (int4_of (fst doc) mod 2 ^ 64)) 4 = []"
    unfolding n by (simp add: udm_coord_put_def)
  then have e: "udm_put_int_with_format (int4_of (fst doc)) 5 = []"
    by (simp add: udm_put_int_with_format_def)
  have drop: "UdmBlobCachePackOneWordDocForBdict d (int4_of (fst doc)) (word_of_doc wd sec doc) 5 = d" for d
    by (simp add: UdmBlobCachePackOneWordDocForBdict_def e dbuf.append_empty Let_def)
  obtain d' where "UdmDSTRAppendCompressionType d UDM_BLOB_COMP_URLID_DELTA_VARIABLE = (2, d')"
    "content d' = header UDM_BLOB_COMP_URLID_DELTA_VARIABLE"
    using content_AppendCompressionType [of UDM_BLOB_COMP_URLID_DELTA_VARIABLE d] assms(7)
    by (auto simp: comp_defs header_def)
  then have "content (UdmBlobCachePackOneWordForBdictURLIDDeltaVariable (words_of wd sec (doc # docs)) d) =
      header UDM_BLOB_COMP_URLID_DELTA_VARIABLE @ delta_bytes 5 (fst doc) docs"
    using content_pack_deltas [of docs 5 "fst doc"] assms(1,5)
    by (simp add: UdmBlobCachePackOneWordForBdictURLIDDeltaVariable_def format_bound_def drop)
  also have "delta_bytes 5 (fst doc) docs = delta_bytes 5 0 ?docs"
    using delta_bytes_shift [of 5 "fst doc" "fst doc" docs] by simp
  finally have c: "content (UdmBlobCachePackOneWordForBdictURLIDDeltaVariable (words_of wd sec (doc # docs)) d) =
      header UDM_BLOB_COMP_URLID_DELTA_VARIABLE @ delta_bytes 5 0 ?docs" .
  have ok: "docs_ok ?docs"
  proof
    fix x assume "x \<in> set ?docs"
    then obtain y where "y \<in> set docs" "x = (fst y - fst doc, snd y)" by auto
    with assms(1,2) b show "doc_ok x" by (auto simp: doc_ok_def)
  qed
  have "deltas_below (format_bound 5) 0 ?docs"
    using assms(5) deltas_below_shift [of 2097152 "fst doc" "fst doc" docs] by (simp add: format_bound_def)
  then have "unpacks us T save need (header UDM_BLOB_COMP_URLID_DELTA_VARIABLE @ delta_bytes 5 0 ?docs) ?docs"
    using unpacks_delta_all [OF ok] assms(3,6) by (simp add: last_map)
  then show ?thesis unfolding c unpacks_def .
qed

theorem blob_delta_shifts_ids_witness:
  "\<exists>L. UdmSectionListBlobCoordsUnpack \<lparr>empty = False, exclude = False, urls = []\<rparr>
      (new_section undefined 0 0 [] 0)
      (content (UdmBlobCachePackOneWordForBdictURLIDDeltaVariable
        (map (word_of_doc [97] 1) [(3000001, [3]), (3000002, [3]), (3000009, [1, 1, 1, 1])])
        \<lparr>content = [], size_total = 8, size_page = 8, free = False\<rparr>))
      False True = Go L \<and>
    list_all2 (describes (new_section undefined 0 0 [] 0) False True (Coords L)) (Sections L)
      [(1, [3]), (8, [1, 1, 1, 1])]"
  using blob_delta_shifts_ids [of "(3000001, [3])" "[(3000002, [3]), (3000009, [1, 1, 1, 1])]"
      "\<lparr>content = [], size_total = 8, size_page = 8, free = False\<rparr>"
      "\<lparr>empty = False, exclude = False, urls = []\<rparr>" "new_section undefined 0 0 [] 0" "[97]" 1 False True]
  by (simp add: doc_ok_def length_put_coord coord_size_def url_active_def)

text \<open>
  C25. The size of the header is told from the two bytes behind the type.  A single range that
  starts at a multiple of 65536 has zeros there and its header is taken for one of the
  older, longer form: the documents, which start at byte 14, are read from byte 16.
\<close>

theorem blob_range_header_misread:
  assumes "\<forall>doc \<in> set docs. doc_ok doc" "docs \<noteq> []"
    and "min_url_id Stat mod 65536 = 0" "content d = []"
    and s_def: "s = content (UdmBlobCachePackOneWordForBdictURLIDRange (map (word_of_doc wd sec) docs) Stat d)"
  shows "drop 14 s = concat (map doc_bytes docs) \<and>
    (\<exists>Stat'. UdmBlobCoordsGetCompressionType s = Some (16, Stat'))"
proof -
  let ?rest = "udm_put_int4 (min_url_id Stat) @ udm_put_int4 (max_url_id Stat) @ concat (map doc_bytes docs)"
  have s: "s = header UDM_BLOB_COMP_SINGLE_RANGE @ ?rest"
    unfolding s_def content_range [OF assms(1)] assms(4) by simp
  have dr: "drop 14 s = concat (map doc_bytes docs)" by (simp add: s header_def)
  have "2 \<le> length (concat (map doc_bytes docs))"
    using assms(1,2) length_doc_bytes(2) [of "hd docs"] by (cases docs) auto
  then have l: "length s > 10" "\<not> length (drop 8 s) < 8" by (simp_all add: s header_def)
  have g: "get_int4 s = -1" unfolding s header_def append_assoc by (rule get_put_int4) simp
  have "min_url_id Stat mod 256 = 0" "min_url_id Stat div 256 mod 256 = 0"
    using assms(3) bytes_join2 [of "min_url_id Stat"] pos_mod_sign [of 256 "min_url_id Stat"]
      pos_mod_sign [of 256 "min_url_id Stat div 256"] by linarith+
  then have z: "uint (word_of_int (min_url_id Stat) :: byte) = 0"
    "uint (word_of_int (drop_bit 8 (min_url_id Stat)) :: byte) = 0"
    by (simp_all add: uint_byte_of_int drop_bit_eq_div)
  have "get_int4 (drop 4 s) = int4_of (int UDM_BLOB_COMP_SINGLE_RANGE)"
    using z by (simp add: s header_def get_int4_def udm_get_int4_def udm_put_int2_def udm_put_int4_def
        comp_defs and_mask_int uint_byte_of_int drop_bit_eq_div)
  also have "\<dots> = 4" by (simp add: comp_defs int4_of_id)
  finally have t: "(if length s > 10 \<and> get_int4 s = -1 then nat (size_of_int (get_int4 (drop 4 s))) else 0) = 4"
    using l g by (simp add: size_of_int_def)
  have "(4 :: nat) AND 4294901760 = 0" "(4 :: nat) AND 65535 = 4"
    using and_high_half [of 4] and_low_half [of 4] by simp_all
  then have "\<exists>Stat'. UdmBlobCoordsGetCompressionType s = Some (16, Stat')"
    unfolding UdmBlobCoordsGetCompressionType_def t Let_def using l(2) by (simp add: comp_defs)
  with dr show ?thesis ..
qed

theorem blob_range_header_misread_witness:
  "\<exists>Stat'. UdmBlobCoordsGetCompressionType
     (content (UdmBlobCachePackOneWordForBdictURLIDRange
        (map (word_of_doc [97] 1) [(65536, [3]), (65537, [3]), (65538, [3]), (65539, [3])])
        (zero_stat\<lparr>min_url_id := 65536, max_url_id := 65539\<rparr>)
        \<lparr>content = [], size_total = 8, size_page = 8, free = False\<rparr>)) = Some (16, Stat')"
  by (rule blob_range_header_misread [OF _ _ _ _ refl, THEN conjunct2]) (simp_all add: doc_ok_def zero_stat_def)

end
