(* ===== verification/Urldata.thy ===== *)
theory Urldata
  imports Complex_Main Prelude
begin

text \<open>
  The list of found documents (\<^verbatim>\<open>src/urldata.c\<close>, \<open>UDM_URLDATA\<close> of
  \<^verbatim>\<open>include/udm_common.h\<close>): its orders, the sort by a pattern of the user, the search for an
  identifier and the removal of empty entries.

  A list with its number of items is a HOL list.  \<open>pop_rank\<close> is a finite \<open>double\<close>: it is
  copied and compared only, and is a real number here.  A null string pointer is \<open>None\<close>.
\<close>

record udm_urldata =
  ud_url_id :: urlid_t
  ud_score :: uint4
  ud_per_site :: uint4
  ud_site_id :: urlid_t
  ud_last_mod_time :: int
  ud_pop_rank :: real
  ud_url :: "byte list option"
  ud_section :: "byte list option"

definition UDM_NULL2EMPTY :: "byte list option \<Rightarrow> byte list" where
  "UDM_NULL2EMPTY s = (case s of None \<Rightarrow> [] | Some x \<Rightarrow> x)"

subsection \<open>Orders\<close>

fun cmppattern :: "udm_urldata \<Rightarrow> udm_urldata \<Rightarrow> string \<Rightarrow> int" where
  "cmppattern D E [] = 0"
| "cmppattern D E (c # pattern) =
     (if c = CHR ''R'' \<or> c = CHR ''r'' then
        if ud_score D > ud_score E then (if c = CHR ''R'' then 1 else - 1)
        else if ud_score D < ud_score E then (if c = CHR ''R'' then - 1 else 1)
        else cmppattern D E pattern
      else if c = CHR ''P'' \<or> c = CHR ''p'' then
        if ud_pop_rank D > ud_pop_rank E then (if c = CHR ''P'' then 1 else - 1)
        else if ud_pop_rank D < ud_pop_rank E then (if c = CHR ''P'' then - 1 else 1)
        else cmppattern D E pattern
      else if c = CHR ''D'' \<or> c = CHR ''d'' then
        if ud_last_mod_time D > ud_last_mod_time E then (if c = CHR ''D'' then 1 else - 1)
        else if ud_last_mod_time D < ud_last_mod_time E then (if c = CHR ''D'' then - 1 else 1)
        else cmppattern D E pattern
      else if c = CHR ''U'' \<or> c = CHR ''u'' then
        let rc = strcmp (UDM_NULL2EMPTY (ud_url D)) (UDM_NULL2EMPTY (ud_url E)) in
        if rc \<noteq> 0 then (if c = CHR ''U'' then - rc else rc) else cmppattern D E pattern
      else if c = CHR ''S'' \<or> c = CHR ''s'' then
        let rc = strcmp (UDM_NULL2EMPTY (ud_section D)) (UDM_NULL2EMPTY (ud_section E)) in
        if rc \<noteq> 0 then (if c = CHR ''S'' then - rc else rc) else cmppattern D E pattern
      else cmppattern D E pattern)"

definition cmppatternRP :: "udm_urldata cmp" where
  "cmppatternRP D1 D2 =
     (if ud_score D1 > ud_score D2 then - 1
      else if ud_score D1 < ud_score D2 then 1
      else if ud_pop_rank D1 > ud_pop_rank D2 then - 1
      else if ud_pop_rank D1 < ud_pop_rank D2 then 1
      else 0)"

definition cmppatternR :: "udm_urldata cmp" where
  "cmppatternR D1 D2 =
     (if ud_score D1 > ud_score D2 then - 1
      else if ud_score D1 < ud_score D2 then 1
      else 0)"

definition cmpsiteid2 :: "udm_urldata cmp" where
  "cmpsiteid2 p1 p2 =
     (if ud_site_id p1 > ud_site_id p2 then - 1
      else if ud_site_id p1 < ud_site_id p2 then 1
      else 0)"

definition cmp_data_urls :: "udm_urldata cmp" where
  "cmp_data_urls d1 d2 =
     (if ud_url_id d1 > ud_url_id d2 then 1
      else if ud_url_id d1 < ud_url_id d2 then - 1
      else 0)"

subsection \<open>Sorting\<close>

definition UdmURLDataSortBySite :: "udm_urldata list \<Rightarrow> udm_urldata list" where
  "UdmURLDataSortBySite L = UdmSort cmpsiteid2 L"

definition UdmURLDataSortByPatternRP :: "udm_urldata list \<Rightarrow> udm_urldata list" where
  "UdmURLDataSortByPatternRP L = UdmSort cmppatternRP L"

definition UdmURLDataSortByPatternR :: "udm_urldata list \<Rightarrow> udm_urldata list" where
  "UdmURLDataSortByPatternR L = UdmSort cmppatternR L"

definition UdmH :: "nat list" where
  "UdmH = [1, 5, 19, 41, 109, 209, 505, 929, 2161, 3905, 8929, 16001, 36289, 64769]"

text \<open>The labels \<open>D4\<close> and \<open>D6\<close>: items greater than \<open>Dat\<close> move up by \<open>h\<close>.  The index is a
  natural number: the loop is left when \<open>i - h\<close> would be negative (\<open>h\<close> is never 0).\<close>

function shell_insert :: "string \<Rightarrow> udm_urldata \<Rightarrow> nat \<Rightarrow> nat \<Rightarrow> udm_urldata list \<Rightarrow> udm_urldata list" where
  "shell_insert pattern Dat h i L =
     (if cmppattern Dat (L ! i) pattern \<le> 0 then L[i + h := Dat]
      else let L = L[i + h := L ! i] in
        if h \<le> i \<and> 0 < h then shell_insert pattern Dat h (i - h) L
        else L[i := Dat])"
  by pat_completeness auto
termination by (relation "measure (\<lambda>(p, D, h, i, L). i)") (auto simp: Let_def)

declare shell_insert.simps [simp del]

definition shell_pass :: "string \<Rightarrow> nat \<Rightarrow> udm_urldata list \<Rightarrow> udm_urldata list" where
  "shell_pass pattern h L =
     foldl (\<lambda>L j. shell_insert pattern (L ! j) h (j - h) L) L [h..<length L]"

fun shell_start :: "nat \<Rightarrow> nat \<Rightarrow> nat" where
  "shell_start num 0 = 0"
| "shell_start num (Suc s) = (if num div 3 < UdmH ! Suc s then shell_start num s else Suc s)"

fun shell_passes :: "string \<Rightarrow> nat \<Rightarrow> udm_urldata list \<Rightarrow> udm_urldata list" where
  "shell_passes pattern 0 L = shell_pass pattern (UdmH ! 0) L"
| "shell_passes pattern (Suc s) L = shell_passes pattern s (shell_pass pattern (UdmH ! Suc s) L)"

definition UdmURLDataSortByPattern :: "udm_urldata list \<Rightarrow> string \<Rightarrow> udm_urldata list" where
  "UdmURLDataSortByPattern L pattern =
     (if pattern = ''RP'' then UdmURLDataSortByPatternRP L
      else if pattern = ''R'' then UdmURLDataSortByPatternR L
      else shell_passes pattern (shell_start (length L) 13) L)"

subsection \<open>Searching and clearing\<close>

definition UdmURLDataListSearch :: "udm_urldata list \<Rightarrow> urlid_t \<Rightarrow> int" where
  "UdmURLDataListSearch List i =
     (if List = [] then 0
      else case UdmBSearch (\<lambda>k d. cmp_data_urls \<lparr>ud_url_id = k, ud_score = 0, ud_per_site = 0,
             ud_site_id = 0, ud_last_mod_time = 0, ud_pop_rank = 0, ud_url = None, ud_section = None\<rparr> d) i List of
        Some found \<Rightarrow> 1 | None \<Rightarrow> 0)"

definition UdmURLDataListClearParams :: "udm_urldata list \<Rightarrow> nat \<Rightarrow> udm_urldata list" where
  "UdmURLDataListClearParams DataList num_best_rows =
     map (\<lambda>D. D\<lparr>ud_site_id := 0, ud_pop_rank := 0, ud_last_mod_time := 0, ud_url := None, ud_section := None\<rparr>)
       (take num_best_rows DataList) @ drop num_best_rows DataList"

definition UdmURLDataListFreeItems :: "udm_urldata list \<Rightarrow> nat \<Rightarrow> nat \<Rightarrow> udm_urldata list" where
  "UdmURLDataListFreeItems DataList first lst =
     take first DataList @
     map (\<lambda>D. D\<lparr>ud_url := None, ud_section := None\<rparr>) (drop first (take lst DataList)) @
     drop (max first lst) DataList"

definition UdmURLDataCompact :: "udm_urldata list \<Rightarrow> udm_urldata list" where
  "UdmURLDataCompact src = filter (\<lambda>D. ud_site_id D \<noteq> 0) src"

subsection \<open>The orders are total preorders\<close>

text \<open>Comparison functions that change sign with their arguments and are transitive on a
  set of values (strings without zero bytes).\<close>

definition cmp_pre :: "'a set \<Rightarrow> 'a cmp \<Rightarrow> bool" where
  "cmp_pre S c \<longleftrightarrow> (\<forall>x y. c y x = - c x y) \<and>
     (\<forall>x\<in>S. \<forall>y\<in>S. \<forall>z\<in>S. c x y \<le> 0 \<longrightarrow> c y z \<le> 0 \<longrightarrow> c x z \<le> 0)"

definition cstring :: "byte list \<Rightarrow> bool" where
  "cstring s \<longleftrightarrow> 0 \<notin> set s"

lemma strcmp_flip: "strcmp y x = - strcmp x y"
  by (induction x y rule: strcmp.induct) auto

lemma uint_pos: "b \<noteq> 0 \<Longrightarrow> 0 < uint (b :: byte)"
  by (metis order_le_less uint_0_iff unsigned_greater_eq)

lemma strcmp_trans:
  assumes "cstring x" "cstring y" "cstring z" "strcmp x y \<le> 0" "strcmp y z \<le> 0"
  shows "strcmp x z \<le> 0"
  using assms
proof (induction x z arbitrary: y rule: strcmp.induct)
  case (3 a as)
  then show ?case using uint_pos [of a] by (cases y) (auto simp: cstring_def split: if_splits)
next
  case (4 a as b bs)
  then obtain c cs where y: "y = c # cs"
    using uint_pos [of a] by (cases y) (auto simp: cstring_def)
  have eq: "p = q" if "uint p \<le> uint q" "uint q \<le> uint p" for p q :: byte
    using that by (simp add: word_le_def [symmetric])
  have cs: "cstring as" "cstring bs" "cstring cs"
    using 4(2-4) by (simp_all add: cstring_def y)
  show ?case
  proof (cases "a = b")
    case True
    have "c = a"
      using 4(5,6) True by (auto simp: y split: if_splits intro: eq)
    with 4(1) [OF True cs(1) cs(3) cs(2)] 4(5,6) True show ?thesis by (simp add: y)
  next
    case False
    then show ?thesis using 4(5,6) by (auto simp: y split: if_splits)
  qed
qed auto

lemma cmp_pre_lex:
  assumes "cmp_pre S c" "cmp_pre S d"
  shows "cmp_pre S (\<lambda>x y. if c x y \<noteq> 0 then c x y else d x y)"
proof -
  have flip: "c y x = - c x y" "d y x = - d x y" for x y
    using assms unfolding cmp_pre_def by blast+
  have ct: "c x z \<le> 0" if "x \<in> S" "y \<in> S" "z \<in> S" "c x y \<le> 0" "c y z \<le> 0" for x y z
    using assms(1) that unfolding cmp_pre_def by blast
  have dt: "d x z \<le> 0" if "x \<in> S" "y \<in> S" "z \<in> S" "d x y \<le> 0" "d y z \<le> 0" for x y z
    using assms(2) that unfolding cmp_pre_def by blast
  have "(if c x z \<noteq> 0 then c x z else d x z) \<le> 0"
    if S: "x \<in> S" "y \<in> S" "z \<in> S"
      and xy: "(if c x y \<noteq> 0 then c x y else d x y) \<le> 0" and yz: "(if c y z \<noteq> 0 then c y z else d y z) \<le> 0"
    for x y z
  proof -
    from xy yz have c: "c x y \<le> 0" "c y z \<le> 0" by (auto split: if_splits)
    from ct [OF S c] consider "c x z < 0" | "c x z = 0" by linarith
    then show ?thesis
    proof cases
      case 2
      then have zx: "c z x \<le> 0" using flip(1) [of x z] by simp
      from ct [OF S(3,1,2) zx c(1)] flip(1) [of z y] c(2) have "c y z = 0" by linarith
      moreover from ct [OF S(2,3,1) c(2) zx] flip(1) [of y x] c(1) have "c x y = 0" by linarith
      ultimately show ?thesis using xy yz 2 dt [OF S] by simp
    qed simp
  qed
  moreover have "(if c y x \<noteq> 0 then c y x else d y x) = - (if c x y \<noteq> 0 then c x y else d x y)" for x y
  proof -
    have "c y x = - c x y" "d y x = - d x y" by (rule flip)+
    then show ?thesis by simp
  qed
  ultimately show ?thesis unfolding cmp_pre_def by blast
qed

definition key_cmp :: "('a \<Rightarrow> 'k :: linorder) \<Rightarrow> 'a cmp" where
  "key_cmp f x y = (if f x > f y then 1 else if f x < f y then - 1 else 0)"

lemma cmp_pre_key: "cmp_pre S (key_cmp f)"
  unfolding cmp_pre_def key_cmp_def by (auto split: if_splits)

lemma cmp_pre_uminus:
  assumes "cmp_pre S c"
  shows "cmp_pre S (\<lambda>x y. - c x y)"
proof -
  have flip: "- c x y = c y x" for x y
    using assms unfolding cmp_pre_def by (metis minus_minus)
  show ?thesis using assms unfolding cmp_pre_def flip by blast
qed

lemma cmp_pre_strcmp:
  assumes "\<And>x. x \<in> S \<Longrightarrow> cstring (f x)"
  shows "cmp_pre S (\<lambda>x y. strcmp (f x) (f y))"
  using assms strcmp_trans strcmp_flip unfolding cmp_pre_def by metis

lemma cmp_pre_zero: "cmp_pre S (\<lambda>x y. 0)"
  by (simp add: cmp_pre_def)

definition ud_cstrings :: "udm_urldata set" where
  "ud_cstrings = {D. cstring (UDM_NULL2EMPTY (ud_url D)) \<and> cstring (UDM_NULL2EMPTY (ud_section D))}"

definition letter_cmp :: "char \<Rightarrow> udm_urldata cmp" where
  "letter_cmp c =
     (if c = CHR ''R'' then key_cmp ud_score else if c = CHR ''r'' then (\<lambda>x y. - key_cmp ud_score x y)
      else if c = CHR ''P'' then key_cmp ud_pop_rank else if c = CHR ''p'' then (\<lambda>x y. - key_cmp ud_pop_rank x y)
      else if c = CHR ''D'' then key_cmp ud_last_mod_time
      else if c = CHR ''d'' then (\<lambda>x y. - key_cmp ud_last_mod_time x y)
      else if c = CHR ''U'' then (\<lambda>x y. - strcmp (UDM_NULL2EMPTY (ud_url x)) (UDM_NULL2EMPTY (ud_url y)))
      else if c = CHR ''u'' then (\<lambda>x y. strcmp (UDM_NULL2EMPTY (ud_url x)) (UDM_NULL2EMPTY (ud_url y)))
      else if c = CHR ''S'' then (\<lambda>x y. - strcmp (UDM_NULL2EMPTY (ud_section x)) (UDM_NULL2EMPTY (ud_section y)))
      else if c = CHR ''s'' then (\<lambda>x y. strcmp (UDM_NULL2EMPTY (ud_section x)) (UDM_NULL2EMPTY (ud_section y)))
      else (\<lambda>x y. 0))"

lemma letter_cmp_pre: "cmp_pre ud_cstrings (letter_cmp c)"
proof -
  have "cmp_pre ud_cstrings (\<lambda>x y. strcmp (UDM_NULL2EMPTY (ud_url x)) (UDM_NULL2EMPTY (ud_url y)))"
    "cmp_pre ud_cstrings (\<lambda>x y. strcmp (UDM_NULL2EMPTY (ud_section x)) (UDM_NULL2EMPTY (ud_section y)))"
    by (rule cmp_pre_strcmp, simp add: ud_cstrings_def)+
  then show ?thesis
    by (simp add: letter_cmp_def cmp_pre_key cmp_pre_uminus cmp_pre_zero)
qed

lemma cmppattern_letter:
  "cmppattern D E (c # p) = (if letter_cmp c D E \<noteq> 0 then letter_cmp c D E else cmppattern D E p)"
  by (simp add: letter_cmp_def key_cmp_def Let_def)

lemma cmppattern_pre: "cmp_pre ud_cstrings (\<lambda>D E. cmppattern D E p)"
proof (induction p)
  case Nil
  then show ?case by (simp add: cmp_pre_zero)
next
  case (Cons c p)
  show ?case
    unfolding cmppattern_letter by (rule cmp_pre_lex [OF letter_cmp_pre Cons])
qed

lemma cmppattern_flip: "cmppattern E D p = - cmppattern D E p"
  using cmppattern_pre [of p] unfolding cmp_pre_def by blast

lemma cmppattern_trans:
  assumes "x \<in> ud_cstrings" "y \<in> ud_cstrings" "z \<in> ud_cstrings"
    and "cmppattern x y p \<le> 0" "cmppattern y z p \<le> 0"
  shows "cmppattern x z p \<le> 0"
  using cmppattern_pre [of p] assms unfolding cmp_pre_def by blast

lemma cmppatternR_eq: "cmppatternR D E = cmppattern E D ''R''"
  by (auto simp: cmppatternR_def)

lemma cmppatternRP_eq: "cmppatternRP D E = cmppattern E D ''RP''"
  by (auto simp: cmppatternRP_def)

lemma cmp_ok_RP: "cmp_ok cmppatternRP" "cmp_ok cmppatternR"
  unfolding cmp_ok_def cmppatternRP_def cmppatternR_def by (auto split: if_splits)

subsection \<open>The Shell sort\<close>

definition pattern_sorted :: "string \<Rightarrow> udm_urldata list \<Rightarrow> bool" where
  "pattern_sorted p L = sorted_wrt (\<lambda>x y. cmppattern y x p \<le> 0) L"

lemma shell_insert_length [simp]: "length (shell_insert p D h i L) = length L"
proof (induction p D h i L rule: shell_insert.induct)
  case (1 p D h i L)
  then show ?case by (subst shell_insert.simps) (simp add: Let_def)
qed

lemma mset_shell_insert:
  "0 < h \<Longrightarrow> i + h < length L \<Longrightarrow> mset (shell_insert p D h i L) = mset (L[i + h := D])"
proof (induction p D h i L rule: shell_insert.induct)
  case (1 p D h i L)
  have step: "mset (L[i + h := L ! i, i := D]) = mset (L[i + h := D])"
    using mset_swap [of i "L[i + h := D]" "i + h"] "1.prems" by (simp add: list_update_swap)
  show ?case
    using "1.IH" "1.prems" step by (subst shell_insert.simps) (simp add: Let_def)
qed

lemma mset_shell_pass:
  assumes "0 < h"
  shows "mset (shell_pass p h L) = mset L \<and> length (shell_pass p h L) = length L"
proof -
  have "mset (foldl (\<lambda>L j. shell_insert p (L ! j) h (j - h) L) L js) = mset L \<and>
    length (foldl (\<lambda>L j. shell_insert p (L ! j) h (j - h) L) L js) = length L"
    if "\<forall>j \<in> set js. h \<le> j \<and> j < length L" for js
    using that
  proof (induction js arbitrary: L)
    case (Cons j js)
    then have j: "h \<le> j" "j < length L" by auto
    then have "mset (shell_insert p (L ! j) h (j - h) L) = mset L"
      using mset_shell_insert [OF assms, of "j - h" L p "L ! j"] by simp
    with Cons.IH [of "shell_insert p (L ! j) h (j - h) L"] Cons.prems show ?case by simp
  qed simp
  from this [of "[h..<length L]"] show ?thesis by (simp add: shell_pass_def)
qed

lemma UdmH_pos: "s < 14 \<Longrightarrow> 0 < UdmH ! s"
proof -
  assume "s < 14"
  then have "UdmH ! s \<in> set UdmH" by (simp add: UdmH_def del: list.set)
  moreover have "\<forall>h \<in> set UdmH. 0 < h" by (simp add: UdmH_def)
  ultimately show ?thesis by blast
qed

lemma mset_shell_passes: "s < 14 \<Longrightarrow> mset (shell_passes p s L) = mset L"
  by (induction p s L rule: shell_passes.induct) (simp_all add: mset_shell_pass UdmH_pos)


text \<open>The last pass has the step 1 and is an insertion sort from the right.\<close>

fun insert_on :: "string \<Rightarrow> udm_urldata \<Rightarrow> udm_urldata list \<Rightarrow> udm_urldata list" where
  "insert_on p D [] = [D]"
| "insert_on p D (y # ys) = (if cmppattern D y p \<le> 0 then D # y # ys else y # insert_on p D ys)"

lemma set_insert_on [simp]: "set (insert_on p D ys) = insert D (set ys)"
  by (induction ys) auto

lemma length_insert_on [simp]: "length (insert_on p D ys) = Suc (length ys)"
  by (induction ys) auto

lemma sorted_insert_on:
  assumes "insert D (set ys) \<subseteq> ud_cstrings" "cmp_sorted (\<lambda>x y. cmppattern x y p) ys"
  shows "cmp_sorted (\<lambda>x y. cmppattern x y p) (insert_on p D ys)"
  using assms
proof (induction ys)
  case (Cons y ys)
  show ?case
  proof (cases "cmppattern D y p \<le> 0")
    case True
    with Cons.prems show ?thesis by (auto intro: cmppattern_trans)
  next
    case False
    with Cons cmppattern_flip [of y D p] show ?thesis by auto
  qed
qed simp

lemma shell_insert_1:
  "i + 1 < length L \<Longrightarrow>
   shell_insert p D 1 i L = rev (insert_on p D (rev (take (Suc i) L))) @ drop (i + 2) L"
proof (induction i arbitrary: L)
  case 0
  then obtain a b L' where "L = a # b # L'"
    by (metis One_nat_def Suc_le_length_iff add_0 less_eq_Suc_le)
  then show ?case by (subst shell_insert.simps) (simp add: Let_def)
next
  case (Suc i)
  have t: "take (Suc (Suc i)) L = take (Suc i) L @ [L ! Suc i]"
    using Suc.prems by (simp add: take_Suc_conv_app_nth)
  show ?case
  proof (cases "cmppattern D (L ! Suc i) p \<le> 0")
    case True
    then show ?thesis
      using Suc.prems unfolding t
      by (subst shell_insert.simps) (simp add: upd_conv_take_nth_drop take_Suc_conv_app_nth)
  next
    case False
    let ?L = "L[Suc i + 1 := L ! Suc i]"
    have "shell_insert p D 1 (Suc i) L = shell_insert p D 1 i ?L"
      using False by (subst shell_insert.simps) (simp add: Let_def)
    also have "\<dots> = rev (insert_on p D (rev (take (Suc i) ?L))) @ drop (i + 2) ?L"
      using Suc.prems by (intro Suc.IH) simp
    also have "drop (i + 2) ?L = L ! Suc i # drop (Suc i + 2) L"
      using Suc.prems by (simp add: drop_update_swap Cons_nth_drop_Suc [symmetric])
    finally show ?thesis
      using False unfolding t by simp
  qed
qed

lemma shell_pass_1:
  assumes "set L \<subseteq> ud_cstrings"
  shows "pattern_sorted p (shell_pass p 1 L)"
proof -
  let ?f = "\<lambda>L j. shell_insert p (L ! j) 1 (j - 1) L"
  have "cmp_sorted (\<lambda>x y. cmppattern x y p) (rev (take (max 1 n) (foldl ?f L [1..<n]))) \<and>
      mset (foldl ?f L [1..<n]) = mset L"
    if "n \<le> length L" for n
    using that
  proof (induction n)
    case 0
    then show ?case by (cases L) auto
  next
    case (Suc n)
    show ?case
    proof (cases "n = 0")
      case True
      then show ?thesis by (cases L) auto
    next
      case False
      let ?M = "foldl ?f L [1..<n]"
      let ?N = "?f ?M n"
      from Suc have IH: "cmp_sorted (\<lambda>x y. cmppattern x y p) (rev (take n ?M))" "mset ?M = mset L"
        using False by (auto simp: max_def split: if_splits)
      have len: "length ?M = length L" using IH(2) by (rule mset_eq_length)
      have set: "set ?M \<subseteq> ud_cstrings" using assms mset_eq_setD [OF IH(2)] by simp
      obtain m where m: "n = Suc m" using False by (cases n) auto
      have e: "foldl ?f L [1..<Suc n] = ?f ?M n" using m by simp
      have s: "?f ?M n = rev (insert_on p (?M ! n) (rev (take n ?M))) @ drop (Suc n) ?M"
        using shell_insert_1 [of m ?M p "?M ! n"] Suc.prems len m by simp
      have "insert (?M ! n) (set (rev (take n ?M))) \<subseteq> ud_cstrings"
        using set Suc.prems len by (auto dest: in_set_takeD)
      from sorted_insert_on [OF this IH(1)]
      have "cmp_sorted (\<lambda>x y. cmppattern x y p) (rev (take (Suc n) (?f ?M n)))"
        unfolding s using Suc.prems len by simp
      moreover have "mset (?f ?M n) = mset ?M"
        using mset_shell_insert [of 1 "n - 1" ?M p "?M ! n"] Suc.prems len False by simp
      ultimately show ?thesis using IH(2) unfolding e by simp
    qed
  qed
  from this [of "length L"] have
    "cmp_sorted (\<lambda>x y. cmppattern x y p) (rev (take (max 1 (length L)) (shell_pass p 1 L)))"
    by (simp only: shell_pass_def order.refl simp_thms)
  moreover have "length (shell_pass p 1 L) \<le> max 1 (length L)"
    using mset_shell_pass [of 1 p L] by simp
  ultimately show ?thesis by (simp add: pattern_sorted_def sorted_wrt_rev)
qed

lemma shell_passes_sorted:
  "s < 14 \<Longrightarrow> set L \<subseteq> ud_cstrings \<Longrightarrow> pattern_sorted p (shell_passes p s L)"
proof (induction p s L rule: shell_passes.induct)
  case (1 p L)
  then show ?case using shell_pass_1 [of L p] by (simp add: UdmH_def)
next
  case (2 p s L)
  then have "set (shell_pass p (UdmH ! Suc s) L) = set L"
    using mset_shell_pass [OF UdmH_pos, of "Suc s" p L] by (metis set_mset_mset)
  with 2 show ?case by simp
qed

lemma shell_start_bound: "shell_start num s \<le> s"
  by (induction s) auto

subsection \<open>The order the user is promised\<close>

text \<open>
  The manual (\<^verbatim>\<open>doc/search.xml\<close>) says: a small letter sorts in ascending, a capital letter in
  descending order, of the score (\<open>R\<close>), the popularity (\<open>P\<close>), the date (\<open>D\<close>), the URL
  (\<open>U\<close>) or a section (\<open>S\<close>).  \<open>letter_before c D E\<close>: by the manual's meaning of the letter \<open>c\<close>
  document \<open>D\<close> stands before \<open>E\<close>; the first letter that tells two documents apart decides.
\<close>

definition letter_before :: "char \<Rightarrow> udm_urldata \<Rightarrow> udm_urldata \<Rightarrow> bool" where
  "letter_before c D E \<longleftrightarrow>
     c = CHR ''r'' \<and> ud_score D < ud_score E \<or> c = CHR ''R'' \<and> ud_score E < ud_score D \<or>
     c = CHR ''p'' \<and> ud_pop_rank D < ud_pop_rank E \<or> c = CHR ''P'' \<and> ud_pop_rank E < ud_pop_rank D \<or>
     c = CHR ''d'' \<and> ud_last_mod_time D < ud_last_mod_time E \<or>
     c = CHR ''D'' \<and> ud_last_mod_time E < ud_last_mod_time D \<or>
     c = CHR ''u'' \<and> ord_class.lexordp (UDM_NULL2EMPTY (ud_url D)) (UDM_NULL2EMPTY (ud_url E)) \<or>
     c = CHR ''U'' \<and> ord_class.lexordp (UDM_NULL2EMPTY (ud_url E)) (UDM_NULL2EMPTY (ud_url D)) \<or>
     c = CHR ''s'' \<and> ord_class.lexordp (UDM_NULL2EMPTY (ud_section D)) (UDM_NULL2EMPTY (ud_section E)) \<or>
     c = CHR ''S'' \<and> ord_class.lexordp (UDM_NULL2EMPTY (ud_section E)) (UDM_NULL2EMPTY (ud_section D))"

fun stands_before :: "string \<Rightarrow> udm_urldata \<Rightarrow> udm_urldata \<Rightarrow> bool" where
  "stands_before [] D E = False"
| "stands_before (c # pattern) D E \<longleftrightarrow>
     letter_before c D E \<or> \<not> letter_before c E D \<and> stands_before pattern D E"

text \<open>The code takes \<open>U\<close>, \<open>u\<close>, \<open>S\<close> and \<open>s\<close> the other way round.\<close>

definition swap_letter :: "char \<Rightarrow> char" where
  "swap_letter c =
     (if c = CHR ''U'' then CHR ''u'' else if c = CHR ''u'' then CHR ''U''
      else if c = CHR ''S'' then CHR ''s'' else if c = CHR ''s'' then CHR ''S'' else c)"

lemma strcmp_lexordp:
  "cstring xs \<Longrightarrow> cstring ys \<Longrightarrow> strcmp xs ys < 0 \<longleftrightarrow> ord_class.lexordp xs ys"
proof (induction xs ys rule: strcmp.induct)
  case (2 b bs)
  then have "b \<noteq> 0" by (auto simp: cstring_def)
  then have "0 < uint b" using uint_0_iff [of b] by (simp add: order_less_le)
  then show ?case by simp
next
  case (4 a as b bs)
  then show ?case by (cases "a = b") (auto simp: cstring_def word_less_def word_uint_eq_iff)
qed (auto simp: not_less)

lemma letter_cmp_before:
  assumes "D \<in> ud_cstrings" "E \<in> ud_cstrings"
  shows "letter_cmp c D E > 0 \<longleftrightarrow> letter_before (swap_letter c) D E"
    and "letter_cmp c D E < 0 \<longleftrightarrow> letter_before (swap_letter c) E D"
proof -
  note cs = assms [unfolded ud_cstrings_def mem_Collect_eq]
  have lt: "strcmp (f x) (f y) < 0 \<longleftrightarrow> ord_class.lexordp (f x) (f y)" "strcmp (f x) (f y) > 0 \<longleftrightarrow> ord_class.lexordp (f y) (f x)"
    if "cstring (f x)" "cstring (f y)" for f :: "udm_urldata \<Rightarrow> byte list" and x y
    using strcmp_lexordp [of "f x" "f y"] strcmp_lexordp [of "f y" "f x"] strcmp_flip [of "f x" "f y"] that by auto
  note url = lt [of "\<lambda>D. UDM_NULL2EMPTY (ud_url D)"] and sec = lt [of "\<lambda>D. UDM_NULL2EMPTY (ud_section D)"]
  let ?letters = "''RrPpDdUuSs''"
  consider "c = CHR ''R''" | "c = CHR ''r''" | "c = CHR ''P''" | "c = CHR ''p''" | "c = CHR ''D''" | "c = CHR ''d''"
    | "c = CHR ''U''" | "c = CHR ''u''" | "c = CHR ''S''" | "c = CHR ''s''" | "c \<notin> set ?letters" by fastforce
  then have "(letter_cmp c D E > 0 \<longleftrightarrow> letter_before (swap_letter c) D E) \<and>
      (letter_cmp c D E < 0 \<longleftrightarrow> letter_before (swap_letter c) E D)"
    by cases (use cs in \<open>simp_all add: letter_cmp_def letter_before_def swap_letter_def key_cmp_def url sec word_less_def\<close>)
  then show "letter_cmp c D E > 0 \<longleftrightarrow> letter_before (swap_letter c) D E"
    and "letter_cmp c D E < 0 \<longleftrightarrow> letter_before (swap_letter c) E D" by blast+
qed

lemma cmppattern_before:
  assumes "D \<in> ud_cstrings" "E \<in> ud_cstrings"
  shows "cmppattern D E p > 0 \<longleftrightarrow> stands_before (map swap_letter p) D E"
proof (induction p)
  case (Cons c p)
  with letter_cmp_before [OF assms, of c] show ?case
    unfolding cmppattern_letter by auto
qed simp

text \<open>
  C21. The result of \<open>UdmURLDataSortByPattern\<close> is a permutation of the list in which no
  document stands behind one that has to stand after it by the order the manual gives to the
  letters of the pattern (score, popularity, date, URL, section; other letters are ignored; the
  first letter that tells two documents apart decides), but with the directions of the letters
  for URL and section exchanged: the code sorts them in ascending order for capital letters and
  in descending order for small ones.  It holds for every pattern, whichever of the three sorting
  routines is chosen and whatever the length of the list (which chooses the first step of the
  Shell sort).
\<close>

theorem UdmURLDataSortByPattern_sorts:
  assumes "set L \<subseteq> ud_cstrings"
  shows "mset (UdmURLDataSortByPattern L pattern) = mset L \<and>
    sorted_wrt (\<lambda>x y. \<not> stands_before (map swap_letter pattern) y x) (UdmURLDataSortByPattern L pattern)"
proof -
  have s: "shell_start (length L) 13 < 14"
    using shell_start_bound [of "length L" 13] by simp
  have m: "mset (UdmURLDataSortByPattern L pattern) = mset L"
    and srt: "sorted_wrt (\<lambda>x y. cmppattern y x pattern \<le> 0) (UdmURLDataSortByPattern L pattern)"
    using shell_passes_sorted [OF s assms, of pattern] mset_shell_passes [OF s, of pattern L]
      qs.sorted_srt [OF cmp_ok_RP(1), of L] qs.sorted_srt [OF cmp_ok_RP(2), of L]
    by (auto simp: UdmURLDataSortByPattern_def UdmURLDataSortByPatternRP_def
        UdmURLDataSortByPatternR_def qs.mset_srt cmppatternR_eq cmppatternRP_eq pattern_sorted_def
        simp del: cmppattern.simps)
  have "set (UdmURLDataSortByPattern L pattern) = set L" by (rule mset_eq_setD [OF m])
  then have "sorted_wrt (\<lambda>x y. \<not> stands_before (map swap_letter pattern) y x) (UdmURLDataSortByPattern L pattern)"
    using assms cmppattern_before [of _ _ pattern] by (intro sorted_wrt_mono_rel [OF _ srt]) (metis not_less subsetD)
  with m show ?thesis by blast
qed

definition ud_example :: "int \<Rightarrow> uint4 \<Rightarrow> udm_urldata" where
  "ud_example i r = \<lparr>ud_url_id = i, ud_score = r, ud_per_site = 1, ud_site_id = 1, ud_last_mod_time = 0,
     ud_pop_rank = 0, ud_url = Some (bstr ''u''), ud_section = None\<rparr>"

definition ud_doc :: "int \<Rightarrow> uint4 \<Rightarrow> string \<Rightarrow> udm_urldata" where
  "ud_doc i r u = \<lparr>ud_url_id = i, ud_score = r, ud_per_site = 1, ud_site_id = 1, ud_last_mod_time = 0,
     ud_pop_rank = 0, ud_url = Some (bstr u), ud_section = None\<rparr>"

lemma ud_doc_cstrings: "ud_doc i r ''a'' \<in> ud_cstrings" "ud_doc i r ''b'' \<in> ud_cstrings"
  by (simp_all add: ud_cstrings_def ud_doc_def cstring_def UDM_NULL2EMPTY_def bstr_def)

theorem UdmURLDataSortByPattern_sorts_witness:
  "mset (UdmURLDataSortByPattern [ud_doc 1 5 ''b'', ud_doc 2 5 ''a'', ud_doc 3 7 ''b''] ''RU'') =
     mset [ud_doc 1 5 ''b'', ud_doc 2 5 ''a'', ud_doc 3 7 ''b''] \<and>
   sorted_wrt (\<lambda>x y. \<not> stands_before ''Ru'' y x)
     (UdmURLDataSortByPattern [ud_doc 1 5 ''b'', ud_doc 2 5 ''a'', ud_doc 3 7 ''b''] ''RU'')"
proof -
  have "map swap_letter ''RU'' = ''Ru''" by (simp add: swap_letter_def)
  then show ?thesis
    using UdmURLDataSortByPattern_sorts [of "[ud_doc 1 5 ''b'', ud_doc 2 5 ''a'', ud_doc 3 7 ''b'']" "''RU''"]
      ud_doc_cstrings by simp
qed

lemma UdmURLDataListSearch_iff:
  assumes "sorted (map ud_url_id L)"
  shows "UdmURLDataListSearch L i = (if i \<in> ud_url_id ` set L then 1 else 0)"
proof -
  define c where "c = (\<lambda>k d. cmp_data_urls \<lparr>ud_url_id = k, ud_score = 0, ud_per_site = 0,
     ud_site_id = 0, ud_last_mod_time = 0, ud_pop_rank = 0, ud_url = None, ud_section = None\<rparr> d)"
  have c: "c k d < 0 \<longleftrightarrow> k < ud_url_id d" "c k d > 0 \<longleftrightarrow> k > ud_url_id d" for k d
    by (simp_all add: c_def cmp_data_urls_def)
  have "bsearch_mono c i L"
    by (rule bsearch_mono_key [where f = "\<lambda>k. k" and key = ud_url_id]) (simp_all add: c assms)
  moreover have "c i d = 0 \<longleftrightarrow> i = ud_url_id d" for d
    by (simp add: c_def cmp_data_urls_def)
  ultimately show ?thesis
    using UdmBSearch_iff [of c i L]
    by (auto simp: UdmURLDataListSearch_def c_def [symmetric] image_iff split: option.split)
qed

end
