(* ===== verification/Hash.thy ===== *)
theory Hash
  imports Prelude
begin

text \<open>
  The hash functions and the hash table of \<^verbatim>\<open>src/hash.c\<close>.

  The mixing macros work on a triple of words; a subtraction line and its shift are one
  line of the macro, three lines are a round (\<open>mix_round\<close>).  A key is a byte string;
  \<open>char\<close> is signed (as on the platforms the program is built for), so that each byte is
  sign-extended (\<open>schar\<close>) before it is shifted.  \<open>udmhash64_t\<close> is unsigned, but
  \<open>udmhash32_t\<close> is \<open>int\<close> (\<^verbatim>\<open>include/udm_config.h\<close>): its right shift is the arithmetic one
  (\<open>signed_drop_bit\<close>), and its additions are taken to wrap around, as the compilers in use do.

  The table (\<open>udm_hash\<close>) has the callbacks of the C structure as fields; its cells are a
  list, a cell whose key is 0 is free.  \<open>hash_lookup\<close> is the abstraction of a table: the map
  from keys to elements.  The locale \<open>joining_table\<close> states what a client may rely on, and
  the result of filling a table is proved once from that contract.
\<close>

subsection \<open>Mixing\<close>

definition mix_round :: "(nat \<Rightarrow> 'a word \<Rightarrow> 'a word) \<Rightarrow> nat \<Rightarrow> nat \<Rightarrow> nat \<Rightarrow> ('a::len) word \<times> 'a word \<times> 'a word \<Rightarrow> 'a word \<times> 'a word \<times> 'a word" where
  "mix_round shr r s t = (\<lambda>(a, b, c).
     let a = (a - b - c) XOR shr r c;
         b = (b - c - a) XOR push_bit s a;
         c = (c - a - b) XOR shr t b
     in (a, b, c))"

definition mix64 :: "64 word \<times> 64 word \<times> 64 word \<Rightarrow> 64 word \<times> 64 word \<times> 64 word" where
  "mix64 x = mix_round drop_bit 12 18 22 (mix_round drop_bit 35 49 11
     (mix_round drop_bit 38 23 5 (mix_round drop_bit 43 9 8 x)))"

definition mix :: "32 word \<times> 32 word \<times> 32 word \<Rightarrow> 32 word \<times> 32 word \<times> 32 word" where
  "mix x = mix_round signed_drop_bit 3 10 15 (mix_round signed_drop_bit 12 16 5
     (mix_round signed_drop_bit 13 8 13 x))"

definition mix2 :: "64 word \<times> 64 word \<times> 64 word \<Rightarrow> 64 word \<times> 64 word \<times> 64 word" where
  "mix2 = (\<lambda>(a, b, c).
     let a = a - b - c; a = a XOR drop_bit 13 c;
         b = b - c - a; b = b XOR push_bit 8 a;
         c = c - a - b; c = c XOR drop_bit 13 (b AND 0xffffffff);
         a = a - b - c; a = a XOR drop_bit 12 (c AND 0xffffffff);
         b = b - c - a; b = (b XOR push_bit 16 a) AND 0xffffffff;
         c = c - a - b; c = (c XOR drop_bit 5 b) AND 0xffffffff;
         a = a - b - c; a = (a XOR drop_bit 3 c) AND 0xffffffff;
         b = b - c - a; b = (b XOR push_bit 10 a) AND 0xffffffff;
         c = c - a - b; c = (c XOR drop_bit 15 b) AND 0xffffffff
     in (a, b, c))"

subsection \<open>Hash values of byte strings\<close>

abbreviation schar :: "byte \<Rightarrow> 'a::len word" where
  "schar b \<equiv> scast b"

definition hash_sum :: "nat \<Rightarrow> nat \<Rightarrow> nat \<Rightarrow> byte list \<Rightarrow> 'a::len word" where
  "hash_sum s o' n k = sum_list (map (\<lambda>i. push_bit (8 * i + s) (schar (k ! (o' + i)))) [0..<min n (length k - o')])"

text \<open>\<open>hash_sum s o n k\<close> adds up the bytes \<open>o, \<dots>, o + n - 1\<close> of the key, as far as there are
  any, each shifted by 8 bits more than the one before, the first by \<open>s\<close>: this is a line of
  the main loop (\<open>n\<close> bytes are there), and also a group of the cases that fall through.\<close>

function hash64_loop :: "64 word \<times> 64 word \<times> 64 word \<Rightarrow> byte list \<Rightarrow> (64 word \<times> 64 word \<times> 64 word) \<times> byte list" where
  "hash64_loop (a, b, c) k =
     (if length k \<ge> 24
      then hash64_loop (mix64 (a + hash_sum 0 0 8 k, b + hash_sum 0 8 8 k, c + hash_sum 0 16 8 k)) (drop 24 k)
      else ((a, b, c), k))"
  by pat_completeness auto
termination by (relation "measure (\<lambda>(x, k). length k)") auto

declare hash64_loop.simps [simp del]

definition hash64 :: "byte list \<Rightarrow> 64 word \<Rightarrow> 64 word" where
  "hash64 k level =
     (let ((a, b, c), rest) = hash64_loop (level, level, 0x9e3779b97f4a7c13) k;
          c = c + of_nat (length k);
          c = c + hash_sum 8 16 7 rest;
          b = b + hash_sum 0 8 8 rest;
          a = a + hash_sum 0 0 8 rest
      in snd (snd (mix64 (a, b, c))))"

definition UdmHash64 :: "byte list \<Rightarrow> 64 word" where
  "UdmHash64 buf = hash64 buf 0xb7e151628aed2a6b"

function hash32_loop :: "32 word \<times> 32 word \<times> 32 word \<Rightarrow> byte list \<Rightarrow> (32 word \<times> 32 word \<times> 32 word) \<times> byte list" where
  "hash32_loop (a, b, c) k =
     (if length k \<ge> 12
      then hash32_loop (mix (a + hash_sum 0 0 4 k, b + hash_sum 0 4 4 k, c + hash_sum 0 8 4 k)) (drop 12 k)
      else ((a, b, c), k))"
  by pat_completeness auto
termination by (relation "measure (\<lambda>(x, k). length k)") auto

declare hash32_loop.simps [simp del]

definition hash32 :: "byte list \<Rightarrow> 32 word \<Rightarrow> 32 word" where
  "hash32 k initval =
     (let ((a, b, c), rest) = hash32_loop (0x9e3779b9, 0x9e3779b9, initval) k;
          c = c + of_nat (length k);
          c = c + hash_sum 8 8 3 rest;
          b = b + hash_sum 0 4 4 rest;
          a = a + hash_sum 0 0 4 rest
      in snd (snd (mix (a, b, c))))"

definition UdmHash32 :: "byte list \<Rightarrow> 32 word" where
  "UdmHash32 buf = hash32 buf 0"

subsection \<open>The hash table\<close>

record 'a udm_hash =
  hash_base :: "'a list"
  hash_key :: "'a \<Rightarrow> nat"
  hash_join :: "'a \<Rightarrow> 'a \<Rightarrow> 'a"

text \<open>The fields \<open>nmemb\<close> and \<open>size\<close> of the C structure are the length of \<open>hash_base\<close> and the
  size of its element type.  The callback \<open>join(dst, src)\<close> writes to \<open>dst\<close> only: it is the
  function that gives its new value.\<close>

abbreviation hash_nmemb :: "'a udm_hash \<Rightarrow> nat" where
  "hash_nmemb h \<equiv> length (hash_base h)"

definition UdmHashInit :: "'a list \<Rightarrow> ('a \<Rightarrow> nat) \<Rightarrow> ('a \<Rightarrow> 'a \<Rightarrow> 'a) \<Rightarrow> 'a udm_hash" where
  "UdmHashInit base key join = \<lparr>hash_base = base, hash_key = key, hash_join = join\<rparr>"

definition UdmHashSize :: "nat \<Rightarrow> nat" where
  "UdmHashSize n = n + n div 10 + 10"

fun hash_put_loop :: "('a \<Rightarrow> nat) \<Rightarrow> ('a \<Rightarrow> 'a \<Rightarrow> 'a) \<Rightarrow> 'a \<Rightarrow> nat \<Rightarrow> nat \<Rightarrow> 'a list \<Rightarrow> 'a list" where
  "hash_put_loop key join x pos 0 cells = cells"
| "hash_put_loop key join x pos (Suc left) cells =
     (let addr = cells ! pos; hkey = key addr in
      if hkey = 0 then cells[pos := x]
      else if hkey = key x then cells[pos := join addr x]
      else hash_put_loop key join x ((pos + 1) mod length cells) left cells)"

definition UdmHashPut :: "'a udm_hash \<Rightarrow> 'a \<Rightarrow> 'a udm_hash" where
  "UdmHashPut h x =
     h\<lparr>hash_base := hash_put_loop (hash_key h) (hash_join h) x
         (hash_key h x mod hash_nmemb h) (hash_nmemb h) (hash_base h)\<rparr>"

subsection \<open>The mixing is reversible\<close>

definition unmix_round :: "(nat \<Rightarrow> 'a word \<Rightarrow> 'a word) \<Rightarrow> nat \<Rightarrow> nat \<Rightarrow> nat \<Rightarrow> ('a::len) word \<times> 'a word \<times> 'a word \<Rightarrow> 'a word \<times> 'a word \<times> 'a word" where
  "unmix_round shr r s t = (\<lambda>(a, b, c).
     let c = (c XOR shr t b) + b + a;
         b = (b XOR push_bit s a) + a + c;
         a = (a XOR shr r c) + c + b
     in (a, b, c))"

lemma xor_cancel: "(x XOR y) XOR y = (x :: 'a::len word)"
  by (simp add: xor.assoc)

lemma unmix_mix_round: "unmix_round shr r s t (mix_round shr r s t x) = x"
  by (cases x) (simp add: unmix_round_def mix_round_def Let_def xor_cancel)

lemma mix_unmix_round: "mix_round shr r s t (unmix_round shr r s t x) = x"
  by (cases x) (simp add: unmix_round_def mix_round_def Let_def xor_cancel algebra_simps)

lemma bij_mix_round: "bij (mix_round shr r s t)"
  by (rule o_bij [of "unmix_round shr r s t"]) (auto simp: unmix_mix_round mix_unmix_round)

text \<open>
  The mixing steps are reversible, as their comments say: the 12 lines of \<open>mix64\<close> and the
  9 lines of \<open>mix\<close> are bijections of the three words, so that no two states of a hash
  computation run together.
\<close>

theorem mixing_reversible: "bij mix64 \<and> bij mix"
proof -
  have a: "mix64 = mix_round drop_bit 12 18 22 \<circ> mix_round drop_bit 35 49 11 \<circ>
      mix_round drop_bit 38 23 5 \<circ> mix_round drop_bit 43 9 8"
    by (auto simp: mix64_def)
  have b: "mix = mix_round signed_drop_bit 3 10 15 \<circ> mix_round signed_drop_bit 12 16 5 \<circ>
      mix_round signed_drop_bit 13 8 13"
    by (auto simp: mix_def)
  show ?thesis unfolding a b by (intro conjI bij_comp bij_mix_round)
qed

subsection \<open>mix2 and mix\<close>

definition mix_unsigned :: "32 word \<times> 32 word \<times> 32 word \<Rightarrow> 32 word \<times> 32 word \<times> 32 word" where
  "mix_unsigned x = mix_round drop_bit 3 10 15 (mix_round drop_bit 12 16 5 (mix_round drop_bit 13 8 13 x))"

text \<open>\<open>low32\<close> is what a 32-bit variable holds of a 64-bit one.\<close>

abbreviation low32 :: "64 word \<Rightarrow> 32 word" where
  "low32 \<equiv> ucast"

lemma mask32_bit: "bit (4294967295 :: 64 word) n \<longleftrightarrow> n < 32"
proof -
  have "(4294967295 :: 64 word) = mask 32" by (simp add: mask_eq_exp_minus_1)
  then show ?thesis by (simp only: bit_mask_iff) auto
qed

lemma low32_of_int: "low32 (word_of_int k) = word_of_int k"
  by (rule bit_eqI) (auto simp: bit_unsigned_iff bit_word_of_int_iff)

lemma low32_minus: "low32 (x - y) = low32 x - low32 y"
proof -
  have "x - y = word_of_int (uint x - uint y)" by simp
  then show ?thesis by (simp only: low32_of_int) (simp only: ucast_eq wi_hom_sub)
qed

lemmas low32_bits = bit_unsigned_iff bit_and_iff bit_xor_iff bit_push_bit_iff bit_drop_bit_eq comp_def mask32_bit

lemma low32_xor: "low32 (x XOR y) = low32 x XOR low32 y"
  by (rule bit_eqI) (unfold low32_bits, auto dest: bit_imp_le_length)

lemma low32_shl: "low32 (push_bit n x) = push_bit n (low32 x)"
  by (rule bit_eqI) (unfold low32_bits, auto dest: bit_imp_le_length)

lemma and_mask32: "x AND 0xffffffff = ucast (low32 x)"
  by (rule bit_eqI) (unfold low32_bits, auto dest: bit_imp_le_length)

lemma low32_up: "low32 (ucast x) = x"
  by (rule bit_eqI) (unfold low32_bits, auto dest: bit_imp_le_length)

lemma low32_shr_up: "low32 (drop_bit n (ucast x)) = drop_bit n x"
  by (rule bit_eqI) (unfold low32_bits, auto dest: bit_imp_le_length)

lemmas low32_simps = low32_minus low32_xor low32_shl low32_up low32_shr_up

text \<open>
  \<open>mix2\<close>, for systems with 64-bit variables, computes in the low halves what the same
  steps on unsigned 32-bit words give, and leaves the high halves zero, whatever the high
  halves of \<open>a\<close> and \<open>b\<close> were.
\<close>

theorem mix2_unsigned:
  "mix2 (a, b, ucast c) = (let (x, y, z) = mix_unsigned (low32 a, low32 b, c) in (ucast x, ucast y, ucast z))"
  unfolding mix2_def mix_unsigned_def mix_round_def Let_def split and_mask32 low32_simps ..

subsection \<open>The abstraction and the invariant of a table\<close>

definition hash_lookup :: "'a udm_hash \<Rightarrow> nat \<Rightarrow> 'a option" where
  "hash_lookup h k = (if k = 0 then None else find (\<lambda>x. hash_key h x = k) (hash_base h))"

definition hash_used :: "'a udm_hash \<Rightarrow> nat" where
  "hash_used h = length (filter (\<lambda>x. hash_key h x \<noteq> 0) (hash_base h))"

text \<open>The \<open>d\<close>-th cell a key visits, and a path of \<open>d\<close> cells of other keys.\<close>

abbreviation probe :: "'a udm_hash \<Rightarrow> nat \<Rightarrow> nat \<Rightarrow> nat" where
  "probe h k d \<equiv> (k + d) mod hash_nmemb h"

definition blocked :: "'a udm_hash \<Rightarrow> nat \<Rightarrow> nat \<Rightarrow> bool" where
  "blocked h k d \<longleftrightarrow> (\<forall>e<d. hash_key h (hash_base h ! probe h k e) \<notin> {0, k})"

definition hash_ok :: "'a udm_hash \<Rightarrow> bool" where
  "hash_ok h \<longleftrightarrow> 0 < hash_nmemb h \<and>
     (\<forall>i<hash_nmemb h. let k = hash_key h (hash_base h ! i) in
        k \<noteq> 0 \<longrightarrow> (\<exists>d<hash_nmemb h. i = probe h k d \<and> blocked h k d))"

lemma hash_okD:
  assumes "hash_ok h" "i < hash_nmemb h" "hash_key h (hash_base h ! i) = k" "k \<noteq> 0"
  obtains d where "d < hash_nmemb h" "i = probe h k d" "blocked h k d"
  using assms unfolding hash_ok_def Let_def by blast

lemma probe_surj:
  assumes "i < n"
  shows "\<exists>d<n. (k + d) mod n = (i :: nat)"
proof -
  let ?d = "(i + n - k mod n) mod n"
  have "(k + ?d) mod n = (k mod n + (i + n - k mod n)) mod n"
    by (metis mod_add_left_eq mod_add_right_eq)
  also have "k mod n + (i + n - k mod n) = i + n"
    using assms mod_less_divisor [of n k] by linarith
  finally show ?thesis using assms by (intro exI [of _ ?d]) simp
qed

lemma probe_inj:
  assumes "(k + d) mod n = (k + e) mod n" "d < n" "e < (n :: nat)"
  shows "d = e"
proof -
  have "e = d" if "(k + d) mod n = (k + e) mod n" "d \<le> e" "e < n" for d e
  proof -
    have "n dvd e - d"
      using that(1,2) mod_eq_dvd_iff_nat [of "k + d" "k + e" n] by simp
    with that(2,3) dvd_imp_le [of n "e - d"] show ?thesis by linarith
  qed
  note le = this
  show ?thesis
  proof (cases "d \<le> e")
    case True
    from le [OF assms(1) this assms(3)] show ?thesis by (rule sym)
  next
    case False
    then have "e \<le> d" by simp
    from le [OF assms(1) [symmetric] this assms(2)] show ?thesis .
  qed
qed

lemma blocked_meet:
  assumes "blocked h k d" "hash_key h (hash_base h ! probe h k d) \<in> {0, k}"
    and "blocked h k e" "hash_key h (hash_base h ! probe h k e) \<in> {0, k}"
  shows "d = e"
  using assms unfolding blocked_def by (metis linorder_neqE_nat)

lemma hash_ok_unique:
  assumes "hash_ok h" "i < hash_nmemb h" "j < hash_nmemb h"
    and "hash_key h (hash_base h ! i) = k" "hash_key h (hash_base h ! j) = k" "k \<noteq> 0"
  shows "i = j"
proof -
  obtain d where d: "i = probe h k d" "blocked h k d"
    by (rule hash_okD [OF assms(1,2,4,6)])
  obtain e where e: "j = probe h k e" "blocked h k e"
    by (rule hash_okD [OF assms(1,3,5,6)])
  from blocked_meet [OF d(2) _ e(2)] d e assms show ?thesis by auto
qed

lemma hash_lookup_eq:
  assumes "hash_ok h" "i < hash_nmemb h" "hash_key h (hash_base h ! i) = k" "k \<noteq> 0"
  shows "hash_lookup h k = Some (hash_base h ! i)"
proof -
  have "find (\<lambda>x. hash_key h x = k) (hash_base h) \<noteq> None"
    using assms(2,3) nth_mem [OF assms(2)] unfolding find_None_iff by blast
  then obtain x where x: "find (\<lambda>x. hash_key h x = k) (hash_base h) = Some x" by blast
  then obtain j where "j < hash_nmemb h" "hash_key h (hash_base h ! j) = k" "x = hash_base h ! j"
    by (auto simp: find_Some_iff)
  with hash_ok_unique [OF assms(1,2) _ assms(3)] assms x show ?thesis
    by (auto simp: hash_lookup_def)
qed

lemma hash_lookup_None:
  assumes "\<And>i. i < hash_nmemb h \<Longrightarrow> hash_key h (hash_base h ! i) \<noteq> k"
  shows "hash_lookup h k = None"
  using assms by (auto simp: hash_lookup_def find_None_iff in_set_conv_nth)

lemma hash_lookup_cases [consumes 1, case_names absent present]:
  assumes "hash_ok h"
  obtains (absent) "k = 0 \<or> (\<forall>i<hash_nmemb h. hash_key h (hash_base h ! i) \<noteq> k)" "hash_lookup h k = None"
  | (present) i where "k \<noteq> 0" "i < hash_nmemb h" "hash_key h (hash_base h ! i) = k"
      "hash_lookup h k = Some (hash_base h ! i)"
proof (cases "k = 0 \<or> (\<forall>i<hash_nmemb h. hash_key h (hash_base h ! i) \<noteq> k)")
  case True
  then have "hash_lookup h k = None"
    using hash_lookup_None [of h k] by (cases "k = 0") (auto simp: hash_lookup_def)
  with True show ?thesis by (rule absent)
next
  case False
  then obtain i where "k \<noteq> 0" "i < hash_nmemb h" "hash_key h (hash_base h ! i) = k" by blast
  with hash_lookup_eq [OF assms this(2,3,1)] show ?thesis by (intro present) auto
qed


subsection \<open>UdmHashPut\<close>

definition join_opt :: "('a \<Rightarrow> 'a \<Rightarrow> 'a) \<Rightarrow> 'a option \<Rightarrow> 'a \<Rightarrow> 'a" where
  "join_opt join v x = (case v of None \<Rightarrow> x | Some y \<Rightarrow> join y x)"

text \<open>The outcome of the probing: the cell where it stopped, or the unchanged table.\<close>

lemma hash_put_loop_result:
  assumes "d + left = hash_nmemb h" "pos = probe h k d" "k = hash_key h x" "blocked h k d" "0 < hash_nmemb h"
  shows "(\<exists>e<hash_nmemb h. blocked h k e \<and> hash_key h (hash_base h ! probe h k e) \<in> {0, k} \<and>
            hash_put_loop (hash_key h) (hash_join h) x pos left (hash_base h) =
            (hash_base h)[probe h k e :=
               if hash_key h (hash_base h ! probe h k e) = 0 then x
               else hash_join h (hash_base h ! probe h k e) x]) \<or>
         blocked h k (hash_nmemb h) \<and>
         hash_put_loop (hash_key h) (hash_join h) x pos left (hash_base h) = hash_base h"
  using assms(1,2,4)
proof (induction left arbitrary: d pos)
  case 0
  then show ?case by simp
next
  case (Suc left)
  let ?key = "hash_key h (hash_base h ! pos)"
  show ?case
  proof (cases "?key \<in> {0, k}")
    case True
    then show ?thesis
      using Suc.prems assms(3)
      by (intro disjI1 exI [of _ d]) (auto simp: Let_def)
  next
    case False
    have "blocked h k (Suc d)"
      using Suc.prems False unfolding blocked_def less_Suc_eq by blast
    moreover have "(pos + 1) mod hash_nmemb h = probe h k (Suc d)"
      using Suc.prems(2) by (simp add: mod_Suc_eq)
    ultimately show ?thesis
      using Suc.IH [of "Suc d" "probe h k (Suc d)"] Suc.prems(1) False assms(3)
      by (simp add: Let_def)
  qed
qed

lemma UdmHashPut_result:
  assumes "0 < hash_nmemb h" "k = hash_key h x"
  obtains (stop) d where "d < hash_nmemb h" "blocked h k d"
      "hash_key h (hash_base h ! probe h k d) \<in> {0, k}"
      "hash_base (UdmHashPut h x) = (hash_base h)[probe h k d :=
         if hash_key h (hash_base h ! probe h k d) = 0 then x
         else hash_join h (hash_base h ! probe h k d) x]"
  | (full) "blocked h k (hash_nmemb h)" "hash_base (UdmHashPut h x) = hash_base h"
proof -
  have b: "hash_base (UdmHashPut h x) = hash_put_loop (hash_key h) (hash_join h) x (k mod hash_nmemb h)
      (hash_nmemb h) (hash_base h)"
    by (simp add: UdmHashPut_def assms(2))
  have 0: "k mod hash_nmemb h = probe h k 0" "blocked h k 0" by (simp_all add: blocked_def)
  from hash_put_loop_result [OF add_0_left 0(1) assms(2) 0(2) assms(1)]
  show ?thesis unfolding b [symmetric] by (elim disjE exE conjE) (simp_all add: stop full)
qed

lemma UdmHashPut_fields [simp]:
  "hash_key (UdmHashPut h x) = hash_key h" "hash_join (UdmHashPut h x) = hash_join h"
  by (simp_all add: UdmHashPut_def)

lemma UdmHashPut_nmemb [simp]: "hash_nmemb (UdmHashPut h x) = hash_nmemb h"
proof (cases "hash_nmemb h = 0")
  case False
  then have "0 < hash_nmemb h" by simp
  then show ?thesis by (rule UdmHashPut_result [OF _ refl, where x = x]) simp_all
qed (simp add: UdmHashPut_def)

text \<open>A free cell on the way of every key.\<close>

lemma not_blocked_all:
  assumes "i < hash_nmemb h" "hash_key h (hash_base h ! i) \<in> {0, k}"
  shows "\<not> blocked h k (hash_nmemb h)"
  using probe_surj [OF assms(1), of k] assms(2) unfolding blocked_def by blast

text \<open>Storing a value of the same key, or in a free cell at the end of its own path, keeps
  the invariant.\<close>

lemma hash_ok_update:
  assumes ok: "hash_ok h" and d: "d < hash_nmemb h" "blocked h k d" "k \<noteq> 0"
    and at: "hash_key h (hash_base h ! probe h k d) \<in> {0, k}" and y: "hash_key h y = k"
    and h': "hash_base h' = (hash_base h)[probe h k d := y]" "hash_key h' = hash_key h"
  shows "hash_ok h'"
proof -
  let ?n = "hash_nmemb h" and ?p = "probe h k d"
  have n: "0 < ?n" "hash_nmemb h' = ?n" and p: "?p < ?n"
    using ok h' by (auto simp: hash_ok_def)
  have keys: "hash_key h' (hash_base h' ! j) = (if j = ?p then k else hash_key h (hash_base h ! j))"
    if "j < ?n" for j
    using that h' p y by (auto simp: nth_list_update)
  have old: "blocked h' k' e" if "blocked h k' e" "k' \<noteq> 0" "\<forall>e'<e. probe h k' e' = ?p \<longrightarrow> k' \<noteq> k" for k' e
    using that d(3) n by (auto simp: blocked_def keys)
  have "\<exists>e<?n. i = probe h k' e \<and> blocked h' k' e"
    if i: "i < ?n" "hash_key h' (hash_base h' ! i) = k'" "k' \<noteq> 0" for i k'
  proof (cases "i = ?p")
    case True
    with i keys [of i] have k': "k' = k" by simp
    have "probe h k e \<noteq> ?p" if "e < d" for e
      using probe_inj [of k e ?n d] that d(1) by auto
    with old [of k d] d show ?thesis unfolding k' True by blast
  next
    case False
    with i have "hash_key h (hash_base h ! i) = k'" by (simp add: keys)
    from hash_okD [OF ok i(1) this i(3)] obtain e where e: "e < ?n" "i = probe h k' e" "blocked h k' e" .
    have "k' \<noteq> k" if "e' < e" "probe h k' e' = ?p" for e'
    proof
      assume "k' = k"
      with e that at have "hash_key h (hash_base h ! probe h k e') \<in> {0, k}" "hash_key h (hash_base h ! probe h k e') \<notin> {0, k}"
        unfolding blocked_def by auto
      then show False by blast
    qed
    with old [OF e(3) i(3)] e show ?thesis by blast
  qed
  with n show ?thesis by (simp add: hash_ok_def Let_def)
qed

lemma hash_ok_free:
  assumes "hash_ok h" "p < hash_nmemb h" "hash_key h (hash_base h ! p) = 0" "hash_key h y = 0"
    and h': "hash_base h' = (hash_base h)[p := y]" "hash_key h' = hash_key h"
  shows "hash_ok h'"
proof -
  have keys: "hash_key h' (hash_base h' ! i) = hash_key h (hash_base h ! i)" if "i < hash_nmemb h" for i
    using that assms by (auto simp: nth_list_update)
  have n: "0 < hash_nmemb h" using assms(1) by (simp add: hash_ok_def)
  have len: "hash_nmemb h' = hash_nmemb h" by (simp add: h'(1))
  have "blocked h' k d \<longleftrightarrow> blocked h k d" for k d
    using n by (simp only: blocked_def len keys mod_less_divisor)
  with assms(1) show ?thesis by (simp add: hash_ok_def len keys Let_def)
qed

lemma hash_lookup_update:
  assumes ok: "hash_ok h" "hash_ok h'" and p: "p < hash_nmemb h" "hash_key h (hash_base h ! p) \<in> {0, k}"
    and h': "hash_base h' = (hash_base h)[p := y]" "hash_key h' = hash_key h" "hash_key h y = k"
  shows "hash_lookup h' k' = (if k' \<noteq> 0 \<and> k' = k then Some y else hash_lookup h k')"
proof (cases "k' \<noteq> 0 \<and> k' = k")
  case True
  with p h' hash_lookup_eq [OF ok(2), of p k] show ?thesis by simp
next
  case False
  have keys: "hash_key h' (hash_base h' ! i) = (if i = p then k else hash_key h (hash_base h ! i))"
    if "i < hash_nmemb h" for i
    using that h' by (auto simp: nth_list_update)
  from ok(1) show ?thesis
  proof (cases rule: hash_lookup_cases [of h k'])
    case absent
    show ?thesis
    proof (cases "k' = 0")
      case False
      with \<open>\<not> (k' \<noteq> 0 \<and> k' = k)\<close> absent have "hash_key h' (hash_base h' ! i) \<noteq> k'" if "i < hash_nmemb h'" for i
        using that keys [of i] h'(1) by auto
      from hash_lookup_None [OF this] absent(2) \<open>\<not> (k' \<noteq> 0 \<and> k' = k)\<close> show ?thesis by simp
    qed (simp add: hash_lookup_def)
  next
    case (present i)
    with False p have "i \<noteq> p" by auto
    with present False hash_lookup_eq [OF ok(2), of i k'] h' keys [of i] show ?thesis by simp
  qed
qed

lemma hash_lookup_stop:
  assumes "hash_ok h" "d < hash_nmemb h" "blocked h k d" "k \<noteq> 0"
    and "hash_key h (hash_base h ! probe h k d) \<in> {0, k}"
  shows "(if hash_key h (hash_base h ! probe h k d) = 0 then x else join (hash_base h ! probe h k d) x) =
    join_opt join (hash_lookup h k) x"
  using assms(1)
proof (cases rule: hash_lookup_cases [of h k])
  case absent
  have "probe h k d < hash_nmemb h" using assms(2) by (intro mod_less_divisor) linarith
  with absent assms(4,5) have "hash_key h (hash_base h ! probe h k d) = 0" by blast
  with absent show ?thesis by (simp add: join_opt_def)
next
  case (present i)
  from hash_okD [OF assms(1) present(2,3,1)] obtain e where "i = probe h k e" "blocked h k e" .
  with blocked_meet [OF assms(3,5), of e] present have "i = probe h k d" by auto
  with present show ?thesis by (simp add: join_opt_def)
qed

lemma hash_room:
  assumes "hash_used h < hash_nmemb h"
  shows "\<not> blocked h k (hash_nmemb h)"
proof -
  have "\<not> (\<forall>x \<in> set (hash_base h). hash_key h x \<noteq> 0)"
  proof
    assume "\<forall>x \<in> set (hash_base h). hash_key h x \<noteq> 0"
    from filter_True [OF this] assms show False by (simp only: hash_used_def less_irrefl)
  qed
  then have "\<exists>i<hash_nmemb h. hash_key h (hash_base h ! i) = 0"
    by (metis in_set_conv_nth)
  then show ?thesis using not_blocked_all by blast
qed

lemma UdmHashPut_correct:
  assumes ok: "hash_ok h" and room: "hash_used h < hash_nmemb h"
    and join: "\<And>a b. hash_key h (hash_join h a b) = hash_key h a"
  shows "hash_ok (UdmHashPut h x)"
    and "hash_lookup (UdmHashPut h x) k' =
           (if k' \<noteq> 0 \<and> k' = hash_key h x then Some (join_opt (hash_join h) (hash_lookup h k') x)
            else hash_lookup h k')"
proof -
  define k where "k = hash_key h x"
  have n: "0 < hash_nmemb h" using ok by (simp add: hash_ok_def)
  from UdmHashPut_result [OF n k_def] hash_room [OF room]
  obtain d where d: "d < hash_nmemb h" "blocked h k d"
      and at: "hash_key h (hash_base h ! probe h k d) \<in> {0, k}"
      and new: "hash_base (UdmHashPut h x) = (hash_base h)[probe h k d :=
         if hash_key h (hash_base h ! probe h k d) = 0 then x
         else hash_join h (hash_base h ! probe h k d) x]" (is "_ = (hash_base h)[?p := ?y]")
    by metis
  have p: "?p < hash_nmemb h" using n by simp
  have y: "hash_key h ?y = k"
    using at join by (auto simp: k_def)
  show ok': "hash_ok (UdmHashPut h x)"
  proof (cases "k = 0")
    case True
    from hash_ok_free [OF ok p _ _ new] at y True show ?thesis by simp
  next
    case False
    from hash_ok_update [OF ok d False at y new] show ?thesis by simp
  qed
  from hash_lookup_update [OF ok ok' p at new _ y, of k'] hash_lookup_stop [OF ok d _ at, of x "hash_join h"]
  show "hash_lookup (UdmHashPut h x) k' =
      (if k' \<noteq> 0 \<and> k' = hash_key h x then Some (join_opt (hash_join h) (hash_lookup h k') x)
       else hash_lookup h k')"
    by (auto simp: k_def)
qed

lemma length_filter_update: "length (filter P (xs[i := y])) \<le> Suc (length (filter P xs))"
  by (induction xs arbitrary: i) (auto split: nat.splits intro: le_SucI)

lemma hash_used_put:
  assumes "0 < hash_nmemb h"
  shows "hash_used (UdmHashPut h x) \<le> Suc (hash_used h)"
  by (rule UdmHashPut_result [OF assms refl, of x]) (simp_all add: hash_used_def length_filter_update)

lemma UdmHashPut_cells:
  assumes "\<forall>c \<in> set (hash_base h). Q c" "Q x" "\<And>c. Q c \<Longrightarrow> Q (hash_join h c x)"
  shows "\<forall>c \<in> set (hash_base (UdmHashPut h x)). Q c"
proof (cases "0 < hash_nmemb h")
  case True
  show ?thesis
  proof (rule UdmHashPut_result [OF True refl, of x])
    fix d assume d: "d < hash_nmemb h"
      and new: "hash_base (UdmHashPut h x) = (hash_base h)[probe h (hash_key h x) d :=
         if hash_key h (hash_base h ! probe h (hash_key h x) d) = 0 then x
         else hash_join h (hash_base h ! probe h (hash_key h x) d) x]" (is "_ = (hash_base h)[?p := ?y]")
    have "?p < hash_nmemb h" using True by simp
    then have "Q ?y" using assms by simp
    with assms(1) show ?thesis unfolding new using set_update_subset_insert [of "hash_base h" ?p ?y] by blast
  qed (use assms(1) in simp)
qed (use assms(1) in \<open>simp add: UdmHashPut_def\<close>)

subsection \<open>The contract of a joining table\<close>

locale joining_table =
  fixes key :: "'a \<Rightarrow> nat"
    and join :: "'a \<Rightarrow> 'a \<Rightarrow> 'a"
    and put :: "'t \<Rightarrow> 'a \<Rightarrow> 't"
    and lookup :: "'t \<Rightarrow> nat \<Rightarrow> 'a option"
    and invar :: "'t \<Rightarrow> bool"
    and used :: "'t \<Rightarrow> nat"
    and room :: "'t \<Rightarrow> nat"
  assumes invar_put: "invar t \<Longrightarrow> used t < room t \<Longrightarrow> invar (put t x)"
    and lookup_put: "invar t \<Longrightarrow> used t < room t \<Longrightarrow>
      lookup (put t x) k = (if k \<noteq> 0 \<and> k = key x then Some (join_opt join (lookup t k) x) else lookup t k)"
    and used_put: "invar t \<Longrightarrow> used (put t x) \<le> Suc (used t)"
    and room_put: "invar t \<Longrightarrow> room (put t x) = room t"
begin

lemma put_all:
  assumes "invar t" "used t + length xs \<le> room t"
  shows "invar (foldl put t xs) \<and> room (foldl put t xs) = room t \<and> used (foldl put t xs) \<le> used t + length xs \<and>
    lookup (foldl put t xs) k =
      (if k = 0 then lookup t k else foldl (\<lambda>v x. Some (join_opt join v x)) (lookup t k) (filter (\<lambda>x. key x = k) xs))"
  using assms
proof (induction xs arbitrary: t)
  case (Cons x xs)
  then have u: "used t < room t" "used (put t x) \<le> Suc (used t)" "room (put t x) = room t"
    by (auto simp: used_put room_put)
  with Cons.prems have "used (put t x) + length xs \<le> room (put t x)" by simp
  from Cons.IH [OF invar_put [OF Cons.prems(1) u(1)] this] u show ?case
    by (auto simp: lookup_put [OF Cons.prems(1) u(1)])
qed simp

end

locale hash_callbacks =
  fixes key :: "'a \<Rightarrow> nat" and join :: "'a \<Rightarrow> 'a \<Rightarrow> 'a"
  assumes key_join: "key (join a b) = key a"

sublocale hash_callbacks \<subseteq> table: joining_table key join UdmHashPut hash_lookup
  "\<lambda>h. hash_ok h \<and> hash_key h = key \<and> hash_join h = join" hash_used hash_nmemb
proof
  fix t :: "'a udm_hash" and x :: 'a and k :: nat
  assume t: "hash_ok t \<and> hash_key t = key \<and> hash_join t = join"
  then have n: "0 < hash_nmemb t" by (simp add: hash_ok_def)
  have j: "\<And>a b. hash_key t (hash_join t a b) = hash_key t a" using t key_join by simp
  show "hash_used (UdmHashPut t x) \<le> Suc (hash_used t)" by (rule hash_used_put [OF n])
  show "hash_nmemb (UdmHashPut t x) = hash_nmemb t" by simp
  assume room: "hash_used t < hash_nmemb t"
  note put = UdmHashPut_correct [OF _ room j]
  from t put(1) show "hash_ok (UdmHashPut t x) \<and> hash_key (UdmHashPut t x) = key \<and> hash_join (UdmHashPut t x) = join"
    by simp
  from t put(2) show "hash_lookup (UdmHashPut t x) k =
      (if k \<noteq> 0 \<and> k = key x then Some (join_opt join (hash_lookup t k) x) else hash_lookup t k)"
    by simp
qed

text \<open>A table of free cells, and the size the callers ask for.\<close>

lemma hash_ok_init:
  assumes "cells \<noteq> []" "\<forall>c \<in> set cells. key c = 0"
  shows "hash_ok (UdmHashInit cells key join)" "hash_used (UdmHashInit cells key join) = 0"
    "hash_lookup (UdmHashInit cells key join) k = None"
  using assms by (auto simp: hash_ok_def UdmHashInit_def hash_used_def hash_lookup_def find_None_iff)

lemma UdmHashSize_room: "n < UdmHashSize n"
  by (simp add: UdmHashSize_def)

end
