(* ===== verification/GroupBy.thy ===== *)
theory GroupBy
  imports Urldata Hash "HOL-Library.Product_Lexorder"
begin

text \<open>
  Grouping of the found documents by site (\<^verbatim>\<open>src/groupby.c\<close>): the two algorithms
  (sort and group in place; hash table filled while the list is merged with the
  \<open>#rec_id\<close>/\<open>#site_id\<close> records), and the ranking of the documents of one site.

  The state is the document list; the site scores of the SQL database are a parameter.
\<close>

subsection \<open>Grouping after a sort\<close>

definition keeps :: "udm_urldata \<Rightarrow> udm_urldata \<Rightarrow> bool" where
  "keeps dst src \<longleftrightarrow>
     (if ud_score dst > ud_score src then True
      else if ud_score dst = ud_score src then
        if ud_pop_rank dst > ud_pop_rank src then True
        else if ud_pop_rank dst = ud_pop_rank src then ud_url_id dst < ud_url_id src
        else False
      else False)"

definition copy_doc :: "udm_urldata \<Rightarrow> udm_urldata \<Rightarrow> udm_urldata" where
  "copy_doc dst src = dst\<lparr>ud_url_id := ud_url_id src, ud_score := ud_score src,
     ud_last_mod_time := ud_last_mod_time src, ud_pop_rank := ud_pop_rank src,
     ud_url := ud_url src, ud_section := ud_section src\<rparr>"

fun group_loop :: "udm_urldata \<Rightarrow> uint4 \<Rightarrow> udm_urldata list \<Rightarrow> udm_urldata list" where
  "group_loop dst cnt [] = [dst\<lparr>ud_per_site := cnt\<rparr>]"
| "group_loop dst cnt (s # src) =
     (if ud_site_id dst = ud_site_id s then
        let cnt = cnt + ud_per_site s in
        if keeps dst s then group_loop dst cnt src
        else group_loop (copy_doc dst s) cnt src
      else dst\<lparr>ud_per_site := cnt\<rparr> # group_loop s (ud_per_site s) src)"

text \<open>The reading pointer is always ahead of the writing one, so that the in-place loop reads
  the items of the input; the result is the first \<open>nitems\<close> items it leaves.\<close>

definition UdmURLDataGroupBySite :: "udm_urldata list \<Rightarrow> udm_urldata list" where
  "UdmURLDataGroupBySite L =
     (case L of [] \<Rightarrow> [] | d # src \<Rightarrow> group_loop d (ud_per_site d) src)"

definition UdmURLDataListGroupBySiteUsingSort ::
  "(udm_urldata list \<Rightarrow> udm_rc \<times> udm_urldata list) \<Rightarrow> udm_urldata list \<Rightarrow> udm_rc \<times> udm_urldata list" where
  "UdmURLDataListGroupBySiteUsingSort apply_user_site_score R =
     (let R = map (\<lambda>Dat. Dat\<lparr>ud_per_site := 1\<rparr>) R;
          R = UdmURLDataSortBySite R;
          R = UdmURLDataGroupBySite R;
          (rc, R) = apply_user_site_score R
      in if rc \<noteq> UDM_OK then (UDM_ERROR, R) else (UDM_OK, R))"

subsection \<open>Grouping with a hash table\<close>

definition test_key :: "udm_urldata \<Rightarrow> nat" where
  "test_key D = nat (ud_site_id D mod 2 ^ 64)"

definition test_join :: "udm_urldata \<Rightarrow> udm_urldata \<Rightarrow> udm_urldata" where
  "test_join dst src =
     (let dst = dst\<lparr>ud_per_site := ud_per_site dst + ud_per_site src\<rparr> in
      if ud_score dst > ud_score src then dst
      else if ud_score dst = ud_score src \<and> ud_pop_rank dst > ud_pop_rank src then dst
      else if ud_score dst = ud_score src \<and> ud_pop_rank dst = ud_pop_rank src \<and> ud_url_id dst < ud_url_id src then dst
      else dst\<lparr>ud_url_id := ud_url_id src, ud_score := ud_score src,
        ud_last_mod_time := ud_last_mod_time src, ud_pop_rank := ud_pop_rank src,
        ud_url := ud_url src, ud_section := ud_section src\<rparr>)"

definition ud_zero :: udm_urldata where
  "ud_zero = \<lparr>ud_url_id = 0, ud_score = 0, ud_per_site = 0, ud_site_id = 0, ud_last_mod_time = 0,
     ud_pop_rank = 0, ud_url = None, ud_section = None\<rparr>"

text \<open>The i-th 4-byte integer of a string; \<open>None\<close> is a read behind its end.\<close>

definition read_int4 :: "byte list \<Rightarrow> nat \<Rightarrow> int option" where
  "read_int4 s i =
     (if i * 4 + 4 \<le> length s
      then Some (udm_get_int4 (s ! (i * 4)) (s ! (i * 4 + 1)) (s ! (i * 4 + 2)) (s ! (i * 4 + 3)))
      else None)"

text \<open>The loop over the two records (index \<open>i\<close>) and the items (the rest of the list).  \<open>nbad\<close>
  counts the items without a record, for the log.\<close>

function group_merge :: "byte list \<Rightarrow> byte list \<Rightarrow> nat \<Rightarrow> udm_urldata list \<Rightarrow> nat \<Rightarrow>
    udm_urldata udm_hash \<Rightarrow> (udm_urldata udm_hash \<times> nat) option" where
  "group_merge rec_id site_id i [] nbad Hash = Some (Hash, nbad)"
| "group_merge rec_id site_id i (it # Item) nbad Hash =
     (if i < length rec_id div 4 then
        (case read_int4 rec_id i of
           None \<Rightarrow> None
         | Some rid \<Rightarrow>
             if rid = ud_url_id it then
               (case read_int4 site_id i of
                  None \<Rightarrow> None
                | Some sid \<Rightarrow>
                    group_merge rec_id site_id (Suc i) Item nbad
                      (UdmHashPut Hash (ud_zero\<lparr>ud_url_id := rid, ud_per_site := 1, ud_site_id := sid,
                         ud_score := ud_score it\<rparr>)))
             else if rid > ud_url_id it then group_merge rec_id site_id i Item (Suc nbad) Hash
             else group_merge rec_id site_id (Suc i) (it # Item) nbad Hash)
      else Some (Hash, nbad + length (it # Item)))"
  by pat_completeness auto
termination
  by (relation "measures [\<lambda>(r, s, i, Item, n, h). length Item, \<lambda>(r, s, i, Item, n, h). length r div 4 - i]") auto

declare group_merge.simps(2) [simp del]

definition UdmURLDataListGroupBySiteUsingHash ::
  "byte list \<Rightarrow> byte list \<Rightarrow> udm_urldata list \<Rightarrow> udm_urldata list option" where
  "UdmURLDataListGroupBySiteUsingHash rec_id_str site_id_str Item =
     (let hcoords = UdmHashSize (length Item);
          Hash = UdmHashInit (replicate hcoords ud_zero) test_key test_join
      in case group_merge rec_id_str site_id_str 0 Item 0 Hash of
           None \<Rightarrow> None
         | Some (Hash, nbad) \<Rightarrow> Some (UdmURLDataCompact (hash_base Hash)))"

subsection \<open>Ranks within a site\<close>

definition rank_score :: "bool \<Rightarrow> nat \<Rightarrow> uint4 \<Rightarrow> uint4" where
  "rank_score is_aggregation_point in_site_rank score =
     (if is_aggregation_point then
        if in_site_rank > 1
        then (score AND 0xFF) + (of_nat (unat score div in_site_rank) AND 0x7FFFFF00)
        else score
      else of_nat (unat score div in_site_rank))"

fun site_rank_loop :: "bool \<Rightarrow> int \<Rightarrow> nat \<Rightarrow> udm_urldata list \<Rightarrow> udm_urldata list" where
  "site_rank_loop ap prev_site_id in_site_rank [] = []"
| "site_rank_loop ap prev_site_id in_site_rank (D # Ds) =
     (let in_site_rank = Suc (if prev_site_id \<noteq> ud_site_id D then 0 else in_site_rank)
      in D\<lparr>ud_score := rank_score ap in_site_rank (ud_score D)\<rparr> #
         site_rank_loop ap (ud_site_id D) in_site_rank Ds)"

definition UdmURLDataApplySiteRank :: "udm_urldata list \<Rightarrow> bool \<Rightarrow> udm_urldata list" where
  "UdmURLDataApplySiteRank DataList is_aggregation_point =
     site_rank_loop is_aggregation_point 1 1 DataList"

subsection \<open>The best document of a group\<close>

definition rank_key :: "udm_urldata \<Rightarrow> uint4 \<times> real \<times> int" where
  "rank_key D = (ud_score D, ud_pop_rank D, - ud_url_id D)"

lemma keeps_rank: "keeps dst src \<longleftrightarrow> rank_key dst > rank_key src"
  by (auto simp: keeps_def rank_key_def less_prod_def' )

lemma test_join_keeps:
  "test_join dst src =
     (if keeps dst src then dst else copy_doc dst src)\<lparr>ud_per_site := ud_per_site dst + ud_per_site src\<rparr>"
  by (auto simp: test_join_def keeps_def copy_doc_def Let_def)

lemma test_join_site [simp]: "ud_site_id (test_join dst src) = ud_site_id dst"
  by (simp add: test_join_keeps copy_doc_def)

lemma test_join_same_site:
  assumes "ud_site_id dst = ud_site_id src"
  shows "test_join dst src =
    (if keeps dst src then dst else src)\<lparr>ud_per_site := ud_per_site dst + ud_per_site src\<rparr>"
  using assms by (simp add: test_join_keeps copy_doc_def)

text \<open>\<open>is_group xs r\<close>: \<open>r\<close> is a best document of \<open>xs\<close> with the number of all of them.\<close>

definition is_group :: "udm_urldata list \<Rightarrow> udm_urldata \<Rightarrow> bool" where
  "is_group xs r \<longleftrightarrow>
     (\<exists>b \<in> set xs. r = b\<lparr>ud_per_site := sum_list (map ud_per_site xs)\<rparr> \<and>
        (\<forall>y \<in> set xs. rank_key y \<le> rank_key b))"

lemma rank_key_per_site [simp]: "rank_key (D\<lparr>ud_per_site := n\<rparr>) = rank_key D"
  by (simp add: rank_key_def)

lemma is_group_foldl:
  assumes "\<forall>y \<in> set ys. ud_site_id y = ud_site_id x"
  shows "is_group (x # ys) (foldl test_join x ys)"
  using assms
proof (induction ys arbitrary: x)
  case Nil
  then show ?case by (simp add: is_group_def)
next
  case (Cons y ys)
  define z where "z = test_join x y"
  define w where "w = (if keeps x y then x else y)"
  have z: "z = w\<lparr>ud_per_site := ud_per_site x + ud_per_site y\<rparr>"
    using Cons.prems by (simp add: z_def w_def test_join_same_site)
  have w: "w \<in> {x, y}" "rank_key x \<le> rank_key w" "rank_key y \<le> rank_key w"
    using keeps_rank [of x y] by (auto simp: w_def not_less intro: less_imp_le)
  have "is_group (z # ys) (foldl test_join z ys)"
    using Cons.prems by (intro Cons.IH) (simp add: z_def)
  then obtain b where b: "b \<in> set (z # ys)" "\<forall>u \<in> set (z # ys). rank_key u \<le> rank_key b"
      "foldl test_join z ys = b\<lparr>ud_per_site := sum_list (map ud_per_site (z # ys))\<rparr>"
    unfolding is_group_def by blast
  define c where "c = (if b = z then w else b)"
  have c: "c \<in> set (x # y # ys)" "rank_key c = rank_key b"
    "foldl test_join z ys = c\<lparr>ud_per_site := sum_list (map ud_per_site (x # y # ys))\<rparr>"
    using b(1,3) w(1) by (auto simp: c_def z algebra_simps)
  have "\<forall>u \<in> set (x # y # ys). rank_key u \<le> rank_key c"
    using b(2) w(2,3) c(2) by (auto simp: z intro: order_trans)
  with c show ?case unfolding is_group_def z_def by auto
qed

lemma is_group_unique:
  assumes "is_group xs r" "is_group ys s" "mset xs = mset ys" "inj_on ud_url_id (set xs)"
  shows "r = s"
proof -
  from assms(1) obtain b where b: "b \<in> set xs" "r = b\<lparr>ud_per_site := sum_list (map ud_per_site xs)\<rparr>"
      "\<forall>y \<in> set xs. rank_key y \<le> rank_key b" unfolding is_group_def by blast
  from assms(2) obtain c where c: "c \<in> set ys" "s = c\<lparr>ud_per_site := sum_list (map ud_per_site ys)\<rparr>"
      "\<forall>y \<in> set ys. rank_key y \<le> rank_key c" unfolding is_group_def by blast
  have set: "set xs = set ys" by (rule mset_eq_setD [OF assms(3)])
  then have "rank_key b = rank_key c" using b c by (intro antisym) auto
  then have "b = c" using assms(4) b(1) c(1) set by (auto simp: rank_key_def dest: inj_onD)
  moreover have "sum_list (map ud_per_site xs) = sum_list (map ud_per_site ys)"
    using assms(3) by (metis mset_map sum_mset_sum_list)
  ultimately show ?thesis using b c by simp
qed

text \<open>The documents of a site, and the group they make: the fold the two algorithms share.\<close>

definition site_docs :: "int \<Rightarrow> udm_urldata list \<Rightarrow> udm_urldata list" where
  "site_docs k xs = filter (\<lambda>D. ud_site_id D = k) xs"

definition site_group :: "int \<Rightarrow> udm_urldata list \<Rightarrow> udm_urldata option" where
  "site_group k xs = foldl (\<lambda>v x. Some (join_opt test_join v x)) None (site_docs k xs)"

lemma foldl_join_Some: "foldl (\<lambda>v x. Some (join_opt test_join v x)) (Some x) ys = Some (foldl test_join x ys)"
  by (induction ys arbitrary: x) (simp_all add: join_opt_def)

lemma site_group_cases:
  "site_group k xs = (case site_docs k xs of [] \<Rightarrow> None | y # ys \<Rightarrow> Some (foldl test_join y ys))"
proof (cases "site_docs k xs")
  case (Cons y ys)
  have "join_opt test_join None y = y" by (simp add: join_opt_def)
  with Cons show ?thesis by (simp add: site_group_def foldl_join_Some)
qed (simp add: site_group_def)

lemma site_docs_site: "D \<in> set (site_docs k xs) \<longleftrightarrow> D \<in> set xs \<and> ud_site_id D = k"
  by (auto simp: site_docs_def)

lemma site_group_is_group:
  assumes "site_group k xs = Some r"
  shows "is_group (site_docs k xs) r"
proof (cases "site_docs k xs")
  case Nil
  with assms show ?thesis by (simp add: site_group_cases)
next
  case (Cons y ys)
  then have "\<forall>D \<in> set (y # ys). ud_site_id D = k"
    using site_docs_site [of _ k xs] by simp
  then show ?thesis
    using assms is_group_foldl [of ys y] by (simp add: site_group_cases Cons)
qed

lemma site_group_None: "site_group k xs = None \<longleftrightarrow> k \<notin> ud_site_id ` set xs"
proof -
  have "site_group k xs = None \<longleftrightarrow> site_docs k xs = []"
    by (simp add: site_group_cases split: list.split)
  then show ?thesis by (auto simp: site_docs_def filter_empty_conv)
qed

lemma site_group_mset:
  assumes "mset xs = mset ys" "inj_on ud_url_id (set xs)"
  shows "site_group k xs = site_group k ys"
proof (cases "site_group k xs")
  case None
  then show ?thesis using mset_eq_setD [OF assms(1)] by (metis site_group_None)
next
  case (Some r)
  then have "k \<in> ud_site_id ` set ys"
    using mset_eq_setD [OF assms(1)] by (metis option.discI site_group_None)
  then obtain s where s: "site_group k ys = Some s" by (metis not_None_eq site_group_None)
  have "mset (site_docs k xs) = mset (site_docs k ys)" using assms(1) by (simp add: site_docs_def)
  moreover have "inj_on ud_url_id (set (site_docs k xs))"
    using assms(2) by (rule inj_on_subset) (auto simp: site_docs_def)
  ultimately have "r = s"
    using is_group_unique [OF site_group_is_group [OF Some] site_group_is_group [OF s]] by blast
  then show ?thesis using Some s by simp
qed

subsection \<open>Grouping a list that is sorted by site\<close>

fun group_from :: "udm_urldata \<Rightarrow> udm_urldata list \<Rightarrow> udm_urldata list" where
  "group_from cur [] = [cur]"
| "group_from cur (s # src) =
     (if ud_site_id cur = ud_site_id s then group_from (test_join cur s) src
      else cur # group_from s src)"

lemma group_loop_from: "group_loop dst cnt src = group_from (dst\<lparr>ud_per_site := cnt\<rparr>) src"
proof (induction dst cnt src rule: group_loop.induct)
  case (2 dst cnt s src)
  have "keeps (dst\<lparr>ud_per_site := cnt\<rparr>) s = keeps dst s" by (simp add: keeps_def)
  moreover have "(copy_doc dst s)\<lparr>ud_per_site := n\<rparr> = (copy_doc (dst\<lparr>ud_per_site := cnt\<rparr>) s)\<lparr>ud_per_site := n\<rparr>"
    for n by (simp add: copy_doc_def)
  ultimately show ?case using 2 by (simp add: test_join_keeps Let_def)
qed simp

abbreviation site_desc :: "udm_urldata list \<Rightarrow> bool" where
  "site_desc \<equiv> sorted_wrt (\<lambda>x y. ud_site_id x \<ge> ud_site_id y)"

lemma site_docs_Cons: "site_docs k (x # xs) = (if ud_site_id x = k then x # site_docs k xs else site_docs k xs)"
  by (simp add: site_docs_def)

lemma group_from_groups:
  "site_desc (cur # src) \<Longrightarrow>
   sorted_wrt (\<lambda>x y. ud_site_id x > ud_site_id y) (group_from cur src) \<and>
   ud_site_id ` set (group_from cur src) = ud_site_id ` set (cur # src) \<and>
   find (\<lambda>D. ud_site_id D = k) (group_from cur src) = site_group k (cur # src)"
proof (induction cur src rule: group_from.induct)
  case (1 cur)
  then show ?case by (simp add: site_group_cases site_docs_def)
next
  case (2 cur s src)
  show ?case
  proof (cases "ud_site_id cur = ud_site_id s")
    case True
    with 2 have IH: "sorted_wrt (\<lambda>x y. ud_site_id x > ud_site_id y) (group_from (test_join cur s) src)"
      "ud_site_id ` set (group_from (test_join cur s) src) = ud_site_id ` set (test_join cur s # src)"
      "find (\<lambda>D. ud_site_id D = k) (group_from (test_join cur s) src) = site_group k (test_join cur s # src)"
      by auto
    have "site_group k (test_join cur s # src) = site_group k (cur # s # src)"
      using True by (simp add: site_group_cases site_docs_Cons)
    with IH True show ?thesis by simp
  next
    case False
    with 2 have IH: "sorted_wrt (\<lambda>x y. ud_site_id x > ud_site_id y) (group_from s src)"
      "ud_site_id ` set (group_from s src) = ud_site_id ` set (s # src)"
      "find (\<lambda>D. ud_site_id D = k) (group_from s src) = site_group k (s # src)"
      by auto
    have lt: "\<forall>x \<in> set (s # src). ud_site_id x < ud_site_id cur"
      using 2(3) False by auto
    then have "\<forall>x \<in> set (group_from s src). ud_site_id x < ud_site_id cur"
      using IH(2) by (metis (mono_tags, lifting) imageE imageI)
    moreover have "site_docs (ud_site_id cur) (s # src) = []"
      using lt by (auto simp: site_docs_def filter_empty_conv)
    ultimately show ?thesis
      using IH False by (auto simp: site_group_cases [of k "cur # s # src"] site_docs_Cons [of k cur] site_group_cases)
  qed
qed

text \<open>The laws of a grouping: one entry for each site, and that entry is its group.\<close>

definition groups_of :: "udm_urldata list \<Rightarrow> udm_urldata list \<Rightarrow> bool" where
  "groups_of xs R \<longleftrightarrow> distinct (map ud_site_id R) \<and>
     (\<forall>k. find (\<lambda>D. ud_site_id D = k) R = site_group k xs)"

lemma sorted_desc_distinct: "sorted_wrt (\<lambda>x y. f x > (f y :: int)) R \<Longrightarrow> distinct (map f R)"
  by (induction R) auto

lemma find_distinct_key:
  assumes "distinct (map f R)" "D \<in> set R"
  shows "find (\<lambda>x. f x = f D) R = Some D"
  using assms by (induction R) (auto simp: image_iff)

lemma groups_of_mem:
  assumes "groups_of xs R"
  shows "D \<in> set R \<longleftrightarrow> site_group (ud_site_id D) xs = Some D"
proof -
  have f: "find (\<lambda>x. ud_site_id x = ud_site_id D) R = site_group (ud_site_id D) xs"
    using assms unfolding groups_of_def by blast
  have d: "distinct (map ud_site_id R)" using assms by (simp add: groups_of_def)
  show ?thesis
  proof
    assume "D \<in> set R"
    with f find_distinct_key [OF d] show "site_group (ud_site_id D) xs = Some D" by simp
  next
    assume "site_group (ud_site_id D) xs = Some D"
    with f have "find (\<lambda>x. ud_site_id x = ud_site_id D) R = Some D" by simp
    then show "D \<in> set R" by (auto simp: find_Some_iff)
  qed
qed

lemma site_group_site: "site_group k xs = Some r \<Longrightarrow> ud_site_id r = k"
  using site_group_is_group [of k xs r] by (auto simp: is_group_def site_docs_site)

lemma groups_of_unique:
  assumes "groups_of xs R" "groups_of ys S" "mset xs = mset ys" "inj_on ud_url_id (set xs)"
  shows "mset R = mset S"
proof -
  have "set R = set S"
    using groups_of_mem [OF assms(1)] groups_of_mem [OF assms(2)] site_group_mset [OF assms(3,4)] by auto
  moreover have "distinct R" "distinct S"
    using assms(1,2) by (simp_all add: groups_of_def distinct_map)
  ultimately show ?thesis by (simp add: set_eq_iff_mset_eq_distinct)
qed

lemma UdmURLDataGroupBySite_groups:
  assumes "site_desc L"
  shows "groups_of L (UdmURLDataGroupBySite L)"
proof (cases L)
  case Nil
  then show ?thesis by (simp add: groups_of_def UdmURLDataGroupBySite_def site_group_cases site_docs_def)
next
  case (Cons d src)
  then have e: "UdmURLDataGroupBySite L = group_from d src"
    by (simp add: UdmURLDataGroupBySite_def group_loop_from)
  note G = group_from_groups [OF assms [unfolded Cons]]
  have "distinct (map ud_site_id (group_from d src))"
    using conjunct1 [OF G] by (rule sorted_desc_distinct)
  with G e Cons show ?thesis by (simp add: groups_of_def)
qed

subsection \<open>Grouping with the hash table\<close>

abbreviation int4_sites :: "udm_urldata list \<Rightarrow> bool" where
  "int4_sites xs \<equiv> \<forall>D \<in> set xs. is_int4 (ud_site_id D)"

lemma test_key_inj:
  assumes "is_int4 (ud_site_id D)" "is_int4 (ud_site_id E)"
  shows "test_key D = test_key E \<longleftrightarrow> ud_site_id D = ud_site_id E"
proof
  assume "test_key D = test_key E"
  then have "ud_site_id D mod 2 ^ 64 = ud_site_id E mod 2 ^ 64" by (simp add: test_key_def)
  then have "2 ^ 64 dvd (ud_site_id D - ud_site_id E)" by (simp only: mod_eq_dvd_iff)
  moreover have "\<bar>ud_site_id D - ud_site_id E\<bar> < 2 ^ 64" using assms by (simp add: abs_less_iff)
  ultimately have "ud_site_id D - ud_site_id E = 0"
    using dvd_imp_le_int [of "ud_site_id D - ud_site_id E" "2 ^ 64"] by fastforce
  then show "ud_site_id D = ud_site_id E" by simp
qed (simp add: test_key_def)

lemma test_key_zero:
  assumes "is_int4 (ud_site_id D)"
  shows "test_key D = 0 \<longleftrightarrow> ud_site_id D = 0"
  using test_key_inj [OF assms, of ud_zero] by (simp add: ud_zero_def test_key_def)

interpretation sites: hash_callbacks test_key test_join
  by standard (simp add: test_key_def)

lemma distinct_filter_map:
  assumes "\<And>i j. i < length c \<Longrightarrow> j < length c \<Longrightarrow> P (c ! i) \<Longrightarrow> P (c ! j) \<Longrightarrow> f (c ! i) = f (c ! j) \<Longrightarrow> i = j"
  shows "distinct (map f (filter P c))"
  using assms
proof (induction c)
  case (Cons a c)
  have "f a \<notin> f ` {x \<in> set c. P x}" if "P a"
  proof
    assume "f a \<in> f ` {x \<in> set c. P x}"
    then obtain j where "j < length c" "P (c ! j)" "f (c ! j) = f a" by (auto simp: in_set_conv_nth)
    with Cons.prems [of 0 "Suc j"] that show False by simp
  qed
  moreover have "distinct (map f (filter P c))"
  proof (rule Cons.IH)
    fix i j assume "i < length c" "j < length c" "P (c ! i)" "P (c ! j)" "f (c ! i) = f (c ! j)"
    with Cons.prems [of "Suc i" "Suc j"] show "i = j" by simp
  qed
  ultimately show ?case by simp
qed simp

lemma find_filter: "(\<And>x. P x \<Longrightarrow> Q x) \<Longrightarrow> find P (filter Q xs) = find P xs"
  by (induction xs) auto

lemma find_cong_set: "(\<And>x. x \<in> set xs \<Longrightarrow> P x = Q x) \<Longrightarrow> find P xs = find Q xs"
  by (induction xs) auto

lemma hash_groups:
  fixes rows :: "udm_urldata list"
  assumes rows: "int4_sites rows" "\<forall>D \<in> set rows. ud_site_id D \<noteq> 0" "length rows < n"
  defines "h \<equiv> foldl UdmHashPut (UdmHashInit (replicate n ud_zero) test_key test_join) rows"
  shows "groups_of rows (UdmURLDataCompact (hash_base h))"
    and "length (UdmURLDataCompact (hash_base h)) \<le> length rows"
proof -
  let ?h0 = "UdmHashInit (replicate n ud_zero) test_key test_join"
  have z: "\<forall>c \<in> set (replicate n ud_zero). test_key c = 0" "replicate n ud_zero \<noteq> []"
    using rows(3) by (simp_all add: ud_zero_def test_key_def)
  note init = hash_ok_init [OF z(2,1), of test_join]
  have "int4_sites (hash_base (foldl UdmHashPut h rows)) \<and> hash_join (foldl UdmHashPut h rows) = test_join"
    if "int4_sites (hash_base h)" "int4_sites rows" "hash_join h = test_join" for h and rows :: "udm_urldata list"
    using that
  proof (induction rows arbitrary: h)
    case (Cons D rows)
    have "int4_sites (hash_base (UdmHashPut h D))"
      by (rule UdmHashPut_cells [where Q = "\<lambda>D. is_int4 (ud_site_id D)"]) (use Cons.prems in simp_all)
    from Cons.IH [OF this] Cons.prems(2,3) show ?case by simp
  qed simp
  from this [of ?h0 rows] have cells: "int4_sites (hash_base h)"
    using rows(1) by (simp add: h_def UdmHashInit_def ud_zero_def)
  have P: "hash_ok h \<and> hash_key h = test_key \<and> hash_used h \<le> length rows \<and>
    hash_lookup h k = (if k = 0 then None
      else foldl (\<lambda>v x. Some (join_opt test_join v x)) None (filter (\<lambda>x. test_key x = k) rows))" for k
    using sites.table.put_all [of ?h0 rows k] init rows(3)
    by (simp add: h_def UdmHashInit_def)
  have used: "UdmURLDataCompact (hash_base h) = filter (\<lambda>x. hash_key h x \<noteq> 0) (hash_base h)"
    unfolding UdmURLDataCompact_def using P [of 0] cells by (intro filter_cong refl) (simp add: test_key_zero)
  then show "length (UdmURLDataCompact (hash_base h)) \<le> length rows"
    using P [of 0] unfolding hash_used_def by metis
  have "distinct (map ud_site_id (UdmURLDataCompact (hash_base h)))"
    unfolding used
  proof (rule distinct_filter_map)
    fix i j assume ij: "i < hash_nmemb h" "j < hash_nmemb h" "hash_key h (hash_base h ! i) \<noteq> 0"
      "ud_site_id (hash_base h ! i) = ud_site_id (hash_base h ! j)"
    then have "hash_key h (hash_base h ! j) = hash_key h (hash_base h ! i)"
      using P [of 0] by (simp add: test_key_def)
    then show "i = j" using hash_ok_unique [of h i j, OF _ ij(1,2) refl _ ij(3)] P [of 0] by blast
  qed
  moreover have "find (\<lambda>D. ud_site_id D = k) (UdmURLDataCompact (hash_base h)) = site_group k rows" for k
  proof (cases "k \<noteq> 0 \<and> is_int4 k")
    case True
    define kk where "kk = test_key (ud_zero\<lparr>ud_site_id := k\<rparr>)"
    have key: "test_key D = kk \<longleftrightarrow> ud_site_id D = k" if "is_int4 (ud_site_id D)" for D
      using test_key_inj [OF that, of "ud_zero\<lparr>ud_site_id := k\<rparr>"] True by (simp add: kk_def)
    have "kk \<noteq> 0" using test_key_zero [of "ud_zero\<lparr>ud_site_id := k\<rparr>"] True by (simp add: kk_def)
    have "find (\<lambda>D. ud_site_id D = k) (UdmURLDataCompact (hash_base h)) = find (\<lambda>D. ud_site_id D = k) (hash_base h)"
      unfolding UdmURLDataCompact_def using True by (intro find_filter) auto
    also have "\<dots> = find (\<lambda>D. test_key D = kk) (hash_base h)"
      by (rule find_cong_set) (use key cells in blast)
    also have "\<dots> = hash_lookup h kk"
      using \<open>kk \<noteq> 0\<close> P [of 0] by (simp add: hash_lookup_def)
    also have "\<dots> = site_group k rows"
      using P [of kk] \<open>kk \<noteq> 0\<close> rows(1) by (simp add: site_group_def site_docs_def key cong: filter_cong)
    finally show ?thesis .
  next
    case False
    have "find (\<lambda>D. ud_site_id D = k) (UdmURLDataCompact (hash_base h)) = None"
      using False cells by (auto simp: find_None_iff UdmURLDataCompact_def)
    moreover have "site_group k rows = None"
      using False rows by (auto simp: site_group_None)
    ultimately show ?thesis by simp
  qed
  ultimately show "groups_of rows (UdmURLDataCompact (hash_base h))"
    by (simp add: groups_of_def)
qed

text \<open>The documents of the list with the site that the records give them.\<close>

definition doc_of :: "udm_urldata \<Rightarrow> int \<Rightarrow> udm_urldata" where
  "doc_of it sid = ud_zero\<lparr>ud_url_id := ud_url_id it, ud_per_site := 1, ud_site_id := sid, ud_score := ud_score it\<rparr>"

definition site_rows :: "(int \<times> int) list \<Rightarrow> udm_urldata list \<Rightarrow> udm_urldata list" where
  "site_rows recs Item =
     List.map_filter (\<lambda>it. map_option (doc_of it) (map_of recs (ud_url_id it))) Item"

lemma site_rows_simps [simp]:
  "site_rows recs [] = []"
  "site_rows recs (it # Item) =
     (case map_of recs (ud_url_id it) of None \<Rightarrow> site_rows recs Item
      | Some s \<Rightarrow> doc_of it s # site_rows recs Item)"
  by (simp_all add: site_rows_def List.map_filter_def split: option.split)

lemma site_rows_skip:
  assumes "\<forall>it \<in> set Item. r < ud_url_id it"
  shows "site_rows ((r, s) # recs) Item = site_rows recs Item"
  using assms by (induction Item) (auto split: option.split)

lemma map_of_greater: "sorted_wrt (<) (map fst (recs :: (int \<times> int) list)) \<Longrightarrow> recs \<noteq> [] \<Longrightarrow>
    i < fst (hd recs) \<Longrightarrow> map_of recs i = None"
  by (cases recs) (auto simp: map_of_eq_None_iff)

lemma group_merge_rows:
  assumes "\<And>i. i < length recs \<Longrightarrow> read_int4 rec_id i = Some (fst (recs ! i))"
    and "\<And>i. i < length recs \<Longrightarrow> read_int4 site_id i = Some (snd (recs ! i))"
    and "length rec_id div 4 = length recs" "sorted_wrt (<) (map fst recs)"
    and "i \<le> length recs" "sorted_wrt (<) (map ud_url_id Item)"
  shows "\<exists>nbad'. group_merge rec_id site_id i Item nbad Hash =
    Some (foldl UdmHashPut Hash (site_rows (drop i recs) Item), nbad')"
  using assms
proof (induction rec_id site_id i Item nbad Hash rule: group_merge.induct)
  case (1 rec_id site_id i nbad Hash)
  then show ?case by simp
next
  case (2 rec_id site_id i it Item nbad Hash)
  note len = "2.prems"(3) and reads = "2.prems"(1,2)
  note IH = "2.IH" [OF _ _ _ _ reads len "2.prems"(4)]
  show ?case
  proof (cases "i < length recs")
    case False
    with "2.prems"(5) have d: "drop i recs = []" by simp
    have "site_rows [] xs = []" for xs by (induction xs) auto
    with False len d show ?thesis by (subst group_merge.simps) simp
  next
    case True
    obtain r s where rs: "recs ! i = (r, s)" by fastforce
    have d: "drop i recs = (r, s) # drop (Suc i) recs"
      using True rs by (metis Cons_nth_drop_Suc)
    have rd: "read_int4 rec_id i = Some r" "read_int4 site_id i = Some s"
      using reads True rs by simp_all
    have i: "i < length rec_id div 4" using True len by simp
    have srt: "sorted_wrt (<) (map fst (drop i recs))"
      using "2.prems"(4) by (metis drop_map sorted_wrt_drop)
    have later: "\<forall>it' \<in> set Item. ud_url_id it < ud_url_id it'" "sorted_wrt (<) (map ud_url_id Item)"
      using "2.prems"(6) by auto
    consider (eq) "r = ud_url_id it" | (gt) "r > ud_url_id it" | (lt) "r < ud_url_id it" by linarith
    then show ?thesis
    proof cases
      case eq
      have "site_rows (drop i recs) (it # Item) = doc_of it s # site_rows (drop (Suc i) recs) Item"
        unfolding d using eq later(1) site_rows_skip [of Item r s] by simp
      then show ?thesis
        using "2.IH"(1) [OF i rd(1) eq rd(2) reads len "2.prems"(4) _ later(2)] True i eq rd
        by (subst group_merge.simps) (simp add: doc_of_def)
    next
      case gt
      have "map_of (drop i recs) (ud_url_id it) = None"
        using map_of_greater [OF srt] gt d by simp
      then have "site_rows (drop i recs) (it # Item) = site_rows (drop i recs) Item" by simp
      then show ?thesis
        using "2.IH"(2) [OF i rd(1) _ gt reads len "2.prems"(4,5) later(2)] gt i rd
        by (subst group_merge.simps) simp
    next
      case lt
      have "site_rows (drop i recs) (it # Item) = site_rows (drop (Suc i) recs) (it # Item)"
        unfolding d using lt later(1) by (intro site_rows_skip) auto
      then show ?thesis
        using "2.IH"(3) [OF i rd(1) _ _ reads len "2.prems"(4) _ "2.prems"(6)] lt True i rd
        by (subst group_merge.simps) simp
    qed
  qed
qed

text \<open>The two records as the indexer writes them: four bytes for each document.\<close>

lemma read_int4_concat:
  assumes "i < length xs" "is_int4 (xs ! i)"
  shows "read_int4 (concat (map udm_put_int4 xs)) i = Some (xs ! i)"
  using assms
proof (induction xs arbitrary: i)
  case (Cons x xs)
  show ?case
  proof (cases i)
    case 0
    then show ?thesis
      using Cons.prems udm_get_put_int4 [of x] by (simp add: read_int4_def udm_put_int4_def)
  next
    case (Suc j)
    have "(udm_put_int4 x @ ys) ! (4 + k) = ys ! k" for ys k
      by (simp add: udm_put_int4_def)
    moreover have "length (udm_put_int4 x) = 4" by (simp add: udm_put_int4_def)
    ultimately have "read_int4 (udm_put_int4 x @ ys) (Suc j) = read_int4 ys j" for ys
      by (simp add: read_int4_def add.commute add.left_commute udm_put_int4_def)
    then show ?thesis using Cons.IH [of j] Cons.prems Suc by simp
  qed
qed simp

lemma length_int4s: "length (concat (map udm_put_int4 xs)) = 4 * length xs"
  by (induction xs) (simp_all add: udm_put_int4_def)

lemma set_site_rows:
  "D \<in> set (site_rows recs Item) \<Longrightarrow>
   \<exists>it \<in> set Item. \<exists>s. (ud_url_id it, s) \<in> set recs \<and> D = doc_of it s"
  by (induction Item) (auto split: option.splits dest: map_of_SomeD)

lemma length_site_rows: "length (site_rows recs Item) \<le> length Item"
  by (induction Item) (auto split: option.split)

lemma inj_site_rows:
  assumes "sorted_wrt (<) (map ud_url_id Item)"
  shows "inj_on ud_url_id (set (site_rows recs Item))"
proof -
  have "D = E" if "D \<in> set (site_rows recs Item)" "E \<in> set (site_rows recs Item)" "ud_url_id D = ud_url_id E" for D E
    using that assms
  proof (induction Item)
    case (Cons it Item)
    have "ud_url_id it < ud_url_id F" if "F \<in> set (site_rows recs Item)" for F
      using set_site_rows [OF that] Cons.prems(4) by (auto simp: doc_of_def)
    then show ?case
      using Cons by (fastforce simp: doc_of_def split: option.splits)
  qed simp
  then show ?thesis by (auto intro: inj_onI)
qed

lemma site_desc_sort: "site_desc (UdmURLDataSortBySite L)"
proof -
  have "cmpsiteid2 x y \<le> 0 \<longleftrightarrow> - ud_site_id x \<le> - ud_site_id y" for x y
    by (simp add: cmpsiteid2_def)
  then have "cmp_ok cmpsiteid2" by (rule cmp_okI)
  from qs.sorted_srt [OF this, of L] show ?thesis
    unfolding UdmURLDataSortBySite_def by (rule sorted_wrt_mono_rel [rotated]) (auto simp: cmpsiteid2_def split: if_splits)
qed

lemma UsingSort_groups:
  assumes "\<forall>D \<in> set L. ud_per_site D = 1" "inj_on ud_url_id (set L)"
  shows "\<exists>S. UdmURLDataListGroupBySiteUsingSort (\<lambda>R. (UDM_OK, R)) L = (UDM_OK, S) \<and> groups_of L S"
proof -
  have "map (\<lambda>D. D\<lparr>ud_per_site := 1\<rparr>) L = L"
    using assms(1) by (intro map_idI) simp
  moreover have "groups_of L (UdmURLDataGroupBySite (UdmURLDataSortBySite L))"
  proof -
    have m: "mset (UdmURLDataSortBySite L) = mset L" by (simp add: UdmURLDataSortBySite_def qs.mset_srt)
    then have "site_group k (UdmURLDataSortBySite L) = site_group k L" for k
      using mset_eq_setD [OF m] assms(2) by (intro site_group_mset) simp_all
    with UdmURLDataGroupBySite_groups [OF site_desc_sort, of L] show ?thesis by (simp add: groups_of_def)
  qed
  ultimately show ?thesis by (simp add: UdmURLDataListGroupBySiteUsingSort_def Let_def)
qed

subsection \<open>Properties\<close>

text \<open>
  C19. Grouping with the hash table gives the same entries as grouping with the sort.  The
  documents (strictly ascending by \<open>url_id\<close>, as the search delivers them) are merged with the
  \<open>#rec_id\<close> and \<open>#site_id\<close> records (strictly ascending); documents without a record are
  dropped.  The result has, up to the order, the entries that sorting the same documents by
  site and grouping them in place gives, and there are no more of them than documents, so
  that they fit into the list they are copied back to.  Site identifiers are not 0.
\<close>

theorem UsingHash_eq_UsingSort:
  assumes "sorted_wrt (<) (map fst recs)" "sorted_wrt (<) (map ud_url_id Item)"
    and "\<forall>(r, s) \<in> set recs. is_int4 r \<and> is_int4 s \<and> s \<noteq> 0"
  shows "\<exists>R S. UdmURLDataListGroupBySiteUsingHash (concat (map (udm_put_int4 \<circ> fst) recs))
        (concat (map (udm_put_int4 \<circ> snd) recs)) Item = Some R \<and>
      UdmURLDataListGroupBySiteUsingSort (\<lambda>R. (UDM_OK, R)) (site_rows recs Item) = (UDM_OK, S) \<and>
      mset R = mset S \<and> length R \<le> length Item"
proof -
  let ?rows = "site_rows recs Item"
  let ?rec = "concat (map udm_put_int4 (map fst recs))" and ?site = "concat (map udm_put_int4 (map snd recs))"
  have reads: "read_int4 ?rec i = Some (fst (recs ! i))" "read_int4 ?site i = Some (snd (recs ! i))"
    if "i < length recs" for i
    using that read_int4_concat [of i "map fst recs"] read_int4_concat [of i "map snd recs"]
      assms(3) nth_mem [OF that] by (auto simp del: nth_mem)
  have rows: "int4_sites ?rows" "\<forall>D \<in> set ?rows. ud_site_id D \<noteq> 0" "\<forall>D \<in> set ?rows. ud_per_site D = 1"
    using set_site_rows [of _ recs Item] assms(3) by (fastforce simp: doc_of_def)+
  have len: "length ?rows < UdmHashSize (length Item)"
    using length_site_rows [of recs Item] UdmHashSize_room [of "length Item"] by linarith
  have len4: "length ?rec div 4 = length recs" by (simp only: length_int4s length_map)
  obtain nbad where m: "group_merge ?rec ?site 0 Item 0
      (UdmHashInit (replicate (UdmHashSize (length Item)) ud_zero) test_key test_join) =
    Some (foldl UdmHashPut (UdmHashInit (replicate (UdmHashSize (length Item)) ud_zero) test_key test_join) ?rows, nbad)"
    using group_merge_rows [OF reads len4 assms(1) le0 assms(2)] by (metis drop0)
  define R where "R = UdmURLDataCompact (hash_base
    (foldl UdmHashPut (UdmHashInit (replicate (UdmHashSize (length Item)) ud_zero) test_key test_join) ?rows))"
  have R: "UdmURLDataListGroupBySiteUsingHash ?rec ?site Item = Some R"
    by (simp only: UdmURLDataListGroupBySiteUsingHash_def Let_def m R_def option.case prod.case)
  note G = hash_groups [OF rows(1,2) len, folded R_def]
  from UsingSort_groups [OF rows(3) inj_site_rows [OF assms(2)]] obtain S where
    S: "UdmURLDataListGroupBySiteUsingSort (\<lambda>R. (UDM_OK, R)) ?rows = (UDM_OK, S)" "groups_of ?rows S" by blast
  have "mset R = mset S"
    by (rule groups_of_unique [OF G(1) S(2) refl inj_site_rows [OF assms(2)]])
  moreover have "length R \<le> length Item" using G(2) length_site_rows [of recs Item] by linarith
  ultimately show ?thesis using R S(1) by (auto simp: map_map)
qed

definition example_recs :: "(int \<times> int) list" where
  "example_recs = [(3, 7), (5, 7), (9, 2)]"

theorem UsingHash_eq_UsingSort_witness:
  "\<exists>R S. UdmURLDataListGroupBySiteUsingHash (concat (map (udm_put_int4 \<circ> fst) example_recs))
        (concat (map (udm_put_int4 \<circ> snd) example_recs)) [ud_example 3 50, ud_example 9 20] = Some R \<and>
      UdmURLDataListGroupBySiteUsingSort (\<lambda>R. (UDM_OK, R))
        (site_rows example_recs [ud_example 3 50, ud_example 9 20]) = (UDM_OK, S) \<and>
      mset R = mset S \<and> length R \<le> length [ud_example 3 50, ud_example 9 20]"
  by (rule UsingHash_eq_UsingSort) (simp_all add: ud_example_def example_recs_def)

lemma filter_distinct_key:
  "distinct (map f R) \<Longrightarrow> r \<in> set R \<Longrightarrow> filter (\<lambda>x. f x = f r) R = [r]"
  by (induction R) (auto simp: filter_empty_conv image_iff)

text \<open>
  C20. Grouping in place, on a list sorted by site: for every site of the list there is exactly
  one entry; it is the document with the best score, popularity and (smallest) identifier of
  that site, and its \<open>per_site\<close> is the sum over all documents of the site.
\<close>

theorem GroupBySite_best:
  assumes "sorted_wrt (\<lambda>x y. ud_site_id x \<ge> ud_site_id y) L" "k \<in> ud_site_id ` set L"
  shows "\<exists>r. filter (\<lambda>D. ud_site_id D = k) (UdmURLDataGroupBySite L) = [r] \<and>
    is_group (filter (\<lambda>D. ud_site_id D = k) L) r"
proof -
  let ?R = "UdmURLDataGroupBySite L"
  have G: "groups_of L ?R" by (rule UdmURLDataGroupBySite_groups [OF assms(1)])
  from assms(2) obtain r where r: "site_group k L = Some r" by (metis not_None_eq site_group_None)
  have site: "ud_site_id r = k" by (rule site_group_site [OF r])
  have "r \<in> set ?R" using groups_of_mem [OF G] r site by simp
  moreover have "distinct (map ud_site_id ?R)" using G by (simp add: groups_of_def)
  ultimately have "filter (\<lambda>D. ud_site_id D = k) ?R = [r]"
    using filter_distinct_key [of ud_site_id ?R r] site by simp
  with site_group_is_group [OF r] show ?thesis by (simp add: site_docs_def)
qed

theorem GroupBySite_best_witness:
  "\<exists>r. filter (\<lambda>D. ud_site_id D = 1) (UdmURLDataGroupBySite [ud_example 3 50, ud_example 9 20]) = [r] \<and>
    is_group (filter (\<lambda>D. ud_site_id D = 1) [ud_example 3 50, ud_example 9 20]) r"
  by (rule GroupBySite_best) (simp_all add: ud_example_def)

definition rank_in_site :: "udm_urldata list \<Rightarrow> nat \<Rightarrow> nat" where
  "rank_in_site L i = length (filter (\<lambda>D. ud_site_id D = ud_site_id (L ! i)) (take (Suc i) L))"

lemma site_rank_loop_nth:
  "site_desc L \<Longrightarrow> \<forall>D \<in> set L. ud_site_id D \<le> p \<Longrightarrow> i < length L \<Longrightarrow>
   site_rank_loop ap p r L ! i =
     (L ! i)\<lparr>ud_score := rank_score ap ((if ud_site_id (L ! i) = p then r else 0) + rank_in_site L i) (ud_score (L ! i))\<rparr>"
proof (induction ap p r L arbitrary: i rule: site_rank_loop.induct)
  case (2 ap p r D Ds)
  show ?case
  proof (cases i)
    case 0
    then show ?thesis by (simp add: Let_def rank_in_site_def)
  next
    case (Suc j)
    let ?E = "Ds ! j"
    have j: "j < length Ds" using "2.prems"(3) Suc by simp
    then have E: "?E \<in> set Ds" by simp
    have le: "ud_site_id ?E \<le> ud_site_id D" "ud_site_id D \<le> p" using "2.prems" E by auto
    have rank: "rank_in_site (D # Ds) i = (if ud_site_id ?E = ud_site_id D then 1 else 0) + rank_in_site Ds j"
      by (auto simp: rank_in_site_def Suc)
    let ?r = "Suc (if p \<noteq> ud_site_id D then 0 else r)"
    have "site_rank_loop ap (ud_site_id D) ?r Ds ! j =
      ?E\<lparr>ud_score := rank_score ap ((if ud_site_id ?E = ud_site_id D then ?r else 0) + rank_in_site Ds j) (ud_score ?E)\<rparr>"
      using "2.prems" j by (intro "2.IH" [OF refl]) auto
    moreover have "(if ud_site_id ?E = ud_site_id D then ?r else 0) + rank_in_site Ds j =
        (if ud_site_id ?E = p then r else 0) + rank_in_site (D # Ds) i"
      using le unfolding rank by auto
    ultimately show ?thesis by (simp add: Suc Let_def)
  qed
qed simp

text \<open>
  Ranking within a site (list sorted by site): the score of the n-th document of a site is
  divided by n; at an aggregation point from the second document on, and there the low byte
  (the number of the machine) is kept.  The exception is a list that starts with the site
  number 1: the initial values of the loop count one document of that site before the first.
\<close>

theorem ApplySiteRank_ranks:
  assumes "sorted_wrt (\<lambda>x y. ud_site_id x \<ge> ud_site_id y) L" "i < length L"
  shows "UdmURLDataApplySiteRank L ap ! i =
    (L ! i)\<lparr>ud_score := rank_score ap
       (rank_in_site L i + (if ud_site_id (hd L) = 1 \<and> ud_site_id (L ! i) = 1 then 1 else 0)) (ud_score (L ! i))\<rparr>"
proof (cases L)
  case (Cons D Ds)
  show ?thesis
  proof (cases i)
    case 0
    then show ?thesis by (simp add: UdmURLDataApplySiteRank_def Cons rank_in_site_def Let_def)
  next
    case (Suc j)
    have "site_desc Ds" "\<forall>E \<in> set Ds. ud_site_id E \<le> ud_site_id D" "j < length Ds"
      using assms Cons Suc by auto
    from site_rank_loop_nth [OF this, of ap]
    show ?thesis
      by (auto simp: UdmURLDataApplySiteRank_def Cons Suc rank_in_site_def Let_def)
  qed
qed (use assms in simp)

theorem ApplySiteRank_ranks_witness:
  "UdmURLDataApplySiteRank [ud_example 3 50, ud_example 9 20] False ! 1 =
    ([ud_example 3 50, ud_example 9 20] ! 1)\<lparr>ud_score := rank_score False
       (rank_in_site [ud_example 3 50, ud_example 9 20] 1 +
        (if ud_site_id (hd [ud_example 3 50, ud_example 9 20]) = 1 \<and>
            ud_site_id ([ud_example 3 50, ud_example 9 20] ! 1) = 1 then 1 else 0))
       (ud_score ([ud_example 3 50, ud_example 9 20] ! 1))\<rparr>"
  by (rule ApplySiteRank_ranks) (simp_all add: ud_example_def)

end
