(* ===== verification/Zint4.thy ===== *)
theory Zint4
  imports Prelude
begin

text \<open>
  The bit codec for arrays of integers (\<open>zint4\<close>, \<^verbatim>\<open>src/utils.c\<close>): the differences of the
  numbers are written with 5 to 40 bits, the number of 4-bit blocks in unary first.

  The writer's state has the finished bytes, the byte being filled (\<open>*state->end\<close>) and the
  number of its free bits.  The reader's state is the current byte, the bytes behind it and
  the number of bits of the current byte that are left; a step behind the end of the buffer
  is \<open>None\<close>.  Numbers are 32-bit words: \<open>int\<close>, \<open>int4\<close> and \<open>uint4\<close> are converted into
  each other without a change of the bits.
\<close>

subsection \<open>Writing\<close>

record zint4_state =
  zs_prev :: uint4
  zs_buf :: "byte list"
  zs_cur :: byte
  zs_bits_left :: nat

definition udm_zint4_init :: "zint4_state \<Rightarrow> zint4_state" where
  "udm_zint4_init state = state\<lparr>zs_bits_left := 8, zs_prev := 0, zs_buf := []\<rparr>"

definition udm_zint4_write_bits :: "zint4_state \<Rightarrow> byte \<Rightarrow> nat \<Rightarrow> zint4_state" where
  "udm_zint4_write_bits state b nbits =
     (let state = (if zs_bits_left state = 8 then state\<lparr>zs_cur := 0\<rparr> else state) in
      if zs_bits_left state \<ge> nbits then
        let state = state\<lparr>zs_cur := zs_cur state + push_bit (zs_bits_left state - nbits) b\<rparr> in
        if nbits = zs_bits_left state
        then state\<lparr>zs_buf := zs_buf state @ [zs_cur state], zs_bits_left := 8\<rparr>
        else state\<lparr>zs_bits_left := zs_bits_left state - nbits\<rparr>
      else
        let state = state\<lparr>zs_cur := zs_cur state + drop_bit (nbits - zs_bits_left state) b\<rparr>;
            state = state\<lparr>zs_buf := zs_buf state @ [zs_cur state]\<rparr>;
            state = state\<lparr>zs_bits_left := zs_bits_left state + (8 - nbits)\<rparr>
        in state\<lparr>zs_cur := push_bit (zs_bits_left state) b\<rparr>)"

abbreviation byte_of :: "uint4 \<Rightarrow> byte" where
  "byte_of n \<equiv> ucast n"

definition udm_zint4 :: "zint4_state \<Rightarrow> uint4 \<Rightarrow> zint4_state" where
  "udm_zint4 state next =
     (let n = next - zs_prev state;
          state = state\<lparr>zs_prev := next\<rparr>;
          w = udm_zint4_write_bits
      in
      if n < 0x10 then w state (byte_of n) 5
      else if n < 0x110 then
        let n = n - 0x10 in w (w state 2 2) (byte_of n) 8
      else if n < 0x1110 then
        let n = n - 0x110 in
        w (w (w state 6 3) (byte_of (drop_bit 8 n)) 4) (byte_of (n AND 0xff)) 8
      else if n < 0x11110 then
        let n = n - 0x1110 in
        w (w (w state 0xe 4) (byte_of (drop_bit 8 n)) 8) (byte_of (n AND 0xff)) 8
      else if n < 0x111110 then
        let n = n - 0x11110 in
        w (w (w (w state 0x1e 5) (byte_of (drop_bit 16 n)) 4) (byte_of (drop_bit 8 n AND 0xff)) 8)
          (byte_of (n AND 0xff)) 8
      else if n < 0x1111110 then
        let n = n - 0x111110 in
        w (w (w (w state 0x3e 6) (byte_of (drop_bit 16 n)) 8) (byte_of (drop_bit 8 n AND 0xff)) 8)
          (byte_of (n AND 0xff)) 8
      else if n < 0x11111110 then
        let n = n - 0x1111110 in
        w (w (w (w (w state 0x7e 7) (byte_of (drop_bit 24 n)) 4) (byte_of (drop_bit 16 n AND 0xff)) 8)
          (byte_of (drop_bit 8 n AND 0xff)) 8) (byte_of (n AND 0xff)) 8
      else
        let n = n - 0x11111110 in
        w (w (w (w (w state 0xfe 8) (byte_of (drop_bit 24 n)) 8) (byte_of (drop_bit 16 n AND 0xff)) 8)
          (byte_of (drop_bit 8 n AND 0xff)) 8) (byte_of (n AND 0xff)) 8)"

definition udm_zint4_finalize :: "zint4_state \<Rightarrow> zint4_state" where
  "udm_zint4_finalize state =
     (let state = (if zs_bits_left state < 8 then udm_zint4_write_bits state 0xff 8 else state)
      in state\<lparr>zs_buf := zs_buf state @ [0xff, 0xff, 0xff, 0xff, 0xff]\<rparr>)"

text \<open>The use of the three routines for an array of numbers (\<open>UdmBlobWriteURL\<close>).\<close>

definition zint4_array :: "zint4_state \<Rightarrow> uint4 list \<Rightarrow> byte list" where
  "zint4_array state xs = zs_buf (udm_zint4_finalize (foldl udm_zint4 (udm_zint4_init state) xs))"

subsection \<open>Reading\<close>

type_synonym zint4_reader = "byte \<times> byte list \<times> nat"

datatype zint4_prefix = Terminator | Blocks zint4_reader nat

fun zint4_load :: "byte list \<Rightarrow> zint4_reader option" where
  "zint4_load [] = None"
| "zint4_load (b # buf) = Some (b, buf, 8)"

text \<open>The loop that counts the one bits.  The number of bits left is never 0 at its start.\<close>

function dezint4_prefix :: "zint4_reader \<Rightarrow> nat \<Rightarrow> zint4_prefix option" where
  "dezint4_prefix (next_byte, buf, 0) nblocks = None"
| "dezint4_prefix (next_byte, buf, Suc bit_idx) nblocks =
     (if bit next_byte bit_idx then
        let nblocks = Suc nblocks in
        if nblocks = 9 then Some Terminator
        else if bit_idx = 0 then
          (case buf of [] \<Rightarrow> None | b # buf \<Rightarrow> dezint4_prefix (b, buf, 8) nblocks)
        else dezint4_prefix (next_byte, buf, bit_idx) nblocks
      else if bit_idx = 0 then
        (case zint4_load buf of None \<Rightarrow> None | Some st \<Rightarrow> Some (Blocks st nblocks))
      else Some (Blocks (next_byte, buf, bit_idx) nblocks))"
  by pat_completeness auto
termination
  by (relation "measure (\<lambda>((b, buf, i), n). 8 * length buf + i)") auto

declare dezint4_prefix.simps(2) [simp del]

abbreviation up :: "byte \<Rightarrow> uint4" where
  "up b \<equiv> ucast b"

definition dezint4_nibble :: "zint4_reader \<Rightarrow> (uint4 \<times> zint4_reader) option" where
  "dezint4_nibble = (\<lambda>(next_byte, buf, bit_idx).
     (if bit_idx = 1 then
        case buf of [] \<Rightarrow> None | b # buf \<Rightarrow>
          Some (push_bit 3 (up next_byte AND 1) + (drop_bit 5 (up b) AND 0xf), (b, buf, 5))
      else if bit_idx = 2 then
        case buf of [] \<Rightarrow> None | b # buf \<Rightarrow>
          Some (push_bit 2 (up next_byte AND 3) + (drop_bit 6 (up b) AND 7), (b, buf, 6))
      else if bit_idx = 3 then
        case buf of [] \<Rightarrow> None | b # buf \<Rightarrow>
          Some (push_bit 1 (up next_byte AND 7) + (drop_bit 7 (up b) AND 3), (b, buf, 7))
      else if bit_idx = 4 then
        case buf of [] \<Rightarrow> None | b # buf \<Rightarrow> Some (up next_byte AND 0xf, (b, buf, 8))
      else if bit_idx = 5 then Some (drop_bit 1 (up next_byte) AND 0xf, (next_byte, buf, 1))
      else if bit_idx = 6 then Some (drop_bit 2 (up next_byte) AND 0xf, (next_byte, buf, 2))
      else if bit_idx = 7 then Some (drop_bit 3 (up next_byte) AND 0xf, (next_byte, buf, 3))
      else if bit_idx = 8 then Some (drop_bit 4 (up next_byte) AND 0xf, (next_byte, buf, 4))
      else Some (0, (next_byte, buf, bit_idx))))"

fun dezint4_payload :: "uint4 \<Rightarrow> zint4_reader \<Rightarrow> nat \<Rightarrow> (uint4 \<times> zint4_reader) option" where
  "dezint4_payload next st nblocks =
     (case dezint4_nibble st of
        None \<Rightarrow> None
      | Some (v, st) \<Rightarrow>
          let next = next + v in
          if nblocks > 1 then dezint4_payload (push_bit 4 (next + 1)) st (nblocks - 1)
          else Some (next, st))"

declare dezint4_payload.simps [simp del]

text \<open>The bits that are left, which bounds the loop over the numbers.\<close>

fun bits_left :: "zint4_reader \<Rightarrow> nat" where
  "bits_left (b, buf, i) = 8 * length buf + i"

lemma dezint4_prefix_less:
  "dezint4_prefix st n = Some (Blocks st' n') \<Longrightarrow> bits_left st' < bits_left st"
proof (induction st n rule: dezint4_prefix.induct)
  case (2 b buf i n)
  note P = "2.prems" [unfolded dezint4_prefix.simps(2) Let_def]
  show ?case
  proof (cases "bit b i")
    case True
    show ?thesis
    proof (cases "i = 0")
      case True
      with P \<open>bit b i\<close> "2.IH"(1) [OF _ refl] show ?thesis
        by (auto split: if_splits list.splits)
    next
      case False
      with P \<open>bit b i\<close> "2.IH"(2) [OF _ refl] show ?thesis by (auto split: if_splits)
    qed
  next
    case False
    with P show ?thesis by (cases buf) (auto split: if_splits)
  qed
qed simp

lemma dezint4_nibble_le: "dezint4_nibble st = Some (v, st') \<Longrightarrow> bits_left st' \<le> bits_left st"
  by (cases st) (auto simp: dezint4_nibble_def split: if_splits list.splits)

lemma dezint4_payload_le: "dezint4_payload next st n = Some (v, st') \<Longrightarrow> bits_left st' \<le> bits_left st"
proof (induction "next" st n arbitrary: v rule: dezint4_payload.induct)
  case (1 "next" st n)
  note P = "1.prems" [unfolded dezint4_payload.simps [of "next" st n]]
  then obtain w st1 where st1: "dezint4_nibble st = Some (w, st1)"
    by (auto split: option.splits)
  note le = dezint4_nibble_le [OF st1]
  show ?case
  proof (cases "n > 1")
    case True
    with P st1 have "dezint4_payload (push_bit 4 (next + w + 1)) st1 (n - 1) = Some (v, st')"
      by (simp add: Let_def)
    from "1.IH" [OF st1 refl refl True this] le show ?thesis by simp
  qed (use P st1 le in \<open>simp add: Let_def\<close>)
qed

function dezint4_loop :: "uint4 \<Rightarrow> zint4_reader \<Rightarrow> uint4 list option" where
  "dezint4_loop prev st =
     (case dezint4_prefix st 1 of
        None \<Rightarrow> None
      | Some Terminator \<Rightarrow> Some []
      | Some (Blocks st nblocks) \<Rightarrow>
          (case dezint4_payload 0 st nblocks of
             None \<Rightarrow> None
           | Some (next, st) \<Rightarrow>
               let prev = prev + next in
               (case dezint4_loop prev st of None \<Rightarrow> None | Some xs \<Rightarrow> Some (prev # xs))))"
  by pat_completeness auto
termination
  by (relation "measure (\<lambda>(prev, st). bits_left st)")
    (auto dest!: dezint4_prefix_less dezint4_payload_le)

declare dezint4_loop.simps [simp del]

definition udm_dezint4 :: "byte list \<Rightarrow> uint4 list option" where
  "udm_dezint4 buf =
     (if length buf < 5 then None
      else if drop (length buf - 5) buf \<noteq> replicate 5 0xff then Some []
      else case zint4_load buf of None \<Rightarrow> None | Some st \<Rightarrow> dezint4_loop 0 st)"

subsection \<open>Numbers and bytes as lists of bits\<close>

primrec nbits :: "nat \<Rightarrow> nat \<Rightarrow> bool list" where
  "nbits 0 x = []"
| "nbits (Suc w) x = bit x w # nbits w x"

lemma length_nbits [simp]: "length (nbits w x) = w"
  by (induction w) auto

lemma nbits_append: "nbits (a + b) x = nbits a (x div 2 ^ b) @ nbits b x"
  by (induction a) (simp_all add: drop_bit_eq_div [symmetric] bit_drop_bit_eq add.commute)

lemma nbits_mod: "nbits w (x mod 2 ^ w) = nbits w x"
proof -
  have "nbits w (x mod 2 ^ v) = nbits w x" if "w \<le> v" for v
    using that by (induction w) (simp_all add: take_bit_eq_mod [symmetric] bit_take_bit_iff)
  then show ?thesis by simp
qed

lemma nbits_join: "y < 2 ^ b \<Longrightarrow> nbits (a + b) (x * 2 ^ b + y) = nbits a x @ nbits b y"
  using nbits_append [of a b "x * 2 ^ b + y"] nbits_mod [of b "x * 2 ^ b + y"] by simp

lemma nbits_split: "nbits (a + b) x = nbits a (x div 2 ^ b) @ nbits b (x mod 2 ^ b)"
  by (simp add: nbits_append nbits_mod)

lemma nbits_inj: "nbits w x = nbits w y \<Longrightarrow> x < 2 ^ w \<Longrightarrow> y < 2 ^ w \<Longrightarrow> x = y"
proof (induction w arbitrary: x y)
  case (Suc w)
  have split: "z = (if bit z w then 2 ^ w else 0) + z mod 2 ^ w" if "z < 2 ^ Suc w" for z :: nat
  proof -
    have "z div 2 ^ w < 2" using that by (simp add: less_mult_imp_div_less mult.commute)
    then have "z div 2 ^ w = (if bit z w then 1 else 0)"
      using odd_pos by (fastforce simp: bit_iff_odd less_2_cases_iff)
    then show ?thesis using div_mult_mod_eq [of z "2 ^ w"] by (auto split: if_splits)
  qed
  have "x mod 2 ^ w = y mod 2 ^ w"
    using Suc.prems(1) by (intro Suc.IH) (simp_all add: nbits_mod)
  with split [OF Suc.prems(2)] split [OF Suc.prems(3)] Suc.prems(1) show ?case by simp
qed simp

lemma nbits_exists: "\<exists>x < 2 ^ length bs. bs = nbits (length bs) x"
proof (induction bs)
  case (Cons b bs)
  then obtain x where x: "x < 2 ^ length bs" "bs = nbits (length bs) x" by blast
  have "nbits (1 + length bs) (of_bool b * 2 ^ length bs + x) = nbits 1 (of_bool b) @ nbits (length bs) x"
    by (rule nbits_join [OF x(1)])
  moreover have "nbits 1 (of_bool b) = [b]" by (cases b) (simp_all add: bit_0)
  ultimately have "b # bs = nbits (length (b # bs)) (of_bool b * 2 ^ length bs + x)"
    using x(2) by simp
  moreover have "of_bool b * 2 ^ length bs + x < 2 ^ length (b # bs)" using x(1) by (cases b) simp_all
  ultimately show ?case by blast
qed simp

lemma nbits_ones: "nbits w (2 ^ w - 1) = replicate w True"
proof -
  have "nbits w (2 ^ v - 1) = replicate w True" if "w \<le> v" for v
    using that by (induction w) (simp_all only: nbits.simps mask_eq_exp_minus_1 [symmetric] bit_mask_iff replicate_Suc replicate_0, auto)
  then show ?thesis by simp
qed

definition bytes_bits :: "byte list \<Rightarrow> bool list" where
  "bytes_bits bs = concat (map (\<lambda>b. nbits 8 (unat b)) bs)"

lemma bytes_bits_simps [simp]:
  "bytes_bits [] = []" "bytes_bits (b # bs) = nbits 8 (unat b) @ bytes_bits bs"
  "bytes_bits (as @ bs) = bytes_bits as @ bytes_bits bs" "length (bytes_bits bs) = 8 * length bs"
  by (simp_all add: bytes_bits_def) (induction bs, simp_all)

subsection \<open>What the writer has written\<close>

definition written :: "zint4_state \<Rightarrow> bool list" where
  "written s = bytes_bits (zs_buf s) @ nbits (8 - zs_bits_left s) (unat (zs_cur s) div 2 ^ zs_bits_left s)"

definition writer_ok :: "zint4_state \<Rightarrow> bool" where
  "writer_ok s \<longleftrightarrow> 1 \<le> zs_bits_left s \<and> zs_bits_left s \<le> 8 \<and>
     (zs_bits_left s < 8 \<longrightarrow> unat (zs_cur s) mod 2 ^ zs_bits_left s = 0)"

lemma unat_shifts:
  "unat (push_bit k b) = unat b * 2 ^ k mod 256" "unat (drop_bit k b) = unat b div 2 ^ k" for b :: byte
proof -
  have "unat (push_bit k b) = take_bit 8 (push_bit k (unat b))" by (simp only: unsigned_push_bit_eq) simp
  then show "unat (push_bit k b) = unat b * 2 ^ k mod 256" by (simp add: take_bit_eq_mod push_bit_eq_mult)
  have "unat (drop_bit k b) = drop_bit k (take_bit 8 (unat b))" by (simp only: unsigned_drop_bit_eq) simp
  then show "unat (drop_bit k b) = unat b div 2 ^ k" by (simp add: drop_bit_eq_div take_bit_eq_mod)
qed

lemma write_bits_fit:
  assumes "c < 256" "c mod 2 ^ l = 0" "n \<le> l" "l \<le> 8" "x < 2 ^ n"
  shows "c + x * 2 ^ (l - n) < 256 \<and> (c + x * 2 ^ (l - n)) mod 2 ^ (l - n) = 0 \<and>
    nbits (8 - (l - n)) ((c + x * 2 ^ (l - n)) div 2 ^ (l - n)) = nbits (8 - l) (c div 2 ^ l) @ nbits n x"
proof -
  define q where "q = c div 2 ^ l"
  have c: "c = q * 2 ^ l" using assms(2) div_mult_mod_eq [of c "2 ^ l"] by (simp add: q_def)
  have p: "(2 :: nat) ^ l = 2 ^ n * 2 ^ (l - n)" using assms(3) by (simp add: power_add [symmetric])
  have e: "c + x * 2 ^ (l - n) = (q * 2 ^ n + x) * 2 ^ (l - n)"
    unfolding c p by (simp add: algebra_simps)
  have "(256 :: nat) = 2 ^ (8 - l) * 2 ^ l" using assms(4) by (simp add: power_add [symmetric])
  then have "q * 2 ^ l < 2 ^ (8 - l) * 2 ^ l" using assms(1) unfolding c by (simp only:)
  then have q: "q < 2 ^ (8 - l)" by simp
  have "q * 2 ^ n + x < 2 ^ (8 - l) * 2 ^ n"
  proof -
    have "Suc q * 2 ^ n \<le> 2 ^ (8 - l) * 2 ^ n" using q by (intro mult_le_mono1) simp
    then show ?thesis using assms(5) by simp
  qed
  then have "(q * 2 ^ n + x) * 2 ^ (l - n) < 2 ^ (8 - l) * 2 ^ n * 2 ^ (l - n)" by simp
  also have "\<dots> = (256 :: nat)" using assms(3,4) by (simp add: power_add [symmetric])
  finally have lt: "c + x * 2 ^ (l - n) < 256" unfolding e .
  have "8 - (l - n) = (8 - l) + n" using assms(3,4) by simp
  with nbits_join [OF assms(5), of "8 - l" q] lt show ?thesis
    unfolding e q_def [symmetric] by simp
qed

lemma write_bits_over:
  assumes "c < 256" "c mod 2 ^ l = 0" "l < n" "1 \<le> l" "n \<le> 8" "x < 2 ^ n"
  shows "c + x div 2 ^ (n - l) < 256 \<and> x * 2 ^ (8 - (n - l)) mod 256 mod 2 ^ (8 - (n - l)) = 0 \<and>
    nbits 8 (c + x div 2 ^ (n - l)) @ nbits (n - l) (x * 2 ^ (8 - (n - l)) mod 256 div 2 ^ (8 - (n - l))) =
      nbits (8 - l) (c div 2 ^ l) @ nbits n x"
proof -
  define h r where "h = x div 2 ^ (n - l)" and "r = x mod 2 ^ (n - l)"
  have "x < 2 ^ l * 2 ^ (n - l)" using assms(3,6) by (simp add: power_add [symmetric])
  then have h: "h < 2 ^ l" by (simp add: h_def less_mult_imp_div_less)
  have nx: "nbits n x = nbits l h @ nbits (n - l) r"
    using nbits_split [of l "n - l" x] assms(3) by (simp add: h_def r_def)
  from write_bits_fit [OF assms(1,2) order.refl _ h] assms(3,5)
  have fit: "c + h < 256" "nbits 8 (c + h) = nbits (8 - l) (c div 2 ^ l) @ nbits l h" by simp_all
  have "(256 :: nat) = 2 ^ (n - l) * 2 ^ (8 - (n - l))" using assms(3,5) by (simp add: power_add [symmetric])
  then have "x * 2 ^ (8 - (n - l)) mod 256 = r * 2 ^ (8 - (n - l))"
    by (simp add: r_def mult_mod_left)
  with fit nx show ?thesis by (simp add: h_def)
qed

lemma unat_add_byte: "unat x + unat y < 256 \<Longrightarrow> unat (x + y) = unat x + unat y" for x y :: byte
  by (simp add: unat_word_ariths)

lemma udm_zint4_write_bits_ok:
  assumes "writer_ok s" "1 \<le> n" "n \<le> 8" "unat b < 2 ^ n"
  shows "writer_ok (udm_zint4_write_bits s b n) \<and>
    written (udm_zint4_write_bits s b n) = written s @ nbits n (unat b) \<and>
    zs_prev (udm_zint4_write_bits s b n) = zs_prev s"
proof -
  define l where "l = zs_bits_left s"
  define cur where "cur = (if l = 8 then 0 else zs_cur s)"
  have l: "1 \<le> l" "l \<le> 8" and c: "unat cur < 256" "unat cur mod 2 ^ l = 0"
    using assms(1) by (auto simp: writer_ok_def l_def cur_def)
  have w: "written s = bytes_bits (zs_buf s) @ nbits (8 - l) (unat cur div 2 ^ l)"
    by (simp add: written_def l_def [symmetric] cur_def)
  show ?thesis
  proof (cases "n \<le> l")
    case True
    note fit = write_bits_fit [OF c True l(2) assms(4)]
    have "unat b * 2 ^ (l - n) mod 256 = unat b * 2 ^ (l - n)" using fit by (intro mod_less) linarith
    then have u: "unat (cur + push_bit (l - n) b) = unat cur + unat b * 2 ^ (l - n)"
      using fit by (subst unat_add_byte) (simp_all add: unat_shifts)
    have e: "udm_zint4_write_bits s b n =
      (if n = l then s\<lparr>zs_cur := cur + push_bit (l - n) b, zs_buf := zs_buf s @ [cur + push_bit (l - n) b], zs_bits_left := 8\<rparr>
       else s\<lparr>zs_cur := cur + push_bit (l - n) b, zs_bits_left := l - n\<rparr>)"
      using True by (simp add: udm_zint4_write_bits_def Let_def l_def cur_def)
    show ?thesis
      using fit u True l assms(2) unfolding e w by (auto simp: writer_ok_def written_def add.commute)
  next
    case False
    then have ln: "l < n" by simp
    note over = write_bits_over [OF c ln l(1) assms(3,4)]
    have u: "unat (cur + drop_bit (n - l) b) = unat cur + unat b div 2 ^ (n - l)"
      using over by (subst unat_add_byte) (simp_all add: unat_shifts)
    have e: "udm_zint4_write_bits s b n =
      s\<lparr>zs_cur := push_bit (8 - (n - l)) b, zs_buf := zs_buf s @ [cur + drop_bit (n - l) b],
        zs_bits_left := 8 - (n - l)\<rparr>"
      using ln assms(3) by (simp add: udm_zint4_write_bits_def Let_def l_def cur_def add.commute)
    have "8 - (8 - (n - l)) = n - l" using ln assms(3) l by simp
    then show ?thesis
      using over u ln l assms(3) unfolding e w by (auto simp: writer_ok_def written_def unat_shifts)
  qed
qed

abbreviation write_all :: "zint4_state \<Rightarrow> (byte \<times> nat) list \<Rightarrow> zint4_state" where
  "write_all \<equiv> foldl (\<lambda>s (b, n). udm_zint4_write_bits s b n)"

lemma write_all_ok:
  "writer_ok s \<Longrightarrow> \<forall>(b, n) \<in> set ws. 1 \<le> n \<and> n \<le> 8 \<and> unat b < 2 ^ n \<Longrightarrow>
   writer_ok (write_all s ws) \<and>
   written (write_all s ws) = written s @ concat (map (\<lambda>(b, n). nbits n (unat b)) ws) \<and>
   zs_prev (write_all s ws) = zs_prev s"
proof (induction ws arbitrary: s)
  case (Cons bn ws)
  obtain b n where bn: "bn = (b, n)" by fastforce
  with Cons.prems udm_zint4_write_bits_ok [OF Cons.prems(1), of n b]
  have "writer_ok (udm_zint4_write_bits s b n)"
    "written (udm_zint4_write_bits s b n) = written s @ nbits n (unat b)"
    "zs_prev (udm_zint4_write_bits s b n) = zs_prev s" by auto
  with Cons.IH [of "udm_zint4_write_bits s b n"] Cons.prems bn show ?case by simp
qed simp

subsection \<open>The code of a number\<close>

primrec block_off :: "nat \<Rightarrow> nat" where
  "block_off 0 = 0"
| "block_off (Suc k) = (if k = 0 then 0 else block_off k + 16 ^ k)"

definition zcode :: "nat \<Rightarrow> nat \<Rightarrow> bool list" where
  "zcode k m = replicate (k - 1) True @ [False] @ nbits (4 * k) m"

definition is_code :: "uint4 \<Rightarrow> bool list \<Rightarrow> bool" where
  "is_code n bs \<longleftrightarrow> (\<exists>k m. 1 \<le> k \<and> k \<le> 8 \<and> m < 16 ^ k \<and> bs = zcode k m \<and> n = of_nat (m + block_off k))"

lemma unat_byte_of: "unat (byte_of n) = unat n mod 256"
proof -
  have "unat (byte_of n) = take_bit 8 (unat n)" by (simp only: unsigned_ucast_eq) simp
  then show ?thesis by (simp add: take_bit_eq_mod)
qed

lemma unat_and_ff: "unat (n AND 0xff) = unat n mod 256" for n :: uint4
proof -
  have "unat (n AND 0xff) = take_bit 8 (unat n)" unfolding and_mask_num(8) by (rule unsigned_take_bit_eq)
  then show ?thesis by (simp add: take_bit_eq_mod)
qed

lemma unat_drop: "unat (drop_bit k n) = unat n div 2 ^ k" for n :: uint4
proof -
  have "unat (drop_bit k n) = drop_bit k (take_bit 32 (unat n))" by (simp only: unsigned_drop_bit_eq) simp
  moreover have "unat n < 2 ^ 32" using unsigned_less [of n] by simp
  ultimately show ?thesis by (simp add: drop_bit_eq_div take_bit_eq_mod)
qed

lemmas unat_pieces = unat_byte_of unat_and_ff unat_drop

lemma bits_3: "nbits 12 m = nbits 4 (m div 256) @ nbits 8 (m mod 256)"
  using nbits_split [of 4 8 m] by simp

lemma bits_4: "nbits 16 m = nbits 8 (m div 256) @ nbits 8 (m mod 256)"
  using nbits_split [of 8 8 m] by simp

lemma bits_5: "nbits 20 m = nbits 4 (m div 65536) @ nbits 8 (m div 256 mod 256) @ nbits 8 (m mod 256)"
  using nbits_split [of 12 8 m] nbits_split [of 4 8 "m div 256"] by (simp add: div_mult2_eq [symmetric])

lemma bits_6: "nbits 24 m = nbits 8 (m div 65536) @ nbits 8 (m div 256 mod 256) @ nbits 8 (m mod 256)"
  using nbits_split [of 16 8 m] nbits_split [of 8 8 "m div 256"] by (simp add: div_mult2_eq [symmetric])

lemma bits_7: "nbits 28 m = nbits 4 (m div 16777216) @ nbits 8 (m div 65536 mod 256) @
    nbits 8 (m div 256 mod 256) @ nbits 8 (m mod 256)"
  using nbits_split [of 20 8 m] bits_5 [of "m div 256"] nbits_mod [of 8 "m div 256"]
  by (simp add: div_mult2_eq [symmetric])

lemma bits_8: "nbits 32 m = nbits 8 (m div 16777216) @ nbits 8 (m div 65536 mod 256) @
    nbits 8 (m div 256 mod 256) @ nbits 8 (m mod 256)"
  using nbits_split [of 24 8 m] bits_6 [of "m div 256"] by (simp add: div_mult2_eq [symmetric])

lemma write_code:
  assumes "writer_ok s" "\<forall>(b, n) \<in> set ws. 1 \<le> n \<and> n \<le> 8 \<and> unat b < 2 ^ n"
    and "s' = write_all (s\<lparr>zs_prev := p\<rparr>) ws"
    and "concat (map (\<lambda>(b, n). nbits n (unat b)) ws) = zcode k m"
    and "1 \<le> k" "k \<le> 8" "m < 16 ^ k" "n = of_nat (m + block_off k)"
  shows "writer_ok s' \<and> zs_prev s' = p \<and> (\<exists>bs. is_code n bs \<and> written s' = written s @ bs)"
proof -
  have "writer_ok (s\<lparr>zs_prev := p\<rparr>)" "written (s\<lparr>zs_prev := p\<rparr>) = written s"
    using assms(1) by (simp_all add: writer_ok_def written_def)
  with write_all_ok [OF this(1) assms(2)] assms(3-) show ?thesis
    unfolding is_code_def by (metis (no_types, lifting) zint4_state.select_convs(1) zint4_state.surjective zint4_state.update_convs(1))
qed

text \<open>The pieces of each length, as the writer hands them over.\<close>

definition pieces :: "nat \<Rightarrow> uint4 \<Rightarrow> (byte \<times> nat) list" where
  "pieces k m =
     (if k = 1 then [(byte_of m, 5)]
      else if k = 2 then [(2, 2), (byte_of m, 8)]
      else if k = 3 then [(6, 3), (byte_of (drop_bit 8 m), 4), (byte_of (m AND 0xff), 8)]
      else if k = 4 then [(0xe, 4), (byte_of (drop_bit 8 m), 8), (byte_of (m AND 0xff), 8)]
      else if k = 5 then [(0x1e, 5), (byte_of (drop_bit 16 m), 4), (byte_of (drop_bit 8 m AND 0xff), 8),
        (byte_of (m AND 0xff), 8)]
      else if k = 6 then [(0x3e, 6), (byte_of (drop_bit 16 m), 8), (byte_of (drop_bit 8 m AND 0xff), 8),
        (byte_of (m AND 0xff), 8)]
      else if k = 7 then [(0x7e, 7), (byte_of (drop_bit 24 m), 4), (byte_of (drop_bit 16 m AND 0xff), 8),
        (byte_of (drop_bit 8 m AND 0xff), 8), (byte_of (m AND 0xff), 8)]
      else [(0xfe, 8), (byte_of (drop_bit 24 m), 8), (byte_of (drop_bit 16 m AND 0xff), 8),
        (byte_of (drop_bit 8 m AND 0xff), 8), (byte_of (m AND 0xff), 8)])"

definition block_count :: "uint4 \<Rightarrow> nat" where
  "block_count n =
     (if n < 0x10 then 1 else if n < 0x110 then 2 else if n < 0x1110 then 3 else if n < 0x11110 then 4
      else if n < 0x111110 then 5 else if n < 0x1111110 then 6 else if n < 0x11111110 then 7 else 8)"

lemma block_off_step: "0 < k \<Longrightarrow> block_off (Suc k) = block_off k + 16 ^ k"
  by simp

lemma block_off_nums:
  "block_off 1 = 0" "block_off 2 = 0x10" "block_off 3 = 0x110" "block_off 4 = 0x1110"
  "block_off 5 = 0x11110" "block_off 6 = 0x111110" "block_off 7 = 0x1111110" "block_off 8 = 0x11111110"
proof -
  show 1: "block_off 1 = 0" by simp
  show 2: "block_off 2 = 0x10" using block_off_step [of 1] 1 by (simp add: numeral_2_eq_2)
  show 3: "block_off 3 = 0x110" using block_off_step [of 2] 2 by simp
  show 4: "block_off 4 = 0x1110" using block_off_step [of 3] 3 by simp
  show 5: "block_off 5 = 0x11110" using block_off_step [of 4] 4 by simp
  show 6: "block_off 6 = 0x111110" using block_off_step [of 5] 5 by simp
  show 7: "block_off 7 = 0x1111110" using block_off_step [of 6] 6 by simp
  show "block_off 8 = 0x11111110" using block_off_step [of 7] 7 by simp
qed

lemma udm_zint4_pieces:
  "udm_zint4 s next =
    (let n = next - zs_prev s; k = block_count n
     in write_all (s\<lparr>zs_prev := next\<rparr>) (pieces k (n - of_nat (block_off k))))"
  by (simp add: udm_zint4_def Let_def block_count_def pieces_def block_off_nums)

lemma block_count_bounds:
  fixes n :: uint4
  defines "k \<equiv> block_count n"
  shows "k \<in> {1..8} \<and> block_off k \<le> unat n \<and> unat n - block_off k < 16 ^ k"
proof -
  have "unat n < 4294967296" using unsigned_less [where w = n and 'a = nat] by simp
  then show ?thesis
    by (auto simp: k_def block_count_def word_less_nat_alt block_off_nums block_off_nums(1) [simplified])
qed

lemma nbits_prefix: "nbits (Suc j) (2 ^ Suc j - 2) = replicate j True @ [False]"
proof -
  have "(2 :: nat) ^ Suc j - 2 = (2 ^ j - 1) * 2 ^ 1 + 0" by simp
  then show ?thesis using nbits_join [of 0 1 j "2 ^ j - 1"] nbits_ones [of j] by simp
qed

lemma bits_1: "m < 16 \<Longrightarrow> nbits 5 m = [False] @ nbits 4 m"
  using nbits_split [of 1 4 m] by simp

lemma pieces_ok:
  assumes "k \<in> {1..8}" "unat m < 16 ^ k"
  shows "(\<forall>(b, n) \<in> set (pieces k m). 1 \<le> n \<and> n \<le> 8 \<and> unat b < 2 ^ n) \<and>
    concat (map (\<lambda>(b, n). nbits n (unat b)) (pieces k m)) = zcode k (unat m)"
proof -
  from assms(1) consider (1) "k = 1" | (2) "k = 2" | (3) "k = 3" | (4) "k = 4" | (5) "k = 5"
    | (6) "k = 6" | (7) "k = 7" | (8) "k = 8" by fastforce
  then show ?thesis
  proof cases
  case 1
  then show ?thesis using assms(2) bits_1 [of "unat m"] by (simp add: pieces_def unat_pieces zcode_def)
next
  case 2
  have p: "nbits 2 2 = replicate 1 True @ [False]" by (simp add: numeral_2_eq_2 bit_0 bit_Suc)
  show ?thesis using assms(2) p unfolding 2
    by (simp add: pieces_def unat_pieces zcode_def)
next
  case 3
  have p: "nbits 3 6 = replicate 2 True @ [False]" using nbits_prefix [of 2] by simp
  show ?thesis using assms(2) p bits_3 [of "unat m"] unfolding 3
    by (simp add: pieces_def unat_pieces zcode_def)
next
  case 4
  have p: "nbits 4 14 = replicate 3 True @ [False]" using nbits_prefix [of 3] by simp
  show ?thesis using assms(2) p bits_4 [of "unat m"] unfolding 4
    by (simp add: pieces_def unat_pieces zcode_def)
next
  case 5
  have p: "nbits 5 30 = replicate 4 True @ [False]" using nbits_prefix [of 4] by simp
  show ?thesis using assms(2) p bits_5 [of "unat m"] unfolding 5
    by (simp add: pieces_def unat_pieces zcode_def)
next
  case 6
  have p: "nbits 6 62 = replicate 5 True @ [False]" using nbits_prefix [of 5] by simp
  show ?thesis using assms(2) p bits_6 [of "unat m"] unfolding 6
    by (simp add: pieces_def unat_pieces zcode_def)
next
  case 7
  have p: "nbits 7 126 = replicate 6 True @ [False]" using nbits_prefix [of 6] by simp
  show ?thesis using assms(2) p bits_7 [of "unat m"] unfolding 7
    by (simp add: pieces_def unat_pieces zcode_def)
next
  case 8
  have p: "nbits 8 254 = replicate 7 True @ [False]" using nbits_prefix [of 7] by simp
  show ?thesis using assms(2) p bits_8 [of "unat m"] unfolding 8
    by (simp add: pieces_def unat_pieces zcode_def)
  qed
qed

lemma udm_zint4_ok:
  assumes "writer_ok s"
  shows "writer_ok (udm_zint4 s next) \<and> zs_prev (udm_zint4 s next) = next \<and>
    (\<exists>bs. is_code (next - zs_prev s) bs \<and> written (udm_zint4 s next) = written s @ bs)"
proof -
  define n where "n = next - zs_prev s"
  define k where "k = block_count n"
  define m where "m = n - of_nat (block_off k)"
  note b = block_count_bounds [of n, folded k_def]
  have "unat (of_nat (block_off k) :: uint4) = block_off k"
  proof -
    have "block_off k \<le> unat n" using b by blast
    also have "unat n < 2 ^ 32" using unsigned_less [where w = n and 'a = nat] by simp
    finally have "take_bit 32 (block_off k) = block_off k" by (simp only: take_bit_nat_eq_self_iff)
    then show ?thesis by (simp add: unsigned_of_nat)
  qed
  then have m: "unat m = unat n - block_off k"
    using b by (simp add: m_def unat_sub word_le_nat_alt)
  then have nn: "n = of_nat (unat m + block_off k)" using b by simp
  have km: "k \<in> {1..8}" "unat m < 16 ^ k" using b m by simp_all
  then have kk: "1 \<le> k" "k \<le> 8" by simp_all
  have u: "udm_zint4 s next = write_all (s\<lparr>zs_prev := next\<rparr>) (pieces k m)"
    by (simp only: udm_zint4_pieces Let_def n_def k_def m_def)
  note P = pieces_ok [OF km]
  show ?thesis
    using write_code [OF assms conjunct1 [OF P] u conjunct2 [OF P] kk km(2) nn] unfolding n_def .
qed

text \<open>The codes of a list of numbers, each relative to the one before.\<close>

fun is_codes :: "uint4 \<Rightarrow> uint4 list \<Rightarrow> bool list \<Rightarrow> bool" where
  "is_codes prev [] bs \<longleftrightarrow> bs = []"
| "is_codes prev (x # xs) bs \<longleftrightarrow> (\<exists>cs ds. bs = cs @ ds \<and> is_code (x - prev) cs \<and> is_codes x xs ds)"

lemma foldl_zint4_ok:
  "writer_ok s \<Longrightarrow> writer_ok (foldl udm_zint4 s xs) \<and>
   (\<exists>bs. is_codes (zs_prev s) xs bs \<and> written (foldl udm_zint4 s xs) = written s @ bs)"
proof (induction xs arbitrary: s)
  case (Cons x xs)
  from udm_zint4_ok [OF Cons.prems, of x] obtain cs where
    cs: "writer_ok (udm_zint4 s x)" "zs_prev (udm_zint4 s x) = x" "is_code (x - zs_prev s) cs"
      "written (udm_zint4 s x) = written s @ cs" by blast
  from Cons.IH [OF cs(1)] cs(2) obtain ds where
    "writer_ok (foldl udm_zint4 (udm_zint4 s x) xs)" "is_codes x xs ds"
    "written (foldl udm_zint4 (udm_zint4 s x) xs) = written (udm_zint4 s x) @ ds" by auto
  with cs show ?case by auto
qed simp

lemma zint4_finalize_ok:
  assumes "writer_ok s"
  shows "\<exists>j. 40 \<le> j \<and> j < 48 \<and> bytes_bits (zs_buf (udm_zint4_finalize s)) = written s @ replicate j True"
proof -
  have ff: "nbits 8 255 = replicate 8 True" using nbits_ones [of 8] by simp
  have tail: "bytes_bits [0xff, 0xff, 0xff, 0xff, 0xff] = replicate 40 True"
    using ff by (simp add: replicate_add [symmetric])
  show ?thesis
  proof (cases "zs_bits_left s < 8")
    case True
    define l where "l = zs_bits_left s"
    have l: "l < 8" "1 \<le> l" "unat (zs_cur s) mod 2 ^ l = 0"
      using assms True by (auto simp: writer_ok_def l_def)
    define c where "c = zs_cur s + drop_bit (8 - l) 0xff"
    have h: "255 div 2 ^ (8 - l) = (2 :: nat) ^ l - 1"
    proof -
      have "(256 :: nat) = 2 ^ (8 - l) * 2 ^ l" using l by (simp add: power_add [symmetric])
      moreover obtain q where q: "(2 :: nat) ^ l = Suc q" by (metis not0_implies_Suc power_not_zero zero_neq_numeral)
      moreover obtain p where p: "(2 :: nat) ^ (8 - l) = Suc p" by (metis not0_implies_Suc power_not_zero zero_neq_numeral)
      ultimately have "255 = p + q * Suc p" by (simp add: mult.commute)
      then have "255 div Suc p = q" by (metis div_less div_mult_self1 add_0_right lessI nat.simps(3))
      with p q show ?thesis by simp
    qed
    have lt: "unat (zs_cur s) < 256" by simp
    from write_bits_fit [OF lt l(3) order.refl, of "2 ^ l - 1"] l
    have fit: "unat (zs_cur s) + (2 ^ l - 1) < 256"
      "nbits 8 (unat (zs_cur s) + (2 ^ l - 1)) = nbits (8 - l) (unat (zs_cur s) div 2 ^ l) @ nbits l (2 ^ l - 1)"
      by simp_all
    have "unat c = unat (zs_cur s) + (2 ^ l - 1)"
      unfolding c_def using fit(1) h by (subst unat_add_byte) (simp_all add: unat_shifts)
    then have c: "nbits 8 (unat c) = nbits (8 - l) (unat (zs_cur s) div 2 ^ l) @ replicate l True"
      using fit(2) nbits_ones [of l] by simp
    have "zs_buf (udm_zint4_finalize s) = zs_buf s @ [c] @ [0xff, 0xff, 0xff, 0xff, 0xff]"
      using l by (simp add: udm_zint4_finalize_def udm_zint4_write_bits_def Let_def c_def l_def [symmetric])
    then have "bytes_bits (zs_buf (udm_zint4_finalize s)) = written s @ replicate (l + 40) True"
      using c tail by (simp add: written_def l_def [symmetric] replicate_add)
    then show ?thesis using l by (intro exI [of _ "l + 40"]) simp
  next
    case False
    with assms have "zs_bits_left s = 8" by (simp add: writer_ok_def)
    then have "bytes_bits (zs_buf (udm_zint4_finalize s)) = written s @ replicate 40 True"
      using tail by (simp add: udm_zint4_finalize_def written_def)
    then show ?thesis by (intro exI [of _ 40]) simp
  qed
qed

subsection \<open>What the reader reads\<close>

fun to_read :: "zint4_reader \<Rightarrow> bool list" where
  "to_read (b, buf, i) = nbits i (unat b) @ bytes_bits buf"

fun reader_ok :: "zint4_reader \<Rightarrow> bool" where
  "reader_ok (b, buf, i) \<longleftrightarrow> 1 \<le> i \<and> i \<le> 8"

lemma bit_unat: "bit (unat b) i \<longleftrightarrow> bit b i" for b :: byte
  by (auto simp: bit_unsigned_iff dest: bit_imp_le_length)

lemma prefix_blocks:
  assumes "reader_ok st" "to_read st = replicate k True @ False # rst" "rst \<noteq> []" "n + k < 9"
  shows "\<exists>st'. dezint4_prefix st n = Some (Blocks st' (n + k)) \<and> reader_ok st' \<and> to_read st' = rst"
  using assms
proof (induction st n arbitrary: k rule: dezint4_prefix.induct)
  case (2 b buf i n)
  show ?case
  proof (cases k)
    case 0
    with "2.prems"(2) have b: "\<not> bit b i" "nbits i (unat b) @ bytes_bits buf = rst" by (simp_all add: bit_unat)
    show ?thesis
    proof (cases "i = 0")
      case True
      with b "2.prems"(3) obtain c buf' where "buf = c # buf'" by (cases buf) auto
      with b True 0 show ?thesis by (simp add: dezint4_prefix.simps(2))
    next
      case False
      with b "2.prems"(1) 0 show ?thesis by (simp add: dezint4_prefix.simps(2))
    qed
  next
    case (Suc k')
    with "2.prems"(2) have b: "bit b i" "nbits i (unat b) @ bytes_bits buf = replicate k' True @ False # rst"
      by (simp_all add: bit_unat)
    have n: "Suc n \<noteq> 9" "Suc n + k' < 9" using "2.prems"(4) Suc by simp_all
    show ?thesis
    proof (cases "i = 0")
      case True
      with b obtain c buf' where buf: "buf = c # buf'" by (cases buf) auto
      have "to_read (c, buf', 8) = replicate k' True @ False # rst" using b True buf by simp
      from "2.IH"(1) [OF b(1) refl n(1) True buf _ this "2.prems"(3) n(2)] b True buf n Suc
      show ?thesis by (simp add: dezint4_prefix.simps(2) Let_def)
    next
      case False
      have "to_read (b, buf, i) = replicate k' True @ False # rst" using b by simp
      from "2.IH"(2) [OF b(1) refl n(1) False _ this "2.prems"(3) n(2)] b False n Suc "2.prems"(1)
      show ?thesis by (simp add: dezint4_prefix.simps(2) Let_def)
    qed
  qed
qed simp

lemma prefix_terminator:
  assumes "reader_ok st" "to_read st = replicate k True @ rst" "n + k = 9" "0 < k"
  shows "dezint4_prefix st n = Some Terminator"
  using assms
proof (induction st n arbitrary: k rule: dezint4_prefix.induct)
  case (2 b buf i n)
  then obtain k' where k: "k = Suc k'" by (cases k) auto
  with "2.prems"(2) have b: "bit b i" "nbits i (unat b) @ bytes_bits buf = replicate k' True @ rst"
    by (simp_all add: bit_unat)
  show ?case
  proof (cases "k' = 0")
    case True
    with b k "2.prems"(3) show ?thesis by (simp add: dezint4_prefix.simps(2))
  next
    case False
    have n: "Suc n \<noteq> 9" "Suc n + k' = 9" "0 < k'" using "2.prems"(3) k False by simp_all
    show ?thesis
    proof (cases "i = 0")
      case True
      with b False obtain c buf' where buf: "buf = c # buf'" by (cases buf) (auto simp: neq0_conv gr0_conv_Suc)
      have "to_read (c, buf', 8) = replicate k' True @ rst" using b True buf by simp
      from "2.IH"(1) [OF b(1) refl n(1) True buf _ this n(2,3)] b True buf n
      show ?thesis by (simp add: dezint4_prefix.simps(2) Let_def)
    next
      case False
      have "to_read (b, buf, i) = replicate k' True @ rst" using b by simp
      from "2.IH"(2) [OF b(1) refl n(1) False _ this n(2,3)] b False n "2.prems"(1)
      show ?thesis by (simp add: dezint4_prefix.simps(2) Let_def)
    qed
  qed
qed simp

lemma unat_up [simp]: "unat (up b) = unat b"
proof -
  have "unat (up b) = take_bit 32 (unat b)" by (simp only: unsigned_ucast_eq) simp
  moreover have "unat b < 256" by simp
  ultimately show ?thesis by (simp add: take_bit_eq_mod)
qed

lemma unat_and_small: "unat (x AND 1) = unat x mod 2" "unat (x AND 3) = unat x mod 4"
  "unat (x AND 7) = unat x mod 8" "unat (x AND 0xf) = unat x mod 16" for x :: uint4
proof -
  have m: "unat (take_bit k x) = unat x mod 2 ^ k" for k
    using unsigned_take_bit_eq [of k x, where 'a = nat] unfolding take_bit_eq_mod [of k "unat x"] .
  show "unat (x AND 1) = unat x mod 2" "unat (x AND 3) = unat x mod 4"
    "unat (x AND 7) = unat x mod 8" "unat (x AND 0xf) = unat x mod 16"
    unfolding and_mask_num m by simp_all
qed

lemma word_eq_of_nat: "unat x = n \<Longrightarrow> x = of_nat n" for x :: uint4
  by auto

lemma high_nibble: "drop_bit k (up b) AND 0xf = of_nat (unat b div 2 ^ k mod 16)"
  by (rule word_eq_of_nat) (simp only: unat_and_small unat_drop unat_up)

lemma split_nibble:
  fixes b c :: byte
  assumes "i < 4"
  shows "nbits i (unat b) @ nbits 8 (unat c) =
    nbits 4 (unat b mod 2 ^ i * 2 ^ (4 - i) + unat c div 2 ^ (4 + i)) @ nbits (4 + i) (unat c)"
    and "unat b mod 2 ^ i * 2 ^ (4 - i) + unat c div 2 ^ (4 + i) < 16"
proof -
  have "unat c < 2 ^ (4 - i) * 2 ^ (4 + i)" using assms by (simp add: power_add [symmetric])
  then have c: "unat c div 2 ^ (4 + i) < 2 ^ (4 - i)" by (simp add: less_mult_imp_div_less)
  have "nbits (i + (4 - i)) (unat b mod 2 ^ i * 2 ^ (4 - i) + unat c div 2 ^ (4 + i)) =
      nbits i (unat b) @ nbits (4 - i) (unat c div 2 ^ (4 + i))"
    by (simp only: nbits_join [OF c] nbits_mod)
  moreover have "nbits ((4 - i) + (4 + i)) (unat c) = nbits (4 - i) (unat c div 2 ^ (4 + i)) @ nbits (4 + i) (unat c)"
    by (rule nbits_append)
  ultimately show "nbits i (unat b) @ nbits 8 (unat c) =
    nbits 4 (unat b mod 2 ^ i * 2 ^ (4 - i) + unat c div 2 ^ (4 + i)) @ nbits (4 + i) (unat c)"
    using assms by simp
  have "(unat b mod 2 ^ i + 1) * 2 ^ (4 - i) \<le> 2 ^ i * 2 ^ (4 - i)"
    by (intro mult_le_mono1) (simp add: Suc_le_eq)
  also have "\<dots> = (16 :: nat)" using assms by (simp add: power_add [symmetric])
  finally show "unat b mod 2 ^ i * 2 ^ (4 - i) + unat c div 2 ^ (4 + i) < 16" using c by simp
qed

lemma low_nibble:
  "push_bit 3 (up b AND 1) + (drop_bit 5 (up c) AND 0xf) = of_nat (unat b mod 2 ^ 1 * 2 ^ (4 - 1) + unat c div 2 ^ (4 + 1))"
  "push_bit 2 (up b AND 3) + (drop_bit 6 (up c) AND 7) = of_nat (unat b mod 2 ^ 2 * 2 ^ (4 - 2) + unat c div 2 ^ (4 + 2))"
  "push_bit 1 (up b AND 7) + (drop_bit 7 (up c) AND 3) = of_nat (unat b mod 2 ^ 3 * 2 ^ (4 - 3) + unat c div 2 ^ (4 + 3))"
proof -
  have c: "unat c < 256" by simp
  have q: "n div 32 mod 16 = n div 32" "n div 64 mod 8 = n div 64" "n div 128 mod 4 = n div 128"
    if "n < 256" for n :: nat
  proof -
    have "n div 32 < 8" "n div 64 < 4" "n div 128 < 2"
      by (rule less_mult_imp_div_less, use that in simp)+
    then show "n div 32 mod 16 = n div 32" "n div 64 mod 8 = n div 64" "n div 128 mod 4 = n div 128" by simp_all
  qed
  have m: "up b AND 1 = of_nat (unat b mod 2)" "up b AND 3 = of_nat (unat b mod 4)" "up b AND 7 = of_nat (unat b mod 8)"
    by (rule word_eq_of_nat, simp only: unat_and_small unat_up)+
  have d: "drop_bit 5 (up c) AND 0xf = of_nat (unat c div 32)" "drop_bit 6 (up c) AND 7 = of_nat (unat c div 64)"
    "drop_bit 7 (up c) AND 3 = of_nat (unat c div 128)"
    by (rule word_eq_of_nat, simp add: unat_and_small unat_drop q [OF c])+
  show "push_bit 3 (up b AND 1) + (drop_bit 5 (up c) AND 0xf) = of_nat (unat b mod 2 ^ 1 * 2 ^ (4 - 1) + unat c div 2 ^ (4 + 1))"
    "push_bit 2 (up b AND 3) + (drop_bit 6 (up c) AND 7) = of_nat (unat b mod 2 ^ 2 * 2 ^ (4 - 2) + unat c div 2 ^ (4 + 2))"
    "push_bit 1 (up b AND 7) + (drop_bit 7 (up c) AND 3) = of_nat (unat b mod 2 ^ 3 * 2 ^ (4 - 3) + unat c div 2 ^ (4 + 3))"
    unfolding m d by (simp_all add: push_bit_eq_mult del: of_nat_mod)
qed

lemma nibble_ok:
  assumes "reader_ok st" "to_read st = nbits 4 v @ rst" "rst \<noteq> []" "v < 16"
  shows "\<exists>st'. dezint4_nibble st = Some (of_nat v, st') \<and> reader_ok st' \<and> to_read st' = rst"
proof -
  obtain b buf i where st: "st = (b, buf, i)" by (cases st)
  have i: "1 \<le> i" "i \<le> 8" and r: "nbits i (unat b) @ bytes_bits buf = nbits 4 v @ rst"
    using assms(1,2) st by simp_all
  show ?thesis
  proof (cases "i \<le> 4")
    case True
    then have "buf \<noteq> []"
      using assms(3) arg_cong [OF r, of length] by auto
    then obtain c buf' where buf: "buf = c # buf'" by (cases buf) auto
    show ?thesis
    proof (cases "i = 4")
      case True
      then have "nbits 4 (unat b mod 16) = nbits 4 v" "bytes_bits buf = rst"
        using r nbits_mod [of 4 "unat b"] by simp_all
      then have "unat b mod 16 = v" by (intro nbits_inj [of 4]) (simp_all add: assms(4))
      then have "up b AND 0xf = of_nat v" by (intro word_eq_of_nat) (simp only: unat_and_small unat_up)
      with \<open>bytes_bits buf = rst\<close> show ?thesis
        by (simp add: st True buf dezint4_nibble_def)
    next
      case False
      with True have i4: "i < 4" by simp
      note sp = split_nibble [OF i4, of b c]
      from r have "(nbits i (unat b) @ nbits 8 (unat c)) @ bytes_bits buf' = nbits 4 v @ rst" by (simp add: buf)
      then have "nbits 4 (unat b mod 2 ^ i * 2 ^ (4 - i) + unat c div 2 ^ (4 + i)) = nbits 4 v"
        "nbits (4 + i) (unat c) @ bytes_bits buf' = rst" unfolding sp(1) by simp_all
      moreover from this(1) sp(2) assms(4)
      have v: "v = unat b mod 2 ^ i * 2 ^ (4 - i) + unat c div 2 ^ (4 + i)"
        by (intro nbits_inj [of 4]) simp_all
      moreover from i4 i have "i = 1 \<or> i = 2 \<or> i = 3" by auto
      ultimately show ?thesis
        unfolding st buf dezint4_nibble_def using low_nibble [of b c] by (elim disjE) simp_all
    qed
  next
    case False
    define k where "k = i - 4"
    have ik: "i = 4 + k" "1 \<le> k" "k \<le> 4" using False i by (simp_all add: k_def)
    have r': "nbits 4 (unat b div 2 ^ k mod 16) = nbits 4 v" "nbits k (unat b) @ bytes_bits buf = rst"
      using r nbits_append [of 4 k "unat b"] nbits_mod [of 4 "unat b div 2 ^ k"] unfolding ik(1) by simp_all
    have v: "unat b div 2 ^ k mod 16 = v"
      by (rule nbits_inj [OF r'(1)]) (simp_all add: assms(4))
    have "dezint4_nibble st = Some (drop_bit k (up b) AND 0xf, (b, buf, k))"
      using ik unfolding st by (auto simp: dezint4_nibble_def numeral_eq_Suc le_Suc_eq)
    with r'(2) ik show ?thesis unfolding high_nibble v by simp
  qed
qed

lemma payload_ok:
  assumes "m < 16 ^ Suc k" "reader_ok st" "to_read st = nbits (4 * Suc k) m @ rst" "rst \<noteq> []"
  shows "\<exists>st'. dezint4_payload nx st (Suc k) = Some (nx * 16 ^ k + of_nat (m + block_off (Suc k)), st') \<and>
    reader_ok st' \<and> to_read st' = rst"
  using assms
proof (induction k arbitrary: nx st m)
  case 0
  from nibble_ok [OF "0.prems"(2), of m rst] "0.prems" obtain st' where
    "dezint4_nibble st = Some (of_nat m, st')" "reader_ok st'" "to_read st' = rst" by auto
  then show ?case by (subst dezint4_payload.simps) (simp add: Let_def)
next
  case (Suc k)
  have p: "(2 :: nat) ^ (4 * Suc k) = 16 ^ Suc k" unfolding power_mult by simp
  define v m' where "v = m div 16 ^ Suc k" and "m' = m mod 16 ^ Suc k"
  have m: "m = v * 16 ^ Suc k + m'" unfolding v_def m'_def by (rule div_mult_mod_eq [symmetric])
  have v: "v < 16" using Suc.prems(1) by (simp add: v_def less_mult_imp_div_less mult.commute)
  have m': "m' < 16 ^ Suc k" by (simp add: m'_def)
  have "nbits (4 * Suc (Suc k)) m = nbits 4 v @ nbits (4 * Suc k) m'"
    using nbits_split [of 4 "4 * Suc k" m] unfolding p v_def m'_def by simp
  with Suc.prems(3) have "to_read st = nbits 4 v @ (nbits (4 * Suc k) m' @ rst)" by simp
  from nibble_ok [OF Suc.prems(2) this _ v] Suc.prems(4) obtain st1 where
    st1: "dezint4_nibble st = Some (of_nat v, st1)" "reader_ok st1" "to_read st1 = nbits (4 * Suc k) m' @ rst"
    by auto
  from Suc.IH [OF m' st1(2,3) Suc.prems(4), of "push_bit 4 (nx + of_nat v + 1)"] obtain st' where
    st': "dezint4_payload (push_bit 4 (nx + of_nat v + 1)) st1 (Suc k) =
        Some (push_bit 4 (nx + of_nat v + 1) * 16 ^ k + of_nat (m' + block_off (Suc k)), st')"
      "reader_ok st'" "to_read st' = rst" by auto
  have "push_bit 4 (nx + of_nat v + 1) * 16 ^ k + of_nat (m' + block_off (Suc k)) =
      nx * 16 ^ Suc k + of_nat (m + block_off (Suc (Suc k)))"
    by (simp add: m push_bit_eq_mult algebra_simps)
  with st1 st' show ?case by (subst dezint4_payload.simps) (simp add: Let_def)
qed

lemma code_ok:
  assumes "reader_ok st" "to_read st = replicate k True @ False # nbits (4 * Suc k) m @ rst" "rst \<noteq> []"
    "k < 8" "m < 16 ^ Suc k"
  shows "\<exists>st'. dezint4_loop prev st =
      map_option ((#) (prev + of_nat (m + block_off (Suc k)))) (dezint4_loop (prev + of_nat (m + block_off (Suc k))) st') \<and>
    reader_ok st' \<and> to_read st' = rst"
proof -
  have n: "1 + k < 9" using assms(4) by simp
  from prefix_blocks [OF assms(1,2) _ n] assms(3) obtain st1 where
    st1: "dezint4_prefix st 1 = Some (Blocks st1 (Suc k))" "reader_ok st1" "to_read st1 = nbits (4 * Suc k) m @ rst"
    by auto
  from payload_ok [OF assms(5) st1(2,3) assms(3), of 0] obtain st' where
    "dezint4_payload 0 st1 (Suc k) = Some (of_nat (m + block_off (Suc k)), st')" "reader_ok st'" "to_read st' = rst"
    by auto
  with st1(1) show ?thesis
    by (intro exI [of _ st']) (subst dezint4_loop.simps, simp add: Let_def map_option_case del: block_off.simps)
qed

lemma loop_end:
  assumes "reader_ok st" "to_read st = replicate 8 True @ rst"
  shows "dezint4_loop prev st = Some []"
  using prefix_terminator [OF assms, of 1] by (subst dezint4_loop.simps) simp

lemma loop_codes:
  "is_codes prev xs bs \<Longrightarrow> reader_ok st \<Longrightarrow> to_read st = bs @ replicate 8 True @ rst \<Longrightarrow>
   dezint4_loop prev st = Some xs"
proof (induction prev xs bs arbitrary: st rule: is_codes.induct)
  case (1 prev bs)
  then show ?case by (intro loop_end) simp_all
next
  case (2 prev x xs bs)
  then obtain cs ds where c: "bs = cs @ ds" "is_code (x - prev) cs" "is_codes x xs ds" by auto
  then obtain k m where km: "1 \<le> k" "k \<le> 8" "m < 16 ^ k" "cs = zcode k m" "x - prev = of_nat (m + block_off k)"
    unfolding is_code_def by blast
  obtain j where j: "k = Suc j" using km(1) by (cases k) auto
  have x: "prev + of_nat (m + block_off (Suc j)) = x" using km(5) j by (simp add: algebra_simps)
  have "to_read st = replicate j True @ False # nbits (4 * Suc j) m @ (ds @ replicate 8 True @ rst)"
    using "2.prems"(3) c km(4) j by (simp add: zcode_def del: mult_Suc_right)
  from code_ok [OF "2.prems"(2) this _ _ km(3) [unfolded j], of prev] km(2) j obtain st' where
    "dezint4_loop prev st = map_option ((#) x) (dezint4_loop x st')" "reader_ok st'"
    "to_read st' = ds @ replicate 8 True @ rst" unfolding x by (auto simp del: block_off.simps)
  with "2.IH" [OF c(3)] show ?case by simp
qed

lemma split_ones:
  obtains (ones) rst where "bs = replicate 8 True @ rst" | (short) "length bs < 8" 
  | (code) k rst where "k < 8" "bs = replicate k True @ False # rst"
proof -
  define t where "t = takeWhile id bs"
  have t: "t = replicate (length t) True"
    unfolding t_def by (rule replicate_eqI [symmetric, OF refl, THEN sym]) (auto dest: set_takeWhileD)
  have bs: "bs = t @ dropWhile id bs" by (simp add: t_def)
  show ?thesis
  proof (cases "8 \<le> length t")
    case True
    then have "t = replicate 8 True @ replicate (length t - 8) True"
      using t by (simp add: replicate_add [symmetric])
    then have "bs = replicate 8 True @ (replicate (length t - 8) True @ dropWhile id bs)"
      using bs by (metis append_assoc)
    then show ?thesis by (rule ones)
  next
    case False
    show ?thesis
    proof (cases "dropWhile id bs")
      case Nil
      with bs False show ?thesis by (intro short) simp
    next
      case (Cons c rst)
      then have "\<not> c" by (metis dropWhile_eq_Cons_conv id_apply)
      with bs t Cons False show ?thesis by (intro code [of "length t" rst]) simp_all
    qed
  qed
qed

lemma loop_total:
  "reader_ok st \<Longrightarrow> to_read st = Y @ replicate j True \<Longrightarrow> 40 \<le> j \<or> Y = [] \<and> 8 \<le> j \<Longrightarrow>
   \<exists>xs. dezint4_loop prev st = Some xs \<and> 5 * length xs + 8 \<le> length Y + j"
proof (induction "length Y + j" arbitrary: Y j st prev rule: less_induct)
  case less
  have len: "8 \<le> length Y + j" using less.prems(3) by auto
  show ?case
  proof (cases rule: split_ones [of "to_read st"])
    case (ones rst)
    from loop_end [OF less.prems(1) ones] len show ?thesis by simp
  next
    case short
    with len less.prems(2) show ?thesis by simp
  next
    case (code k rst)
    note 3 = code
    have "False \<in> set Y"
      using 3(2) less.prems(2) by (metis Un_iff in_set_conv_decomp in_set_replicate set_append)
    then have j: "40 \<le> j" using less.prems(3) by auto
    have kY: "k < length Y"
    proof (rule ccontr)
      assume "\<not> k < length Y"
      moreover have "Suc (k + length rst) = length Y + j"
        using arg_cong [OF 3(2), of length] less.prems(2) by simp
      ultimately have "(Y @ replicate j True) ! k = True" by (simp add: nth_append)
      moreover have "(replicate k True @ False # rst) ! k = False" by (simp add: nth_append)
      ultimately show False using 3(2) less.prems(2) by simp
    qed
    have rst: "rst = drop (Suc k) Y @ replicate j True"
    proof -
      have "rst = drop (Suc k) (to_read st)" using 3(2) by simp
      then show ?thesis using less.prems(2) kY by simp
    qed
    define p where "p = 4 * Suc k"
    have p: "p \<le> 32" using 3(1) by (simp add: p_def)
    define P R where "P = take p rst" and "R = drop p rst"
    have "length rst = length Y - Suc k + j" using rst by simp
    then have lenP: "length P = p" and R: "R \<noteq> []" using p j kY by (auto simp: P_def R_def)
    from nbits_exists [of P] obtain m where m: "m < 2 ^ p" "P = nbits p m" using lenP by auto
    have m16: "m < 16 ^ Suc k" using m(1) unfolding p_def power_mult by simp
    have "to_read st = replicate k True @ False # nbits (4 * Suc k) m @ R"
    proof -
      have "rst = nbits (4 * Suc k) m @ R"
        using append_take_drop_id [of p rst] m(2) by (simp only: P_def R_def p_def)
      then show ?thesis using 3(2) by simp
    qed
    from code_ok [OF less.prems(1) this R 3(1) m16, of prev] obtain st' y where
      st': "dezint4_loop prev st = map_option ((#) y) (dezint4_loop y st')" "reader_ok st'" "to_read st' = R"
      by blast
    define Y' j' where "Y' = drop p (drop (Suc k) Y)" and "j' = j - (p - (length Y - Suc k))"
    have R': "R = Y' @ replicate j' True"
      by (simp add: R_def rst Y'_def j'_def)
    have j': "40 \<le> j' \<or> Y' = [] \<and> 8 \<le> j'"
      using j p by (auto simp: Y'_def j'_def)
    have len': "length Y' + j' + p + Suc k = length Y + j"
      using kY j p by (simp add: Y'_def j'_def)
    then have "length Y' + j' < length Y + j" by linarith
    from less.hyps [OF this st'(2) _ j', of y] st'(3) R' obtain xs where
      "dezint4_loop y st' = Some xs" "5 * length xs + 8 \<le> length Y' + j'" by auto
    with st'(1) len' show ?thesis by (auto simp: p_def)
  qed
qed

subsection \<open>Properties\<close>

lemma length_codes: "is_codes prev xs bs \<Longrightarrow> length bs \<le> 40 * length xs"
proof (induction prev xs bs rule: is_codes.induct)
  case (2 prev x xs bs)
  then obtain cs ds where "bs = cs @ ds" "is_code (x - prev) cs" "length ds \<le> 40 * length xs" by auto
  moreover from this(2) have "length cs \<le> 40" by (auto simp: is_code_def zcode_def)
  ultimately show ?case by simp
qed simp

lemma bytes_bits_ff: "bytes_bits (replicate n 0xff) = replicate (8 * n) True"
proof (induction n)
  case (Suc n)
  have "nbits 8 255 = replicate 8 True" using nbits_ones [of 8] by simp
  with Suc show ?case by (simp add: replicate_add)
qed simp

lemma zint4_decodes:
  "udm_dezint4 (zint4_array state xs) = Some xs"
  and zint4_array_length: "5 \<le> length (zint4_array state xs)" "length (zint4_array state xs) \<le> 5 * length xs + 5"
proof -
  let ?s = "foldl udm_zint4 (udm_zint4_init state) xs" and ?buf = "zint4_array state xs"
  have init: "writer_ok (udm_zint4_init state)" "written (udm_zint4_init state) = []"
    "zs_prev (udm_zint4_init state) = 0"
    by (simp_all add: udm_zint4_init_def writer_ok_def written_def)
  from foldl_zint4_ok [OF init(1), of xs] init obtain bs where
    bs: "writer_ok ?s" "is_codes 0 xs bs" "written ?s = bs" by auto
  from zint4_finalize_ok [OF bs(1)] bs(3) obtain j where
    j: "40 \<le> j" "j < 48" "bytes_bits ?buf = bs @ replicate j True" by (auto simp: zint4_array_def)
  have buf: "?buf = (let s = (if zs_bits_left ?s < 8 then udm_zint4_write_bits ?s 0xff 8 else ?s)
      in zs_buf s @ replicate 5 0xff)"
    by (simp add: zint4_array_def udm_zint4_finalize_def Let_def numeral_eq_Suc)
  then have ends: "5 \<le> length ?buf" "drop (length ?buf - 5) ?buf = replicate 5 0xff" by (simp_all add: Let_def)
  then obtain b buf' where b: "?buf = b # buf'" by (cases ?buf) auto
  have "to_read (b, buf', 8) = bs @ replicate 8 True @ replicate (j - 8) True"
    using j b by (simp add: replicate_add [symmetric])
  from loop_codes [OF bs(2) _ this] have "dezint4_loop 0 (b, buf', 8) = Some xs" by simp
  with ends b show "udm_dezint4 ?buf = Some xs" by (simp add: udm_dezint4_def)
  show "5 \<le> length ?buf" by (rule ends(1))
  have "length bs \<le> 40 * length xs" by (rule length_codes [OF bs(2)])
  moreover have "8 * length ?buf = length bs + j" using arg_cong [OF j(3), of length] by simp
  ultimately show "length ?buf \<le> 5 * length xs + 5" using j(2) by auto
qed

text \<open>
  C4. Round trip of the integer codec: for every array of 32-bit numbers, in any order, with
  all wrap-arounds of the differences, reading what was written gives the array back; and the
  writer stays inside the \<open>5 * X + 5\<close> bytes that its comment asks the caller to provide.
\<close>

theorem zint4_roundtrip:
  "udm_dezint4 (zint4_array state xs) = Some xs \<and> length (zint4_array state xs) \<le> 5 * length xs + 5"
  by (simp add: zint4_decodes zint4_array_length)

text \<open>
  C27. The reader on any bytes: if the buffer has at least five of them, it returns, never
  reads behind the end of the buffer, and stores numbers of at most 7 bytes for each byte of
  the buffer, which is the room that its caller provides.
\<close>

theorem udm_dezint4_safe:
  assumes "5 \<le> length buf"
  shows "\<exists>xs. udm_dezint4 buf = Some xs \<and> 4 * length xs \<le> 7 * length buf"
proof (cases "drop (length buf - 5) buf = replicate 5 0xff")
  case True
  have "bytes_bits (replicate 5 0xff) = replicate 40 True" using bytes_bits_ff [of 5] by simp
  moreover define Y where "Y = bytes_bits (take (length buf - 5) buf)"
  moreover have "bytes_bits buf = bytes_bits (take (length buf - 5) buf) @ bytes_bits (drop (length buf - 5) buf)"
    by (simp only: bytes_bits_simps(3) [symmetric] append_take_drop_id)
  ultimately have bits: "bytes_bits buf = Y @ replicate 40 True" using True by simp
  obtain b buf' where b: "buf = b # buf'" using assms by (cases buf) auto
  have "to_read (b, buf', 8) = Y @ replicate 40 True" using bits b by simp
  from loop_total [OF _ this, of 0] obtain xs where
    xs: "dezint4_loop 0 (b, buf', 8) = Some xs" "5 * length xs + 8 \<le> length Y + 40" by auto
  moreover have "length Y + 40 = 8 * length buf" using arg_cong [OF bits, of length] by simp
  ultimately show ?thesis using True assms b by (auto simp: udm_dezint4_def)
qed (use assms in \<open>simp add: udm_dezint4_def\<close>)

theorem udm_dezint4_safe_witness:
  "\<exists>xs. udm_dezint4 [0x12, 0x34, 0xff, 0xff, 0xff, 0xff, 0xff] = Some xs \<and> 4 * length xs \<le> 7 * length [0x12, 0x34, 0xff, 0xff, 0xff, 0xff, 0xff :: byte]"
  by (rule udm_dezint4_safe) simp

end
