(* ===== verification/Blob_Url_Data.thy ===== *)
theory Blob_Url_Data
  imports GroupBy Zint4 Blob_Pack
begin

text \<open>
  The records \<open>#rec_id\<close>, \<open>#site_id\<close>, \<open>#last_mod_time\<close> and \<open>#pop_rank\<close> of the word index
  (\<^verbatim>\<open>src/dbmode-blob.c\<close>): their compression when they are written, their decompression when
  they are read, and the loading of a document list from them, which is where the integer
  codec, the growing strings and the grouping by site come together.

  The zlib library is a parameter: \<open>deflate n data\<close> and \<open>inflate n data\<close> are the bytes that
  its streams write to a buffer of \<open>n\<close> bytes.  The SQL queries are parameters too: the rows
  that are fetched, and the functions that load from the table \<open>url\<close> and apply the scores
  of the user.  Numbers are stored in memory with the low byte first.
\<close>

subsection \<open>Writing a record\<close>

definition UDM_BLOB_COMP_DEFLATE :: nat where "UDM_BLOB_COMP_DEFLATE = 1"
definition UDM_BLOB_COMP_ZINT4 :: nat where "UDM_BLOB_COMP_ZINT4 = 2"

definition UdmBlobWriteWordCmpr ::
  "(nat \<Rightarrow> byte list \<Rightarrow> byte list) \<Rightarrow> dstr option \<Rightarrow> bool \<Rightarrow> byte list \<Rightarrow> byte list" where
  "UdmBlobWriteWordCmpr deflate z use_zint4 data =
     (case z of
        None \<Rightarrow> data
      | Some z \<Rightarrow>
          if length data > 256 then
            let z = UdmDSTRReset z;
                (rc, z) = UdmDSTRRealloc z (length data + 8 + 1);
                (n, z) = UdmDSTRAppendCompressionType z
                  (if use_zint4 then UDM_BLOB_COMP_ZINT4_DEFLATE else UDM_BLOB_COMP_DEFLATE);
                z = z\<lparr>content := content z @ deflate (size_total z - size_data z)
                       (if use_zint4 then drop 8 data else data)\<rparr>
            in if size_data z < length data then content z else data
          else data)"

text \<open>The part of \<open>UdmBlobWriteURL\<close> that replaces the identifiers by their code.\<close>

definition zint4_rec_id :: "zint4_state \<Rightarrow> dstr \<Rightarrow> urlid_t list \<Rightarrow> dstr" where
  "zint4_rec_id zint4_state r rec_id =
     (let zint4_buf = zint4_array zint4_state (map word_of_int rec_id);
          r = UdmDSTRReset r;
          (n, r) = UdmDSTRAppendCompressionType r UDM_BLOB_COMP_ZINT4;
          (n, r) = UdmDSTRAppend r zint4_buf
      in r)"

subsection \<open>Reading a record\<close>

fun inflate_loop :: "(nat \<Rightarrow> byte list \<Rightarrow> byte list) \<Rightarrow> dstr \<Rightarrow> byte list \<Rightarrow> nat list \<Rightarrow> dstr \<times> byte list" where
  "inflate_loop inflate buf src [] = (buf, src)"
| "inflate_loop inflate buf src (m # mul) =
     (let nbytes = length src * m;
          (rc, buf) = UdmDSTRRealloc buf nbytes;
          res = inflate (size_total buf) src
      in if length res < size_total buf then (buf, res)
         else inflate_loop inflate buf src mul)"

definition int4_bytes :: "uint4 \<Rightarrow> byte list" where
  "int4_bytes x = udm_put_int4 (sint x)"

text \<open>The result is \<open>None\<close> when a null pointer is returned.\<close>

definition UdmBlobModeInflateOrSelf ::
  "(nat \<Rightarrow> byte list \<Rightarrow> byte list) \<Rightarrow> dstr \<Rightarrow> byte list option \<Rightarrow> dstr \<times> byte list option" where
  "UdmBlobModeInflateOrSelf inflate buf src =
     (case src of
        None \<Rightarrow> (buf, None)
      | Some s \<Rightarrow>
          if length s < 8 \<or> s ! 0 \<noteq> 0xFF \<or> s ! 1 \<noteq> 0xFF \<or> s ! 2 \<noteq> 0xFF \<or> s ! 3 \<noteq> 0xFF \<or>
             (s ! 4 \<noteq> 1 \<and> s ! 4 \<noteq> 2 \<and> s ! 4 \<noteq> 3) \<or> s ! 5 \<noteq> 0 \<or> s ! 6 \<noteq> 0 \<or> s ! 7 \<noteq> 0
          then (buf, Some s)
          else
            let use_zint4 = (s ! 4 = 2 \<or> s ! 4 = 3);
                use_deflate = (s ! 4 = 1 \<or> s ! 4 = 3);
                src = drop 8 s;
                (buf, src) = (if use_deflate then inflate_loop inflate buf src [10, 100, 1000, 10000]
                              else (buf, src))
            in if length src \<ge> 5 \<and> use_zint4 then
                 let (rc, buf) = (if size_total buf < length src * 7
                                  then UdmDSTRRealloc buf (length src * 7) else (UDM_OK, buf))
                 in (buf, map_option (\<lambda>xs. concat (map int4_bytes xs)) (udm_dezint4 src))
               else (buf, Some src))"

definition UdmBlobModeInflateOrAlloc ::
  "(nat \<Rightarrow> byte list \<Rightarrow> byte list) \<Rightarrow> dstr \<Rightarrow> byte list \<Rightarrow> dstr \<times> byte list option" where
  "UdmBlobModeInflateOrAlloc inflate buf src =
     (let (buf, res) = UdmBlobModeInflateOrSelf inflate buf (Some src)
      in if res = Some src
         then let (rc, buf) = UdmDSTRRealloc buf (length src) in (buf\<lparr>content := src\<rparr>, Some src)
         else (buf, res))"

subsection \<open>Filling the document list from the records\<close>

fun fill_doc :: "byte list option \<Rightarrow> byte list option \<Rightarrow> byte list option \<Rightarrow> (byte list \<Rightarrow> real) \<Rightarrow> nat \<Rightarrow>
    udm_urldata \<Rightarrow> udm_urldata option" where
  "fill_doc site_id_str last_mod_time_str pop_rank_str get_double i D =
     (case (case site_id_str of None \<Rightarrow> Some (ud_site_id D) | Some s \<Rightarrow> read_int4 s i) of
        None \<Rightarrow> None
      | Some site \<Rightarrow>
          (case (case pop_rank_str of None \<Rightarrow> Some (ud_pop_rank D)
                 | Some s \<Rightarrow> if i * 8 + 8 \<le> length s then Some (get_double (take 8 (drop (i * 8) s))) else None) of
             None \<Rightarrow> None
           | Some pop \<Rightarrow>
               (case (case last_mod_time_str of None \<Rightarrow> Some (ud_last_mod_time D) | Some s \<Rightarrow> read_int4 s i) of
                  None \<Rightarrow> None
                | Some lmt \<Rightarrow> Some (D\<lparr>ud_site_id := site, ud_pop_rank := pop, ud_last_mod_time := lmt\<rparr>))))"

text \<open>\<open>n\<close> is the number of rows that are left; \<open>None\<close> is a read outside of an array.\<close>

fun unpack_full_loop :: "(nat \<Rightarrow> udm_urldata \<Rightarrow> udm_urldata option) \<Rightarrow> byte list \<Rightarrow> nat \<Rightarrow> nat \<Rightarrow> nat \<Rightarrow>
    udm_urldata list \<Rightarrow> (udm_urldata list \<times> nat) option" where
  "unpack_full_loop fill rec_id_str i 0 j Item = Some (Item, j)"
| "unpack_full_loop fill rec_id_str i (Suc n) j Item =
     (case read_int4 rec_id_str i of
        None \<Rightarrow> None
      | Some rec_id \<Rightarrow>
          if length Item \<le> j then None
          else if rec_id = ud_url_id (Item ! j) then
            (case fill i (Item ! j) of
               None \<Rightarrow> None
             | Some D \<Rightarrow>
                 let Item = Item[j := D]; j = j + 1 in
                 if j = length Item then Some (Item, j)
                 else unpack_full_loop fill rec_id_str (Suc i) n j Item)
          else unpack_full_loop fill rec_id_str (Suc i) n j Item)"

definition UdmURLDataUnpackFull :: "udm_urldata list \<Rightarrow> nat \<Rightarrow> byte list \<Rightarrow> byte list option \<Rightarrow>
    byte list option \<Rightarrow> byte list option \<Rightarrow> (byte list \<Rightarrow> real) \<Rightarrow> (udm_urldata list \<times> nat) option" where
  "UdmURLDataUnpackFull Item nrows rec_id_str site_id_str last_mod_time_str pop_rank_str get_double =
     unpack_full_loop (fill_doc site_id_str last_mod_time_str pop_rank_str get_double) rec_id_str 0 nrows 0 Item"

text \<open>The condition of the inner loop reads the item before it tests the index.\<close>

function skip_lower :: "udm_urldata list \<Rightarrow> int \<Rightarrow> nat \<Rightarrow> nat option" where
  "skip_lower Data rec_id j =
     (if j < length Data then
        (if rec_id > ud_url_id (Data ! j) then skip_lower Data rec_id (j + 1) else Some j)
      else None)"
  by pat_completeness auto
termination by (relation "measure (\<lambda>(Data, r, j). length Data - j)") auto

declare skip_lower.simps [simp del]

fun unpack_rec_id_loop :: "udm_urldata list \<Rightarrow> byte list \<Rightarrow> nat \<Rightarrow> nat \<Rightarrow> nat \<Rightarrow> nat option" where
  "unpack_rec_id_loop Data rec_id_str i 0 j = Some j"
| "unpack_rec_id_loop Data rec_id_str i (Suc n) j =
     (case read_int4 rec_id_str i of
        None \<Rightarrow> None
      | Some rec_id \<Rightarrow>
          (case skip_lower Data rec_id j of
             None \<Rightarrow> None
           | Some j \<Rightarrow>
               if rec_id = ud_url_id (Data ! j) then
                 (if j + 1 = length Data then Some (j + 1)
                  else unpack_rec_id_loop Data rec_id_str (Suc i) n (j + 1))
               else unpack_rec_id_loop Data rec_id_str (Suc i) n j))"

definition UdmURLDataUnpackRecID :: "udm_urldata list \<Rightarrow> nat \<Rightarrow> byte list \<Rightarrow> nat option" where
  "UdmURLDataUnpackRecID Data nrows rec_id_str =
     (case unpack_rec_id_loop Data rec_id_str 0 nrows 0 of
        None \<Rightarrow> None
      | Some j \<Rightarrow> Some (if j < length Data then length Data else j))"

subsection \<open>Loading from the word index\<close>

definition UDM_URLDATA_SITE :: nat where "UDM_URLDATA_SITE = 2"
definition UDM_URLDATA_POP :: nat where "UDM_URLDATA_POP = 4"
definition UDM_URLDATA_LM :: nat where "UDM_URLDATA_LM = 8"
definition UDM_URLDATA_SITE_RANK :: nat where "UDM_URLDATA_SITE_RANK = 64"

record url_records =
  ur_rec_id :: "byte list option"
  ur_site_id :: "byte list option"
  ur_last_mod_time :: "byte list option"
  ur_pop_rank :: "byte list option"

definition no_records :: url_records where
  "no_records = \<lparr>ur_rec_id = None, ur_site_id = None, ur_last_mod_time = None, ur_pop_rank = None\<rparr>"

definition fetch_row :: "(nat \<Rightarrow> byte list \<Rightarrow> byte list) \<Rightarrow> dstr \<Rightarrow> url_records \<Rightarrow> string \<times> byte list \<Rightarrow> url_records" where
  "fetch_row inflate buf r row =
     (let v = snd (UdmBlobModeInflateOrAlloc inflate buf (snd row)) in
      if fst row = ''#rec_id'' then r\<lparr>ur_rec_id := v\<rparr>
      else if fst row = ''#site_id'' then r\<lparr>ur_site_id := v\<rparr>
      else if fst row = ''#last_mod_time'' then r\<lparr>ur_last_mod_time := v\<rparr>
      else if fst row = ''#pop_rank'' then r\<lparr>ur_pop_rank := v\<rparr>
      else r)"

definition UdmLoadURLDataFromBdict ::
  "(nat \<Rightarrow> byte list \<Rightarrow> byte list) \<Rightarrow> dstr \<Rightarrow> (byte list \<Rightarrow> real) \<Rightarrow>
   (udm_urldata list \<Rightarrow> udm_rc \<times> udm_urldata list) \<Rightarrow> (udm_urldata list \<Rightarrow> udm_rc \<times> udm_urldata list) \<Rightarrow>
   udm_rc \<times> (string \<times> byte list) list \<Rightarrow> nat \<Rightarrow> udm_urldata list \<Rightarrow> (udm_rc \<times> udm_urldata list) option" where
  "UdmLoadURLDataFromBdict inflate buf get_double load_from_url apply_user_site_score result flags DataList =
     (let need_pop_rank = (flags AND UDM_URLDATA_POP \<noteq> 0);
          need_last_mod_time = (flags AND UDM_URLDATA_LM \<noteq> 0);
          group_by_site = (flags AND UDM_URLDATA_SITE \<noteq> 0);
          need_site_id = (flags AND (UDM_URLDATA_SITE OR UDM_URLDATA_SITE_RANK) \<noteq> 0);
          (rc, rows) = result
      in
      if rc \<noteq> UDM_OK then Some (rc, DataList)
      else
        let r = foldl (fetch_row inflate buf) no_records rows;
            need_pop_rank = (if ur_pop_rank r = None then False else need_pop_rank)
        in
        (case ur_rec_id r of
           None \<Rightarrow> Some (load_from_url DataList)
         | Some rec_id_str \<Rightarrow>
             if rec_id_str \<noteq> [] \<and> (ur_site_id r \<noteq> None \<or> \<not> need_site_id) \<and>
                (ur_last_mod_time r \<noteq> None \<or> \<not> need_last_mod_time)
             then
               let nrows = length rec_id_str div 4;
                   unpacked =
                     (if need_pop_rank \<or> need_last_mod_time \<or> (\<not> group_by_site \<and> need_site_id) then
                        map_option (\<lambda>(Item, j). (Item, j, group_by_site))
                          (UdmURLDataUnpackFull DataList nrows rec_id_str
                            (if need_site_id then ur_site_id r else None)
                            (if need_last_mod_time then ur_last_mod_time r else None)
                            (if need_pop_rank then ur_pop_rank r else None) get_double)
                      else if group_by_site \<and> need_site_id then
                        map_option (\<lambda>Item. (Item, length Item, False))
                          (UdmURLDataListGroupBySiteUsingHash rec_id_str (the (ur_site_id r)) DataList)
                      else
                        map_option (\<lambda>j. (DataList, j, group_by_site))
                          (UdmURLDataUnpackRecID DataList nrows rec_id_str))
               in
               (case unpacked of
                  None \<Rightarrow> None
                | Some (Item, j, group_by_site) \<Rightarrow>
                    if j \<noteq> length Item then Some (load_from_url Item)
                    else if group_by_site then
                      Some (UdmURLDataListGroupBySiteUsingSort apply_user_site_score Item)
                    else Some (UDM_OK, Item))
             else Some (load_from_url DataList)))"

subsection \<open>The codec of the records\<close>

definition header :: "nat \<Rightarrow> byte list" where
  "header t = udm_put_int4 (- 1) @ udm_put_int4 (int t)"

lemma header_bytes:
  "header 1 = [0xFF, 0xFF, 0xFF, 0xFF, 1, 0, 0, 0]"
  "header 2 = [0xFF, 0xFF, 0xFF, 0xFF, 2, 0, 0, 0]"
  "header 3 = [0xFF, 0xFF, 0xFF, 0xFF, 3, 0, 0, 0]"
  by (simp_all add: header_def udm_put_int4_def drop_bit_eq_div)

lemma length_header [simp]: "length (header t) = 8"
  by (simp add: header_def udm_put_int4_def)

lemma AppendCompressionType_header:
  assumes "t \<le> 3"
  shows "content (snd (UdmDSTRAppendCompressionType d t)) = content d @ header t"
    and "dstr_ok d \<Longrightarrow> dstr_ok (snd (UdmDSTRAppendCompressionType d t))"
    and "size_total d \<le> size_total (snd (UdmDSTRAppendCompressionType d t))"
proof -
  have "udm_put_int4 (- 1) \<noteq> []" by (simp add: udm_put_int4_def)
  then have e: "UdmDSTRAppendCompressionType d t =
      UdmDSTRAppend (snd (UdmDSTRAppend d (udm_put_int4 (- 1)))) (udm_put_int4 (int t))"
    using assms by (simp add: UdmDSTRAppendCompressionType_def UdmDSTRAppendINT4_def split_beta
        dbuf.append_size UDM_BLOB_COMP_ZINT4_DEFLATE_def)
  show "content (snd (UdmDSTRAppendCompressionType d t)) = content d @ header t"
    by (simp add: e dbuf.contents_append header_def)
  show "dstr_ok d \<Longrightarrow> dstr_ok (snd (UdmDSTRAppendCompressionType d t))"
    by (simp add: e dbuf.ok_append)
  have "size_total d \<le> size_total (snd (UdmDSTRAppend d xs))" for d xs
    by (simp add: UdmDSTRAppend_def Let_def)
  then show "size_total d \<le> size_total (snd (UdmDSTRAppendCompressionType d t))"
    unfolding e by (meson order_trans)
qed

text \<open>What is relied on of zlib: a stream that fits into the buffer is complete, a smaller
  buffer is filled up, and the factor of the compression is at most 1032.\<close>

definition zlib_ok :: "(byte list \<Rightarrow> byte list) \<Rightarrow> (nat \<Rightarrow> byte list \<Rightarrow> byte list) \<Rightarrow> bool" where
  "zlib_ok stream inflate \<longleftrightarrow>
     (\<forall>data n. inflate n (stream data) = take n data) \<and>
     (\<forall>data. stream data \<noteq> [] \<and> length data \<le> 1032 * length (stream data))"

lemma inflate_loop_ok:
  assumes "zlib_ok stream inflate" "dstr_ok buf" "\<exists>m \<in> set mul. length data < length (stream data) * m"
  shows "snd (inflate_loop inflate buf (stream data) mul) = data"
  using assms(2,3)
proof (induction mul arbitrary: buf)
  case (Cons m mul)
  obtain rc buf' where b: "UdmDSTRRealloc buf (length (stream data) * m) = (rc, buf')" by fastforce
  from UdmDSTRRealloc_room [OF Cons.prems(1) b]
  have room: "dstr_ok buf'" "length (stream data) * m \<le> size_total buf'" by auto
  have inf: "inflate (size_total buf') (stream data) = take (size_total buf') data"
    using assms(1) unfolding zlib_ok_def by blast
  show ?case
  proof (cases "length data < size_total buf'")
    case True
    then show ?thesis by (simp add: b inf)
  next
    case False
    then have "\<exists>m \<in> set mul. length data < length (stream data) * m" using Cons.prems(2) room(2) by auto
    with Cons.IH [OF room(1)] False show ?thesis by (simp add: b inf)
  qed
qed simp

lemma inflate_10000:
  assumes "zlib_ok stream inflate" "dstr_ok buf"
  shows "snd (inflate_loop inflate buf (stream data) [10, 100, 1000, 10000]) = data"
proof (rule inflate_loop_ok [OF assms])
  have "length data \<le> 1032 * length (stream data)" "0 < length (stream data)"
    using assms(1) by (auto simp: zlib_ok_def)
  then have "length data < length (stream data) * 10000" by linarith
  then show "\<exists>m \<in> set [10, 100, 1000, 10000]. length data < length (stream data) * m" by (intro bexI [of _ 10000]) simp_all
qed

lemma OrSelf_deflate:
  assumes "zlib_ok stream inflate" "dstr_ok buf"
  shows "snd (UdmBlobModeInflateOrSelf inflate buf (Some (header 1 @ stream data))) = Some data"
  using inflate_10000 [OF assms, of data]
  by (simp add: UdmBlobModeInflateOrSelf_def header_bytes [unfolded One_nat_def] split_beta Let_def del: inflate_loop.simps)

lemma OrSelf_zint4:
  assumes "5 \<le> length p" "udm_dezint4 p = Some xs"
  shows "snd (UdmBlobModeInflateOrSelf inflate buf (Some (header 2 @ p))) = Some (concat (map int4_bytes xs))"
  using assms by (simp add: UdmBlobModeInflateOrSelf_def header_bytes split_beta)

lemma OrSelf_zint4_deflate:
  assumes "zlib_ok stream inflate" "dstr_ok buf" "5 \<le> length p" "udm_dezint4 p = Some xs"
  shows "snd (UdmBlobModeInflateOrSelf inflate buf (Some (header 3 @ stream p))) = Some (concat (map int4_bytes xs))"
  using inflate_10000 [OF assms(1,2), of p] assms(3,4)
  by (simp add: UdmBlobModeInflateOrSelf_def header_bytes split_beta Let_def del: inflate_loop.simps)

lemma OrAlloc_OrSelf:
  "snd (UdmBlobModeInflateOrAlloc inflate buf s) = snd (UdmBlobModeInflateOrSelf inflate buf (Some s))"
  by (simp add: UdmBlobModeInflateOrAlloc_def split_beta)

lemma WriteWordCmpr_cases:
  assumes "\<forall>d. z = Some d \<longrightarrow> dstr_ok d"
  shows "UdmBlobWriteWordCmpr (\<lambda>n data. take n (stream data)) z use_zint4 data =
    (if use_zint4 then header 3 @ stream (drop 8 data) else header 1 @ stream data) \<or>
    UdmBlobWriteWordCmpr (\<lambda>n data. take n (stream data)) z use_zint4 data = data"
proof (cases "z = None \<or> length data \<le> 256")
  case False
  then obtain d where z: "z = Some d" and big: "length data > 256" by auto
  define t where "t = (if use_zint4 then 3 else 1 :: nat)"
  define p where "p = (if use_zint4 then drop 8 data else data)"
  have ok: "dstr_ok (UdmDSTRReset d)" using assms z by (simp add: dstr_ok_def UdmDSTRReset_def)
  obtain rc d1 where d1: "UdmDSTRRealloc (UdmDSTRReset d) (length data + 8 + 1) = (rc, d1)" by fastforce
  from UdmDSTRRealloc_room [OF ok d1]
  have d1': "length data + 9 \<le> size_total d1" "content d1 = []" by (simp_all add: UdmDSTRReset_def)
  define d2 where "d2 = snd (UdmDSTRAppendCompressionType d1 t)"
  have d2: "content d2 = header t" "length data + 9 \<le> size_total d2"
  proof -
    have t: "t \<le> 3" by (simp add: t_def)
    show "content d2 = header t" using AppendCompressionType_header(1) [OF t, of d1] d1'(2) by (simp add: d2_def)
    show "length data + 9 \<le> size_total d2"
      using AppendCompressionType_header(3) [OF t, of d1] d1'(1) by (simp add: d2_def)
  qed
  have "UdmBlobWriteWordCmpr (\<lambda>n data. take n (stream data)) z use_zint4 data =
      (let z = d2\<lparr>content := content d2 @ take (size_total d2 - size_data d2) (stream p)\<rparr>
       in if size_data z < length data then content z else data)"
    using big d1
    by (simp add: UdmBlobWriteWordCmpr_def z split_beta Let_def UDM_BLOB_COMP_ZINT4_DEFLATE_def
        UDM_BLOB_COMP_DEFLATE_def d2_def t_def p_def)
  then have e: "UdmBlobWriteWordCmpr (\<lambda>n data. take n (stream data)) z use_zint4 data =
      (if length (header t @ take (size_total d2 - 8) (stream p)) < length data
       then header t @ take (size_total d2 - 8) (stream p) else data)"
    by (simp add: Let_def d2(1))
  show ?thesis
  proof (cases "length (stream p) \<le> size_total d2 - 8")
    case True
    then show ?thesis unfolding e by (simp add: t_def p_def)
  next
    case False
    then show ?thesis unfolding e using d2(2) by simp
  qed
qed (cases z, simp_all add: UdmBlobWriteWordCmpr_def)

lemma zint4_rec_id_content: "content (zint4_rec_id st r ids) = header 2 @ zint4_array st (map word_of_int ids)"
  using AppendCompressionType_header(1) [of 2 "UdmDSTRReset r"]
  by (simp add: zint4_rec_id_def Let_def split_beta dbuf.contents_append UDM_BLOB_COMP_ZINT4_def UdmDSTRReset_def)

lemma int4_bytes_of_int: "is_int4 i \<Longrightarrow> int4_bytes (word_of_int i) = udm_put_int4 i"
  using int4_of_id [of i] by (simp add: int4_bytes_def sint_sbintrunc' int4_of_def)

lemma zint4_rec_id_length: "5 \<le> length (zint4_array st xs)"
  using zint4_array_length by blast

subsection \<open>Properties\<close>

text \<open>
  C5. The record \<open>#rec_id\<close> comes back as it was written: for every list of positive
  identifiers, with or without the integer code, with or without compression (which is only
  used when it makes the record shorter), the reader delivers the bytes of the identifiers in
  their order.
\<close>

theorem rec_id_record_roundtrip:
  assumes "zlib_ok stream inflate" "dstr_ok buf" "\<forall>d. z = Some d \<longrightarrow> dstr_ok d"
    and "\<forall>i \<in> set ids. 0 \<le> i \<and> i < 2147483648"
  shows "snd (UdmBlobModeInflateOrAlloc inflate buf
      (UdmBlobWriteWordCmpr (\<lambda>n data. take n (stream data)) z use_zint4
        (if use_zint4 then content (zint4_rec_id st r ids) else concat (map udm_put_int4 ids)))) =
    Some (concat (map udm_put_int4 ids))"
proof (cases use_zint4)
  case True
  let ?p = "zint4_array st (map word_of_int ids)"
  have p: "5 \<le> length ?p" "udm_dezint4 ?p = Some (map word_of_int ids)"
    using zint4_array_length zint4_decodes by blast+
  have b: "concat (map int4_bytes (map word_of_int ids)) = concat (map udm_put_int4 ids)"
  proof -
    have "int4_bytes (word_of_int i) = udm_put_int4 i" if "i \<in> set ids" for i
      using assms(4) that by (intro int4_bytes_of_int) force
    then show ?thesis by (simp cong: map_cong)
  qed
  show ?thesis
    using WriteWordCmpr_cases [OF assms(3), of stream True "content (zint4_rec_id st r ids)"]
      OrSelf_zint4 [OF p, of inflate buf] OrSelf_zint4_deflate [OF assms(1,2) p]
    unfolding OrAlloc_OrSelf b by (auto simp: True zint4_rec_id_content)
next
  case False
  have plain: "snd (UdmBlobModeInflateOrSelf inflate buf (Some (concat (map udm_put_int4 ids)))) =
      Some (concat (map udm_put_int4 ids))"
  proof (cases ids)
    case (Cons i rest)
    then have "0 \<le> i" "i < 2147483648" using assms(4) by auto
    then have "drop_bit 24 i < 128" "0 \<le> drop_bit 24 i" by (simp_all add: drop_bit_eq_div)
    then have "word_of_int (drop_bit 24 i) \<noteq> (0xFF :: byte)"
      by (auto dest!: arg_cong [of _ _ uint] simp: uint_word_of_int)
    then show ?thesis by (simp add: UdmBlobModeInflateOrSelf_def Cons udm_put_int4_def)
  qed (simp add: UdmBlobModeInflateOrSelf_def)
  show ?thesis
    using WriteWordCmpr_cases [OF assms(3), of stream False "concat (map udm_put_int4 ids)"]
      OrSelf_deflate [OF assms(1,2)] plain
    unfolding OrAlloc_OrSelf by (auto simp: False)
qed

definition example_dstr :: dstr where
  "example_dstr = \<lparr>content = [], size_total = 64, size_page = 64, free = True\<rparr>"

lemma zlib_ok_store: "zlib_ok (\<lambda>data. 0 # data) (\<lambda>n s. take n (drop 1 s))"
  by (simp add: zlib_ok_def)

theorem rec_id_record_roundtrip_witness:
  "snd (UdmBlobModeInflateOrAlloc (\<lambda>n s. take n (drop 1 s)) example_dstr
      (UdmBlobWriteWordCmpr (\<lambda>n data. take n (0 # data)) (Some example_dstr) True
        (if True then content (zint4_rec_id \<lparr>zs_prev = 0, zs_buf = [], zs_cur = 0, zs_bits_left = 8\<rparr> example_dstr [3, 5, 900])
         else concat (map udm_put_int4 [3, 5, 900])))) =
    Some (concat (map udm_put_int4 [3, 5, 900]))"
  by (rule rec_id_record_roundtrip [OF zlib_ok_store]) (simp_all add: example_dstr_def dstr_ok_def)

subsection \<open>Filling the list\<close>

abbreviation ids_str :: "int list \<Rightarrow> byte list" where
  "ids_str ids \<equiv> concat (map udm_put_int4 ids)"

abbreviation int4s :: "int list \<Rightarrow> bool" where
  "int4s ids \<equiv> \<forall>i \<in> set ids. is_int4 i"

lemma read_ids: "int4s ids \<Longrightarrow> i < length ids \<Longrightarrow> read_int4 (ids_str ids) i = Some (ids ! i)"
  by (rule read_int4_concat) simp_all

lemma sorted_later:
  assumes "sorted_wrt (<) (xs :: int list)" "i < length xs" "xs ! i < x" "x \<in> set xs"
  shows "x \<in> set (drop (Suc i) xs)"
proof -
  obtain k where k: "k < length xs" "xs ! k = x" using assms(4) by (auto simp: in_set_conv_nth)
  have "i < k"
  proof (rule ccontr)
    assume "\<not> i < k"
    then have "xs ! k \<le> xs ! i" using sorted_wrt_nth_less [OF assms(1), of k i] assms(2) by (cases "k = i") auto
    then show False using assms(3) k by simp
  qed
  then have "drop (Suc i) xs ! (k - Suc i) = x" "k - Suc i < length (drop (Suc i) xs)" using k by simp_all
  then show ?thesis by (metis nth_mem)
qed

definition filled :: "(nat \<Rightarrow> udm_urldata \<Rightarrow> udm_urldata option) \<Rightarrow> int list \<Rightarrow> udm_urldata \<Rightarrow> udm_urldata \<Rightarrow> bool" where
  "filled fill ids it D \<longleftrightarrow> (\<exists>i < length ids. ids ! i = ud_url_id it \<and> fill i it = Some D)"

lemma unpack_full_loop_ok:
  assumes ids: "sorted_wrt (<) ids" "int4s ids"
    and fill: "\<And>i D. i < length ids \<Longrightarrow> \<exists>E. fill i D = Some E \<and> ud_url_id E = ud_url_id D"
  shows "sorted_wrt (<) (map ud_url_id Item) \<Longrightarrow> j < length Item \<Longrightarrow> i + n = length ids \<Longrightarrow>
    ud_url_id (Item ! j) \<in> set ids \<longrightarrow> ud_url_id (Item ! j) \<in> set (drop i ids) \<Longrightarrow>
    \<exists>L. unpack_full_loop fill (ids_str ids) i n j Item =
        Some (L, j + length (takeWhile (\<lambda>it. ud_url_id it \<in> set ids) (drop j Item))) \<and>
      length L = length Item \<and>
      (\<forall>k < length Item. if j \<le> k \<and> k < j + length (takeWhile (\<lambda>it. ud_url_id it \<in> set ids) (drop j Item))
         then filled fill ids (Item ! k) (L ! k) else L ! k = Item ! k)"
proof (induction n arbitrary: i j Item)
  case 0
  then have "takeWhile (\<lambda>it. ud_url_id it \<in> set ids) (drop j Item) = []"
    by (simp add: Cons_nth_drop_Suc [symmetric])
  then show ?case by auto
next
  case (Suc n)
  let ?P = "\<lambda>it. ud_url_id it \<in> set ids"
  have i: "i < length ids" using Suc.prems(3) by simp
  have dj: "drop j Item = Item ! j # drop (Suc j) Item" using Suc.prems(2) by (simp add: Cons_nth_drop_Suc)
  have di: "drop i ids = ids ! i # drop (Suc i) ids" using i by (simp add: Cons_nth_drop_Suc)
  note rd = read_ids [OF ids(2) i]
  show ?case
  proof (cases "ids ! i = ud_url_id (Item ! j)")
    case True
    from fill [OF i] obtain D where D: "fill i (Item ! j) = Some D" "ud_url_id D = ud_url_id (Item ! j)" by blast
    have inj: "?P (Item ! j)" using True i by (metis nth_mem)
    have fl: "filled fill ids (Item ! j) D" unfolding filled_def using True D i by blast
    show ?thesis
    proof (cases "j + 1 = length Item")
      case last: True
      then have "takeWhile ?P (drop j Item) = [Item ! j]" unfolding dj using inj by simp
      moreover have "if j \<le> k \<and> k < j + 1 then filled fill ids (Item ! k) (Item[j := D] ! k) else Item[j := D] ! k = Item ! k"
        if "k < length Item" for k
        using that fl Suc.prems(2) by (cases "k = j") auto
      ultimately show ?thesis
        using last True D rd Suc.prems(2) by (intro exI [of _ "Item[j := D]"]) simp
    next
      case False
      let ?I = "Item[j := D]"
      have j: "Suc j < length ?I" using False Suc.prems(2) by simp
      have map: "map ud_url_id ?I = map ud_url_id Item"
        using D(2) by (metis list_update_id map_update)
      have lt: "ids ! i < ud_url_id (Item ! Suc j)"
        using sorted_wrt_nth_less [OF Suc.prems(1), of j "Suc j"] j True by simp
      have nxt: "ud_url_id (?I ! Suc j) \<in> set ids \<longrightarrow> ud_url_id (?I ! Suc j) \<in> set (drop (Suc i) ids)"
        using sorted_later [OF ids(1) i lt] by simp
      define t where "t = length (takeWhile ?P (drop (Suc j) Item))"
      have t: "length (takeWhile ?P (drop (Suc j) ?I)) = t" "length (takeWhile ?P (drop j Item)) = Suc t"
        using inj by (simp_all add: t_def dj)
      from Suc.IH [of ?I "Suc j" "Suc i", unfolded map t(1), OF Suc.prems(1) j _ nxt] Suc.prems(3)
      obtain L where L: "unpack_full_loop fill (ids_str ids) (Suc i) n (Suc j) ?I = Some (L, Suc j + t)"
        "length L = length Item"
        "\<And>k. k < length Item \<Longrightarrow> if Suc j \<le> k \<and> k < Suc j + t then filled fill ids (?I ! k) (L ! k) else L ! k = ?I ! k"
        by auto
      have "if j \<le> k \<and> k < j + Suc t then filled fill ids (Item ! k) (L ! k) else L ! k = Item ! k"
        if k: "k < length Item" for k
        using L(3) [OF k] fl Suc.prems(2) by (cases "k = j") (auto split: if_splits)
      moreover have "unpack_full_loop fill (ids_str ids) i (Suc n) j Item = Some (L, j + Suc t)"
        using L(1) True D(1) rd False Suc.prems(2) by (simp add: Let_def)
      ultimately show ?thesis using L(2) unfolding t(2) by blast
    qed
  next
    case False
    then have nxt: "?P (Item ! j) \<longrightarrow> ud_url_id (Item ! j) \<in> set (drop (Suc i) ids)"
      using Suc.prems(4) unfolding di by auto
    from Suc.IH [OF Suc.prems(1,2) _ nxt] Suc.prems(3) rd False Suc.prems(2) show ?thesis by simp
  qed
qed

text \<open>
  Loading the fields of the documents from the records (documents and \<open>#rec_id\<close> strictly
  ascending, the other records as long as it): the number that is returned is the length of
  the longest prefix of documents that have a row; exactly those get the values of their
  rows, all others are left as they were, and no read is outside of a record.  So all
  documents are loaded if and only if the result is the length of the list, which is the test
  of the caller before it falls back to the table \<open>url\<close>.
\<close>

theorem UdmURLDataUnpackFull_loads:
  assumes "sorted_wrt (<) ids" "\<forall>i \<in> set ids. is_int4 i" "sorted_wrt (<) (map ud_url_id Item)" "Item \<noteq> []"
    and "\<forall>s. site = Some s \<longrightarrow> length s = 4 * length ids" "\<forall>s. lmt = Some s \<longrightarrow> length s = 4 * length ids"
    and "\<forall>s. pop = Some s \<longrightarrow> length s = 8 * length ids"
  shows "\<exists>L. UdmURLDataUnpackFull Item (length ids) (concat (map udm_put_int4 ids)) site lmt pop get_double =
      Some (L, length (takeWhile (\<lambda>it. ud_url_id it \<in> set ids) Item)) \<and> length L = length Item \<and>
    (\<forall>k < length Item. if k < length (takeWhile (\<lambda>it. ud_url_id it \<in> set ids) Item)
       then filled (fill_doc site lmt pop get_double) ids (Item ! k) (L ! k) else L ! k = Item ! k)"
proof -
  have "\<exists>E. fill_doc site lmt pop get_double i D = Some E \<and> ud_url_id E = ud_url_id D" if "i < length ids" for i D
    using that assms(5-7) by (cases site; cases lmt; cases pop) (simp_all add: read_int4_def)
  from unpack_full_loop_ok [of ids "fill_doc site lmt pop get_double" Item 0 0 "length ids", OF assms(1,2) this assms(3)] assms(4)
  show ?thesis by (simp add: UdmURLDataUnpackFull_def)
qed

definition example_ids :: "int list" where
  "example_ids = [2, 3, 9]"

theorem UdmURLDataUnpackFull_loads_witness:
  "\<exists>L. UdmURLDataUnpackFull [ud_example 3 50, ud_example 5 20] (length example_ids) (concat (map udm_put_int4 example_ids))
       (Some (concat (map udm_put_int4 [7, 7, 8]))) None None (\<lambda>b. 0) =
      Some (L, length (takeWhile (\<lambda>it. ud_url_id it \<in> set example_ids) [ud_example 3 50, ud_example 5 20])) \<and>
      length L = length [ud_example 3 50, ud_example 5 20] \<and>
    (\<forall>k < length [ud_example 3 50, ud_example 5 20].
       if k < length (takeWhile (\<lambda>it. ud_url_id it \<in> set example_ids) [ud_example 3 50, ud_example 5 20])
       then filled (fill_doc (Some (concat (map udm_put_int4 [7, 7, 8]))) None None (\<lambda>b. 0)) example_ids
         ([ud_example 3 50, ud_example 5 20] ! k) (L ! k)
       else L ! k = [ud_example 3 50, ud_example 5 20] ! k)"
  by (rule UdmURLDataUnpackFull_loads) (simp_all add: example_ids_def ud_example_def udm_put_int4_def)

subsection \<open>Checking the identifiers\<close>

lemma last_greatest:
  assumes "sorted_wrt (<) (map ud_url_id Data)" "j < length Data"
  shows "ud_url_id (Data ! j) \<le> ud_url_id (last Data)"
    and "ud_url_id (last Data) \<le> ud_url_id (Data ! j) \<Longrightarrow> j + 1 = length Data"
proof -
  have ne: "Data \<noteq> []" "length Data - 1 < length (map ud_url_id Data)" using assms(2) by auto
  then have lst: "last Data = Data ! (length Data - 1)" by (simp add: last_conv_nth)
  have lt: "ud_url_id (Data ! j) < ud_url_id (last Data)" if "j < length Data - 1"
    using sorted_wrt_nth_less [OF assms(1) that ne(2)] that ne(2) unfolding lst by simp
  show "ud_url_id (Data ! j) \<le> ud_url_id (last Data)"
    using lt assms(2) lst by (cases "j = length Data - 1") fastforce+
  show "j + 1 = length Data" if "ud_url_id (last Data) \<le> ud_url_id (Data ! j)"
    using lt that assms(2) by fastforce
qed

lemma skip_lower_ok:
  assumes "sorted_wrt (<) (map ud_url_id Data)" "j < length Data"
  shows "if r \<le> ud_url_id (last Data)
    then \<exists>j'. skip_lower Data r j = Some j' \<and> j \<le> j' \<and> j' < length Data \<and> r \<le> ud_url_id (Data ! j')
    else skip_lower Data r j = None"
  using assms
proof (induction Data r j rule: skip_lower.induct)
  case (1 Data r j)
  have lst: "last Data = Data ! (length Data - 1)" using "1.prems"(2) by (intro last_conv_nth) auto
  show ?case
  proof (cases "r > ud_url_id (Data ! j)")
    case True
    show ?thesis
    proof (cases "j + 1 < length Data")
      case more: True
      from "1.IH" [OF "1.prems"(2) True "1.prems"(1) more]
      show ?thesis using True "1.prems"(2) by (subst (1 2) skip_lower.simps) (auto split: if_splits)
    next
      case False
      then have "j = length Data - 1" using "1.prems"(2) by simp
      with True lst have "\<not> r \<le> ud_url_id (last Data)" by simp
      moreover have "skip_lower Data r (j + 1) = None" using False by (subst skip_lower.simps) simp
      ultimately show ?thesis using True "1.prems"(2) by (subst (1 2) skip_lower.simps) simp
    qed
  next
    case False
    have "ud_url_id (Data ! j) \<le> ud_url_id (last Data)"
      by (rule last_greatest [OF "1.prems"])
    then show ?thesis using False "1.prems"(2) by (subst (1 2) skip_lower.simps) auto
  qed
qed

lemma unpack_rec_id_loop_ok:
  assumes ids: "sorted_wrt (<) ids" "int4s ids" and Data: "sorted_wrt (<) (map ud_url_id Data)"
  defines "z \<equiv> ud_url_id (last Data)"
  shows "j < length Data \<Longrightarrow> i + n = length ids \<Longrightarrow>
    if z \<in> set (drop i ids) \<or> (\<forall>r \<in> set (drop i ids). r \<le> z)
    then \<exists>j'. unpack_rec_id_loop Data (ids_str ids) i n j = Some j' \<and> j' \<le> length Data
    else unpack_rec_id_loop Data (ids_str ids) i n j = None"
proof (induction n arbitrary: i j)
  case (Suc n)
  have i: "i < length ids" using Suc.prems(2) by simp
  have di: "drop i ids = ids ! i # drop (Suc i) ids" using i by (simp add: Cons_nth_drop_Suc)
  have above: "\<forall>r \<in> set (drop (Suc i) ids). ids ! i < r"
    using ids(1) id_take_nth_drop [OF i] by (metis list.set_intros(1) sorted_wrt_append sorted_wrt.simps(2))
  note rd = read_ids [OF ids(2) i] and sk = skip_lower_ok [OF Data Suc.prems(1), of "ids ! i", folded z_def]
  show ?case
  proof (cases "ids ! i \<le> z")
    case True
    with sk obtain j' where j': "skip_lower Data (ids ! i) j = Some j'" "j' < length Data"
      "ids ! i \<le> ud_url_id (Data ! j')" by auto
    have lst: "last Data = Data ! (length Data - 1)" using Suc.prems(1) by (intro last_conv_nth) auto
    show ?thesis
    proof (cases "ids ! i = ud_url_id (Data ! j') \<and> j' + 1 = length Data")
      case end_: True
      then have "j' = length Data - 1" by linarith
      then have "z = ids ! i" using end_ lst by (simp add: z_def)
      with end_ rd j' show ?thesis by (simp add: di)
    next
      case False
      have "ids ! i \<noteq> z"
      proof
        assume "ids ! i = z"
        then have "j' + 1 = length Data" "ids ! i = ud_url_id (Data ! j')"
          using last_greatest [OF Data j'(2)] j'(3) by (auto simp: z_def)
        with False j'(2) show False by auto
      qed
      with True have eq: "(z \<in> set (drop i ids) \<or> (\<forall>r \<in> set (drop i ids). r \<le> z)) \<longleftrightarrow>
          (z \<in> set (drop (Suc i) ids) \<or> (\<forall>r \<in> set (drop (Suc i) ids). r \<le> z))"
        unfolding di by auto
      define j2 where "j2 = (if ids ! i = ud_url_id (Data ! j') then j' + 1 else j')"
      have j2: "j2 < length Data" using j'(2) False by (auto simp: j2_def)
      have "unpack_rec_id_loop Data (ids_str ids) i (Suc n) j = unpack_rec_id_loop Data (ids_str ids) (Suc i) n j2"
        using rd j' False by (auto simp: j2_def)
      with Suc.IH [OF j2, of "Suc i"] Suc.prems(2) show ?thesis unfolding eq by simp
    qed
  next
    case False
    with sk have "skip_lower Data (ids ! i) j = None" by simp
    moreover have "\<not> (z \<in> set (drop i ids) \<or> (\<forall>r \<in> set (drop i ids). r \<le> z))"
      using False above unfolding di by auto
    ultimately show ?thesis using rd by simp
  qed
qed (use less_imp_le in auto)

text \<open>
  Checking the identifiers only: the number of documents is returned unless the last
  document has no row while there are rows behind it (the case of a deleted document).  Then
  the inner loop runs to the end of the list and compares with an item behind the last one,
  because its condition reads the item before it tests the index.
\<close>

theorem UdmURLDataUnpackRecID_reads_behind:
  assumes "sorted_wrt (<) ids" "\<forall>i \<in> set ids. is_int4 i" "sorted_wrt (<) (map ud_url_id Data)" "Data \<noteq> []"
  shows "UdmURLDataUnpackRecID Data (length ids) (concat (map udm_put_int4 ids)) =
    (if ud_url_id (last Data) \<in> set ids \<or> (\<forall>r \<in> set ids. r \<le> ud_url_id (last Data))
     then Some (length Data) else None)"
  using unpack_rec_id_loop_ok [OF assms(1-3), of 0 0 "length ids"] assms(4)
  by (auto simp: UdmURLDataUnpackRecID_def split: if_splits)

theorem UdmURLDataUnpackRecID_reads_behind_witness:
  "UdmURLDataUnpackRecID [ud_example 3 50, ud_example 5 20] (length example_ids) (concat (map udm_put_int4 example_ids)) =
    (if ud_url_id (last [ud_example 3 50, ud_example 5 20]) \<in> set example_ids \<or>
        (\<forall>r \<in> set example_ids. r \<le> ud_url_id (last [ud_example 3 50, ud_example 5 20]))
     then Some (length [ud_example 3 50, ud_example 5 20]) else None)"
  by (rule UdmURLDataUnpackRecID_reads_behind) (simp_all add: example_ids_def ud_example_def)

end
