(* ===== verification/Section_Merge.thy ===== *)
theory Section_Merge
  imports Blob_Unpack
begin

text \<open>
  Merging the section lists of the words of a query (\<^verbatim>\<open>src/section.c\<close>).  A tape is the list
  of the sections between its pointers \<open>p\<close> and \<open>e\<close>.  The merge of \<open>k\<close> tapes takes the
  smallest head again and again and puts the last tape into the place of a finished one
  (\<open>kway\<close>); its correctness is proved from the contract of the choice of the tape (locale
  \<open>tape_merge\<close>), which also serves the merge of coordinates in \<open>Score_Merge\<close>.

  The algorithm that the environment variable \<open>NEWSORT\<close> selects is modelled with its reads: \<open>Some None\<close> is a
  read behind the end of a tape.
\<close>

subsection \<open>The list of section lists\<close>

definition UdmSectionListListAdd :: "udm_sectionlist list \<Rightarrow> udm_sectionlist \<Rightarrow> udm_sectionlist list" where
  "UdmSectionListListAdd List Item = List @ [Item]"

definition UdmSectionListListInit :: "udm_sectionlist list" where
  "UdmSectionListListInit = []"

abbreviation nsections :: "udm_sectionlist \<Rightarrow> nat" where
  "nsections L \<equiv> length (Sections L)"

definition cmp_section_list_by_nsections_rev :: "udm_sectionlist cmp" where
  "cmp_section_list_by_nsections_rev s1 s2 =
     (if nsections s1 > nsections s2 then - 1
      else if nsections s1 < nsections s2 then 1
      else 0)"

definition cmp_section_list_by_secno :: "udm_sectionlist cmp" where
  "cmp_section_list_by_secno s1 s2 = int (secno (hd (Sections s1))) - int (secno (hd (Sections s2)))"

subsection \<open>Merging tapes\<close>

lemma mset_concat_update:
  "i < length xs \<Longrightarrow> mset (concat (xs[i := q])) + mset (xs ! i) = mset (concat xs) + mset q"
proof (induction xs arbitrary: i)
  case (Cons x xs)
  show ?case
  proof (cases i)
    case (Suc j)
    with Cons have "mset (concat (xs[j := q])) + mset (xs ! j) = mset (concat xs) + mset q" by simp
    with Suc show ?thesis by (simp add: union_assoc) 
  qed (simp add: ac_simps)
qed simp

lemma last_update_last: "i < length xs \<Longrightarrow> last (xs[i := last xs]) = last xs"
  by (subst last_list_update) auto

lemma mset_concat_remove:
  assumes "i < length xs"
  shows "mset (concat (butlast (xs[i := last xs]))) + mset (xs ! i) = mset (concat xs)"
proof -
  let ?ys = "xs[i := last xs]"
  have "?ys \<noteq> []" using assms by auto
  then have "?ys = butlast ?ys @ [last ?ys]" by simp
  then have "mset (concat ?ys) = mset (concat (butlast ?ys)) + mset (last xs)"
    using last_update_last [OF assms] by (metis concat.simps concat_append append_Nil2 mset_append)
  with mset_concat_update [OF assms, of "last xs"] show ?thesis by (simp add: ac_simps)
qed

definition advance :: "'a list list \<Rightarrow> nat \<Rightarrow> 'a list list" where
  "advance Tape mn =
     (if tl (Tape ! mn) = [] then butlast (Tape[mn := last Tape]) else Tape[mn := tl (Tape ! mn)])"

lemma mset_advance:
  assumes "mn < length Tape" "Tape ! mn \<noteq> []"
  shows "mset (concat Tape) = add_mset (hd (Tape ! mn)) (mset (concat (advance Tape mn)))"
proof -
  have p: "mset (Tape ! mn) = add_mset (hd (Tape ! mn)) (mset (tl (Tape ! mn)))"
    using assms(2) by (metis list.collapse mset.simps(2))
  show ?thesis
    using mset_concat_update [OF assms(1), of "tl (Tape ! mn)"] mset_concat_remove [OF assms(1)] p
    by (auto simp: advance_def)
qed

lemma length_advance:
  "mn < length Tape \<Longrightarrow> Tape ! mn \<noteq> [] \<Longrightarrow> length (concat (advance Tape mn)) < length (concat Tape)"
  using mset_advance [of mn Tape] by (metis lessI size_add_mset size_mset)

function kway :: "('a list list \<Rightarrow> nat) \<Rightarrow> 'a list list \<Rightarrow> 'a list" where
  "kway pick Tape =
     (if length Tape \<le> 1 then concat Tape
      else let mn = pick Tape in
        if mn < length Tape \<and> Tape ! mn \<noteq> []
        then hd (Tape ! mn) # kway pick (advance Tape mn)
        else [])"
  by pat_completeness auto
termination
  by (relation "measure (\<lambda>(pick, Tape). length (concat Tape))") (auto simp: length_advance simp del: length_concat)

declare kway.simps [simp del]

locale tape_merge =
  fixes le :: "'a \<Rightarrow> 'a \<Rightarrow> bool"
    and pick :: "'a list list \<Rightarrow> nat"
  assumes le_total: "le x y \<or> le y x"
    and le_trans: "le x y \<Longrightarrow> le y z \<Longrightarrow> le x z"
    and pick_least: "2 \<le> length Tape \<Longrightarrow> [] \<notin> set Tape \<Longrightarrow>
      pick Tape < length Tape \<and> (\<forall>T \<in> set Tape. le (hd (Tape ! pick Tape)) (hd T))"
begin

lemma set_advance:
  assumes "mn < length Tape" "T \<in> set (advance Tape mn)"
  shows "T \<in> set Tape \<or> T = tl (Tape ! mn) \<and> T \<noteq> []"
proof (cases "tl (Tape ! mn) = []")
  case True
  have "set (butlast (Tape[mn := last Tape])) \<subseteq> insert (last Tape) (set Tape)"
    by (meson in_set_butlastD order_trans set_update_subset_insert subsetI)
  moreover have "last Tape \<in> set Tape" using assms(1) by (intro last_in_set) auto
  ultimately show ?thesis using True assms(2) by (auto simp: advance_def)
next
  case False
  then show ?thesis
    using assms set_update_subset_insert [of Tape mn "tl (Tape ! mn)"] by (auto simp: advance_def)
qed

lemma least_of_tapes:
  assumes "2 \<le> length Tape" "[] \<notin> set Tape" "\<forall>T \<in> set Tape. sorted_wrt le T" "x \<in> set (concat Tape)"
  shows "le (hd (Tape ! pick Tape)) x"
proof -
  obtain T where T: "T \<in> set Tape" "x \<in> set T" using assms(4) by auto
  then have "T \<noteq> []" by auto
  then have "le (hd T) x" using T assms(3) le_total [of x x] by (cases T) auto
  moreover have "le (hd (Tape ! pick Tape)) (hd T)" using pick_least [OF assms(1,2)] T(1) by blast
  ultimately show ?thesis using le_trans by blast
qed

lemma kway_merges:
  "[] \<notin> set Tape \<Longrightarrow> \<forall>T \<in> set Tape. sorted_wrt le T \<Longrightarrow>
   mset (kway pick Tape) = mset (concat Tape) \<and> sorted_wrt le (kway pick Tape)"
proof (induction "length (concat Tape)" arbitrary: Tape rule: less_induct)
  case less
  note ne = less.prems(1) and srt = less.prems(2)
  show ?case
  proof (cases "length Tape \<le> 1")
      case True
      then show ?thesis using srt by (cases Tape) (auto simp: kway.simps)
    next
      case False
      then have len: "2 \<le> length Tape" by simp
      define mn where "mn = pick Tape"
      have mn: "mn < length Tape" "Tape ! mn \<noteq> []"
        using pick_least [OF len ne] ne by (auto simp: mn_def dest: nth_mem)
      have e: "kway pick Tape = hd (Tape ! mn) # kway pick (advance Tape mn)"
        using False mn by (subst kway.simps) (simp add: Let_def mn_def)
      have "T \<noteq> [] \<and> sorted_wrt le T" if "T \<in> set (advance Tape mn)" for T
      proof -
        have "Tape ! mn \<in> set Tape" using mn by simp
        with srt have "sorted_wrt le (tl (Tape ! mn))" by (metis list.sel(3) list.exhaust_sel sorted_wrt.simps(2) mn(2))
        with set_advance [OF mn(1) that] ne srt show ?thesis by auto
      qed
      then have "mset (kway pick (advance Tape mn)) = mset (concat (advance Tape mn)) \<and> sorted_wrt le (kway pick (advance Tape mn))"
        using less.hyps [OF length_advance [OF mn]] by blast
      moreover have "le (hd (Tape ! mn)) x" if "x \<in> set (concat (advance Tape mn))" for x
        using least_of_tapes [OF len ne srt, folded mn_def] mset_advance [OF mn] that
        by (metis set_mset_mset set_mset_add_mset_insert insertI2)
      ultimately show ?thesis
        unfolding e using mset_advance [OF mn] by (metis mset.simps(2) set_mset_mset sorted_wrt.simps(2))
  qed
qed

end

subsection \<open>UdmSectionListListMergeSorted\<close>

text \<open>The choice of the tape: the smallest \<open>url_id\<close>, then the smallest \<open>secno\<close>; the variables
  are \<open>min\<close> and \<open>p_min_url_id\<close>.\<close>

abbreviation tape_id :: "udm_section list list \<Rightarrow> nat \<Rightarrow> urlid_t" where
  "tape_id Tape i \<equiv> url_id (hd (Tape ! i))"

abbreviation tape_secno :: "udm_section list list \<Rightarrow> nat \<Rightarrow> nat" where
  "tape_secno Tape i \<equiv> secno (hd (Tape ! i))"

definition min_of_two :: "udm_section list list \<Rightarrow> nat \<times> urlid_t" where
  "min_of_two Tape =
     (if tape_id Tape 1 > tape_id Tape 0 then (0, tape_id Tape 0)
      else if tape_id Tape 1 < tape_id Tape 0 then (1, tape_id Tape 1)
      else if tape_secno Tape 1 < tape_secno Tape 0 then (1, tape_id Tape 0)
      else (0, tape_id Tape 0))"

definition min_step :: "udm_section list list \<Rightarrow> nat \<times> urlid_t \<Rightarrow> nat \<Rightarrow> nat \<times> urlid_t" where
  "min_step Tape = (\<lambda>(mn, p_min_url_id) i.
     (if tape_id Tape i > p_min_url_id then (mn, p_min_url_id)
      else if tape_id Tape i < p_min_url_id then (i, tape_id Tape i)
      else if tape_secno Tape i < tape_secno Tape mn then (i, p_min_url_id)
      else (mn, p_min_url_id)))"

definition min_section :: "udm_section list list \<Rightarrow> nat" where
  "min_section Tape = fst (foldl (min_step Tape) (min_of_two Tape) [2..<length Tape])"

text \<open>The loop that installs the tapes; with \<open>opt\<close> the short lists at the end are merged
  first, by the recursive call with \<open>opt\<close> 0, and make one tape.\<close>

fun install_tapes :: "(udm_sectionlist list \<Rightarrow> udm_section list) \<Rightarrow> bool \<Rightarrow> nat \<Rightarrow> nat \<Rightarrow>
    udm_sectionlist list \<Rightarrow> udm_section list list" where
  "install_tapes merge_rest opt nsec0 lst [] = []"
| "install_tapes merge_rest opt nsec0 lst (S # Src) =
     (if nsections S \<noteq> 0 then
        if opt \<and> lst > 2 \<and> nsections S < nsec0 div 10 then [merge_rest (S # Src)]
        else Sections S # install_tapes merge_rest opt nsec0 (Suc lst) Src
      else install_tapes merge_rest opt nsec0 (Suc lst) Src)"

definition merge_sorted_with :: "(udm_sectionlist list \<Rightarrow> udm_section list) \<Rightarrow> bool \<Rightarrow> udm_sectionlist list \<Rightarrow> udm_section list" where
  "merge_sorted_with merge_rest opt SrcList =
     (let Item = UdmSort cmp_section_list_by_nsections_rev SrcList
      in case Item of
           [] \<Rightarrow> []
         | First # _ \<Rightarrow> kway min_section (install_tapes merge_rest opt (nsections First) 0 Item))"

definition merge_old :: "udm_sectionlist list \<Rightarrow> bool \<Rightarrow> udm_section list" where
  "merge_old SrcList opt = merge_sorted_with (merge_sorted_with (\<lambda>_. []) False) opt SrcList"

subsection \<open>UdmSectionListListMergeSorted1\<close>

text \<open>One pass over the tapes (the loop over \<open>i\<close> with the label \<open>repeat\<close>).  After the last tape
  is removed the label is reached with \<open>T\<close> pointing to it: \<open>T->p\<close> is then its end.\<close>

datatype pass = Behind | One "udm_section list list" "udm_section list"
  | Pass "udm_section list list" urlid_t "udm_section list"

function copy_min :: "udm_section list list \<Rightarrow> nat \<Rightarrow> urlid_t \<Rightarrow> urlid_t \<Rightarrow> udm_section list \<Rightarrow> pass" where
  "copy_min Tape i min_id next_min_id out =
     (if i < length Tape then
        if Tape ! i = [] then Behind
        else if tape_id Tape i = min_id then
          let out = out @ [hd (Tape ! i)] in
          if tl (Tape ! i) = [] then
            let Tape = take i Tape @ drop (Suc i) Tape in
            if length Tape = 1 then One Tape out
            else if i < length Tape then copy_min Tape i min_id next_min_id out
            else Behind
          else copy_min (Tape[i := tl (Tape ! i)]) i min_id next_min_id out
        else copy_min Tape (Suc i) min_id
               (if next_min_id > tape_id Tape i then tape_id Tape i else next_min_id) out
      else Pass Tape next_min_id out)"
  by pat_completeness auto
termination
proof (relation "measure (\<lambda>(Tape, i, m, n, out). length (concat Tape) + length Tape - i)", goal_cases)
  case (2 Tape i min_id next_min_id out x xa)
  define rest where "rest = take i Tape @ drop (Suc i) Tape"
  have i: "i < length Tape" and "Tape ! i \<noteq> []" using 2 by blast+
  have "length (concat Tape) = length (concat (take i Tape @ (Tape ! i) # drop (Suc i) Tape))"
    by (rule arg_cong [OF id_take_nth_drop [OF i]])
  also have "\<dots> = length (concat rest) + length (Tape ! i)"
    by (simp only: rest_def concat_append concat.simps length_append ac_simps)
  finally have "length (concat Tape) = length (concat rest) + length (Tape ! i)" .
  moreover have "0 < length (Tape ! i)" using \<open>Tape ! i \<noteq> []\<close> by simp
  moreover have "Suc (length rest) = length Tape" using i by (simp add: rest_def)
  ultimately have "length (concat rest) + length rest - i < length (concat Tape) + length Tape - i"
    using i by linarith
  then show ?case using 2 by (simp only: in_measure prod.case rest_def)
next
  case (3 Tape i min_id next_min_id out x)
  have i: "i < length Tape" and ne: "Tape ! i \<noteq> []" using 3 by blast+
  define Tape' where "Tape' = Tape[i := tl (Tape ! i)]"
  have "size (mset (concat Tape') + mset (Tape ! i)) = size (mset (concat Tape) + mset (tl (Tape ! i)))"
    unfolding Tape'_def by (simp only: mset_concat_update [OF i])
  then have "length (concat Tape') + length (Tape ! i) = length (concat Tape) + length (tl (Tape ! i))"
    by (simp only: size_union size_mset)
  moreover have "length (tl (Tape ! i)) < length (Tape ! i)" using ne by simp
  moreover have "length Tape' = length Tape" by (simp add: Tape'_def)
  ultimately have "length (concat Tape') + length Tape' - i < length (concat Tape) + length Tape - i"
    using i by linarith
  then show ?case by (simp only: in_measure prod.case Tape'_def)
next
  case (4 Tape i min_id next_min_id out)
  then show ?case by (simp only: in_measure prod.case)
qed auto

declare copy_min.simps [simp del]

definition UDM_MAX_URLID_T :: int where "UDM_MAX_URLID_T = 0x7FFFFFFF"

text \<open>The outer loop; \<open>Some None\<close> is a read behind the end (below also a failed assertion),
  \<open>None\<close> would be a loop without end.\<close>

partial_function (option) sorted1_loop :: "udm_section list list \<Rightarrow> urlid_t \<Rightarrow> udm_section list \<Rightarrow> udm_section list option option" where
  "sorted1_loop Tape min_id out =
     (case copy_min Tape 0 min_id UDM_MAX_URLID_T out of
        Behind \<Rightarrow> Some None
      | One Tape out \<Rightarrow> Some (Some (out @ concat Tape))
      | Pass Tape next_min_id out \<Rightarrow> sorted1_loop Tape next_min_id out)"

type_synonym merge_result = "udm_section list option option"

fun install_tapes1 :: "(udm_sectionlist list \<Rightarrow> merge_result) \<Rightarrow> bool \<Rightarrow> nat \<Rightarrow> nat \<Rightarrow> nat \<Rightarrow> nat \<Rightarrow>
    udm_sectionlist list \<Rightarrow> udm_section list list option option" where
  "install_tapes1 merge_rest opt nlists nsec nreminder lst [] = Some (Some [])"
| "install_tapes1 merge_rest opt nlists nsec nreminder lst (S # Src) =
     (if opt \<and> lst > 2 \<and> nlists - lst > 2 \<and> nreminder < nsec div 10
      then map_option (map_option (\<lambda>Short. [Short])) (merge_rest (S # Src))
      else map_option (map_option (\<lambda>Tape. Sections S # Tape))
        (install_tapes1 merge_rest opt nlists nsec (nreminder - nsections S) (Suc lst) Src))"

definition UdmSectionListListMergeSorted1 ::
    "(udm_sectionlist list \<Rightarrow> merge_result) \<Rightarrow> udm_sectionlist list \<Rightarrow> bool \<Rightarrow> merge_result" where
  "UdmSectionListListMergeSorted1 merge_rest SrcList opt =
     (if SrcList = [] then Some (Some [])
      else if \<not> list_all (\<lambda>S. nsections S \<noteq> 0) SrcList then Some None
      else
        let nsec = sum_list (map nsections SrcList);
            Item = UdmSort cmp_section_list_by_secno SrcList;
            min_id = url_id (hd (Sections (hd Item)))
        in case install_tapes1 merge_rest opt (length Item) nsec nsec 0 Item of
             None \<Rightarrow> None
           | Some None \<Rightarrow> Some None
           | Some (Some Tape) \<Rightarrow>
               if length Tape = 1 then Some (Some (concat Tape)) else sorted1_loop Tape min_id [])"

text \<open>The short lists at the end are merged by a call of \<open>UdmSectionListListMergeSorted\<close>, which
  leads here again, with \<open>opt\<close> 1; every call leaves out at least three lists, so that their
  number is enough fuel (\<open>new_sort_fuel\<close>).\<close>

fun new_sort :: "nat \<Rightarrow> udm_sectionlist list \<Rightarrow> merge_result" where
  "new_sort 0 SrcList = None"
| "new_sort (Suc n) SrcList = UdmSectionListListMergeSorted1 (new_sort n) SrcList True"

definition UdmSectionListListMergeSorted :: "string option \<Rightarrow> udm_sectionlist list \<Rightarrow> bool \<Rightarrow> merge_result" where
  "UdmSectionListListMergeSorted NEWSORT SrcList opt =
     (if NEWSORT = Some ''yes'' then new_sort (length SrcList + 1) SrcList
      else Some (Some (merge_old SrcList opt)))"

lemma install_tapes1_cong:
  "(\<And>X. length X + 3 \<le> lst + length Src \<Longrightarrow> f X = g X) \<Longrightarrow>
   install_tapes1 f opt nl nsec nrem lst Src = install_tapes1 g opt nl nsec nrem lst Src"
  by (induction Src arbitrary: nrem lst) auto

lemma UdmSectionListListMergeSorted1_cong:
  assumes "\<And>X. length X + 3 \<le> length Src \<Longrightarrow> f X = g X"
  shows "UdmSectionListListMergeSorted1 f Src opt = UdmSectionListListMergeSorted1 g Src opt"
proof -
  have "length (UdmSort cmp_section_list_by_secno Src) = length Src" by (rule mset_eq_length [OF qs.mset_srt])
  then have "install_tapes1 f opt nl nsec nrem 0 (UdmSort cmp_section_list_by_secno Src) =
      install_tapes1 g opt nl nsec nrem 0 (UdmSort cmp_section_list_by_secno Src)" for nl nsec nrem
    using assms by (intro install_tapes1_cong) simp
  then show ?thesis by (simp add: UdmSectionListListMergeSorted1_def Let_def)
qed

lemma new_sort_fuel: "length Src < n \<Longrightarrow> new_sort n Src = new_sort (length Src + 1) Src"
proof (induction n arbitrary: Src rule: less_induct)
  case (less n)
  then obtain m where m: "n = Suc m" by (cases n) auto
  have "UdmSectionListListMergeSorted1 (new_sort m) Src True = UdmSectionListListMergeSorted1 (new_sort (length Src)) Src True"
  proof (rule UdmSectionListListMergeSorted1_cong)
    fix X :: "udm_sectionlist list" assume X: "length X + 3 \<le> length Src"
    show "new_sort m X = new_sort (length Src) X"
    proof (cases "length Src = m")
      case False
      with less.prems X m show ?thesis using less.IH [of m X] less.IH [of "length Src" X] by simp
    qed simp
  qed
  then show ?case by (simp add: m)
qed

subsection \<open>Correctness\<close>

definition section_le :: "udm_section \<Rightarrow> udm_section \<Rightarrow> bool" where
  "section_le a b \<longleftrightarrow> url_id a < url_id b \<or> url_id a = url_id b \<and> secno a \<le> secno b"

lemma section_le_linear: "section_le x y \<or> section_le y x"
  by (auto simp: section_le_def)

lemma section_le_trans: "section_le x y \<Longrightarrow> section_le y z \<Longrightarrow> section_le x z"
  by (auto simp: section_le_def)

lemma min_section_least:
  assumes "2 \<le> length Tape"
  shows "min_section Tape < length Tape \<and> (\<forall>T \<in> set Tape. section_le (hd (Tape ! min_section Tape)) (hd T))"
proof -
  have "fst (foldl (min_step Tape) (min_of_two Tape) [2..<n]) < n \<and>
      snd (foldl (min_step Tape) (min_of_two Tape) [2..<n]) = tape_id Tape (fst (foldl (min_step Tape) (min_of_two Tape) [2..<n])) \<and>
      (\<forall>i < n. section_le (hd (Tape ! fst (foldl (min_step Tape) (min_of_two Tape) [2..<n]))) (hd (Tape ! i)))"
    if "2 \<le> n" for n
    using that
  proof (induction n)
    case (Suc n)
    show ?case
    proof (cases "Suc n = 2")
      case True
      then have "n = 1" by simp
      then show ?thesis
        unfolding True by (auto simp: min_of_two_def section_le_def less_2_cases_iff)
    next
      case False
      then have n: "2 \<le> n" using Suc.prems by simp
      obtain mn pm where st: "foldl (min_step Tape) (min_of_two Tape) [2..<n] = (mn, pm)" by fastforce
      from Suc.IH [OF n] st have IH: "mn < n" "pm = tape_id Tape mn"
        "\<forall>i < n. section_le (hd (Tape ! mn)) (hd (Tape ! i))" by auto
      have e: "foldl (min_step Tape) (min_of_two Tape) [2..<Suc n] = min_step Tape (mn, pm) n"
        using n st by simp
      have new: "section_le (hd (Tape ! fst (min_step Tape (mn, pm) n))) (hd (Tape ! mn))"
        "section_le (hd (Tape ! fst (min_step Tape (mn, pm) n))) (hd (Tape ! n))"
        by (auto simp: min_step_def IH(2) section_le_def)
      have "section_le (hd (Tape ! fst (min_step Tape (mn, pm) n))) (hd (Tape ! i))" if "i < Suc n" for i
      proof (cases "i = n")
        case False
        with that have "i < n" by simp
        with IH(3) section_le_trans [OF new(1)] show ?thesis by blast
      qed (use new(2) in simp)
      moreover have "fst (min_step Tape (mn, pm) n) < Suc n"
        "snd (min_step Tape (mn, pm) n) = tape_id Tape (fst (min_step Tape (mn, pm) n))"
        using IH(1,2) by (auto simp: min_step_def)
      ultimately show ?thesis unfolding e by blast
    qed
  qed simp
  from this [OF assms] show ?thesis by (auto simp: min_section_def in_set_conv_nth)
qed

interpretation sections: tape_merge section_le min_section
proof
  show "section_le x y \<or> section_le y x" for x y by (rule section_le_linear)
  show "section_le x y \<Longrightarrow> section_le y z \<Longrightarrow> section_le x z" for x y z by (rule section_le_trans)
  show "2 \<le> length Tape \<Longrightarrow> min_section Tape < length Tape \<and>
    (\<forall>T \<in> set Tape. section_le (hd (Tape ! min_section Tape)) (hd T))" for Tape
    by (rule min_section_least)
qed

abbreviation all_sections :: "udm_sectionlist list \<Rightarrow> udm_section multiset" where
  "all_sections Src \<equiv> mset (concat (map Sections Src))"

abbreviation sorted_sections :: "udm_section list \<Rightarrow> bool" where
  "sorted_sections \<equiv> sorted_wrt section_le"

definition merges :: "(udm_sectionlist list \<Rightarrow> udm_section list) \<Rightarrow> bool" where
  "merges f \<longleftrightarrow> (\<forall>Src. (\<forall>S \<in> set Src. sorted_sections (Sections S)) \<longrightarrow>
     mset (f Src) = all_sections Src \<and> sorted_sections (f Src))"

lemma install_tapes_ok:
  assumes "\<forall>S \<in> set Src. sorted_sections (Sections S)" "opt \<longrightarrow> merges f"
  shows "mset (concat (install_tapes f opt n0 l Src)) = all_sections Src \<and>
    [] \<notin> set (install_tapes f opt n0 l Src) \<and> (\<forall>T \<in> set (install_tapes f opt n0 l Src). sorted_sections T)"
  using assms(1)
proof (induction Src arbitrary: l)
  case (Cons S Src)
  show ?case
  proof (cases "nsections S \<noteq> 0 \<and> opt \<and> l > 2 \<and> nsections S < n0 div 10")
    case True
    with assms(2) Cons.prems have f: "mset (f (S # Src)) = all_sections (S # Src)" "sorted_sections (f (S # Src))"
      unfolding merges_def by blast+
    moreover from f(1) True have "f (S # Src) \<noteq> []" by (auto dest: sym)
    ultimately show ?thesis using True by auto
  next
    case False
    with Cons show ?thesis by auto
  qed
qed simp

lemma merge_sorted_with_ok:
  assumes "opt \<longrightarrow> merges f"
  shows "merges (merge_sorted_with f opt)"
  unfolding merges_def
proof (intro allI impI)
  fix Src :: "udm_sectionlist list"
  assume src: "\<forall>S \<in> set Src. sorted_sections (Sections S)"
  let ?Item = "UdmSort cmp_section_list_by_nsections_rev Src"
  have m: "mset ?Item = mset Src" by (rule qs.mset_srt)
  have all: "all_sections ?Item = all_sections Src"
    by (simp add: mset_concat m flip: sum_mset_sum_list)
  show "mset (merge_sorted_with f opt Src) = all_sections Src \<and> sorted_sections (merge_sorted_with f opt Src)"
  proof (cases ?Item)
    case Nil
    with all show ?thesis by (simp add: merge_sorted_with_def)
  next
    case (Cons First rest)
    have "\<forall>S \<in> set ?Item. sorted_sections (Sections S)" using src mset_eq_setD [OF m] by simp
    from install_tapes_ok [OF this assms, of "nsections First" 0] all
      sections.kway_merges [of "install_tapes f opt (nsections First) 0 ?Item"]
    show ?thesis by (simp add: merge_sorted_with_def Cons)
  qed
qed

lemma merge_old_merges: "merges (\<lambda>SrcList. merge_old SrcList opt)"
  using merge_sorted_with_ok [of opt "merge_sorted_with (\<lambda>_. []) False"]
    merge_sorted_with_ok [of False "\<lambda>_. []"]
  unfolding merge_old_def [abs_def] by simp

text \<open>
  C28. Unless the environment variable \<open>NEWSORT\<close> is yes, merging the section lists of all words
  gives all their sections, each exactly once, in the order of the document and then the
  section number, for any number of lists, whether or not the short ones are merged beforehand.
\<close>

theorem UdmSectionListListMergeSorted_merges:
  assumes "\<forall>S \<in> set SrcList. sorted_wrt section_le (Sections S)" "NEWSORT \<noteq> Some ''yes''"
  shows "\<exists>L. UdmSectionListListMergeSorted NEWSORT SrcList opt = Some (Some L) \<and>
    mset L = mset (concat (map Sections SrcList)) \<and> sorted_wrt section_le L"
  using merge_old_merges [of opt] assms unfolding UdmSectionListListMergeSorted_def merges_def by simp

definition example_section :: "int \<Rightarrow> nat \<Rightarrow> udm_section" where
  "example_section i s = \<lparr>Coord = 0, PackedCoord = [], url_id = i, ncoords = 1, seclen = 3, minpos = 1, maxpos = 1,
     secno = s, wordnum = 0, order = 0\<rparr>"

definition example_list :: "(int \<times> nat) list \<Rightarrow> udm_sectionlist" where
  "example_list xs = \<lparr>mcoords = 1, sl_ncoords = 0, Coords = [], msections = length xs,
     Sections = map (\<lambda>(i, s). example_section i s) xs\<rparr>"

theorem UdmSectionListListMergeSorted_merges_witness:
  "\<exists>L. UdmSectionListListMergeSorted None [example_list [(1, 1), (2, 1)], example_list [(1, 2), (4, 1)]] True = Some (Some L) \<and>
     mset L = mset (concat (map Sections [example_list [(1, 1), (2, 1)], example_list [(1, 2), (4, 1)]])) \<and>
     sorted_wrt section_le L"
  by (rule UdmSectionListListMergeSorted_merges) (simp_all add: example_list_def example_section_def section_le_def)

text \<open>
  The algorithm that \<open>NEWSORT\<close> selects does not sort: it starts with the document of the
  first list (by section number) instead of the smallest one.  Two lists with one section
  each are always concatenated in the order of their section numbers, so that the result is
  out of order when the second one belongs to a smaller document.
\<close>

theorem UdmSectionListListMergeSorted1_unsorted:
  assumes "Sections A = [a]" "Sections B = [b]" "secno a \<le> secno b" "url_id b < url_id a"
  shows "UdmSectionListListMergeSorted (Some ''yes'') [A, B] opt = Some (Some [a, b]) \<and>
    \<not> sorted_wrt section_le [a, b] \<and>
    sorted_wrt section_le (Sections A) \<and> sorted_wrt section_le (Sections B)"
proof -
  have i: "UdmSort cmp_section_list_by_secno [A, B] = [A, B]"
    using assms(1-3) by (simp add: UdmSort_def cmp_section_list_by_secno_def)
  have "copy_min [[a], [b]] 0 (url_id a) UDM_MAX_URLID_T [] = One [[b]] [a]"
    by (subst copy_min.simps) simp
  then have "sorted1_loop [[a], [b]] (url_id a) [] = Some (Some [a, b])"
    by (subst sorted1_loop.simps) simp
  with assms show ?thesis
    by (simp add: UdmSectionListListMergeSorted_def UdmSectionListListMergeSorted1_def i Let_def section_le_def)
qed

theorem UdmSectionListListMergeSorted1_unsorted_witness:
  "UdmSectionListListMergeSorted (Some ''yes'') [example_list [(5, 1)], example_list [(3, 2)]] True =
     Some (Some [example_section 5 1, example_section 3 2]) \<and>
    \<not> sorted_wrt section_le [example_section 5 1, example_section 3 2] \<and>
    sorted_wrt section_le (Sections (example_list [(5, 1)])) \<and> sorted_wrt section_le (Sections (example_list [(3, 2)]))"
  by (rule UdmSectionListListMergeSorted1_unsorted) (simp_all add: example_list_def example_section_def)

end
