(* ===== verification/Score_Merge.thy ===== *)
theory Score_Merge
  imports Section_Merge "HOL-Library.Sublist"
begin

text \<open>
  The parts of \<^verbatim>\<open>src/score.c\<close> that merge the coordinates of one section of one document,
  before they are scored, and the selection of the best documents of a result.

  A section with unpacked coordinates is the list of its coordinates; \<open>with_order\<close> is what
  the macro \<open>UDM_SEC_TO_CRD\<close> makes of them: the position with the word's order.  The
  destination is the list of what has been written to it.
\<close>

subsection \<open>Merging two coordinate lists\<close>

definition sec_to_crd :: "nat \<Rightarrow> coord2 \<Rightarrow> coord2" where
  "sec_to_crd ord c = \<lparr>pos = pos c, corder = ord\<rparr>"

text \<open>The label \<open>single\<close>: of the rest of one list the first and the last coordinate are
  written.  The result is what was written and the number of coordinates left out.\<close>

definition single_rest :: "nat \<Rightarrow> coord2 list \<Rightarrow> coord2 list \<times> nat" where
  "single_rest ord src =
     (case src of
        [] \<Rightarrow> ([], 0)
      | c # rest \<Rightarrow>
          if rest = [] then ([sec_to_crd ord c], 0)
          else ([sec_to_crd ord c, sec_to_crd ord (last rest)], length rest - 1))"

text \<open>The inner loop skips the coordinates below the head of the other list, and the step back
  writes the last one of them.\<close>

definition skipped :: "nat \<Rightarrow> nat \<Rightarrow> coord2 list \<Rightarrow> coord2 list \<times> nat \<times> coord2 list" where
  "skipped ord p src =
     (let low = takeWhile (\<lambda>c. pos c < p) src; src' = dropWhile (\<lambda>c. pos c < p) src
      in if low \<noteq> [] then ([sec_to_crd ord (last low)], length low - 1, src')
         else ([], 0, src'))"

function merge_n2 :: "nat \<Rightarrow> nat \<Rightarrow> coord2 list \<Rightarrow> coord2 list \<Rightarrow> coord2 list \<Rightarrow> nat \<Rightarrow> coord2 list \<times> nat" where
  "merge_n2 order1 order2 (c1 # src1) (c2 # src2) dst ttl =
     (if pos c1 < pos c2 then
        let dst = dst @ [sec_to_crd order1 c1];
            (w, left_out, src1) = skipped order1 (pos c2) src1;
            dst = dst @ w; ttl = ttl - left_out
        in if src1 = [] then
             let (w, left_out) = single_rest order2 (c2 # src2) in (dst @ w, ttl - left_out)
           else merge_n2 order1 order2 src1 (c2 # src2) dst ttl
      else
        let dst = dst @ [sec_to_crd order2 c2];
            (w, left_out, src2) = skipped order2 (pos c1) src2;
            dst = dst @ w; ttl = ttl - left_out
        in if src2 = [] then
             let (w, left_out) = single_rest order1 (c1 # src1) in (dst @ w, ttl - left_out)
           else merge_n2 order1 order2 (c1 # src1) src2 dst ttl)"
| "merge_n2 order1 order2 [] src2 dst ttl = (dst, ttl)"
| "merge_n2 order1 order2 (c1 # src1) [] dst ttl = (dst, ttl)"
  by pat_completeness auto
termination
  by (relation "measure (\<lambda>(o1, o2, s1, s2, d, t). length s1 + length s2)")
    (auto simp: skipped_def Let_def le_imp_less_Suc length_dropWhile_le split: if_splits)

text \<open>The result is the coordinates and their number \<open>ncoords\<close>.\<close>

definition UdmMergeCoordsN2 :: "nat \<Rightarrow> coord2 list \<Rightarrow> nat \<Rightarrow> coord2 list \<Rightarrow> coord2 list \<times> nat" where
  "UdmMergeCoordsN2 order1 src1 order2 src2 =
     (if src1 = [] \<or> src2 = [] then ([], 0)
      else merge_n2 order1 order2 src1 src2 [] (length src1 + length src2))"

subsection \<open>Merging many lists\<close>

definition cmp_pos :: "coord2 cmp" where
  "cmp_pos s1 s2 = int (pos s1) - int (pos s2)"

definition UdmMergeCoordsUsingSort :: "(nat \<times> coord2 list) list \<Rightarrow> coord2 list" where
  "UdmMergeCoordsUsingSort S =
     (let dst = concat (map (\<lambda>(ord, src). map (sec_to_crd ord) src) S)
      in if length dst > 1 then UdmSort cmp_pos dst else dst)"

definition MAX_NUM_FOR_MERGE :: nat where "MAX_NUM_FOR_MERGE = 10"

definition min_coord :: "coord2 list list \<Rightarrow> nat" where
  "min_coord p =
     fst (foldl (\<lambda>(mn, p_min_pos) i. if pos (hd (p ! i)) < p_min_pos then (i, pos (hd (p ! i))) else (mn, p_min_pos))
       (0, pos (hd (p ! 0))) [1..<length p])"

text \<open>A tape carries the order of its section with its coordinates.\<close>

definition UdmMergeCoordsMany :: "(nat \<times> coord2 list) list \<Rightarrow> coord2 list" where
  "UdmMergeCoordsMany S =
     (if length S \<ge> MAX_NUM_FOR_MERGE then UdmMergeCoordsUsingSort S
      else kway min_coord (filter (\<lambda>t. t \<noteq> []) (map (\<lambda>(ord, src). map (sec_to_crd ord) src) S)))"

subsection \<open>The best documents\<close>

record udm_url_score =
  us_url_id :: urlid_t
  us_score :: uint4

definition cmp_score :: "udm_url_score cmp" where
  "cmp_score c1 c2 = int4_of (sint (us_score c2) - sint (us_score c1))"

definition cmp_score_then_url_id :: "udm_url_score cmp" where
  "cmp_score_then_url_id c1 c2 =
     (let diff = int4_of (sint (us_score c2) - sint (us_score c1))
      in if diff \<noteq> 0 then diff else int4_of (us_url_id c1 - us_url_id c2))"

definition UDM_URL_SCORE_IS_SMALLER :: "udm_url_score \<Rightarrow> udm_url_score \<Rightarrow> bool" where
  "UDM_URL_SCORE_IS_SMALLER x y \<longleftrightarrow>
     us_score x < us_score y \<or> us_score x = us_score y \<and> us_url_id x \<ge> us_url_id y"

definition find_pos :: "udm_url_score list \<Rightarrow> udm_url_score \<Rightarrow> nat \<Rightarrow> nat \<Rightarrow> nat" where
  "find_pos L Curr left right = first_not (\<lambda>Middle. UDM_URL_SCORE_IS_SMALLER Curr Middle) L left right"

definition top_step :: "nat \<Rightarrow> udm_url_score list \<Rightarrow> nat \<Rightarrow> udm_url_score list" where
  "top_step topcount L cur_i =
     (if UDM_URL_SCORE_IS_SMALLER (L ! cur_i) (L ! topcount) then L
      else
        let right = find_pos L (L ! cur_i) 0 topcount; tmp = L ! topcount; c = L ! cur_i;
            L = take right L @ [c] @ drop right (take topcount L) @ drop (Suc topcount) L
        in L[cur_i := tmp])"

definition UdmURLScoreListSortByScoreThenURLTop :: "udm_url_score list \<Rightarrow> nat \<Rightarrow> udm_url_score list" where
  "UdmURLScoreListSortByScoreThenURLTop L topcount =
     foldl (top_step topcount)
       (UdmSort cmp_score_then_url_id (take (topcount + 1) L) @ drop (topcount + 1) L)
       [topcount..<length L]"

definition UdmURLScoreListSortByScore :: "udm_url_score list \<Rightarrow> udm_url_score list" where
  "UdmURLScoreListSortByScore L = UdmSort cmp_score L"

definition UdmURLScoreListSortByScoreThenURL :: "udm_url_score list \<Rightarrow> udm_url_score list" where
  "UdmURLScoreListSortByScoreThenURL L = UdmSort cmp_score_then_url_id L"

subsection \<open>Merging many lists gives the sorted coordinates\<close>

definition pos_le :: "coord2 \<Rightarrow> coord2 \<Rightarrow> bool" where
  "pos_le a b \<longleftrightarrow> pos a \<le> pos b"

lemma min_coord_least:
  assumes "1 \<le> length p"
  shows "min_coord p < length p \<and> (\<forall>T \<in> set p. pos_le (hd (p ! min_coord p)) (hd T))"
proof -
  let ?f = "\<lambda>(mn, p_min_pos) i. if pos (hd (p ! i)) < p_min_pos then (i, pos (hd (p ! i))) else (mn, p_min_pos)"
  let ?s = "(0, pos (hd (p ! 0)))"
  have "fst (foldl ?f ?s [1..<n]) < n \<and> snd (foldl ?f ?s [1..<n]) = pos (hd (p ! fst (foldl ?f ?s [1..<n]))) \<and>
      (\<forall>i < n. pos (hd (p ! fst (foldl ?f ?s [1..<n]))) \<le> pos (hd (p ! i)))" if "1 \<le> n" for n
    using that
  proof (induction n)
    case (Suc n)
    show ?case
    proof (cases "n = 0")
      case False
      obtain mn pm where st: "foldl ?f ?s [1..<n] = (mn, pm)" by fastforce
      with Suc.IH False have "mn < n" "pm = pos (hd (p ! mn))" "\<forall>i < n. pos (hd (p ! mn)) \<le> pos (hd (p ! i))" by auto
      moreover have "[1..<Suc n] = [1..<n] @ [n]" using False by simp
      ultimately show ?thesis using st by (auto simp: less_Suc_eq intro: order_trans)
    qed simp
  qed simp
  from this [OF assms] show ?thesis by (auto simp: min_coord_def pos_le_def in_set_conv_nth)
qed

interpretation coords: tape_merge pos_le min_coord
proof
  show "2 \<le> length p \<Longrightarrow> min_coord p < length p \<and> (\<forall>T \<in> set p. pos_le (hd (p ! min_coord p)) (hd T))" for p
    by (rule min_coord_least) simp
qed (auto simp: pos_le_def)

abbreviation coords_of :: "(nat \<times> coord2 list) list \<Rightarrow> coord2 list" where
  "coords_of S \<equiv> concat (map (\<lambda>(ord, src). map (sec_to_crd ord) src) S)"

lemma concat_filter_Nil: "concat (filter (\<lambda>t. t \<noteq> []) ts) = concat ts"
  by (induction ts) auto

text \<open>
  The coordinates of all words of a section are merged completely: for any number of
  words (the merge of up to nine lists and the sort for more) the result has every coordinate
  with the order of its word exactly once, in the order of the positions.
\<close>

theorem UdmMergeCoordsMany_merges:
  assumes "\<forall>(ord, src) \<in> set S. sorted (map pos src)"
  shows "mset (UdmMergeCoordsMany S) = mset (coords_of S) \<and> sorted (map pos (UdmMergeCoordsMany S))"
proof (cases "MAX_NUM_FOR_MERGE \<le> length S")
  case True
  have ok: "cmp_pos x y \<le> 0 \<longleftrightarrow> pos x \<le> pos y" for x y by (simp add: cmp_pos_def)
  have "sorted (map pos (UdmSort cmp_pos xs))" for xs
    using qs.sorted_srt [OF cmp_okI [OF ok]] by (simp add: sorted_map ok)
  moreover have "sorted (map pos xs)" if "\<not> 1 < length xs" for xs
    using that by (cases xs) auto
  ultimately have "mset (if 1 < length dst then UdmSort cmp_pos dst else dst) = mset dst \<and>
      sorted (map pos (if 1 < length dst then UdmSort cmp_pos dst else dst))" for dst
    by (cases "1 < length dst") (simp_all only: if_True if_False qs.mset_srt not_False_eq_True simp_thms)
  with True show ?thesis by (simp only: UdmMergeCoordsMany_def UdmMergeCoordsUsingSort_def Let_def if_True)
next
  case False
  let ?ts = "map (\<lambda>(ord, src). map (sec_to_crd ord) src) S"
  have "sorted_wrt pos_le T" if "T \<in> set ?ts" for T
    using that assms by (auto simp: sorted_wrt_map pos_le_def sec_to_crd_def sorted_map)
  with coords.kway_merges [of "filter (\<lambda>t. t \<noteq> []) ?ts"] show ?thesis
    using False by (simp add: UdmMergeCoordsMany_def concat_filter_Nil sorted_map pos_le_def [abs_def])
qed

theorem UdmMergeCoordsMany_merges_witness:
  "mset (UdmMergeCoordsMany [(1, [\<lparr>pos = 2, corder = 0\<rparr>, \<lparr>pos = 7, corder = 0\<rparr>]), (2, [\<lparr>pos = 3, corder = 0\<rparr>])]) =
     mset (coords_of [(1, [\<lparr>pos = 2, corder = 0\<rparr>, \<lparr>pos = 7, corder = 0\<rparr>]), (2, [\<lparr>pos = 3, corder = 0\<rparr>])]) \<and>
   sorted (map pos (UdmMergeCoordsMany [(1, [\<lparr>pos = 2, corder = 0\<rparr>, \<lparr>pos = 7, corder = 0\<rparr>]), (2, [\<lparr>pos = 3, corder = 0\<rparr>])]))"
  by (rule UdmMergeCoordsMany_merges) simp

subsection \<open>What the merge of two lists keeps_runs\<close>

text \<open>The full merge, and of it the coordinates that begin or end a run of one order.\<close>

fun merge_full :: "nat \<Rightarrow> nat \<Rightarrow> coord2 list \<Rightarrow> coord2 list \<Rightarrow> coord2 list" where
  "merge_full o1 o2 (c1 # src1) (c2 # src2) =
     (if pos c1 < pos c2 then sec_to_crd o1 c1 # merge_full o1 o2 src1 (c2 # src2)
      else sec_to_crd o2 c2 # merge_full o1 o2 (c1 # src1) src2)"
| "merge_full o1 o2 [] src2 = map (sec_to_crd o2) src2"
| "merge_full o1 o2 (c1 # src1) [] = map (sec_to_crd o1) (c1 # src1)"

fun run_ends :: "nat option \<Rightarrow> coord2 list \<Rightarrow> coord2 list" where
  "run_ends prv [] = []"
| "run_ends prv [c] = [c]"
| "run_ends prv (c # d # cs) =
     (if prv = Some (corder c) \<and> corder d = corder c then [] else [c]) @ run_ends (Some (corder c)) (d # cs)"

lemma run_ends_Cons: "subseq (run_ends prv (c # cs)) (c # run_ends (Some (corder c)) cs)"
  by (cases cs) auto

lemma run_ends_block:
  "\<forall>c \<in> set (l # low). corder c = ord \<Longrightarrow>
   subseq (run_ends (Some ord) (l # low @ rest)) (last (l # low) # run_ends (Some ord) rest)"
proof (induction low arbitrary: l)
  case Nil
  then show ?case using run_ends_Cons [of "Some ord" l rest] by simp
next
  case (Cons k low)
  from Cons.IH [of k] Cons.prems show ?case by simp
qed

lemma run_ends_first_block:
  assumes "corder c = ord" "\<forall>c \<in> set low. corder c = ord"
  shows "subseq (run_ends prv (c # low @ rest))
           (c # (if low = [] then [] else [last low]) @ run_ends (Some ord) rest)"
proof -
  have "subseq (run_ends prv (c # low @ rest)) (c # run_ends (Some ord) (low @ rest))"
    using run_ends_Cons [of prv c "low @ rest"] assms(1) by simp
  moreover have "subseq (run_ends (Some ord) (low @ rest)) ((if low = [] then [] else [last low]) @ run_ends (Some ord) rest)"
    using run_ends_block [of _ _ ord rest] assms(2) by (cases low) auto
  ultimately show ?thesis by (metis subseq_Cons2 subseq_order.order_trans)
qed

lemma merge_full_skip1:
  "merge_full o1 o2 src1 (c2 # src2) =
     map (sec_to_crd o1) (takeWhile (\<lambda>c. pos c < pos c2) src1) @
     merge_full o1 o2 (dropWhile (\<lambda>c. pos c < pos c2) src1) (c2 # src2)"
  by (induction src1) auto

lemma merge_full_skip2:
  "merge_full o1 o2 (c1 # src1) src2 =
     map (sec_to_crd o2) (takeWhile (\<lambda>c. pos c < pos c1) src2) @
     merge_full o1 o2 (c1 # src1) (dropWhile (\<lambda>c. pos c < pos c1) src2)"
  by (induction src2) auto

lemma merge_full_Nil2 [simp]: "merge_full o1 o2 src1 [] = map (sec_to_crd o1) src1"
  by (cases src1) auto

lemma corder_crd [simp]: "corder (sec_to_crd ord c) = ord"
  by (simp add: sec_to_crd_def)

text \<open>What a step wrote, with what the following steps will write.\<close>

definition keeps_runs :: "coord2 list \<Rightarrow> coord2 list \<Rightarrow> bool" where
  "keeps_runs w full \<longleftrightarrow> subseq w full \<and> (\<forall>prv. subseq (run_ends prv full) w)"

lemma keeps_block:
  assumes "keeps_runs w full" "low = map (sec_to_crd ord) ds"
  shows "keeps_runs (sec_to_crd ord c # (if low = [] then [] else [last low]) @ w) (sec_to_crd ord c # low @ full)"
proof -
  have "subseq (if low = [] then [] else [last low]) low"
    by (cases low rule: rev_cases) auto
  then have "subseq (sec_to_crd ord c # (if low = [] then [] else [last low]) @ w) (sec_to_crd ord c # low @ full)"
    using assms(1) by (simp add: keeps_runs_def list_emb_append_mono)
  moreover have "subseq (run_ends prv (sec_to_crd ord c # low @ full))
      (sec_to_crd ord c # (if low = [] then [] else [last low]) @ w)" for prv
  proof -
    have "subseq (run_ends prv (sec_to_crd ord c # low @ full))
        (sec_to_crd ord c # (if low = [] then [] else [last low]) @ run_ends (Some ord) full)"
      by (rule run_ends_first_block) (auto simp: assms(2))
    moreover have "subseq (sec_to_crd ord c # (if low = [] then [] else [last low]) @ run_ends (Some ord) full)
        (sec_to_crd ord c # (if low = [] then [] else [last low]) @ w)"
      using assms(1) by (simp add: keeps_runs_def list_emb_append_mono)
    ultimately show ?thesis by (rule subseq_order.order_trans)
  qed
  ultimately show ?thesis by (simp add: keeps_runs_def)
qed

lemma keeps_Nil: "keeps_runs [] []" by (simp add: keeps_runs_def)

lemma skipped_eq:
  "skipped ord p src =
     (let low = map (sec_to_crd ord) (takeWhile (\<lambda>c. pos c < p) src)
      in (if low = [] then [] else [last low], length low - 1, dropWhile (\<lambda>c. pos c < p) src))"
  by (auto simp: skipped_def Let_def last_map)

lemma keeps_single_rest:
  assumes "src \<noteq> []"
  shows "keeps_runs (fst (single_rest ord src)) (map (sec_to_crd ord) src) \<and>
    length (fst (single_rest ord src)) + snd (single_rest ord src) = length src"
proof -
  obtain c ds where src: "src = c # ds" using assms by (cases src) auto
  from keeps_block [OF keeps_Nil refl, of ord c ds] show ?thesis
    by (auto simp: src single_rest_def last_map)
qed


text \<open>The contract of every exit of the loop: what is written after \<open>dst\<close>, and the number
  that is returned.\<close>

definition merges :: "coord2 list \<Rightarrow> coord2 list \<Rightarrow> nat \<Rightarrow> coord2 list \<times> nat \<Rightarrow> bool" where
  "merges full dst ttl r \<longleftrightarrow>
     (\<exists>w. fst r = dst @ w \<and> keeps_runs w full \<and> snd r + length full = ttl + length w)"

lemma merges_single:
  assumes "d = dst @ fst (single_rest ord (c # src))" "n = ttl - snd (single_rest ord (c # src))"
    "Suc (length src) \<le> ttl"
  shows "merges (sec_to_crd ord c # map (sec_to_crd ord) src) dst ttl (d, n)"
  using keeps_single_rest [of "c # src" ord] assms by (auto simp: merges_def)

lemma merges_block:
  assumes "merges full (dst @ [sec_to_crd ord c] @ (if low = [] then [] else [last low])) (ttl - (length low - 1)) r"
    and low: "low = map (sec_to_crd ord) ds" and "Suc (length low) + length full \<le> ttl"
  shows "merges (sec_to_crd ord c # low @ full) dst ttl r"
proof -
  from assms(1) obtain w where w: "fst r = dst @ [sec_to_crd ord c] @ (if low = [] then [] else [last low]) @ w"
    "keeps_runs w full" "snd r + length full = ttl - (length low - 1) + length w"
    by (auto simp: merges_def)
  show ?thesis
    unfolding merges_def using w(1,3) keeps_block [OF w(2) low, of c] assms(3)
    by (intro exI [of _ "sec_to_crd ord c # (if low = [] then [] else [last low]) @ w"] conjI) (cases low; simp)+
qed

lemma length_merge_full [simp]: "length (merge_full o1 o2 src1 src2) = length src1 + length src2"
  by (induction o1 o2 src1 src2 rule: merge_full.induct) auto

lemma merge_n2_merges:
  assumes "src1 \<noteq> []" "src2 \<noteq> []" "length src1 + length src2 \<le> ttl"
  shows "merges (merge_full order1 order2 src1 src2) dst ttl (merge_n2 order1 order2 src1 src2 dst ttl)"
  using assms
proof (induction order1 order2 src1 src2 dst ttl rule: merge_n2.induct)
  case (1 order1 order2 c1 src1 c2 src2 dst ttl)
  show ?case
  proof (cases "pos c1 < pos c2")
    case True
    define dw where "dw = dropWhile (\<lambda>c. pos c < pos c2) src1"
    define low where "low = map (sec_to_crd order1) (takeWhile (\<lambda>c. pos c < pos c2) src1)"
    have len: "length src1 = length low + length dw"
      unfolding low_def dw_def by (metis length_append length_map takeWhile_dropWhile_id)
    have full: "merge_full order1 order2 (c1 # src1) (c2 # src2) =
        sec_to_crd order1 c1 # low @ merge_full order1 order2 dw (c2 # src2)"
      using True merge_full_skip1 [of order1 order2 src1 c2 src2] by (simp add: low_def dw_def)
    have sk: "skipped order1 (pos c2) src1 = (if low = [] then [] else [last low], length low - 1, dw)"
      by (simp add: skipped_eq Let_def low_def dw_def)
    show ?thesis
      unfolding full
      by (rule merges_block [OF _ low_def])
        (use True sk len "1.prems"(3) "1.IH"(1) [OF True refl sk [symmetric] refl refl refl] in \<open>auto simp: Let_def split_beta simp del: merge_full.simps(1,3) intro!: merges_single\<close>)
  next
    case False
    define dw where "dw = dropWhile (\<lambda>c. pos c < pos c1) src2"
    define low where "low = map (sec_to_crd order2) (takeWhile (\<lambda>c. pos c < pos c1) src2)"
    have len: "length src2 = length low + length dw"
      unfolding low_def dw_def by (metis length_append length_map takeWhile_dropWhile_id)
    have full: "merge_full order1 order2 (c1 # src1) (c2 # src2) =
        sec_to_crd order2 c2 # low @ merge_full order1 order2 (c1 # src1) dw"
      using False merge_full_skip2 [of order1 order2 c1 src1 src2] by (simp add: low_def dw_def)
    have sk: "skipped order2 (pos c1) src2 = (if low = [] then [] else [last low], length low - 1, dw)"
      by (simp add: skipped_eq Let_def low_def dw_def)
    show ?thesis
      unfolding full
      by (rule merges_block [OF _ low_def])
        (use False sk len "1.prems"(3) "1.IH"(2) [OF False refl sk [symmetric] refl refl refl] in \<open>auto simp: Let_def split_beta simp del: merge_full.simps(1,3) intro!: merges_single\<close>)
  qed
qed auto

text \<open>
  The merge of the coordinates of two words writes a sublist of their full merge by position,
  it never drops a coordinate that begins or ends a run of one word (only these matter for the
  distance of the words and for the extent of the match), and the number it returns is the number
  of coordinates written.
\<close>

theorem UdmMergeCoordsN2_keeps_ends:
  assumes "src1 \<noteq> []" "src2 \<noteq> []"
  shows "subseq (fst (UdmMergeCoordsN2 order1 src1 order2 src2)) (merge_full order1 order2 src1 src2) \<and>
    subseq (run_ends None (merge_full order1 order2 src1 src2)) (fst (UdmMergeCoordsN2 order1 src1 order2 src2)) \<and>
    snd (UdmMergeCoordsN2 order1 src1 order2 src2) = length (fst (UdmMergeCoordsN2 order1 src1 order2 src2))"
  using merge_n2_merges [OF assms order_refl, of order1 order2 "[]"] assms
  by (auto simp: UdmMergeCoordsN2_def merges_def keeps_runs_def)

definition crd_example :: "nat list \<Rightarrow> coord2 list" where
  "crd_example = map (\<lambda>p. \<lparr>pos = p, corder = 0\<rparr>)"

theorem UdmMergeCoordsN2_keeps_ends_witness:
  "subseq (fst (UdmMergeCoordsN2 1 (crd_example [1, 2, 3, 9]) 2 (crd_example [5]))) (merge_full 1 2 (crd_example [1, 2, 3, 9]) (crd_example [5])) \<and>
   subseq (run_ends None (merge_full 1 2 (crd_example [1, 2, 3, 9]) (crd_example [5])))
     (fst (UdmMergeCoordsN2 1 (crd_example [1, 2, 3, 9]) 2 (crd_example [5]))) \<and>
   snd (UdmMergeCoordsN2 1 (crd_example [1, 2, 3, 9]) 2 (crd_example [5])) =
     length (fst (UdmMergeCoordsN2 1 (crd_example [1, 2, 3, 9]) 2 (crd_example [5])))"
  by (rule UdmMergeCoordsN2_keeps_ends) (simp_all add: crd_example_def)

subsection \<open>The best documents are selected\<close>

abbreviation ranked_before :: "udm_url_score \<Rightarrow> udm_url_score \<Rightarrow> bool" where
  "ranked_before a b \<equiv> UDM_URL_SCORE_IS_SMALLER b a"

lemma ranked_before_trans: "ranked_before a b \<Longrightarrow> ranked_before b c \<Longrightarrow> ranked_before a c"
  by (auto simp: UDM_URL_SCORE_IS_SMALLER_def)

lemma ranked_before_total: "\<not> ranked_before a b \<Longrightarrow> ranked_before b a"
  by (auto simp: UDM_URL_SCORE_IS_SMALLER_def)

lemma ranked_before_refl [simp]: "ranked_before a a"
  by (simp add: UDM_URL_SCORE_IS_SMALLER_def)

lemma UdmSort_cong:
  assumes "\<And>x y. x \<in> set xs \<Longrightarrow> y \<in> set xs \<Longrightarrow> (cmp x y \<le> 0) = (cmp' x y \<le> 0)"
  shows "UdmSort cmp xs = UdmSort cmp' xs"
proof -
  have ins: "(\<And>y. y \<in> set ys \<Longrightarrow> (cmp x y \<le> 0) = (cmp' x y \<le> 0)) \<Longrightarrow> cmp_insert cmp x ys = cmp_insert cmp' x ys" for x ys
    by (induction ys) auto
  show ?thesis using assms
  proof (induction xs)
    case (Cons x xs)
    then have "UdmSort cmp xs = UdmSort cmp' xs" by simp
    moreover have "set (UdmSort cmp' xs) = set xs" by (rule qs.set_srt)
    ultimately show ?case using Cons.prems ins [of "UdmSort cmp' xs" x] by (simp add: UdmSort_def)
  qed (simp add: UdmSort_def)
qed

text \<open>The comparison by the difference is right for scores below \<open>2\<^sup>3\<^sup>1\<close> and non-negative
  identifiers.\<close>

definition score_in_range :: "udm_url_score \<Rightarrow> bool" where
  "score_in_range x \<longleftrightarrow> us_score x < 0x80000000 \<and> 0 \<le> us_url_id x \<and> us_url_id x < 2 ^ 31"

lemma int4_of_small: "- (2 ^ 31) \<le> i \<Longrightarrow> i < 2 ^ 31 \<Longrightarrow> int4_of i = i"
  by (rule int4_of_id) simp_all

lemma sint_small:
  assumes "w < (0x80000000 :: uint4)"
  shows "sint w = uint w \<and> uint w < 2 ^ 31"
proof -
  have "uint w < 2147483648" "- 2147483648 \<le> uint w"
    using assms by (simp_all add: word_less_def order_trans [OF _ uint_ge_0])
  moreover from this have "signed_take_bit 31 (uint w) = uint w"
    by (intro signed_take_bit_int_eq_self) simp_all
  ultimately show ?thesis by (simp add: sint_uint)
qed

lemma cmp_score_then_url_id_range:
  assumes "score_in_range x" "score_in_range y"
  shows "cmp_score_then_url_id x y \<le> 0 \<longleftrightarrow> ranked_before x y"
proof -
  have s: "sint (us_score x) = uint (us_score x)" "uint (us_score x) < 2 ^ 31"
    "sint (us_score y) = uint (us_score y)" "uint (us_score y) < 2 ^ 31"
    using assms sint_small by (auto simp: score_in_range_def)
  moreover have "0 \<le> uint (us_score x)" "0 \<le> uint (us_score y)" by simp_all
  ultimately have "int4_of (sint (us_score y) - sint (us_score x)) = uint (us_score y) - uint (us_score x)"
    by (intro int4_of_small [THEN trans]) (linarith | simp)+
  moreover have "int4_of (us_url_id x - us_url_id y) = us_url_id x - us_url_id y"
    using assms by (intro int4_of_small) (simp_all add: score_in_range_def)
  ultimately show ?thesis
    by (auto simp: cmp_score_then_url_id_def Let_def UDM_URL_SCORE_IS_SMALLER_def word_less_def word_uint_eq_iff)
qed


text \<open>The state of the loop before the item at \<open>k\<close>: the list is \<open>P @ m # R\<close> with the best
  \<open>topcount\<close> items so far, the next one and the others.\<close>

definition top_inv :: "udm_url_score list \<Rightarrow> nat \<Rightarrow> nat \<Rightarrow> udm_url_score list \<Rightarrow> bool" where
  "top_inv L0 topcount k L \<longleftrightarrow>
     (\<exists>P m R. L = P @ m # R \<and> length P = topcount \<and> mset L = mset L0 \<and>
       sorted_wrt ranked_before (P @ [m]) \<and>
       (\<forall>x \<in> set (take (k - Suc topcount) R). ranked_before m x))"

lemma top_step_inv:
  assumes inv: "top_inv L0 topcount k L" and k: "Suc topcount \<le> k" "k < length L"
  shows "top_inv L0 topcount (Suc k) (top_step topcount L k)"
proof -
  from inv obtain P m R where L: "L = P @ m # R" and lP: "length P = topcount" and ms: "mset L = mset L0"
    and srt: "sorted_wrt ranked_before (P @ [m])"
    and old: "\<forall>x \<in> set (take (k - Suc topcount) R). ranked_before m x"
    unfolding top_inv_def by blast
  define j where "j = k - Suc topcount"
  have j: "k = Suc (topcount + j)" "j < length R" using k L lP by (auto simp: j_def)
  define c where "c = R ! j"
  have nth: "L ! k = c" "L ! topcount = m" using L lP j by (simp_all add: nth_append c_def)
  have tj: "take (Suc j) R = take j R @ [c]" using j(2) by (simp add: take_Suc_conv_app_nth c_def)
  have skj: "Suc k - Suc topcount = Suc j" using j(1) by simp
  show ?thesis
  proof (cases "ranked_before m c")
    case True
    then have "top_step topcount L k = L" by (simp add: top_step_def nth)
    then show ?thesis
      unfolding top_inv_def skj using L lP ms srt old True tj
      by (intro exI [of _ P] exI [of _ m] exI [of _ R]) (auto simp: j_def)
  next
    case False
    define r where "r = find_pos L c 0 topcount"
    have P: "take topcount L = P" using L lP by simp
    have sP: "sorted_wrt ranked_before P" using srt by (simp add: sorted_wrt_append)
    have r: "r = first_not (\<lambda>Middle. UDM_URL_SCORE_IS_SMALLER c Middle) P 0 (length P)"
      unfolding r_def find_pos_def L lP [symmetric] by (rule first_not_butlast)
    have mono: "ranked_before (P ! i) c" if "i \<le> j" "j < length P" "ranked_before (P ! j) c" for i j
    proof (cases "i = j")
      case False
      then show ?thesis
        using ranked_before_trans [OF sorted_wrt_nth_less [OF sP] that(3)] that(1,2) by simp
    qed (use that in simp)
    note spec = first_not_cut(1) [OF mono r] and before = first_not_cut(2) [OF mono r]
    have "\<forall>x \<in> set (drop r P). \<not> ranked_before x c" by (rule first_not_cut(3) [OF mono r])
    then have after: "\<forall>x \<in> set (drop r P). ranked_before c x" using ranked_before_total by blast
    let ?P = "take r P @ c # drop r P" and ?R = "R[j := m]"
    have e: "top_step topcount L k = ?P @ ?R"
    proof -
      have t: "take r L = take r P" "drop (Suc topcount) L = R" using L lP spec by simp_all
      have "top_step topcount L k = (take r P @ [c] @ drop r P @ R)[k := m]"
        using False by (simp only: top_step_def nth Let_def r_def [symmetric] t P(1) if_False)
      also have "take r P @ [c] @ drop r P @ R = ?P @ R" by simp
      also have "(?P @ R)[k := m] = ?P @ R[j := m]"
        using j(1) lP spec by (subst list_update_append) simp
      finally show ?thesis .
    qed
    obtain P' m' where Pm: "?P = P' @ [m']" by (metis append_is_Nil_conv list.distinct(1) rev_exhaust)
    have "length ?P = Suc topcount" using lP spec by simp
    then have lP': "length P' = topcount" unfolding Pm by simp
    have "ranked_before c m" using False by (rule ranked_before_total)
    moreover have "\<forall>x \<in> set P. ranked_before x m" using srt by (simp add: sorted_wrt_append)
    ultimately have "\<forall>x \<in> set ?P. ranked_before x m" using set_take_subset [of r P] set_drop_subset [of r P] by auto
    then have m': "ranked_before m' m" unfolding Pm by simp
    have "mset ?P = add_mset c (mset P)"
    proof -
      have "mset (take r P) + mset (drop r P) = mset P" by (simp only: mset_append [symmetric] append_take_drop_id)
      then show ?thesis by simp
    qed
    moreover have "mset ?R = add_mset m (mset R) - {#c#}"
      using j(2) by (simp add: mset_update c_def)
    moreover have "c \<in># mset R" using j(2) by (simp add: c_def)
    ultimately have "mset (?P @ ?R) = mset L" by (simp add: L)
    moreover have "sorted_wrt ranked_before ?P"
    proof -
      have "sorted_wrt ranked_before (take r P @ drop r P)" using sP by simp
      then show ?thesis using before after unfolding sorted_wrt_append by simp
    qed
    moreover have "\<forall>x \<in> set (take (Suc j) ?R). ranked_before m' x"
    proof -
      have "take (Suc j) ?R = take j R @ [m]"
        using j(2) by (simp add: take_Suc_conv_app_nth)
      moreover have "\<forall>x \<in> set (take j R). ranked_before m' x"
        using old ranked_before_trans [OF m'] unfolding j_def by blast
      ultimately show ?thesis using m' by simp
    qed
    ultimately show ?thesis
      unfolding top_inv_def e skj using ms lP' Pm
      by (intro exI [of _ P'] exI [of _ m'] exI [of _ ?R]) auto
  qed
qed


lemma top_loop_inv:
  assumes "top_inv L0 topcount (Suc topcount) L" "n \<le> length L"
  shows "Suc topcount \<le> n \<Longrightarrow> top_inv L0 topcount n (foldl (top_step topcount) L [Suc topcount..<n]) \<and>
    length (foldl (top_step topcount) L [Suc topcount..<n]) = length L"
  using assms(2)
proof (induction n)
  case (Suc n)
  show ?case
  proof (cases "Suc n = Suc topcount")
    case False
    with Suc have IH: "top_inv L0 topcount n (foldl (top_step topcount) L [Suc topcount..<n])"
      "length (foldl (top_step topcount) L [Suc topcount..<n]) = length L" by auto
    have "[Suc topcount..<Suc n] = [Suc topcount..<n] @ [n]" using False Suc.prems(1) by simp
    moreover have s: "top_inv L0 topcount (Suc n) (top_step topcount (foldl (top_step topcount) L [Suc topcount..<n]) n)"
      using top_step_inv [OF IH(1)] IH(2) False Suc.prems by simp
    moreover have "length (top_step topcount (foldl (top_step topcount) L [Suc topcount..<n]) n) = length L"
      using s assms(1) unfolding top_inv_def by (metis size_mset)
    ultimately show ?thesis by simp
  qed (use assms(1) in simp)
qed simp

definition all_before :: "udm_url_score list \<Rightarrow> udm_url_score list \<Rightarrow> bool" where
  "all_before xs ys \<longleftrightarrow> (\<forall>x \<in> set xs. \<forall>y \<in> set ys. ranked_before x y)"

text \<open>
  C29. The partial sort selects the best documents: for scores below 2^31 and non-negative
  identifiers the result has the same documents, the first \<open>topcount + 1\<close> are in the order of
  the ranking (higher scores first, then smaller identifiers), and no document behind them
  ranks before one of them.
\<close>

theorem UdmURLScoreListSortByScoreThenURLTop_selects:
  assumes "topcount < length L" "\<forall>x \<in> set L. score_in_range x"
  shows "mset (UdmURLScoreListSortByScoreThenURLTop L topcount) = mset L \<and>
    sorted_wrt ranked_before (take (Suc topcount) (UdmURLScoreListSortByScoreThenURLTop L topcount)) \<and>
    all_before (take (Suc topcount) (UdmURLScoreListSortByScoreThenURLTop L topcount))
      (drop (Suc topcount) (UdmURLScoreListSortByScoreThenURLTop L topcount))"
proof -
  let ?cmp = "\<lambda>x y. if ranked_before x y then 0 else (1 :: int)"
  define H where "H = UdmSort cmp_score_then_url_id (take (topcount + 1) L)"
  have "H = UdmSort ?cmp (take (topcount + 1) L)"
    unfolding H_def using assms(2) by (intro UdmSort_cong) (auto simp: cmp_score_then_url_id_range dest!: in_set_takeD)
  moreover have "cmp_ok ?cmp"
    unfolding cmp_ok_def using ranked_before_total ranked_before_trans by (metis (full_types) le_numeral_extra(2) order_refl)
  ultimately have srt: "sorted_wrt ranked_before H"
    using qs.sorted_srt [of ?cmp "take (topcount + 1) L"] by (auto elim: sorted_wrt_mono_rel [rotated] split: if_splits)
  have mH: "mset H = mset (take (topcount + 1) L)" by (simp add: H_def qs.mset_srt)
  define L1 where "L1 = H @ drop (topcount + 1) L"
  have mL1: "mset L1 = mset L"
    unfolding L1_def mset_append mH by (metis append_take_drop_id mset_append)
  then have len: "length L1 = length L" by (metis size_mset)
  have "length H = Suc topcount" using mH assms(1) by (metis Suc_eq_plus1 Suc_leI length_take min.absorb2 size_mset)
  then obtain P m where H: "H = P @ [m]" "length P = topcount" by (cases H rule: rev_cases) auto
  have inv: "top_inv L topcount (Suc topcount) L1"
    unfolding top_inv_def using mL1 srt H by (intro exI [of _ P] exI [of _ m] exI [of _ "drop (topcount + 1) L"]) (simp add: L1_def)
  have "top_step topcount L1 topcount = L1" by (simp add: top_step_def)
  then have e: "UdmURLScoreListSortByScoreThenURLTop L topcount = foldl (top_step topcount) L1 [Suc topcount..<length L1]"
    using assms(1)
    by (simp only: UdmURLScoreListSortByScoreThenURLTop_def H_def [symmetric] L1_def [symmetric] len upt_conv_Cons foldl_Cons)
  have "top_inv L topcount (length L1) (UdmURLScoreListSortByScoreThenURLTop L topcount)"
    unfolding e using top_loop_inv [OF inv order_refl] assms(1) len by simp
  then obtain P m R where r: "UdmURLScoreListSortByScoreThenURLTop L topcount = P @ m # R" "length P = topcount"
    "mset (P @ m # R) = mset L" "sorted_wrt ranked_before (P @ [m])"
    "\<forall>x \<in> set (take (length L1 - Suc topcount) R). ranked_before m x"
    unfolding top_inv_def by metis
  have "length (P @ m # R) = length L1" using r(3) len by (metis size_mset)
  then have R: "\<forall>x \<in> set R. ranked_before m x" using r(2,5) by simp
  have "ranked_before x m" if "x \<in> set (P @ [m])" for x
    using that r(4) by (auto simp: sorted_wrt_append)
  then have "\<forall>x \<in> set (P @ [m]). \<forall>y \<in> set R. ranked_before x y"
    using R ranked_before_trans by blast
  moreover have "take (Suc topcount) (P @ m # R) = P @ [m]" "drop (Suc topcount) (P @ m # R) = R" using r(2) by simp_all
  ultimately show ?thesis unfolding r(1) all_before_def using r(3,4) by simp
qed

definition score_example :: "udm_url_score list" where
  "score_example = map (\<lambda>(i, s). \<lparr>us_url_id = i, us_score = s\<rparr>) [(1, 5), (2, 9), (3, 5), (4, 70), (5, 9)]"

theorem UdmURLScoreListSortByScoreThenURLTop_selects_witness:
  "mset (UdmURLScoreListSortByScoreThenURLTop score_example 2) = mset score_example \<and>
    sorted_wrt ranked_before (take (Suc 2) (UdmURLScoreListSortByScoreThenURLTop score_example 2)) \<and>
    all_before (take (Suc 2) (UdmURLScoreListSortByScoreThenURLTop score_example 2))
      (drop (Suc 2) (UdmURLScoreListSortByScoreThenURLTop score_example 2))"
  by (rule UdmURLScoreListSortByScoreThenURLTop_selects) (simp_all add: score_example_def score_in_range_def)

end
