(* ===== verification/Phrase.thy ===== *)
theory Phrase
  imports Section_Merge "HOL-Library.Product_Lexorder"
begin

text \<open>
  Words of several parts (\<^verbatim>\<open>src/coords.c\<close>): the coordinates of the parts are put into one list,
  sorted, and the places where all parts stand one behind another become the coordinates of the
  whole word (\<open>UdmURLCRDListMergeMultiWord\<close>, which writes its result into the list it reads).
  The result is limited (\<open>UdmApplyFastLimit\<close> of \<^verbatim>\<open>src/searchtool.c\<close>) and converted back to
  sections.

  Positions are the 24-bit positions of sections; the comparisons \<open>pos - i\<close> and \<open>num - i\<close> are
  made in integers, as the wrapped values of the code can not equal a position or a number.
\<close>

subsection \<open>Coordinates\<close>

record udm_url_crd =
  crd_url_id :: urlid_t
  crd_seclen :: nat
  crd_pos :: nat
  crd_num :: nat
  crd_secno :: nat

definition cmpurlid :: "udm_url_crd cmp" where
  "cmpurlid s1 s2 =
     (if crd_url_id s1 > crd_url_id s2 then 1
      else if crd_url_id s1 < crd_url_id s2 then - 1
      else if crd_secno s1 > crd_secno s2 then 1
      else if crd_secno s1 < crd_secno s2 then - 1
      else int (crd_pos s1) - int (crd_pos s2))"

definition UdmURLCRDListSortByURLThenSecnoThenPos :: "udm_url_crd list \<Rightarrow> udm_url_crd list" where
  "UdmURLCRDListSortByURLThenSecnoThenPos L = (if L \<noteq> [] then UdmSort cmpurlid L else L)"

subsection \<open>Merging the parts of a word\<close>

text \<open>The comparison of the loop over \<open>i\<close> and the loop; \<open>L\<close> is the array, \<open>fr\<close> the index.\<close>

definition part_matches :: "udm_url_crd list \<Rightarrow> nat \<Rightarrow> nat \<Rightarrow> bool" where
  "part_matches L fr i \<longleftrightarrow>
     crd_url_id (L ! (fr - i)) = crd_url_id (L ! fr) \<and>
     crd_secno (L ! (fr - i)) = crd_secno (L ! fr) \<and>
     int (crd_pos (L ! (fr - i))) = int (crd_pos (L ! fr)) - int i \<and>
     int (crd_num (L ! (fr - i))) = int (crd_num (L ! fr)) - int i"

function count_matches :: "udm_url_crd list \<Rightarrow> nat \<Rightarrow> nat \<Rightarrow> nat \<Rightarrow> nat \<Rightarrow> nat" where
  "count_matches L fr nparts i nmatches =
     (if i < nparts \<and> part_matches L fr i then count_matches L fr nparts (Suc i) (Suc nmatches)
      else nmatches)"
  by pat_completeness auto
termination
  by (relation "measure (\<lambda>(L, fr, nparts, i, nmatches). nparts - i)") auto

declare count_matches.simps [simp del]

definition ends_word :: "udm_url_crd list \<Rightarrow> nat \<Rightarrow> nat \<Rightarrow> bool" where
  "ends_word L nparts fr \<longleftrightarrow>
     (let Prev = L ! (fr - 1); From = L ! fr in
      crd_url_id Prev = crd_url_id From \<and>
      crd_pos From = crd_pos Prev + 1 \<and> crd_secno From = crd_secno Prev \<and> crd_num From = crd_num Prev + 1 \<and>
      count_matches L fr nparts 2 2 = nparts)"

definition write_word :: "udm_url_crd list \<Rightarrow> nat \<Rightarrow> nat \<Rightarrow> nat \<Rightarrow> nat \<Rightarrow> udm_url_crd list" where
  "write_word L wnum nparts fr To =
     L[To := (L ! To)\<lparr>crd_url_id := crd_url_id (L ! fr), crd_pos := crd_pos (L ! fr) + 1 - nparts,
                      crd_secno := crd_secno (L ! fr), crd_num := wnum\<rparr>]"

function merge_parts :: "udm_url_crd list \<Rightarrow> nat \<Rightarrow> nat \<Rightarrow> nat \<Rightarrow> nat \<Rightarrow> udm_url_crd list" where
  "merge_parts L wnum nparts fr To =
     (if fr < length L then
        if ends_word L nparts fr
        then merge_parts (write_word L wnum nparts fr To) wnum nparts (Suc fr) (Suc To)
        else merge_parts L wnum nparts (Suc fr) To
      else take To L)"
  by pat_completeness auto
termination
  by (relation "measure (\<lambda>(L, wnum, nparts, fr, To). length L - fr)") (auto simp: write_word_def)

declare merge_parts.simps [simp del]

definition UdmURLCRDListMergeMultiWord :: "udm_url_crd list \<Rightarrow> nat \<Rightarrow> nat \<Rightarrow> udm_url_crd list" where
  "UdmURLCRDListMergeMultiWord Phrase wnum nparts =
     (if nparts < 2 then Phrase
      else if length Phrase < nparts then []
      else merge_parts Phrase wnum nparts (nparts - 1) 0)"

subsection \<open>Between coordinates and sections\<close>

text \<open>The inner loop of \<open>UdmURLCRDListToSectionList\<close> is over the coordinates of one section of
  one document.\<close>

abbreviation same_section :: "udm_url_crd \<Rightarrow> udm_url_crd \<Rightarrow> bool" where
  "same_section a b \<equiv> crd_url_id b = crd_url_id a \<and> crd_secno b = crd_secno a"

function crd_sections :: "nat \<Rightarrow> nat \<Rightarrow> udm_url_crd list \<Rightarrow> udm_section list" where
  "crd_sections ord offs [] = []"
| "crd_sections ord offs (From # rest) =
     (let run = From # takeWhile (same_section From) rest
      in \<lparr>Coord = offs, PackedCoord = [], url_id = crd_url_id From, ncoords = length run,
          seclen = crd_seclen From, minpos = crd_pos From, maxpos = crd_pos (last run),
          secno = crd_secno From, wordnum = crd_num From, order = ord\<rparr>
         # crd_sections ord (offs + length run) (dropWhile (same_section From) rest))"
  by pat_completeness auto
termination
  by (relation "measure (\<lambda>(ord, offs, L). length L)") (auto simp: le_imp_less_Suc length_dropWhile_le)

definition UdmURLCRDListToSectionList :: "udm_url_crd list \<Rightarrow> nat \<Rightarrow> udm_sectionlist" where
  "UdmURLCRDListToSectionList L ord =
     \<lparr>mcoords = length L, sl_ncoords = length L,
      Coords = map (\<lambda>c. Some \<lparr>pos = crd_pos c, corder = ord\<rparr>) L,
      msections = length L, Sections = crd_sections ord 0 L\<rparr>"

text \<open>The coordinates of a section; \<open>None\<close> is the use of a coordinate that was never set.\<close>

definition section_crds :: "coord2 option list \<Rightarrow> udm_section \<Rightarrow> udm_url_crd option list" where
  "section_crds C S =
     map (map_option (\<lambda>c. \<lparr>crd_url_id = url_id S, crd_seclen = seclen S, crd_pos = pos c,
                           crd_num = wordnum S, crd_secno = secno S\<rparr>))
       (take (ncoords S) (drop (Coord S) C))"

text \<open>
  The block has room for the sum of the numbers \<open>ncoords\<close> of the lists, and this sum becomes the
  number of coordinates.  \<open>None\<close>: more are copied than the block holds, or fewer, which a debug
  build stops at (\<open>UDM_ASSERT\<close>) and any other build goes on from with coordinates that were
  never set.
\<close>

definition copied_crds :: "udm_sectionlist list \<Rightarrow> udm_url_crd option list" where
  "copied_crds SrcList = concat (map (\<lambda>L. concat (map (section_crds (Coords L)) (Sections L))) SrcList)"

definition UdmSectionListListToURLCRDList :: "udm_sectionlist list \<Rightarrow> udm_url_crd option list option" where
  "UdmSectionListListToURLCRDList SrcList =
     (let allocated = sum_list (map sl_ncoords SrcList); crds = copied_crds SrcList
      in if allocated = length crds then Some crds else None)"

definition UdmMultiWordMergeCoords :: "udm_sectionlist list \<Rightarrow> nat \<Rightarrow> nat \<Rightarrow> udm_url_crd list option" where
  "UdmMultiWordMergeCoords SrcList orig_wordnum nparts =
     (case UdmSectionListListToURLCRDList SrcList of None \<Rightarrow> None
      | Some crds \<Rightarrow>
         if None \<in> set crds then None
         else Some (UdmURLCRDListMergeMultiWord
           (UdmURLCRDListSortByURLThenSecnoThenPos (map the crds)) orig_wordnum nparts))"

definition UdmApplyFastLimit :: "udm_url_crd list \<Rightarrow> udm_urlid_list \<Rightarrow> udm_url_crd list" where
  "UdmApplyFastLimit crds us =
     (if exclude us then filter (\<lambda>c. UdmBSearch UdmCmpURLID (crd_url_id c) (urls us) = None) crds
      else filter (\<lambda>c. UdmBSearch UdmCmpURLID (crd_url_id c) (urls us) \<noteq> None) crds)"

text \<open>The result is the list of section lists and the number of coordinates.\<close>

definition UdmMultiWordAdd :: "udm_sectionlist list \<Rightarrow> udm_urlid_list \<Rightarrow> nat \<Rightarrow> udm_sectionlist list \<Rightarrow>
    nat \<Rightarrow> nat \<Rightarrow> (udm_sectionlist list \<times> nat) option" where
  "UdmMultiWordAdd Parts us ord Original orig_wordnum nparts =
     (case UdmMultiWordMergeCoords Parts orig_wordnum nparts of
        None \<Rightarrow> None
      | Some Phrase \<Rightarrow>
          let Phrase = (if urls us \<noteq> [] then UdmApplyFastLimit Phrase us else Phrase)
          in Some (if Phrase \<noteq> [] then UdmSectionListListAdd Original (UdmURLCRDListToSectionList Phrase ord)
                   else Original, length Phrase))"

definition UdmURLCRDListListAddWithSort2 :: "udm_sectionlist list \<Rightarrow> nat list \<Rightarrow> nat \<Rightarrow> udm_url_crd list \<Rightarrow> udm_sectionlist list" where
  "UdmURLCRDListListAddWithSort2 Dst word_order wnum CoordList =
     (let ord = (if wnum < length word_order then word_order ! wnum else 0)
      in UdmSectionListListAdd Dst (UdmURLCRDListToSectionList CoordList ord))"

subsection \<open>The merge in place\<close>

lemma count_matches_iff:
  "2 \<le> i \<Longrightarrow> i \<le> nparts \<Longrightarrow> count_matches L fr nparts i i = nparts \<longleftrightarrow> (\<forall>j. i \<le> j \<and> j < nparts \<longrightarrow> part_matches L fr j)"
proof (induction "nparts - i" arbitrary: i)
  case 0
  then show ?case by (subst count_matches.simps) auto
next
  case (Suc k)
  then have i: "i < nparts" by simp
  show ?case
  proof (cases "part_matches L fr i")
    case True
    have "part_matches L fr j" if "\<forall>j. Suc i \<le> j \<and> j < nparts \<longrightarrow> part_matches L fr j" "i \<le> j" "j < nparts" for j
      using that True by (cases "j = i") (simp_all add: Suc_le_eq)
    then have "(\<forall>j. i \<le> j \<and> j < nparts \<longrightarrow> part_matches L fr j) \<longleftrightarrow> (\<forall>j. Suc i \<le> j \<and> j < nparts \<longrightarrow> part_matches L fr j)"
      by (meson Suc_leD)
    with Suc True i show ?thesis by (subst count_matches.simps) simp
  next
    case False
    then show ?thesis using i by (subst count_matches.simps) auto
  qed
qed

lemma ends_word_iff:
  assumes "2 \<le> nparts" "1 \<le> fr"
  shows "ends_word L nparts fr \<longleftrightarrow> (\<forall>j < nparts. part_matches L fr j)"
proof -
  have "ends_word L nparts fr \<longleftrightarrow> part_matches L fr 1 \<and> (\<forall>j. 2 \<le> j \<and> j < nparts \<longrightarrow> part_matches L fr j)"
    using count_matches_iff [of 2 nparts L fr] assms
    by (auto simp: ends_word_def Let_def part_matches_def)
  moreover have "part_matches L fr 0" by (simp add: part_matches_def)
  moreover have "j = 0 \<or> j = 1 \<or> 2 \<le> j" for j :: nat by linarith
  ultimately show ?thesis using assms(1) by (metis less_le_trans one_less_numeral_iff semiring_norm(76))
qed

text \<open>What is read lies behind what was written.\<close>

lemma ends_word_write:
  assumes "2 \<le> nparts" "To + nparts \<le> Suc fr"
    and "\<And>i. To \<le> i \<Longrightarrow> L ! i = L0 ! i"
  shows "ends_word L nparts fr \<longleftrightarrow> ends_word L0 nparts fr"
proof -
  have "L ! (fr - j) = L0 ! (fr - j)" if "j < nparts" for j
    using assms that by (intro assms(3)) linarith
  moreover have "L ! fr = L0 ! fr" using assms by (intro assms(3)) linarith
  ultimately have "part_matches L fr j \<longleftrightarrow> part_matches L0 fr j" if "j < nparts" for j
    using that by (simp add: part_matches_def)
  then show ?thesis using ends_word_iff [OF assms(1), of fr] assms(1,2) by auto
qed

text \<open>The word that ends at a coordinate, without the length of its section.\<close>

definition crd_place :: "udm_url_crd \<Rightarrow> urlid_t \<times> nat \<times> nat \<times> nat" where
  "crd_place c = (crd_url_id c, crd_secno c, crd_pos c, crd_num c)"

definition found_word :: "nat \<Rightarrow> nat \<Rightarrow> udm_url_crd \<Rightarrow> urlid_t \<times> nat \<times> nat \<times> nat" where
  "found_word wnum nparts c = (crd_url_id c, crd_secno c, crd_pos c + 1 - nparts, wnum)"

lemma merge_parts_in_place:
  "2 \<le> nparts \<Longrightarrow> To + nparts \<le> Suc fr \<Longrightarrow> length L = length L0 \<Longrightarrow> (\<And>i. To \<le> i \<Longrightarrow> L ! i = L0 ! i) \<Longrightarrow> To \<le> length L \<Longrightarrow>
    map crd_place (merge_parts L wnum nparts fr To) =
      map crd_place (take To L) @
      map (\<lambda>i. found_word wnum nparts (L0 ! i)) (filter (ends_word L0 nparts) [fr..<length L0])"
proof (induction L wnum nparts fr To rule: merge_parts.induct)
  case (1 L wnum nparts fr To)
  note two = "1.prems"(1) and inv = "1.prems"(2) and len = "1.prems"(3) and same = "1.prems"(4) and To = "1.prems"(5)
  show ?case
  proof (cases "fr < length L")
    case False
    then show ?thesis using len by (subst merge_parts.simps) simp
  next
    case True
    have w: "ends_word L nparts fr \<longleftrightarrow> ends_word L0 nparts fr" by (rule ends_word_write [OF two inv same])
    have upt: "[fr..<length L0] = fr # [Suc fr..<length L0]" using True len by (simp add: upt_conv_Cons)
    show ?thesis
    proof (cases "ends_word L nparts fr")
      case word: True
      let ?L = "write_word L wnum nparts fr To"
      have Tl: "To < length L" using inv two True by linarith
      have frm: "L ! fr = L0 ! fr" by (rule same) (use inv two in linarith)
      have place: "map crd_place (take (Suc To) ?L) = map crd_place (take To L) @ [found_word wnum nparts (L0 ! fr)]"
        using Tl by (simp add: write_word_def take_Suc_conv_app_nth crd_place_def found_word_def frm)
      have "map crd_place (merge_parts ?L wnum nparts (Suc fr) (Suc To)) =
          map crd_place (take (Suc To) ?L) @
          map (\<lambda>i. found_word wnum nparts (L0 ! i)) (filter (ends_word L0 nparts) [Suc fr..<length L0])"
        by (rule "1.IH"(1) [OF True word]) (use inv len same Tl two in \<open>simp_all add: write_word_def\<close>)
      then show ?thesis using True word w upt place by (subst merge_parts.simps) simp
    next
      case word: False
      have "map crd_place (merge_parts L wnum nparts (Suc fr) To) = map crd_place (take To L) @
          map (\<lambda>i. found_word wnum nparts (L0 ! i)) (filter (ends_word L0 nparts) [Suc fr..<length L0])"
        by (rule "1.IH"(2) [OF True word]) (use inv len same To two in simp_all)
      then show ?thesis using True word w upt by (subst merge_parts.simps) simp
    qed
  qed
qed

subsection \<open>The words that are found\<close>

definition crd_key :: "udm_url_crd \<Rightarrow> urlid_t \<times> nat \<times> nat" where
  "crd_key c = (crd_url_id c, crd_secno c, crd_pos c)"

lemma cmpurlid_key: "cmpurlid x y \<le> 0 \<longleftrightarrow> crd_key x \<le> crd_key y"
  by (auto simp: cmpurlid_def crd_key_def less_eq_prod_def)

text \<open>All parts stand one behind another from the place on, with the numbers from \<open>n\<close> on.\<close>

definition parts_from :: "udm_url_crd list \<Rightarrow> nat \<Rightarrow> nat \<Rightarrow> urlid_t \<times> nat \<times> nat \<Rightarrow> bool" where
  "parts_from L nparts n k \<longleftrightarrow>
     (case k of (u, s, p) \<Rightarrow> \<forall>j < nparts. (u, s, p + j, n + j) \<in> crd_place ` set L)"

definition words_of :: "udm_url_crd list \<Rightarrow> nat \<Rightarrow> (urlid_t \<times> nat \<times> nat) set" where
  "words_of L nparts = {k. \<exists>n. parts_from L nparts n k}"

lemma strict_index:
  assumes "sorted_wrt (<) (map crd_key L)" "i < length L" "j < length L" "crd_key (L ! i) < crd_key (L ! j)"
  shows "i < j"
proof (rule ccontr)
  assume "\<not> i < j"
  moreover have "i \<noteq> j" using assms(4) by auto
  ultimately have "crd_key (L ! j) < crd_key (L ! i)"
    using sorted_wrt_nth_less [OF assms(1), of j i] assms(2,3) by simp
  with assms(4) show False by simp
qed

lemma parts_window:
  assumes "sorted_wrt (<) (map crd_key L)" "fr < length L"
    and "\<forall>j < nparts. \<exists>d \<in> set L. crd_url_id d = crd_url_id (L ! fr) \<and> crd_secno d = crd_secno (L ! fr) \<and>
      crd_pos d + j = crd_pos (L ! fr) \<and> crd_num d + j = crd_num (L ! fr)"
  shows "j < nparts \<Longrightarrow> j \<le> fr \<and> crd_url_id (L ! (fr - j)) = crd_url_id (L ! fr) \<and>
    crd_secno (L ! (fr - j)) = crd_secno (L ! fr) \<and>
    crd_pos (L ! (fr - j)) + j = crd_pos (L ! fr) \<and> crd_num (L ! (fr - j)) + j = crd_num (L ! fr)"
proof (induction j)
  case (Suc j)
  then have IH: "j \<le> fr" "crd_url_id (L ! (fr - j)) = crd_url_id (L ! fr)"
    "crd_secno (L ! (fr - j)) = crd_secno (L ! fr)" "crd_pos (L ! (fr - j)) + j = crd_pos (L ! fr)" by simp_all
  obtain d where d: "d \<in> set L" "crd_url_id d = crd_url_id (L ! fr)" "crd_secno d = crd_secno (L ! fr)"
    "crd_pos d + Suc j = crd_pos (L ! fr)" "crd_num d + Suc j = crd_num (L ! fr)"
    using assms(3) Suc.prems by blast
  then obtain k where k: "k < length L" "d = L ! k" by (auto simp: in_set_conv_nth)
  let ?m = "fr - j"
  have m: "?m < length L" using assms(2) by simp
  have "crd_key (L ! k) < crd_key (L ! ?m)" using d IH k(2) by (auto simp: crd_key_def)
  then have km: "k < ?m" by (rule strict_index [OF assms(1) k(1) m])
  have "k = ?m - 1"
  proof (rule ccontr)
    assume "k \<noteq> ?m - 1"
    with km have "k < ?m - 1" "?m - 1 < ?m" by simp_all
    then have "crd_key (L ! k) < crd_key (L ! (?m - 1))" "crd_key (L ! (?m - 1)) < crd_key (L ! ?m)"
      using sorted_wrt_nth_less [OF assms(1)] m by simp_all
    then show False using d IH k(2) by (auto simp: crd_key_def less_prod_def)
  qed
  then have "fr - Suc j = k" "Suc j \<le> fr" using km by linarith+
  with d k(2) show ?case by simp
qed simp

lemma ends_word_parts:
  assumes "sorted_wrt (<) (map crd_key L)" "fr < length L" "2 \<le> nparts"
  shows "nparts \<le> Suc fr \<and> ends_word L nparts fr \<longleftrightarrow>
    (\<forall>j < nparts. \<exists>d \<in> set L. crd_url_id d = crd_url_id (L ! fr) \<and> crd_secno d = crd_secno (L ! fr) \<and>
      crd_pos d + j = crd_pos (L ! fr) \<and> crd_num d + j = crd_num (L ! fr))" (is "?l \<longleftrightarrow> ?r")
proof
  assume ?l
  show ?r
  proof (intro allI impI)
    fix j assume "j < nparts"
    have "1 \<le> fr" using \<open>?l\<close> assms(3) by linarith
    then have "part_matches L fr j" using \<open>?l\<close> \<open>j < nparts\<close> ends_word_iff [OF assms(3)] by blast
    moreover have "L ! (fr - j) \<in> set L" using assms(2) by simp
    ultimately show "\<exists>d \<in> set L. crd_url_id d = crd_url_id (L ! fr) \<and> crd_secno d = crd_secno (L ! fr) \<and>
        crd_pos d + j = crd_pos (L ! fr) \<and> crd_num d + j = crd_num (L ! fr)"
      by (intro bexI [of _ "L ! (fr - j)"]) (auto simp: part_matches_def)
  qed
next
  assume ?r
  note w = parts_window [OF assms(1,2) this]
  have "nparts - 1 < nparts" using assms(3) by simp
  from w [OF this] have "nparts - 1 \<le> fr" by blast
  then have n: "nparts \<le> Suc fr" by linarith
  moreover have "part_matches L fr j" if "j < nparts" for j using w [OF that] by (auto simp: part_matches_def)
  ultimately show ?l using ends_word_iff [OF assms(3)] assms(3) by auto
qed

lemma found_words:
  assumes "sorted_wrt (<) (map crd_key L)" "2 \<le> nparts"
  shows "(\<lambda>i. found_word w nparts (L ! i)) ` set (filter (ends_word L nparts) [nparts - 1..<length L]) =
    (\<lambda>(u, s, p). (u, s, p, w)) ` words_of L nparts" (is "?A = ?B")
proof (intro set_eqI iffI)
  fix x assume "x \<in> ?A"
  then obtain i where i: "i < length L" "nparts \<le> Suc i" "ends_word L nparts i" "x = found_word w nparts (L ! i)" by auto
  let ?c = "L ! i"
  from ends_word_parts [OF assms(1) i(1) assms(2)] i(2,3)
  have parts: "\<exists>d \<in> set L. crd_url_id d = crd_url_id ?c \<and> crd_secno d = crd_secno ?c \<and>
      crd_pos d + j = crd_pos ?c \<and> crd_num d + j = crd_num ?c" if "j < nparts" for j using that by blast
  have "nparts - 1 < nparts" using assms(2) by simp
  from parts [OF this] have ge: "nparts - 1 \<le> crd_pos ?c" "nparts - 1 \<le> crd_num ?c" by auto
  have "parts_from L nparts (crd_num ?c + 1 - nparts) (crd_url_id ?c, crd_secno ?c, crd_pos ?c + 1 - nparts)"
    unfolding parts_from_def prod.case
  proof (intro allI impI)
    fix j assume j: "j < nparts"
    then have "nparts - 1 - j < nparts" by simp
    from parts [OF this] obtain d where d: "d \<in> set L" "crd_url_id d = crd_url_id ?c" "crd_secno d = crd_secno ?c"
      "crd_pos d + (nparts - 1 - j) = crd_pos ?c" "crd_num d + (nparts - 1 - j) = crd_num ?c" by blast
    then have "crd_pos d = crd_pos ?c + 1 - nparts + j" "crd_num d = crd_num ?c + 1 - nparts + j"
      using j ge by linarith+
    with d show "(crd_url_id ?c, crd_secno ?c, crd_pos ?c + 1 - nparts + j, crd_num ?c + 1 - nparts + j) \<in> crd_place ` set L"
      by (intro image_eqI [of _ _ d]) (simp_all add: crd_place_def)
  qed
  then show "x \<in> ?B" unfolding i(4) found_word_def words_of_def by force
next
  fix x assume "x \<in> ?B"
  then obtain u s p n where x: "x = (u, s, p, w)" and pf: "parts_from L nparts n (u, s, p)" by (auto simp: words_of_def)
  have part: "\<exists>d \<in> set L. crd_place d = (u, s, p + j, n + j)" if "j < nparts" for j
    using pf that by (fastforce simp: parts_from_def)
  from part [of "nparts - 1"] assms(2) obtain c where c: "c \<in> set L" "crd_place c = (u, s, p + (nparts - 1), n + (nparts - 1))" by auto
  then obtain i where i: "i < length L" "c = L ! i" by (auto simp: in_set_conv_nth)
  have "\<exists>d \<in> set L. crd_url_id d = crd_url_id (L ! i) \<and> crd_secno d = crd_secno (L ! i) \<and>
      crd_pos d + j = crd_pos (L ! i) \<and> crd_num d + j = crd_num (L ! i)" if "j < nparts" for j
    using part [of "nparts - 1 - j"] c(2) that i(2) assms(2) by (fastforce simp: crd_place_def)
  then have "nparts \<le> Suc i" "ends_word L nparts i" using ends_word_parts [OF assms(1) i(1) assms(2)] by blast+
  then have "i \<in> set (filter (ends_word L nparts) [nparts - 1..<length L])" using i(1) by auto
  moreover have "x = found_word w nparts (L ! i)" using c(2) i(2) x assms(2) by (simp add: found_word_def crd_place_def)
  ultimately show "x \<in> ?A" by blast
qed

lemma merge_result:
  assumes "sorted_wrt (<) (map crd_key L)" "2 \<le> nparts"
  shows "crd_key ` set (UdmURLCRDListMergeMultiWord L w nparts) = words_of L nparts \<and>
    crd_num ` set (UdmURLCRDListMergeMultiWord L w nparts) \<subseteq> {w}"
proof -
  have none: "words_of L nparts = {}" if "length L < nparts"
  proof -
    have "x \<notin> (\<lambda>(u, s, p). (u, s, p, w)) ` words_of L nparts" for x
      using found_words [OF assms, of w] that by (simp add: image_iff)
    then show ?thesis by blast
  qed
  have "map crd_place (UdmURLCRDListMergeMultiWord L w nparts) =
      map (\<lambda>i. found_word w nparts (L ! i)) (filter (ends_word L nparts) [nparts - 1..<length L])"
  proof (cases "length L < nparts")
    case True
    then show ?thesis using assms(2) by (simp add: UdmURLCRDListMergeMultiWord_def)
  next
    case False
    then show ?thesis
      using merge_parts_in_place [OF assms(2), of 0 "nparts - 1" L L w] assms(2)
      by (simp add: UdmURLCRDListMergeMultiWord_def)
  qed
  then have places: "crd_place ` set (UdmURLCRDListMergeMultiWord L w nparts) = (\<lambda>(u, s, p). (u, s, p, w)) ` words_of L nparts"
    using found_words [OF assms, of w] by (metis set_map)
  have key: "crd_key c = (\<lambda>(u, s, p, n). (u, s, p)) (crd_place c)" for c by (simp add: crd_key_def crd_place_def)
  have "crd_key ` set R = (\<lambda>(u, s, p, n). (u, s, p)) ` crd_place ` set R" for R by (simp add: image_image key)
  then have "crd_key ` set (UdmURLCRDListMergeMultiWord L w nparts) =
      (\<lambda>(u, s, p, n). (u, s, p)) ` (\<lambda>(u, s, p). (u, s, p, w)) ` words_of L nparts" by (simp only: places)
  also have "\<dots> = words_of L nparts" by (force simp: image_image)
  finally have k: "crd_key ` set (UdmURLCRDListMergeMultiWord L w nparts) = words_of L nparts" .
  have "crd_num c = w" if "c \<in> set (UdmURLCRDListMergeMultiWord L w nparts)" for c
  proof -
    from that have "crd_place c \<in> (\<lambda>(u, s, p). (u, s, p, w)) ` words_of L nparts" unfolding places [symmetric] by blast
    then show ?thesis by (auto simp: crd_place_def)
  qed
  with k show ?thesis by blast
qed

lemma parts_from_set: "set L = set L' \<Longrightarrow> words_of L nparts = words_of L' nparts"
  by (simp add: words_of_def parts_from_def)

lemma sort_strict:
  assumes "distinct (map crd_key L)"
  shows "sorted_wrt (<) (map crd_key (UdmURLCRDListSortByURLThenSecnoThenPos L)) \<and>
    set (UdmURLCRDListSortByURLThenSecnoThenPos L) = set L"
proof (cases "L = []")
  case False
  have m: "mset (UdmSort cmpurlid L) = mset L" by (rule qs.mset_srt)
  then have "mset (map crd_key (UdmSort cmpurlid L)) = mset (map crd_key L)" by simp
  then have "distinct (map crd_key (UdmSort cmpurlid L))" using assms by (metis mset_eq_imp_distinct_iff)
  moreover have "sorted (map crd_key (UdmSort cmpurlid L))"
    using qs.sorted_srt [OF cmp_okI [OF cmpurlid_key]] by (simp add: sorted_map cmpurlid_key)
  ultimately show ?thesis
    using False qs.set_srt by (simp add: UdmURLCRDListSortByURLThenSecnoThenPos_def strict_sorted_iff)
qed (simp add: UdmURLCRDListSortByURLThenSecnoThenPos_def)

text \<open>
  C18. A word of several parts, no two of which have the same position in a section (so that no part is
  repeated in the word), is found at exactly the places where its parts follow one another:
  when the sections of the parts have the numbers of coordinates the block is allocated for,
  the merged list holds the document, the section and the position of the first part for every
  place from which the parts stand one
  behind another with consecutive numbers, and nothing else, although the list is overwritten
  while it is read; the coordinates carry the number of the whole word.
\<close>

theorem UdmMultiWordMergeCoords_finds_words:
  assumes "copied_crds SrcList = map Some crds" "sum_list (map sl_ncoords SrcList) = length crds"
    and "distinct (map crd_key crds)" "2 \<le> nparts"
  shows "\<exists>R. UdmMultiWordMergeCoords SrcList w nparts = Some R \<and>
    crd_key ` set R = words_of crds nparts \<and> crd_num ` set R \<subseteq> {w}"
proof -
  let ?L = "UdmURLCRDListSortByURLThenSecnoThenPos crds"
  have "UdmMultiWordMergeCoords SrcList w nparts = Some (UdmURLCRDListMergeMultiWord ?L w nparts)"
    by (simp add: UdmMultiWordMergeCoords_def UdmSectionListListToURLCRDList_def assms(1,2) Let_def comp_def)
  moreover have "words_of ?L nparts = words_of crds nparts"
    using sort_strict [OF assms(3)] by (intro parts_from_set) simp
  moreover have "sorted_wrt (<) (map crd_key ?L)" using sort_strict [OF assms(3)] by simp
  ultimately show ?thesis using merge_result [OF _ assms(4)] by metis
qed

definition example_parts :: "udm_sectionlist list" where
  "example_parts =
     map (\<lambda>(n, ps). \<lparr>mcoords = length ps, sl_ncoords = length ps,
            Coords = map (\<lambda>p. Some \<lparr>pos = p, corder = n\<rparr>) ps, msections = 1,
            Sections = [\<lparr>Coord = 0, PackedCoord = [], url_id = 4, ncoords = length ps, seclen = 20,
              minpos = hd ps, maxpos = last ps, secno = 1, wordnum = n, order = n\<rparr>]\<rparr>)
       [(0, [2, 7]), (1, [3, 9])]"

definition example_crds :: "udm_url_crd list" where
  "example_crds = map (\<lambda>(n, p). \<lparr>crd_url_id = 4, crd_seclen = 20, crd_pos = p, crd_num = n, crd_secno = 1\<rparr>)
     [(0, 2), (0, 7), (1, 3), (1, 9)]"

theorem UdmMultiWordMergeCoords_finds_words_witness:
  "\<exists>R. UdmMultiWordMergeCoords example_parts 5 2 = Some R \<and>
    crd_key ` set R = words_of example_crds 2 \<and> crd_num ` set R \<subseteq> {5}"
  by (rule UdmMultiWordMergeCoords_finds_words)
    (simp_all add: example_parts_def example_crds_def copied_crds_def section_crds_def crd_key_def)

subsection \<open>Sections and back\<close>

lemma crd_sections_back:
  assumes "\<forall>c \<in> set L. crd_num c = w"
  shows "length pre = offs \<Longrightarrow>
    map (map_option crd_place) (concat (map (section_crds (pre @ map (\<lambda>c. Some \<lparr>pos = crd_pos c, corder = ord\<rparr>) L)) (crd_sections ord offs L))) =
      map (\<lambda>c. Some (crd_place c)) L"
  using assms
proof (induction ord offs L arbitrary: pre rule: crd_sections.induct)
  case (2 ord offs From rest)
  define run where "run = From # takeWhile (same_section From) rest"
  define others where "others = dropWhile (same_section From) rest"
  have L: "From # rest = run @ others" by (simp add: run_def others_def)
  let ?c = "map (\<lambda>c. Some \<lparr>pos = crd_pos c, corder = ord\<rparr>)"
  have same: "crd_url_id c = crd_url_id From \<and> crd_secno c = crd_secno From \<and> crd_num c = crd_num From" if "c \<in> set run" for c
  proof -
    have "c \<in> set (From # rest)" using that unfolding L by simp
    then have "crd_num c = w" "crd_num From = w" using "2.prems"(2) by (blast, simp)
    moreover have "c = From \<or> same_section From c" using that by (auto simp: run_def dest: set_takeWhileD)
    ultimately show ?thesis by auto
  qed
  have IH: "map (map_option crd_place) (concat (map (section_crds ((pre @ ?c run) @ ?c others)) (crd_sections ord (offs + length run) others))) =
      map (\<lambda>c. Some (crd_place c)) others"
    unfolding others_def run_def
    by (rule "2.IH" [OF refl]) (use "2.prems" in \<open>auto dest: set_dropWhileD\<close>)
  have "map (map_option crd_place) (section_crds (pre @ ?c (From # rest))
      \<lparr>Coord = offs, PackedCoord = [], url_id = crd_url_id From, ncoords = length run,
          seclen = crd_seclen From, minpos = crd_pos From, maxpos = crd_pos (last run),
          secno = crd_secno From, wordnum = crd_num From, order = ord\<rparr>) = map (\<lambda>c. Some (crd_place c)) run"
    unfolding L using "2.prems"(1) same by (simp add: section_crds_def crd_place_def comp_def)
  moreover have cs: "crd_sections ord offs (From # rest) =
      \<lparr>Coord = offs, PackedCoord = [], url_id = crd_url_id From, ncoords = length run,
          seclen = crd_seclen From, minpos = crd_pos From, maxpos = crd_pos (last run),
          secno = crd_secno From, wordnum = crd_num From, order = ord\<rparr> # crd_sections ord (offs + length run) others"
    by (simp add: Let_def run_def others_def)
  ultimately show ?case using IH unfolding cs unfolding L by simp
qed simp

text \<open>
  The conversion of a list of coordinates of one word to sections and back keeps every
  coordinate, with its document, section, position and number, in the order of the list.
\<close>

theorem UdmURLCRDListToSectionList_roundtrip:
  assumes "\<forall>c \<in> set L. crd_num c = w"
  shows "\<exists>R. UdmSectionListListToURLCRDList [UdmURLCRDListToSectionList L ord] = Some R \<and>
    map (map_option crd_place) R = map (\<lambda>c. Some (crd_place c)) L"
proof -
  have conv: "map (map_option crd_place) (copied_crds [UdmURLCRDListToSectionList L ord]) = map (\<lambda>c. Some (crd_place c)) L"
    using crd_sections_back [OF assms, of "[]" 0] by (simp add: copied_crds_def UdmURLCRDListToSectionList_def)
  from this [THEN arg_cong, of length] have "length (copied_crds [UdmURLCRDListToSectionList L ord]) = length L" by simp
  with conv show ?thesis by (simp add: UdmSectionListListToURLCRDList_def UdmURLCRDListToSectionList_def)
qed

theorem UdmURLCRDListToSectionList_roundtrip_witness:
  "\<exists>R. UdmSectionListListToURLCRDList [UdmURLCRDListToSectionList (take 2 example_crds) 1] = Some R \<and>
    map (map_option crd_place) R = map (\<lambda>c. Some (crd_place c)) (take 2 example_crds)"
  by (rule UdmURLCRDListToSectionList_roundtrip [of _ 0]) (simp add: example_crds_def)

end
