(* ===== verification/Wild.thy ===== *)
theory Wild
  imports Prelude
begin

text \<open>
  Wildcards (\<^verbatim>\<open>src/wild.c\<close>) and the table of the lower-case letters of Latin-1
  (\<^verbatim>\<open>src/vars.c\<close>).  A C string is the list of its bytes before the closing zero, so that the
  end of the list is the test for the zero.

  The results of a comparison are 0 (match), 1 (no match here) and -1 (the string ended before
  the pattern).  In the loop over the positions behind a star a result of -1 ends the search at
  once; that this loses no match is the content of \<open>wild_cmp_spec\<close>.
\<close>

subsection \<open>Lower case\<close>

text \<open>The table, by its runs.\<close>

definition udm_l1tolower :: "nat list" where
  "udm_l1tolower =
     [0x00..<0x41] @ [0x61..<0x7B] @ [0x5B..<0xC0] @
     [0xE0..<0xF7] @ [0xD7] @ [0xF8..<0xFF] @ [0xDF] @ [0xE0..<0x100]"

definition l1tolower :: "byte \<Rightarrow> nat" where
  "l1tolower b = udm_l1tolower ! unat b"

lemma length_udm_l1tolower: "length udm_l1tolower = 256"
  by (simp add: udm_l1tolower_def)

lemma l1tolower_ranges:
  "l1tolower b =
     (let i = unat b in
      if 0x41 \<le> i \<and> i \<le> 0x5A \<or> 0xC0 \<le> i \<and> i \<le> 0xDE \<and> i \<noteq> 0xD7 then i + 0x20 else i)"
proof -
  have "unat b < 256" using unsigned_less [of b] by simp
  then show ?thesis
    by (auto simp: l1tolower_def udm_l1tolower_def nth_append nth_Cons' Let_def simp del: upt_rec_numeral)
qed

subsection \<open>UdmWildCmp and UdmWildCaseCmp\<close>

abbreviation star :: byte where "star \<equiv> 0x2A"
abbreviation question :: byte where "question \<equiv> 0x3F"

text \<open>Both functions have the same body up to the comparison of two characters.\<close>

function wild_cmp :: "(byte \<Rightarrow> byte \<Rightarrow> bool) \<Rightarrow> byte list \<Rightarrow> byte list \<Rightarrow> int"
and wild_star :: "(byte \<Rightarrow> byte \<Rightarrow> bool) \<Rightarrow> byte list \<Rightarrow> byte list \<Rightarrow> int" where
  "wild_cmp eq str [] = (if str \<noteq> [] then 1 else 0)"
| "wild_cmp eq str (w # wexp) =
     (if str = [] \<and> w \<noteq> star then - 1
      else if w = star then
        (let wexp = dropWhile (\<lambda>c. c = star) wexp
         in if wexp = [] then 0 else wild_star eq str wexp)
      else if w \<noteq> question \<and> \<not> eq (hd str) w then 1
      else wild_cmp eq (tl str) wexp)"
| "wild_star eq [] wexp = - 1"
| "wild_star eq (c # str) wexp =
     (let ret = wild_cmp eq (c # str) wexp
      in if ret \<noteq> 1 then ret else wild_star eq str wexp)"
  by pat_completeness auto
termination
  by (relation "measures
      [\<lambda>x. case x of Inl (eq, str, wexp) \<Rightarrow> length wexp | Inr (eq, str, wexp) \<Rightarrow> length wexp,
       \<lambda>x. case x of Inl (eq, str, wexp) \<Rightarrow> length str | Inr (eq, str, wexp) \<Rightarrow> length str,
       \<lambda>x. case x of Inl _ \<Rightarrow> 0 | Inr _ \<Rightarrow> 1]")
    (auto simp: le_imp_less_Suc length_dropWhile_le)

definition UdmWildCmp :: "byte list \<Rightarrow> byte list \<Rightarrow> int" where
  "UdmWildCmp str wexp = wild_cmp (=) str wexp"

definition UdmWildCaseCmp :: "byte list \<Rightarrow> byte list \<Rightarrow> int" where
  "UdmWildCaseCmp str wexp = wild_cmp (\<lambda>s w. l1tolower s = l1tolower w) str wexp"

subsection \<open>The language of a pattern\<close>

inductive matches :: "(byte \<Rightarrow> byte \<Rightarrow> bool) \<Rightarrow> byte list \<Rightarrow> byte list \<Rightarrow> bool" for eq where
  empty: "matches eq [] []"
| any: "matches eq wexp str \<Longrightarrow> matches eq (question # wexp) (c # str)"
| lit: "w \<noteq> star \<Longrightarrow> w \<noteq> question \<Longrightarrow> eq c w \<Longrightarrow> matches eq wexp str \<Longrightarrow> matches eq (w # wexp) (c # str)"
| stop: "matches eq wexp str \<Longrightarrow> matches eq (star # wexp) str"
| skip: "matches eq (star # wexp) str \<Longrightarrow> matches eq (star # wexp) (c # str)"

inductive_simps matches_Nil [simp]: "matches eq [] str"
inductive_simps matches_Cons: "matches eq (w # wexp) str"
inductive_cases matches_starE: "matches eq (star # wexp) str"

lemma matches_star_empty: "matches eq (star # wexp) [] \<longleftrightarrow> matches eq wexp []"
  by (subst matches_Cons) simp

lemma matches_star_Cons: "matches eq (star # wexp) (c # str) \<longleftrightarrow> matches eq wexp (c # str) \<or> matches eq (star # wexp) str"
  by (subst matches_Cons) simp

lemma matches_star: "matches eq (star # wexp) str \<longleftrightarrow> (\<exists>pre suf. str = pre @ suf \<and> matches eq wexp suf)"
proof (induction str)
  case Nil
  then show ?case by (simp add: matches_star_empty)
next
  case (Cons c str)
  show ?case
    unfolding matches_star_Cons Cons by (metis Cons_eq_append_conv append_Cons append_Nil)
qed

lemma matches_stars: "matches eq (star # wexp) str \<longleftrightarrow> matches eq (star # dropWhile (\<lambda>c. c = star) wexp) str"
proof (induction wexp)
  case (Cons w wexp)
  show ?case
  proof (cases "w = star")
    case True
    have "matches eq (star # star # wexp) str \<longleftrightarrow> matches eq (star # wexp) str"
      unfolding matches_star by (metis append_assoc append_Nil)
    with True Cons show ?thesis by simp
  qed simp
qed simp

lemma matches_step: "w \<noteq> star \<Longrightarrow>
    matches eq (w # wexp) str \<longleftrightarrow> str \<noteq> [] \<and> (w = question \<or> eq (hd str) w) \<and> matches eq wexp (tl str)"
  by (subst matches_Cons) (cases str; auto)

text \<open>No suffix of the string matches when the result is -1.\<close>

definition no_suffix :: "(byte \<Rightarrow> byte \<Rightarrow> bool) \<Rightarrow> byte list \<Rightarrow> byte list \<Rightarrow> bool" where
  "no_suffix eq wexp str \<longleftrightarrow> (\<forall>pre suf. str = pre @ suf \<longrightarrow> \<not> matches eq wexp suf)"

lemma no_suffix_star: "no_suffix eq (star # wexp) str \<longleftrightarrow> no_suffix eq wexp str"
  unfolding no_suffix_def matches_star by (metis append_assoc append_Nil)

lemma no_suffix_Cons: "no_suffix eq wexp (c # str) \<longleftrightarrow> \<not> matches eq wexp (c # str) \<and> no_suffix eq wexp str"
  unfolding no_suffix_def by (metis Cons_eq_append_conv append_Cons append_Nil)

lemma no_suffix_step:
  assumes "w \<noteq> star" "no_suffix eq wexp (tl str)"
  shows "no_suffix eq (w # wexp) str"
  unfolding no_suffix_def
proof (intro allI impI notI)
  fix pre suf assume "str = pre @ suf" "matches eq (w # wexp) suf"
  then have "suf \<noteq> []" "matches eq wexp (tl suf)" using assms(1) by (simp_all add: matches_step)
  moreover from this(1) \<open>str = pre @ suf\<close> have "\<exists>pre'. tl str = pre' @ tl suf"
    by (cases pre) (auto intro: exI [of _ "[]"], metis append.assoc append_Cons append_Nil list.collapse)
  ultimately show False using assms(2) by (auto simp: no_suffix_def)
qed

lemma wild_cmp_sound:
  "wild_cmp eq str wexp \<in> {0, 1, - 1} \<and>
    (wild_cmp eq str wexp = 0 \<longleftrightarrow> matches eq wexp str) \<and>
    (wild_cmp eq str wexp = - 1 \<longrightarrow> no_suffix eq wexp str)"
  "wild_star eq str wexp \<in> {0, - 1} \<and>
    (wild_star eq str wexp = 0 \<longleftrightarrow> (\<exists>pre suf. str = pre @ suf \<and> suf \<noteq> [] \<and> matches eq wexp suf))"
proof (induction eq str wexp and eq str wexp rule: wild_cmp_wild_star.induct)
  case (1 eq str)
  then show ?case by simp
next
  case (2 eq str w wexp)
  define rest where "rest = dropWhile (\<lambda>c. c = star) wexp"
  consider (short) "str = []" "w \<noteq> star" | (star) "w = star" | (differ) "str \<noteq> []" "w \<noteq> star" "w \<noteq> question" "\<not> eq (hd str) w"
    | (step) "str \<noteq> []" "w \<noteq> star" "w = question \<or> eq (hd str) w" by blast
  then show ?case
  proof cases
    case short
    then show ?thesis by (simp add: matches_step no_suffix_def)
  next
    case star
    show ?thesis
    proof (cases "rest = []")
      case True
      have "matches eq (star # rest) str" unfolding True matches_star by auto
      then have "matches eq (star # wexp) str" using matches_stars [of eq wexp str] by (simp add: rest_def)
      with True star show ?thesis by (simp add: rest_def)
    next
      case False
      have "hd rest \<noteq> star" using False hd_dropWhile [of "\<lambda>c. c = star" wexp] unfolding rest_def by blast
      then obtain v vs where rest: "rest = v # vs" "v \<noteq> star" using False by (cases rest) auto
      note IH = "2.IH"(1) [OF _ star rest_def False]
      have val: "wild_cmp eq str (w # wexp) = wild_star eq str rest"
        using star False by (simp add: rest_def [symmetric] Let_def)
      have ne: "suf \<noteq> []" if "matches eq rest suf" for suf
        using that rest by (simp add: matches_step)
      have "matches eq (w # wexp) str \<longleftrightarrow> matches eq (star # rest) str"
        using matches_stars [of eq wexp str] star by (simp add: rest_def)
      then have m: "matches eq (w # wexp) str \<longleftrightarrow> (\<exists>pre suf. str = pre @ suf \<and> suf \<noteq> [] \<and> matches eq rest suf)"
        unfolding matches_star [of eq rest] using ne by blast
      have "no_suffix eq (w # wexp) str" if "\<not> matches eq (w # wexp) str"
        using that unfolding no_suffix_def star matches_star by (metis append_assoc)
      then show ?thesis using IH star m val by auto
    qed
  next
    case differ
    then show ?thesis by (simp add: matches_step)
  next
    case step
    then show ?thesis using "2.IH"(2) no_suffix_step by (auto simp: matches_step)
  qed
next
  case (3 eq wexp)
  then show ?case by simp
next
  case (4 eq c str wexp)
  consider "wild_cmp eq (c # str) wexp = 0" | "wild_cmp eq (c # str) wexp = - 1" | "wild_cmp eq (c # str) wexp = 1"
    using "4.IH"(1) by auto
  then show ?case
  proof cases
    case 1
    then have "matches eq wexp (c # str)" using "4.IH"(1) by simp
    with 1 show ?thesis by (auto intro: exI [of _ "[]"])
  next
    case 2
    then have "no_suffix eq wexp (c # str)" using "4.IH"(1) by simp
    with 2 show ?thesis by (auto simp: no_suffix_def)
  next
    case 3
    then have "\<not> matches eq wexp (c # str)" using "4.IH"(1) by simp
    then have "(\<exists>pre suf. c # str = pre @ suf \<and> suf \<noteq> [] \<and> matches eq wexp suf) \<longleftrightarrow>
        (\<exists>pre suf. str = pre @ suf \<and> suf \<noteq> [] \<and> matches eq wexp suf)"
      by (auto simp: Cons_eq_append_conv)
    with 3 "4.IH"(2) show ?thesis by (auto simp del: append_eq_Cons_conv)
  qed
qed

text \<open>
  C32. The wildcard comparisons decide the language of the pattern, although the search behind a
  star is given up as soon as the string turns out too short: the result is 0 exactly when the
  string matches (\<open>?\<close> is any character, \<open>*\<close> any string, another character is itself, up to
  the case of Latin-1 letters for \<open>UdmWildCaseCmp\<close>), and it is 0, 1 or -1.
\<close>

theorem UdmWildCmp_matches:
  "(UdmWildCmp str wexp = 0 \<longleftrightarrow> matches (=) wexp str) \<and>
   (UdmWildCaseCmp str wexp = 0 \<longleftrightarrow> matches (\<lambda>s w. l1tolower s = l1tolower w) wexp str) \<and>
   UdmWildCmp str wexp \<in> {- 1, 0, 1} \<and> UdmWildCaseCmp str wexp \<in> {- 1, 0, 1}"
  unfolding UdmWildCmp_def UdmWildCaseCmp_def
  using wild_cmp_sound(1) [of "(=)" str wexp] wild_cmp_sound(1) [of "\<lambda>s w. l1tolower s = l1tolower w" str wexp] by auto

end
