(* ===== verification/Vars.thy ===== *)
theory Vars
  imports Wild "HOL-Library.List_Lexorder"
begin

text \<open>
  Lists of variables (\<^verbatim>\<open>src/vars.c\<close>): the configuration, the query parameters, the sections
  and the headers of a document are kept in such lists.  A list is sorted by the names, without
  regard to the case of Latin-1 letters, so that a variable is found by binary search; \<open>svars\<close>
  is the number of variables at the last sort, from which \<open>UdmVarListSort\<close> decides whether to
  move only the last variable to its place.

  A C string is the list of its bytes; a zero in it ends it.  A name that is not set yet (the
  new variable of \<open>UdmVarListAdd\<close> before its fields are assigned) is the empty list.  The
  values of variables that hold objects (environments, results) are not modelled: such a
  variable has its handler and no value.
\<close>

subsection \<open>Variables\<close>

datatype udm_var_handler = SimpleVar | EnvVar | ResultVar | SQLResultVar

record udm_var =
  var_handler :: "udm_var_handler option"
  var_section :: int
  var_maxlen :: nat
  var_curlen :: nat
  var_val :: "byte list option"
  var_name :: "byte list"
  var_flags :: int

record udm_varlist =
  vars :: "udm_var list"
  svars :: nat

definition zero_var :: udm_var where
  "zero_var = \<lparr>var_handler = None, var_section = 0, var_maxlen = 0, var_curlen = 0, var_val = None,
     var_name = [], var_flags = 0\<rparr>"

definition first_char :: "byte list \<Rightarrow> byte" where
  "first_char s = (case s of [] \<Rightarrow> 0 | c # _ \<Rightarrow> c)"

function varcmp :: "byte list \<Rightarrow> byte list \<Rightarrow> int" where
  "varcmp us1 us2 =
     (if l1tolower (first_char us1) = l1tolower (first_char us2) then
        if first_char us1 = 0 then 0 else varcmp (tl us1) (tl us2)
      else int (l1tolower (first_char us1)) - int (l1tolower (first_char us2)))"
  by pat_completeness auto
termination
  by (relation "measure (\<lambda>(us1, us2). length us1)") (auto simp: first_char_def split: list.splits)

declare varcmp.simps [simp del]

definition UdmVarCopyValueSimple :: "udm_var \<Rightarrow> udm_var \<Rightarrow> udm_var" where
  "UdmVarCopyValueSimple D S =
     D\<lparr>var_handler := (if var_handler S \<noteq> None then var_handler S else Some SimpleVar),
       var_section := var_section S, var_maxlen := var_maxlen S, var_curlen := var_curlen S,
       var_flags := var_flags S,
       var_val := (case var_val S of
                     None \<Rightarrow> None
                   | Some v \<Rightarrow> if var_maxlen S = 0 then Some v else Some (take (var_curlen S) v))\<rparr>"

definition UdmVarCopyValueEmptyStr :: "udm_var \<Rightarrow> udm_var" where
  "UdmVarCopyValueEmptyStr D =
     D\<lparr>var_handler := Some SimpleVar, var_section := 0, var_maxlen := 0, var_curlen := 0,
       var_flags := 0, var_val := None\<rparr>"

definition UdmVarCopyName :: "udm_var \<Rightarrow> udm_var \<Rightarrow> byte list option \<Rightarrow> udm_var" where
  "UdmVarCopyName D S name =
     D\<lparr>var_name := (case name of Some n \<Rightarrow> n @ [0x2E] @ var_name S | None \<Rightarrow> var_name S)\<rparr>"

definition UdmVarCopy :: "udm_var \<Rightarrow> udm_var \<Rightarrow> byte list option \<Rightarrow> udm_var" where
  "UdmVarCopy D S name =
     (let D = UdmVarCopyName D S name
      in case (case var_handler S of Some h \<Rightarrow> h | None \<Rightarrow> SimpleVar) of
           SimpleVar \<Rightarrow> UdmVarCopyValueSimple D S
         | _ \<Rightarrow> UdmVarCopyValueEmptyStr D)"

subsection \<open>Sorting\<close>

text \<open>The search of \<open>UdmVarListMoveLast\<close> for the place behind the variables that are not
  greater than the last one.\<close>

definition move_pos :: "udm_var list \<Rightarrow> udm_var \<Rightarrow> nat \<Rightarrow> nat \<Rightarrow> nat" where
  "move_pos V lst left right =
     first_not (\<lambda>Middle. varcmp (var_name Middle) (var_name lst) \<le> 0) V left right"

definition UdmVarListMoveLast :: "udm_var list \<Rightarrow> udm_var list" where
  "UdmVarListMoveLast V =
     (let Right = move_pos V (last V) 0 (length V - 1); movevars = length V - Right - 1
      in if movevars \<noteq> 0 then take Right V @ [last V] @ drop Right (butlast V) else V)"

definition UdmVarListSort :: "udm_varlist \<Rightarrow> udm_varlist" where
  "UdmVarListSort L =
     (if length (vars L) < 2 then L
      else L\<lparr>vars := (if length (vars L) = svars L + 1 then UdmVarListMoveLast (vars L)
                     else UdmSort (\<lambda>u v. varcmp (var_name u) (var_name v)) (vars L)),
             svars := length (vars L)\<rparr>)"

subsection \<open>Adding\<close>

definition UdmVarListInit :: udm_varlist where
  "UdmVarListInit = \<lparr>vars = [], svars = 0\<rparr>"

definition UdmVarListFree :: "udm_varlist \<Rightarrow> udm_varlist" where
  "UdmVarListFree L = L\<lparr>vars := []\<rparr>"

definition UdmVarListAdd :: "udm_varlist \<Rightarrow> udm_var option \<Rightarrow> udm_varlist" where
  "UdmVarListAdd Lst S =
     (let New = (case S of Some S \<Rightarrow> UdmVarCopy zero_var S None | None \<Rightarrow> zero_var);
          New = (if var_handler New = None then New\<lparr>var_handler := Some SimpleVar\<rparr> else New);
          Lst = Lst\<lparr>vars := vars Lst @ [New]\<rparr>
      in if S \<noteq> None then UdmVarListSort Lst else Lst)"

text \<open>An assignment to the fields of \<open>Lst->Var[Lst->nvars-1]\<close>.\<close>

definition set_last :: "(udm_var \<Rightarrow> udm_var) \<Rightarrow> udm_varlist \<Rightarrow> udm_varlist" where
  "set_last f L = L\<lparr>vars := (vars L)[length (vars L) - 1 := f (last (vars L))]\<rparr>"

definition UdmVarListAddNamed :: "udm_varlist \<Rightarrow> udm_var \<Rightarrow> byte list option \<Rightarrow> udm_varlist" where
  "UdmVarListAddNamed Lst S name =
     UdmVarListSort (set_last (\<lambda>v. UdmVarCopy v S name) (UdmVarListAdd Lst None))"

definition UdmVarListAddStrWithSection ::
    "udm_varlist \<Rightarrow> byte list \<Rightarrow> byte list option \<Rightarrow> int \<Rightarrow> bool \<Rightarrow> udm_varlist" where
  "UdmVarListAddStrWithSection L name val sec sort_flag =
     (let L = set_last (\<lambda>New. New\<lparr>var_handler := Some SimpleVar, var_flags := 0, var_section := sec,
                 var_maxlen := 0, var_curlen := (case val of Some v \<Rightarrow> length v | None \<Rightarrow> 0),
                 var_name := name, var_val := val\<rparr>)
               (UdmVarListAdd L None)
      in if sort_flag then UdmVarListSort L else L)"

definition UDM_VARSRC_QSTRING :: int where "UDM_VARSRC_QSTRING = 1"
definition UDM_VARSRC_ENV :: int where "UDM_VARSRC_ENV = 2"

definition UdmVarListAddStr :: "udm_varlist \<Rightarrow> byte list \<Rightarrow> byte list option \<Rightarrow> udm_varlist" where
  "UdmVarListAddStr L name val = UdmVarListAddStrWithSection L name val 0 True"

definition UdmVarListAddQueryStr :: "udm_varlist \<Rightarrow> byte list \<Rightarrow> byte list option \<Rightarrow> udm_varlist" where
  "UdmVarListAddQueryStr L name val = UdmVarListAddStrWithSection L name val UDM_VARSRC_QSTRING True"

text \<open>The formats \<open>%d\<close> and \<open>%u\<close>; the result fits the buffer of 64 bytes.\<close>

fun digits :: "nat \<Rightarrow> byte list" where
  "digits n = (if n < 10 then [of_nat (48 + n)] else digits (n div 10) @ [of_nat (48 + n mod 10)])"

declare digits.simps [simp del]

definition int_str :: "int \<Rightarrow> byte list" where
  "int_str i = (if i < 0 then 0x2D # digits (nat (- i)) else digits (nat i))"

definition UdmVarListAddInt :: "udm_varlist \<Rightarrow> byte list \<Rightarrow> int \<Rightarrow> udm_varlist" where
  "UdmVarListAddInt L name val = UdmVarListAddStr L name (Some (int_str val))"

definition UdmVarListAddUnsigned :: "udm_varlist \<Rightarrow> byte list \<Rightarrow> uint4 \<Rightarrow> udm_varlist" where
  "UdmVarListAddUnsigned L name val = UdmVarListAddStr L name (Some (digits (unat val)))"

subsection \<open>Finding\<close>

text \<open>A pointer to a variable of the list is its index.\<close>

definition UdmVarListFind :: "udm_varlist \<Rightarrow> byte list \<Rightarrow> nat option" where
  "UdmVarListFind L name =
     (if vars L = [] then None else UdmBSearch (\<lambda>k v. varcmp k (var_name v)) name (vars L))"

definition UdmVarListFindStr :: "udm_varlist \<Rightarrow> byte list \<Rightarrow> byte list option \<Rightarrow> byte list option" where
  "UdmVarListFindStr L name defval =
     (case UdmVarListFind L name of
        Some i \<Rightarrow> (if var_val (vars L ! i) \<noteq> None then var_val (vars L ! i) else defval)
      | None \<Rightarrow> defval)"

fun find_index :: "('a \<Rightarrow> bool) \<Rightarrow> nat \<Rightarrow> 'a list \<Rightarrow> nat option" where
  "find_index P i [] = None"
| "find_index P i (x # xs) = (if P x then Some i else find_index P (Suc i) xs)"

definition UdmVarListFindBySecno :: "udm_varlist \<Rightarrow> int \<Rightarrow> nat option" where
  "UdmVarListFindBySecno L secno = find_index (\<lambda>v. var_section v = secno) 0 (vars L)"

definition ascii_lower :: "byte \<Rightarrow> byte" where
  "ascii_lower b = (if 0x41 \<le> b \<and> b \<le> 0x5A then b + 0x20 else b)"

definition UdmVarListFindByPrefix :: "udm_varlist \<Rightarrow> byte list \<Rightarrow> nat \<Rightarrow> nat option" where
  "UdmVarListFindByPrefix L prefix prefix_length =
     find_index (\<lambda>v. map ascii_lower (take prefix_length (var_name v)) =
                     map ascii_lower (take prefix_length prefix)) 0 (vars L)"

text \<open>\<open>atoi\<close>: white space, a sign and digits; the value is converted through \<open>long\<close>.\<close>

definition is_digit :: "byte \<Rightarrow> bool" where
  "is_digit c \<longleftrightarrow> 0x30 \<le> c \<and> c \<le> 0x39"

definition digits_val :: "byte list \<Rightarrow> nat" where
  "digits_val s = foldl (\<lambda>n c. 10 * n + (unat c - 48)) 0 (takeWhile is_digit s)"

definition atoi :: "byte list \<Rightarrow> int" where
  "atoi s =
     (let s = dropWhile (\<lambda>c. c = 0x20 \<or> 9 \<le> c \<and> c \<le> 13) s;
          n = (case s of
                 [] \<Rightarrow> 0
               | c # cs \<Rightarrow> if c = 0x2D then - int (digits_val cs)
                           else if c = 0x2B then int (digits_val cs)
                           else int (digits_val s))
      in int4_of (max (- (2 ^ 63)) (min (2 ^ 63 - 1) n)))"

definition UdmVarIntVal :: "udm_var \<Rightarrow> int" where
  "UdmVarIntVal v = (case var_val v of Some s \<Rightarrow> atoi s | None \<Rightarrow> 0)"

definition UdmVarListFindInt :: "udm_varlist \<Rightarrow> byte list \<Rightarrow> int \<Rightarrow> int" where
  "UdmVarListFindInt L name defval =
     (case UdmVarListFind L name of
        Some i \<Rightarrow> (case var_val (vars L ! i) of Some s \<Rightarrow> atoi s | None \<Rightarrow> defval)
      | None \<Rightarrow> defval)"

definition UdmVarListFindBool :: "udm_varlist \<Rightarrow> byte list \<Rightarrow> int \<Rightarrow> int" where
  "UdmVarListFindBool L name defval =
     (case UdmVarListFind L name of
        Some i \<Rightarrow>
          (case var_val (vars L ! i) of
             Some s \<Rightarrow> of_bool (map ascii_lower s = bstr ''yes'' \<or> atoi s = 1)
           | None \<Rightarrow> defval)
      | None \<Rightarrow> defval)"

subsection \<open>Deleting\<close>

fun del_loop :: "(udm_var \<Rightarrow> bool) \<Rightarrow> udm_var list \<Rightarrow> udm_var list" where
  "del_loop P [] = []"
| "del_loop P (v # vs) = (if P v then del_loop P vs else v # del_loop P vs)"

definition UdmVarListDelBySection :: "udm_varlist \<Rightarrow> int \<Rightarrow> udm_varlist" where
  "UdmVarListDelBySection L sec = L\<lparr>vars := del_loop (\<lambda>v. var_section v = sec) (vars L)\<rparr>"

definition UdmVarListDelByName :: "udm_varlist \<Rightarrow> byte list \<Rightarrow> udm_varlist" where
  "UdmVarListDelByName L name = L\<lparr>vars := del_loop (\<lambda>v. UdmWildCaseCmp (var_name v) name = 0) (vars L)\<rparr>"

definition UdmVarListDel :: "udm_varlist \<Rightarrow> byte list \<Rightarrow> udm_varlist" where
  "UdmVarListDel L name =
     (case UdmVarListFind L name of
        Some i \<Rightarrow> L\<lparr>vars := take i (vars L) @ drop (Suc i) (vars L)\<rparr>
      | None \<Rightarrow> L)"

subsection \<open>Replacing\<close>

definition set_var :: "nat \<Rightarrow> (udm_var \<Rightarrow> udm_var) \<Rightarrow> udm_varlist \<Rightarrow> udm_varlist" where
  "set_var i f L = L\<lparr>vars := (vars L)[i := f (vars L ! i)]\<rparr>"

definition UdmVarListReplace :: "udm_varlist \<Rightarrow> udm_var \<Rightarrow> udm_varlist" where
  "UdmVarListReplace L S =
     (case UdmVarListFind L (var_name S) of
        None \<Rightarrow> UdmVarListAdd L (Some S)
      | Some i \<Rightarrow> set_var i (\<lambda>v. UdmVarCopy v S None) L)"

definition full_name :: "byte list option \<Rightarrow> udm_var \<Rightarrow> byte list" where
  "full_name name S =
     take 63 (case name of Some n \<Rightarrow> n @ [0x2E] @ var_name S | None \<Rightarrow> var_name S)"

definition UdmVarListReplaceNamed :: "udm_varlist \<Rightarrow> udm_var \<Rightarrow> byte list option \<Rightarrow> udm_varlist" where
  "UdmVarListReplaceNamed L S name =
     (case UdmVarListFind L (full_name name S) of
        Some i \<Rightarrow> set_var i (\<lambda>v. UdmVarCopy v S name) L
      | None \<Rightarrow> UdmVarListSort (set_last (\<lambda>v. UdmVarCopy v S name) (UdmVarListAdd L None)))"

definition UdmVarListInsNamed :: "udm_varlist \<Rightarrow> udm_var \<Rightarrow> byte list option \<Rightarrow> udm_varlist" where
  "UdmVarListInsNamed L S name =
     (case UdmVarListFind L (var_name S) of
        None \<Rightarrow> UdmVarListSort (set_last (\<lambda>v. UdmVarCopy v S name) (UdmVarListAdd L None))
      | Some i \<Rightarrow> L)"

definition UdmVarListInsStr :: "udm_varlist \<Rightarrow> byte list \<Rightarrow> byte list option \<Rightarrow> udm_varlist" where
  "UdmVarListInsStr L name val =
     (if UdmVarListFind L name \<noteq> None then L else UdmVarListAddStr L name val)"

definition UdmVarListInsInt :: "udm_varlist \<Rightarrow> byte list \<Rightarrow> int \<Rightarrow> udm_varlist" where
  "UdmVarListInsInt L name val =
     (if UdmVarListFind L name \<noteq> None then L else UdmVarListAddInt L name val)"

definition UdmVarAppendStrn :: "udm_var \<Rightarrow> byte list \<Rightarrow> nat \<Rightarrow> udm_var" where
  "UdmVarAppendStrn v val len =
     (let newlen = var_curlen v + len; old = (case var_val v of Some s \<Rightarrow> s | None \<Rightarrow> [])
      in v\<lparr>var_val := Some (take (var_curlen v) old @ take len val), var_curlen := newlen\<rparr>)"

definition replace_val :: "byte list option \<Rightarrow> udm_var \<Rightarrow> udm_var" where
  "replace_val val var =
     (case val of
        None \<Rightarrow> var\<lparr>var_val := None, var_curlen := 0\<rparr>
      | Some s \<Rightarrow> var\<lparr>var_curlen := length s, var_val := Some s\<rparr>)"

definition UdmVarListReplaceStr :: "udm_varlist \<Rightarrow> byte list \<Rightarrow> byte list option \<Rightarrow> udm_varlist" where
  "UdmVarListReplaceStr L name val =
     (case UdmVarListFind L name of
        Some i \<Rightarrow> set_var i (replace_val val) L
      | None \<Rightarrow> UdmVarListAddStr L name val)"

definition UdmVarListReplaceStrn :: "udm_varlist \<Rightarrow> byte list \<Rightarrow> byte list \<Rightarrow> nat \<Rightarrow> udm_varlist" where
  "UdmVarListReplaceStrn L name val len = UdmVarListReplaceStr L name (Some (take len val))"

definition UdmVarListReplaceInt :: "udm_varlist \<Rightarrow> byte list \<Rightarrow> int \<Rightarrow> udm_varlist" where
  "UdmVarListReplaceInt L name val =
     (if UdmVarListFind L name \<noteq> None then UdmVarListReplaceStr L name (Some (int_str val))
      else UdmVarListAddInt L name val)"

definition UdmVarListReplaceUnsigned :: "udm_varlist \<Rightarrow> byte list \<Rightarrow> uint4 \<Rightarrow> udm_varlist" where
  "UdmVarListReplaceUnsigned L name val =
     (if UdmVarListFind L name \<noteq> None then UdmVarListReplaceStr L name (Some (digits (unat val)))
      else UdmVarListAddUnsigned L name val)"

subsection \<open>Whole lists\<close>

text \<open>The loop over the variables of \<open>S\<close> whose name matches the msk.\<close>

definition for_matching :: "(udm_varlist \<Rightarrow> udm_var \<Rightarrow> udm_varlist) \<Rightarrow> udm_varlist \<Rightarrow> udm_varlist \<Rightarrow>
    byte list \<Rightarrow> udm_varlist" where
  "for_matching f D S msk =
     foldl (\<lambda>D v. if UdmWildCaseCmp (var_name v) msk = 0 then f D v else D) D (vars S)"

definition UdmVarListReplaceLst :: "udm_varlist \<Rightarrow> udm_varlist \<Rightarrow> byte list option \<Rightarrow> byte list \<Rightarrow> udm_varlist" where
  "UdmVarListReplaceLst D S name msk = for_matching (\<lambda>D v. UdmVarListReplaceNamed D v name) D S msk"

definition UdmVarListAddLst :: "udm_varlist \<Rightarrow> udm_varlist \<Rightarrow> byte list option \<Rightarrow> byte list \<Rightarrow> udm_varlist" where
  "UdmVarListAddLst D S name msk = for_matching (\<lambda>D v. UdmVarListAddNamed D v name) D S msk"

definition UdmVarListInsLst :: "udm_varlist \<Rightarrow> udm_varlist \<Rightarrow> byte list option \<Rightarrow> byte list \<Rightarrow> udm_varlist" where
  "UdmVarListInsLst D S name msk = for_matching (\<lambda>D v. UdmVarListInsNamed D v name) D S msk"

text \<open>\<open>L\<close> is the list of the caller, of which only \<open>svars\<close> is read.\<close>

definition UdmVarListMerge :: "udm_varlist \<Rightarrow> udm_varlist \<Rightarrow> udm_varlist \<Rightarrow> udm_varlist" where
  "UdmVarListMerge L Src1 Src2 =
     (let L = L\<lparr>vars := map (\<lambda>S. UdmVarCopy zero_var S None) (vars Src1 @ vars Src2)\<rparr>
      in if vars L \<noteq> [] then UdmVarListSort L else L)"

text \<open>
  \<open>UdmVarListAddEnviron\<close>, the code for systems with \<open>environ\<close>.  The buffer has \<open>lenstr\<close> bytes;
  \<open>udm_snprintf\<close> writes at most \<open>lenstr - 2\<close> of the characters and returns how many there
  are, and the zero is written at that index.  \<open>None\<close> is a write behind the buffer.
\<close>

definition environ_str :: "byte list option \<Rightarrow> nat \<Rightarrow> byte list \<Rightarrow> (nat \<times> byte list) option" where
  "environ_str name lenstr e =
     (let lenstr = (if length e > lenstr then length e + 64 else lenstr);
          full = (case name of Some n \<Rightarrow> n @ [0x2E] | None \<Rightarrow> []) @ e
      in if length full < lenstr then Some (lenstr, take (lenstr - 2) full) else None)"

definition environ_add :: "udm_varlist \<Rightarrow> byte list \<Rightarrow> udm_varlist" where
  "environ_add L str =
     (if 0x3D \<in> set str then
        UdmVarListAddStrWithSection L (takeWhile (\<lambda>c. c \<noteq> 0x3D) str)
          (Some (tl (dropWhile (\<lambda>c. c \<noteq> 0x3D) str))) UDM_VARSRC_ENV False
      else L)"

fun environ_loop :: "byte list option \<Rightarrow> nat \<Rightarrow> udm_varlist \<Rightarrow> byte list list \<Rightarrow> udm_varlist option" where
  "environ_loop name lenstr L [] = Some L"
| "environ_loop name lenstr L (e # es) =
     (case environ_str name lenstr e of
        None \<Rightarrow> None
      | Some (lenstr, str) \<Rightarrow> environ_loop name lenstr (environ_add L str) es)"

definition UdmVarListAddEnviron :: "udm_varlist \<Rightarrow> byte list option \<Rightarrow> byte list list \<Rightarrow> udm_varlist option" where
  "UdmVarListAddEnviron L name environ = map_option UdmVarListSort (environ_loop name 1024 L environ)"

subsection \<open>The order of the names\<close>

text \<open>The key of a name: its characters up to a zero, in lower case.\<close>

definition name_key :: "byte list \<Rightarrow> nat list" where
  "name_key s = takeWhile (\<lambda>x. x \<noteq> 0) (map l1tolower s)"

abbreviation var_key :: "udm_var \<Rightarrow> nat list" where
  "var_key v \<equiv> name_key (var_name v)"

lemma l1tolower_0 [simp]: "l1tolower b = 0 \<longleftrightarrow> b = 0"
  by (auto simp: l1tolower_ranges Let_def unat_eq_zero)

lemma l1tolower_of_0 [simp]: "l1tolower 0 = 0"
  by simp

lemma name_key_unfold:
  "name_key s = (if first_char s = 0 then [] else l1tolower (first_char s) # name_key (tl s))"
  by (cases s) (simp_all add: name_key_def first_char_def)

lemma varcmp_key:
  "(varcmp us1 us2 < 0 \<longleftrightarrow> name_key us1 < name_key us2) \<and> (varcmp us1 us2 = 0 \<longleftrightarrow> name_key us1 = name_key us2)"
proof (induction us1 us2 rule: varcmp.induct)
  case (1 us1 us2)
  define c1 c2 where "c1 = l1tolower (first_char us1)" and "c2 = l1tolower (first_char us2)"
  have zero: "first_char us1 = 0 \<longleftrightarrow> c1 = 0" "first_char us2 = 0 \<longleftrightarrow> c2 = 0"
    unfolding c1_def c2_def by simp_all
  have k: "name_key us1 = (if c1 = 0 then [] else c1 # name_key (tl us1))"
    "name_key us2 = (if c2 = 0 then [] else c2 # name_key (tl us2))"
    using name_key_unfold [of us1] name_key_unfold [of us2] unfolding zero c1_def [symmetric] c2_def [symmetric] by simp_all
  have v: "varcmp us1 us2 = (if c1 = c2 then if c1 = 0 then 0 else varcmp (tl us1) (tl us2) else int c1 - int c2)"
    by (subst varcmp.simps) (simp only: zero c1_def [symmetric] c2_def [symmetric])
  show ?case
  proof (cases "c1 = c2 \<and> c1 \<noteq> 0")
    case True
    have "l1tolower (first_char us1) = l1tolower (first_char us2)" "first_char us1 \<noteq> 0"
      using True unfolding c1_def c2_def by (blast, metis zero(1) c1_def)
    from "1.IH" [OF this] True show ?thesis by (simp add: k v Cons_less_Cons)
  next
    case False
    then show ?thesis by (auto simp: k v Cons_less_Cons)
  qed
qed

lemma varcmp_le_key: "varcmp us1 us2 \<le> 0 \<longleftrightarrow> name_key us1 \<le> name_key us2"
  using varcmp_key [of us1 us2] by (auto simp: order_le_less)

lemma varcmp_gt_key: "varcmp us1 us2 > 0 \<longleftrightarrow> name_key us1 > name_key us2"
  using varcmp_le_key [of us1 us2] by (simp add: linorder_not_le [symmetric])

definition var_sorted :: "udm_varlist \<Rightarrow> bool" where
  "var_sorted L \<longleftrightarrow> sorted (map var_key (vars L))"

lemma var_sorted_vars [simp]: "var_sorted (L\<lparr>svars := n\<rparr>) \<longleftrightarrow> var_sorted L"
  by (simp add: var_sorted_def)

subsection \<open>Sorting keeps the variables and sorts them\<close>

lemma MoveLast_sorts:
  assumes "V = W @ [x]" "sorted (map var_key W)"
  shows "sorted (map var_key (UdmVarListMoveLast V)) \<and> mset (UdmVarListMoveLast V) = mset V"
proof -
  define r where "r = move_pos V x 0 (length W)"
  have r: "r = first_not (\<lambda>v. var_key v \<le> var_key x) W 0 (length W)"
    unfolding r_def move_pos_def assms(1) varcmp_le_key by (rule first_not_butlast)
  have mono: "var_key (W ! i) \<le> var_key x" if "i \<le> j" "j < length W" "var_key (W ! j) \<le> var_key x" for i j
    using sorted_nth_mono [OF assms(2) that(1)] that by simp
  note spec = first_not_cut(1) [OF mono r] and before = first_not_cut(2) [OF mono r]
  have "\<forall>v \<in> set (drop r W). \<not> var_key v \<le> var_key x" by (rule first_not_cut(3) [OF mono r])
  then have after: "\<forall>v \<in> set (drop r W). var_key x \<le> var_key v" using le_cases by blast
  have W': "sorted (map var_key (take r W @ drop r W))" using assms(2) by simp
  have res: "UdmVarListMoveLast V = take r W @ x # drop r W"
  proof (cases "r = length W")
    case True
    then show ?thesis by (simp add: UdmVarListMoveLast_def Let_def assms(1) r_def)
  next
    case False
    then show ?thesis using spec by (simp add: UdmVarListMoveLast_def Let_def assms(1) r_def)
  qed
  have "sorted (map var_key (take r W @ x # drop r W))"
    using W' before after unfolding map_append list.map sorted_append sorted_simps by auto
  moreover have "mset (take r W) + mset (drop r W) = mset W"
    by (simp only: mset_append [symmetric] append_take_drop_id)
  ultimately show ?thesis unfolding res by (simp add: assms(1))
qed

lemma Sort_by_qsort:
  "sorted (map var_key (UdmSort (\<lambda>u v. varcmp (var_name u) (var_name v)) V)) \<and>
   mset (UdmSort (\<lambda>u v. varcmp (var_name u) (var_name v)) V) = mset V"
proof -
  have k: "varcmp (var_name u) (var_name v) \<le> 0 \<longleftrightarrow> var_key u \<le> var_key v" for u v by (rule varcmp_le_key)
  show ?thesis using qs.sorted_srt [OF cmp_okI [OF k]] by (simp add: qs.mset_srt sorted_map k)
qed

lemma UdmVarListSort_mset [simp]: "mset (vars (UdmVarListSort L)) = mset (vars L)"
proof -
  have "mset (UdmVarListMoveLast V) = mset V" if "V \<noteq> []" for V
  proof -
    have "UdmVarListMoveLast V = (let r = move_pos V (last V) 0 (length V - 1) in
        if length V - r - 1 \<noteq> 0 then take r V @ [last V] @ drop r (butlast V) else V)"
      by (simp add: UdmVarListMoveLast_def Let_def)
    moreover have "mset (take r V @ [last V] @ drop r (butlast V)) = mset V" if "length V - r - 1 \<noteq> 0" for r
    proof -
      have "take r V = take r (butlast V)" using that by (simp add: take_butlast)
      moreover have "mset (take r (butlast V)) + mset (drop r (butlast V)) = mset (butlast V)"
        by (simp only: mset_append [symmetric] append_take_drop_id)
      moreover have "mset V = add_mset (last V) (mset (butlast V))"
        using \<open>V \<noteq> []\<close> by (metis append_butlast_last_id mset_append mset.simps mset_single_iff_right union_mset_add_mset_right add.right_neutral)
      ultimately show ?thesis by simp
    qed
    ultimately show ?thesis by (simp add: Let_def)
  qed
  moreover have "vars L \<noteq> []" if "\<not> length (vars L) < 2" using that by auto
  ultimately show ?thesis by (simp add: UdmVarListSort_def Sort_by_qsort)
qed

lemma UdmVarListSort_set [simp]: "set (vars (UdmVarListSort L)) = set (vars L)"
  by (metis UdmVarListSort_mset set_mset_mset)

text \<open>The list is sorted afterwards when all but the last variable were, or when the number of
  new variables is not taken for one.\<close>

lemma UdmVarListSort_sorts:
  assumes "sorted (map var_key (butlast (vars L))) \<or> length (vars L) \<noteq> svars L + 1"
  shows "var_sorted (UdmVarListSort L)"
proof (cases "length (vars L) < 2")
  case True
  then have "length (map var_key (vars L)) \<le> 1" by simp
  then show ?thesis using True by (auto simp: var_sorted_def UdmVarListSort_def intro: sorted01)
next
  case False
  then obtain W x where V: "vars L = W @ [x]" by (cases "vars L" rule: rev_cases) auto
  show ?thesis
  proof (cases "length (vars L) = svars L + 1")
    case True
    then have "sorted (map var_key W)" using assms V by simp
    with MoveLast_sorts [OF V] True False show ?thesis by (simp add: UdmVarListSort_def var_sorted_def)
  next
    case False
    with Sort_by_qsort [of "vars L"] \<open>\<not> length (vars L) < 2\<close> show ?thesis
      by (simp add: UdmVarListSort_def var_sorted_def)
  qed
qed

lemma insert_sorted:
  assumes "var_sorted L"
  shows "var_sorted (UdmVarListSort (L\<lparr>vars := vars L @ [v]\<rparr>))"
  by (rule UdmVarListSort_sorts) (use assms in \<open>simp add: var_sorted_def\<close>)

subsection \<open>Finding a variable\<close>

lemma Find_Some:
  assumes "UdmVarListFind L n = Some i"
  shows "i < length (vars L) \<and> var_key (vars L ! i) = name_key n"
proof -
  have "bsearch_loop (\<lambda>k v. varcmp k (var_name v)) n (vars L) 0 (length (vars L)) = Some i"
    using assms by (simp add: UdmVarListFind_def UdmBSearch_def split: if_splits)
  from bsearch_loop_Some [OF this] show ?thesis using varcmp_key by auto
qed

lemma Find_None:
  assumes "var_sorted L" "UdmVarListFind L n = None" "v \<in> set (vars L)"
  shows "var_key v \<noteq> name_key n"
proof -
  have "bsearch_mono (\<lambda>k v. varcmp k (var_name v)) n (vars L)"
    using assms(1) unfolding var_sorted_def
    by (intro bsearch_mono_key [where f = name_key and key = var_key]) (simp_all add: varcmp_key varcmp_gt_key)
  from UdmBSearch_iff [OF this] assms(2,3) varcmp_key [of n "var_name v"] show ?thesis
    by (fastforce simp: UdmVarListFind_def split: if_splits)
qed

subsection \<open>The operations keep the list sorted\<close>

lemma set_last_Add:
  "set_last f (UdmVarListAdd L None) = L\<lparr>vars := vars L @ [f (zero_var\<lparr>var_handler := Some SimpleVar\<rparr>)]\<rparr>"
  by (simp add: set_last_def UdmVarListAdd_def zero_var_def Let_def)

lemma UdmVarListAdd_Some: "\<exists>v. UdmVarListAdd L (Some S) = UdmVarListSort (L\<lparr>vars := vars L @ [v]\<rparr>) \<and> var_name v = var_name S"
  by (auto simp: UdmVarListAdd_def Let_def UdmVarCopy_def UdmVarCopyName_def UdmVarCopyValueSimple_def UdmVarCopyValueEmptyStr_def
      split: udm_var_handler.splits option.splits)

lemma UdmVarCopy_name: "var_name (UdmVarCopy D S name) = var_name (UdmVarCopyName D S name)"
  by (simp add: UdmVarCopy_def Let_def UdmVarCopyValueSimple_def UdmVarCopyValueEmptyStr_def split: udm_var_handler.splits)

lemma set_var_sorted:
  assumes "var_sorted L" "i < length (vars L)" "var_key (f (vars L ! i)) = var_key (vars L ! i)"
  shows "var_sorted (set_var i f L)"
proof -
  have "map var_key ((vars L)[i := f (vars L ! i)]) = map var_key (vars L)"
    using assms(2,3) by (simp add: map_update list_update_same_conv)
  with assms(1) show ?thesis by (simp add: var_sorted_def set_var_def)
qed

lemma replace_val_name [simp]: "var_name (replace_val val v) = var_name v"
  by (cases val) (simp_all add: replace_val_def)

lemma del_loop_filter: "del_loop P vs = filter (\<lambda>v. \<not> P v) vs"
  by (induction vs) auto

named_theorems var_ops \<open>operations that leave a list sorted\<close>

lemma AddNamed_sorted [var_ops]: "var_sorted L \<Longrightarrow> var_sorted (UdmVarListAddNamed L S name)"
  by (simp add: UdmVarListAddNamed_def set_last_Add insert_sorted)

lemma AddStrWithSection_sorted: "var_sorted L \<Longrightarrow> var_sorted (UdmVarListAddStrWithSection L name val sec True)"
  by (simp add: UdmVarListAddStrWithSection_def set_last_Add insert_sorted Let_def)

lemma AddStr_sorted [var_ops]: "var_sorted L \<Longrightarrow> var_sorted (UdmVarListAddStr L name val)"
  by (simp add: UdmVarListAddStr_def AddStrWithSection_sorted)

lemma AddQueryStr_sorted [var_ops]: "var_sorted L \<Longrightarrow> var_sorted (UdmVarListAddQueryStr L name val)"
  by (simp add: UdmVarListAddQueryStr_def AddStrWithSection_sorted)

lemma Add_sorted [var_ops]: "var_sorted L \<Longrightarrow> var_sorted (UdmVarListAdd L (Some S))"
  using UdmVarListAdd_Some [of L S] insert_sorted by auto

lemma Replace_sorted [var_ops]:
  assumes "var_sorted L"
  shows "var_sorted (UdmVarListReplace L S)"
proof (cases "UdmVarListFind L (var_name S)")
  case None
  with assms show ?thesis by (simp add: UdmVarListReplace_def Add_sorted)
next
  case (Some i)
  with assms show ?thesis
    by (auto simp: UdmVarListReplace_def UdmVarCopy_name UdmVarCopyName_def dest!: Find_Some intro!: set_var_sorted)
qed

lemma ReplaceNamed_sorted [var_ops]:
  assumes "var_sorted L" "length (var_name (UdmVarCopyName zero_var S name)) \<le> 63"
  shows "var_sorted (UdmVarListReplaceNamed L S name)"
proof (cases "UdmVarListFind L (full_name name S)")
  case None
  with assms show ?thesis by (simp add: UdmVarListReplaceNamed_def set_last_Add insert_sorted)
next
  case (Some i)
  have "full_name name S = var_name (UdmVarCopyName D S name)" for D
    using assms(2) by (auto simp: full_name_def UdmVarCopyName_def split: option.splits)
  with Some assms show ?thesis
    by (auto simp: UdmVarListReplaceNamed_def UdmVarCopy_name dest!: Find_Some intro!: set_var_sorted)
qed

lemma InsNamed_sorted [var_ops]: "var_sorted L \<Longrightarrow> var_sorted (UdmVarListInsNamed L S name)"
  by (auto simp: UdmVarListInsNamed_def set_last_Add insert_sorted split: option.split)

lemma ReplaceStr_sorted [var_ops]: "var_sorted L \<Longrightarrow> var_sorted (UdmVarListReplaceStr L name val)"
  by (auto simp: UdmVarListReplaceStr_def AddStr_sorted dest!: Find_Some split: option.split intro!: set_var_sorted)

lemma del_sorted: "var_sorted L \<Longrightarrow> var_sorted (L\<lparr>vars := del_loop P (vars L)\<rparr>)"
  unfolding var_sorted_def by (simp add: del_loop_filter sorted_filter)

lemma Del_sorted [var_ops]: "var_sorted L \<Longrightarrow> var_sorted (UdmVarListDel L name)"
proof -
  have "sorted (take i ks @ drop (Suc i) ks)" if "sorted ks" for i and ks :: "nat list list"
  proof -
    have "sorted (take i ks @ drop i ks)" using that by simp
    moreover have "set (drop (Suc i) ks) \<subseteq> set (drop i ks)" by (rule set_drop_subset_set_drop) simp
    moreover have "sorted (drop (Suc i) ks)" using that by (rule sorted_wrt_drop)
    ultimately show ?thesis unfolding sorted_append by blast
  qed
  then show "var_sorted L \<Longrightarrow> ?thesis"
    by (auto simp: UdmVarListDel_def var_sorted_def take_map [symmetric] drop_map [symmetric] split: option.split)
qed

lemma for_matching_sorted:
  assumes "\<And>D v. v \<in> set (vars S) \<Longrightarrow> var_sorted D \<Longrightarrow> var_sorted (f D v)" "var_sorted D"
  shows "var_sorted (for_matching f D S msk)"
proof -
  have "var_sorted (foldl (\<lambda>D v. if UdmWildCaseCmp (var_name v) msk = 0 then f D v else D) D vs)"
    if "set vs \<subseteq> set (vars S)" "var_sorted D" for vs D
    using that by (induction vs arbitrary: D) (auto simp: assms(1))
  then show ?thesis using assms(2) by (simp add: for_matching_def)
qed

lemma environ_add_butlast: "environ_add L str = L \<or> (\<exists>v. environ_add L str = L\<lparr>vars := vars L @ [v]\<rparr>)"
  by (auto simp: environ_add_def UdmVarListAddStrWithSection_def set_last_Add Let_def)

lemma environ_loop_vars:
  "environ_loop name lenstr L es = Some L' \<Longrightarrow>
   \<exists>new. vars L' = vars L @ new \<and> svars L' = svars L \<and> length new \<le> length es"
proof (induction name lenstr L es arbitrary: L' rule: environ_loop.induct)
  case (2 name lenstr L e es)
  then obtain ls str where s: "environ_str name lenstr e = Some (ls, str)"
    "environ_loop name ls (environ_add L str) es = Some L'"
    by (auto split: option.splits)
  from "2.IH" [OF s(1) refl s(2)] environ_add_butlast [of L str] show ?case by force
qed simp

lemma AddEnviron_sorted:
  assumes "var_sorted L" "svars L \<le> length (vars L)" "UdmVarListAddEnviron L name environ = Some L'"
  shows "var_sorted L'"
proof -
  from assms(3) obtain L1 where L1: "environ_loop name 1024 L environ = Some L1" "L' = UdmVarListSort L1"
    by (auto simp: UdmVarListAddEnviron_def)
  from environ_loop_vars [OF L1(1)] obtain new where new: "vars L1 = vars L @ new" "svars L1 = svars L" by blast
  have "sorted (map var_key (butlast (vars L1))) \<or> length (vars L1) \<noteq> svars L1 + 1"
  proof (cases "length new \<le> 1")
    case True
    then consider "new = []" | v where "new = [v]" by (cases new) auto
    then show ?thesis
    proof cases
      case 1
      have "sorted (butlast (map var_key (vars L)))"
        using assms(1) unfolding var_sorted_def butlast_conv_take by (rule sorted_wrt_take)
      with 1 new show ?thesis by (simp add: map_butlast)
    next
      case 2
      with assms(1) new show ?thesis by (simp add: var_sorted_def)
    qed
  next
    case False
    with new assms(2) show ?thesis by simp
  qed
  then show ?thesis unfolding L1(2) by (rule UdmVarListSort_sorts)
qed

lemma Merge_sorted:
  assumes "svars L = 0 \<or> length (vars S1) + length (vars S2) \<noteq> svars L + 1"
  shows "var_sorted (UdmVarListMerge L S1 S2)"
proof -
  define M where "M = L\<lparr>vars := map (\<lambda>S. UdmVarCopy zero_var S None) (vars S1 @ vars S2)\<rparr>"
  have "sorted (map var_key (butlast (vars M))) \<or> length (vars M) \<noteq> svars M + 1"
  proof (cases "length (vars M) = 1")
    case True
    then show ?thesis by (cases "vars M") auto
  qed (use assms in \<open>auto simp: M_def\<close>)
  from UdmVarListSort_sorts [OF this] have "var_sorted (UdmVarListSort M)" .
  moreover have "UdmVarListMerge L S1 S2 = (if vars M \<noteq> [] then UdmVarListSort M else M)"
    by (simp only: UdmVarListMerge_def M_def Let_def)
  ultimately show ?thesis by (simp add: var_sorted_def)
qed

subsection \<open>Reachable lists\<close>

text \<open>One operation on a list; the fields of the variables that other parts of the program
  assign are covered by \<open>Append\<close> and \<open>Set\<close>.  Three operations have a condition without which
  the list can become unsorted: the full name of \<open>ReplaceNamed\<close> and \<open>ReplaceLst\<close> fits its
  buffer of 64 bytes; for \<open>Environ\<close> the list is not shorter than at its last sort (nothing was
  deleted since); and \<open>Merge\<close> does not bring exactly one variable more than the target had at
  its last sort (a target that was just initialised never fails this).\<close>

inductive var_step :: "udm_varlist \<Rightarrow> udm_varlist \<Rightarrow> bool" where
  Add: "var_step L (UdmVarListAdd L (Some S))"
| AddNamed: "var_step L (UdmVarListAddNamed L S name)"
| AddStr: "var_step L (UdmVarListAddStr L n val)"
| AddQueryStr: "var_step L (UdmVarListAddQueryStr L n val)"
| AddInt: "var_step L (UdmVarListAddInt L n i)"
| AddUnsigned: "var_step L (UdmVarListAddUnsigned L n u)"
| InsStr: "var_step L (UdmVarListInsStr L n val)"
| InsInt: "var_step L (UdmVarListInsInt L n i)"
| InsNamed: "var_step L (UdmVarListInsNamed L S name)"
| Replace: "var_step L (UdmVarListReplace L S)"
| ReplaceNamed: "length (var_name (UdmVarCopyName zero_var S name)) \<le> 63 \<Longrightarrow>
    var_step L (UdmVarListReplaceNamed L S name)"
| ReplaceStr: "var_step L (UdmVarListReplaceStr L n val)"
| ReplaceStrn: "var_step L (UdmVarListReplaceStrn L n s len)"
| ReplaceInt: "var_step L (UdmVarListReplaceInt L n i)"
| ReplaceUnsigned: "var_step L (UdmVarListReplaceUnsigned L n u)"
| Append: "i < length (vars L) \<Longrightarrow> var_step L (set_var i (\<lambda>v. UdmVarAppendStrn v s len) L)"
| Set: "i < length (vars L) \<Longrightarrow> var_name v = var_name (vars L ! i) \<Longrightarrow> var_step L (set_var i (\<lambda>_. v) L)"
| Del: "var_step L (UdmVarListDel L n)"
| DelByName: "var_step L (UdmVarListDelByName L n)"
| DelBySection: "var_step L (UdmVarListDelBySection L sec)"
| Free: "var_step L (UdmVarListFree L)"
| ReplaceLst: "\<forall>v \<in> set (vars S). length (var_name (UdmVarCopyName zero_var v name)) \<le> 63 \<Longrightarrow>
    var_step L (UdmVarListReplaceLst L S name msk)"
| AddLst: "var_step L (UdmVarListAddLst L S name msk)"
| InsLst: "var_step L (UdmVarListInsLst L S name msk)"
| Merge: "svars L = 0 \<or> length (vars S1) + length (vars S2) \<noteq> svars L + 1 \<Longrightarrow> var_step L (UdmVarListMerge L S1 S2)"
| Environ: "svars L \<le> length (vars L) \<Longrightarrow> UdmVarListAddEnviron L name environ = Some L' \<Longrightarrow> var_step L L'"

inductive var_reachable :: "udm_varlist \<Rightarrow> bool" where
  init: "var_reachable UdmVarListInit"
| step: "var_reachable L \<Longrightarrow> var_step L L' \<Longrightarrow> var_reachable L'"

lemma UdmVarAppendStrn_name [simp]: "var_name (UdmVarAppendStrn v s len) = var_name v"
  by (simp add: UdmVarAppendStrn_def Let_def)

lemma var_step_sorted: "var_step L L' \<Longrightarrow> var_sorted L \<Longrightarrow> var_sorted L'"
proof (induction rule: var_step.induct)
  case (Append i L s len)
  then show ?case by (intro set_var_sorted) simp_all
next
  case (Set i L v)
  then show ?case by (intro set_var_sorted) simp_all
next
  case (DelByName L n)
  then show ?case unfolding UdmVarListDelByName_def by (rule del_sorted)
next
  case (DelBySection L sec)
  then show ?case unfolding UdmVarListDelBySection_def by (rule del_sorted)
next
  case (Free L)
  then show ?case by (simp add: UdmVarListFree_def var_sorted_def)
next
  case (ReplaceLst S name L msk)
  then show ?case unfolding UdmVarListReplaceLst_def by (intro for_matching_sorted ReplaceNamed_sorted) simp_all
next
  case (AddLst L S name msk)
  then show ?case unfolding UdmVarListAddLst_def by (intro for_matching_sorted AddNamed_sorted)
next
  case (InsLst L S name msk)
  then show ?case unfolding UdmVarListInsLst_def by (intro for_matching_sorted InsNamed_sorted)
next
  case (Merge L S1 S2)
  show ?case by (rule Merge_sorted [OF Merge(1)])
next
  case (Environ L name environ L')
  show ?case by (rule AddEnviron_sorted [OF Environ(3,1,2)])
qed (simp_all add: var_ops UdmVarListAddInt_def UdmVarListAddUnsigned_def UdmVarListInsStr_def UdmVarListInsInt_def
    UdmVarListReplaceStrn_def UdmVarListReplaceInt_def UdmVarListReplaceUnsigned_def)

lemma var_reachable_sorted: "var_reachable L \<Longrightarrow> var_sorted L"
  by (induction rule: var_reachable.induct) (auto simp: UdmVarListInit_def var_sorted_def dest: var_step_sorted)

text \<open>
  C30. A list that the operations of \<open>vars.c\<close> (\<open>var_step\<close>; not those on objects) build is sorted by the names, whatever was added,
  replaced and deleted before, so that the binary search finds a variable exactly when there is
  one with that name (up to the case of the letters), as long as three operations are used under
  their conditions (\<open>var_step\<close>): names of at most 63 characters, with the prefix, in
  \<open>UdmVarListReplaceNamed\<close> and \<open>UdmVarListReplaceLst\<close>, no deletion since the last sort before
  \<open>UdmVarListAddEnviron\<close>, and for \<open>UdmVarListMerge\<close> not exactly one variable more than the
  target had at its last sort.  Without the second one \<open>UdmVarListAddEnviron\<close> does leave a list
  unsorted (\<open>UdmVarListAddEnviron_unsorted\<close>).
\<close>

theorem var_reachable_lookup:
  assumes "var_reachable L"
  shows "var_sorted L \<and> (UdmVarListFind L n \<noteq> None) = (name_key n \<in> var_key ` set (vars L))"
proof -
  have srt: "var_sorted L" using assms by (rule var_reachable_sorted)
  then show ?thesis
  proof (cases "UdmVarListFind L n")
    case None
    with srt Find_None [OF srt None] show ?thesis by fastforce
  next
    case (Some i)
    from Find_Some [OF Some] have "vars L ! i \<in> set (vars L)" "name_key n = var_key (vars L ! i)" by simp_all
    with srt Some show ?thesis by blast
  qed
qed

definition example_list :: udm_varlist where
  "example_list = UdmVarListDel (UdmVarListAddStr (UdmVarListAddInt UdmVarListInit (bstr ''q'') 7) (bstr ''Ps'') None) (bstr ''Q'')"

lemma example_list_reachable: "var_reachable example_list"
  unfolding example_list_def
  by (rule var_reachable.step [OF var_reachable.step [OF var_reachable.step
        [OF var_reachable.init var_step.AddInt] var_step.AddStr] var_step.Del])

theorem var_reachable_lookup_witness:
  "var_sorted example_list \<and>
   (UdmVarListFind example_list (bstr ''ps'') \<noteq> None) = (name_key (bstr ''ps'') \<in> var_key ` set (vars example_list))"
  by (rule var_reachable_lookup [OF example_list_reachable])

subsection \<open>A list of variables as a map\<close>

definition var_map :: "udm_varlist \<Rightarrow> nat list \<Rightarrow> byte list option option" where
  "var_map L = map_of (map (\<lambda>v. (var_key v, var_val v)) (vars L))"

definition var_unique :: "udm_varlist \<Rightarrow> bool" where
  "var_unique L \<longleftrightarrow> var_sorted L \<and> distinct (map var_key (vars L))"

lemma var_map_iff:
  assumes "var_unique L"
  shows "var_map L k = Some x \<longleftrightarrow> (\<exists>v \<in> set (vars L). var_key v = k \<and> var_val v = x)"
proof -
  have "distinct (map fst (map (\<lambda>v. (var_key v, var_val v)) (vars L)))"
    using assms by (simp add: var_unique_def comp_def)
  from map_of_eq_Some_iff [OF this, of k x] show ?thesis by (auto simp: var_map_def)
qed

lemma map_eqI: "(\<And>k x. m k = Some x \<longleftrightarrow> m' k = Some x) \<Longrightarrow> m = m'"
  by (rule ext) (metis option.exhaust)

lemma Sort_unique:
  assumes "var_unique L" "\<forall>u \<in> set (vars L). var_key u \<noteq> var_key v"
  defines "L' \<equiv> UdmVarListSort (L\<lparr>vars := vars L @ [v]\<rparr>)"
  shows "var_unique L' \<and> var_map L' = (var_map L)(var_key v \<mapsto> var_val v)"
proof -
  have m: "mset (map var_key (vars L')) = mset (map var_key (vars L @ [v]))"
    unfolding L'_def by (simp del: map_append mset_append add: mset_map)
  have "distinct (map var_key (vars L @ [v]))" using assms(1,2) by (auto simp: var_unique_def)
  then have u: "var_unique L'"
    using mset_eq_imp_distinct_iff [OF m] insert_sorted [of L v] assms(1) by (simp add: var_unique_def L'_def)
  have s: "set (vars L') = insert v (set (vars L))" by (simp add: L'_def)
  have "var_map L' = (var_map L)(var_key v \<mapsto> var_val v)"
  proof (rule map_eqI)
    fix k x
    show "var_map L' k = Some x \<longleftrightarrow> ((var_map L)(var_key v \<mapsto> var_val v)) k = Some x"
      using assms(2) by (auto simp: var_map_iff [OF u] var_map_iff [OF assms(1)] s)
  qed
  with u show ?thesis by blast
qed

lemma AddStr_unique:
  assumes "var_unique L" "UdmVarListFind L n = None"
  shows "var_unique (UdmVarListAddStr L n val) \<and> var_map (UdmVarListAddStr L n val) = (var_map L)(name_key n \<mapsto> val)"
proof -
  have "var_sorted L" using assms(1) by (simp add: var_unique_def)
  then have "\<forall>u \<in> set (vars L). var_key u \<noteq> name_key n" using Find_None assms(2) by blast
  then show ?thesis
    using Sort_unique [OF assms(1)]
    by (fastforce simp: UdmVarListAddStr_def UdmVarListAddStrWithSection_def set_last_Add Let_def)
qed

text \<open>A variable that is found splits the list.\<close>

lemma Find_split:
  assumes "UdmVarListFind L n = Some i"
  obtains pre v suf where "vars L = pre @ v # suf" "length pre = i" "var_key v = name_key n"
  using Find_Some [OF assms] id_take_nth_drop [of i "vars L"] by (metis length_take min.absorb4)

lemma var_map_found:
  assumes "UdmVarListFind L n = Some i" "var_unique L"
  shows "var_map L (name_key n) = Some (var_val (vars L ! i))"
  unfolding var_map_iff [OF assms(2)] using Find_Some [OF assms(1)] by auto

lemma var_map_not_found:
  assumes "UdmVarListFind L n = None" "var_unique L"
  shows "var_map L (name_key n) = None"
  using Find_None [OF _ assms(1)] assms(2) var_map_iff [OF assms(2), of "name_key n"]
  by (metis not_Some_eq var_unique_def)

lemma unique_split:
  assumes "var_unique L" "vars L = pre @ v # suf" "var_key v = name_key n" "u \<in> set pre \<union> set suf"
  shows "var_key u \<noteq> name_key n"
proof -
  have "var_key v \<notin> var_key ` (set pre \<union> set suf)"
    using assms(1) unfolding var_unique_def assms(2) by auto
  with assms(3,4) show ?thesis by (metis imageI)
qed

lemma set_var_unique:
  assumes "UdmVarListFind L n = Some i" "var_unique L"
  shows "var_unique (set_var i (replace_val val) L) \<and>
    var_map (set_var i (replace_val val) L) = (var_map L)(name_key n \<mapsto> val)"
proof -
  obtain pre v suf where L: "vars L = pre @ v # suf" "length pre = i" "var_key v = name_key n"
    using Find_split [OF assms(1)] .
  have new: "vars (set_var i (replace_val val) L) = pre @ replace_val val v # suf"
    using L(1,2) by (simp add: set_var_def list_update_append nth_append)
  have u: "var_unique (set_var i (replace_val val) L)"
    using assms(2) unfolding var_unique_def var_sorted_def new L(1) by simp
  have nin: "var_key u \<noteq> name_key n" if "u \<in> set pre \<union> set suf" for u
    by (rule unique_split [OF assms(2) L(1,3) that])
  have val: "var_val (replace_val val v) = val" by (cases val) (simp_all add: replace_val_def)
  have "var_map (set_var i (replace_val val) L) = (var_map L)(name_key n \<mapsto> val)"
  proof (rule map_eqI)
    fix k x
    show "var_map (set_var i (replace_val val) L) k = Some x \<longleftrightarrow> ((var_map L)(name_key n \<mapsto> val)) k = Some x"
      using nin L(3) val
      by (cases "k = name_key n") (auto simp: var_map_iff [OF u] var_map_iff [OF assms(2)] new L(1))
  qed
  with u show ?thesis by blast
qed

lemma Del_unique:
  assumes "var_unique L"
  shows "var_unique (UdmVarListDel L n) \<and> var_map (UdmVarListDel L n) = (var_map L)(name_key n := None)"
proof (cases "UdmVarListFind L n")
  case None
  with assms var_map_not_found [OF None assms] show ?thesis by (simp add: UdmVarListDel_def fun_upd_idem)
next
  case (Some i)
  obtain pre v suf where L: "vars L = pre @ v # suf" "length pre = i" "var_key v = name_key n"
    using Find_split [OF Some] .
  have new: "vars (UdmVarListDel L n) = pre @ suf" using Some L by (simp add: UdmVarListDel_def)
  have u: "var_unique (UdmVarListDel L n)"
    using assms Del_sorted [of L n] by (auto simp: var_unique_def new L(1))
  have nin: "var_key u \<noteq> name_key n" if "u \<in> set pre \<union> set suf" for u
    by (rule unique_split [OF assms L(1,3) that])
  have "var_map (UdmVarListDel L n) = (var_map L)(name_key n := None)"
  proof (rule map_eqI)
    fix k x
    show "var_map (UdmVarListDel L n) k = Some x \<longleftrightarrow> ((var_map L)(name_key n := None)) k = Some x"
      using nin L(3) by (cases "k = name_key n") (auto simp: var_map_iff [OF u] var_map_iff [OF assms] new L(1))
  qed
  with u show ?thesis by blast
qed

text \<open>
  C31. A list without two variables of one name implements a map from names (without regard to
  case) to values: replacing a string is the update of the map, inserting one is the update
  where the name is free, deleting is the removal, looking up reads the map; and the names stay
  unique.
\<close>

theorem varlist_refines_map:
  assumes "var_unique L"
  shows "var_unique (UdmVarListReplaceStr L n val) \<and>
    var_map (UdmVarListReplaceStr L n val) = (var_map L)(name_key n \<mapsto> val) \<and>
    var_unique (UdmVarListInsStr L n val) \<and>
    var_map (UdmVarListInsStr L n val) = (if var_map L (name_key n) = None then (var_map L)(name_key n \<mapsto> val) else var_map L) \<and>
    var_unique (UdmVarListDel L n) \<and>
    var_map (UdmVarListDel L n) = (var_map L)(name_key n := None) \<and>
    UdmVarListFindStr L n defval = (case var_map L (name_key n) of Some (Some s) \<Rightarrow> Some s | _ \<Rightarrow> defval)"
proof (cases "UdmVarListFind L n")
  case None
  then show ?thesis
    using AddStr_unique [OF assms None] Del_unique [OF assms] var_map_not_found [OF None assms]
    by (simp add: UdmVarListReplaceStr_def UdmVarListInsStr_def UdmVarListFindStr_def)
next
  case (Some i)
  then show ?thesis
    using set_var_unique [OF Some assms] Del_unique [OF assms] var_map_found [OF Some assms] assms
    by (auto simp: UdmVarListReplaceStr_def UdmVarListInsStr_def UdmVarListFindStr_def split: option.split)
qed

definition example_map :: udm_varlist where
  "example_map = UdmVarListAddStr UdmVarListInit (bstr ''Limit'') (Some (bstr ''t''))"

lemma example_map_unique: "var_unique example_map"
proof -
  have "var_unique UdmVarListInit" by (simp add: var_unique_def var_sorted_def UdmVarListInit_def)
  from AddStr_unique [OF this] show ?thesis by (simp add: example_map_def UdmVarListFind_def UdmVarListInit_def)
qed

theorem varlist_refines_map_witness:
  "var_unique (UdmVarListReplaceStr example_map (bstr ''LIMIT'') None) \<and>
    var_map (UdmVarListReplaceStr example_map (bstr ''LIMIT'') None) = (var_map example_map)(name_key (bstr ''LIMIT'') \<mapsto> None) \<and>
    var_unique (UdmVarListInsStr example_map (bstr ''LIMIT'') None) \<and>
    var_map (UdmVarListInsStr example_map (bstr ''LIMIT'') None) =
      (if var_map example_map (name_key (bstr ''LIMIT'')) = None then (var_map example_map)(name_key (bstr ''LIMIT'') \<mapsto> None)
       else var_map example_map) \<and>
    var_unique (UdmVarListDel example_map (bstr ''LIMIT'')) \<and>
    var_map (UdmVarListDel example_map (bstr ''LIMIT'')) = (var_map example_map)(name_key (bstr ''LIMIT'') := None) \<and>
    UdmVarListFindStr example_map (bstr ''LIMIT'') None =
      (case var_map example_map (name_key (bstr ''LIMIT'')) of Some (Some s) \<Rightarrow> Some s | _ \<Rightarrow> None)"
  by (rule varlist_refines_map [OF example_map_unique])

subsection \<open>Numbers as values\<close>

lemma unat_digit: "n < 10 \<Longrightarrow> unat (of_nat (48 + n) :: byte) = 48 + n"
  by (simp add: unsigned_of_nat take_bit_eq_mod del: of_nat_add)

lemma is_digit_of_nat: "n < 10 \<Longrightarrow> is_digit (of_nat (48 + n))"
  using unat_digit [of n] by (simp add: is_digit_def word_le_nat_alt)

lemma digits_are_digits: "\<forall>c \<in> set (digits n). is_digit c"
  by (induction n rule: digits.induct) (subst digits.simps, auto simp: is_digit_of_nat simp del: of_nat_add)

lemma digits_ne [simp]: "digits n \<noteq> []"
  by (subst digits.simps) simp

lemma length_digits: "n < 10 ^ k \<Longrightarrow> 0 < k \<Longrightarrow> length (digits n) \<le> k"
proof (induction k arbitrary: n)
  case (Suc k)
  show ?case
  proof (cases "n < 10")
    case True
    then show ?thesis by (subst digits.simps) simp
  next
    case False
    with Suc.prems have "n div 10 < 10 ^ k" "0 < k" by (simp_all add: less_mult_imp_div_less) (cases k, simp_all)
    with Suc.IH False show ?thesis by (subst digits.simps) simp
  qed
qed simp

lemma foldl_digits: "foldl (\<lambda>n c. 10 * n + (unat c - 48)) 0 (digits n) = n"
proof (induction n rule: digits.induct)
  case (1 n)
  show ?case
  proof (cases "n < 10")
    case True
    then show ?thesis by (subst digits.simps) (simp add: unat_digit del: of_nat_add)
  next
    case False
    have "unat (of_nat (48 + n mod 10) :: byte) = 48 + n mod 10" by (rule unat_digit) simp
    with 1 [OF False] False show ?thesis by (subst digits.simps) (simp del: of_nat_add)
  qed
qed

lemma digits_val_digits: "digits_val (digits n) = n"
proof -
  have "takeWhile is_digit (digits n) = digits n" by (simp add: takeWhile_eq_all_conv digits_are_digits)
  then show ?thesis by (simp only: digits_val_def foldl_digits)
qed

lemma atoi_int_str:
  assumes "is_int4 i"
  shows "atoi (int_str i) = i"
proof -
  have range: "int4_of (max (- (2 ^ 63)) (min (2 ^ 63 - 1) i)) = i"
    using assms int4_of_id [OF assms] by (simp add: min_def max_def)
  show ?thesis
  proof (cases "i < 0")
    case True
    then have "dropWhile (\<lambda>c. c = 0x20 \<or> 9 \<le> c \<and> c \<le> 13) (int_str i) = 0x2D # digits (nat (- i))"
      by (simp add: int_str_def)
    with True range show ?thesis by (simp add: atoi_def digits_val_digits Let_def)
  next
    case False
    obtain c cs where d: "digits (nat i) = c # cs" by (cases "digits (nat i)") auto
    then have "is_digit c" using digits_are_digits [of "nat i"] by simp
    then have "c \<noteq> 0x20" "\<not> c \<le> 13" "c \<noteq> 0x2D" "c \<noteq> 0x2B"
      by (auto simp: is_digit_def word_le_nat_alt)
    with False range d digits_val_digits [of "nat i"] show ?thesis
      by (simp add: atoi_def int_str_def Let_def)
  qed
qed

lemma bsearch_loop_map:
  "u \<le> length xs \<Longrightarrow> bsearch_loop (\<lambda>k v. cmp k (f v)) k xs l u = bsearch_loop cmp k (map f xs) l u"
proof (induction cmp k "map f xs" l u rule: bsearch_loop.induct)
  case (1 cmp k l u)
  show ?case
  proof (cases "l < u")
    case True
    have m: "(l + u) div 2 < length xs" using True "1.prems" by simp
    then have e: "map f xs ! ((l + u) div 2) = f (xs ! ((l + u) div 2))" by simp
    have le: "(l + u) div 2 \<le> length xs" using m by simp
    show ?thesis
      using "1.hyps"(1) [OF True refl refl _ le] "1.hyps"(2) [OF True refl refl _ _ "1.prems"] True
      by (subst (1 2) bsearch_loop.simps) (simp add: Let_def e)
  qed (simp add: bsearch_loop.simps)
qed

lemma UdmVarListFind_names:
  assumes "map var_name (vars L) = map var_name (vars L')"
  shows "UdmVarListFind L n = UdmVarListFind L' n"
proof -
  have "UdmVarListFind M n = (if vars M = [] then None else bsearch_loop varcmp n (map var_name (vars M)) 0 (length (map var_name (vars M))))" for M
    by (simp add: UdmVarListFind_def UdmBSearch_def bsearch_loop_map)
  moreover have "vars L = [] \<longleftrightarrow> vars L' = []" using assms by (metis map_is_Nil_conv)
  ultimately show ?thesis using assms by simp
qed

text \<open>
  A number that is stored under a name is read back: \<open>UdmVarListFindInt\<close> returns the value
  that \<open>UdmVarListReplaceInt\<close> wrote, for every 32-bit number and every list that the
  operations can build, whether or not the name was there before.
\<close>

theorem FindInt_ReplaceInt:
  assumes "var_reachable L" "is_int4 i"
  shows "UdmVarListFindInt (UdmVarListReplaceInt L n i) n d = i"
proof (cases "UdmVarListFind L n")
  case (Some k)
  define L' where "L' = set_var k (replace_val (Some (int_str i))) L"
  have "map var_name (vars L') = map var_name (vars L)"
    using Find_Some [OF Some] by (simp add: L'_def set_var_def map_update list_update_same_conv)
  then have "UdmVarListFind L' n = Some k" using UdmVarListFind_names Some by metis
  moreover have "var_val (vars L' ! k) = Some (int_str i)"
    using Find_Some [OF Some] by (simp add: L'_def set_var_def replace_val_def)
  moreover have "UdmVarListReplaceInt L n i = L'"
    using Some by (simp add: UdmVarListReplaceInt_def UdmVarListReplaceStr_def L'_def)
  ultimately show ?thesis using atoi_int_str [OF assms(2)] by (simp add: UdmVarListFindInt_def)
next
  case None
  have srt: "var_sorted L" using assms(1) by (rule var_reachable_sorted)
  define L' where "L' = UdmVarListAddStr L n (Some (int_str i))"
  obtain v where L': "L' = UdmVarListSort (L\<lparr>vars := vars L @ [v]\<rparr>)" "var_name v = n" "var_val v = Some (int_str i)"
    by (simp add: L'_def UdmVarListAddStr_def UdmVarListAddStrWithSection_def set_last_Add Let_def)
  have "v \<in> set (vars L')" by (simp add: L'(1))
  moreover have "var_sorted L'" unfolding L'_def by (rule AddStr_sorted [OF srt])
  ultimately obtain k where k: "UdmVarListFind L' n = Some k" using Find_None L'(2) by blast
  have "vars L' ! k \<in> insert v (set (vars L))"
    using Find_Some [OF k] nth_mem [of k "vars L'"] by (simp add: L'(1))
  then have "vars L' ! k = v" using Find_None [OF srt None] Find_Some [OF k] by blast
  moreover have "UdmVarListReplaceInt L n i = L'" using None by (simp add: UdmVarListReplaceInt_def UdmVarListAddInt_def L'_def)
  ultimately show ?thesis using k L'(3) atoi_int_str [OF assms(2)] by (simp add: UdmVarListFindInt_def)
qed

theorem FindInt_ReplaceInt_witness:
  "UdmVarListFindInt (UdmVarListReplaceInt example_list (bstr ''Ps'') (- 20)) (bstr ''Ps'') 0 = - 20"
  by (rule FindInt_ReplaceInt [OF example_list_reachable]) simp

subsection \<open>UdmVarListAddEnviron\<close>

text \<open>
  The size of the buffer after the strings \<open>es\<close>: that of the last string that was longer than
  the buffer, and 64 bytes more.
\<close>

definition environ_buffer :: "nat \<Rightarrow> byte list list \<Rightarrow> nat" where
  "environ_buffer = foldl (\<lambda>lenstr e. if length e > lenstr then length e + 64 else lenstr)"

lemma environ_str_overrun:
  "environ_str (Some (bstr ''ENV'')) lenstr e = None \<longleftrightarrow> lenstr \<le> length e + 4 \<and> length e \<le> lenstr"
  "environ_str (Some (bstr ''ENV'')) lenstr e = Some (b, str) \<Longrightarrow>
    b = (if length e > lenstr then length e + 64 else lenstr)"
  by (auto simp: environ_str_def Let_def split: if_splits)

lemma element_Cons:
  "(\<exists>pre x post. e # es = pre @ x # post \<and> P pre x) \<longleftrightarrow>
    P [] e \<or> (\<exists>pre x post. es = pre @ x # post \<and> P (e # pre) x)"
  by (auto simp: Cons_eq_append_conv)

lemma environ_loop_overrun:
  "environ_loop (Some (bstr ''ENV'')) lenstr L es = None \<longleftrightarrow>
    (\<exists>pre e post. es = pre @ e # post \<and> environ_buffer lenstr pre \<le> length e + 4 \<and> length e \<le> environ_buffer lenstr pre)"
proof (induction es arbitrary: lenstr L)
  case (Cons e es)
  let ?over = "\<lambda>b e. b \<le> length (e :: byte list) + 4 \<and> length e \<le> b"
  have split: "(\<exists>pre x post. e # es = pre @ x # post \<and> ?over (environ_buffer lenstr pre) x) \<longleftrightarrow>
      ?over lenstr e \<or>
      (\<exists>pre x post. es = pre @ x # post \<and>
         ?over (environ_buffer (if length e > lenstr then length e + 64 else lenstr) pre) x)"
    unfolding element_Cons by (simp add: environ_buffer_def)
  show ?case
  proof (cases "environ_str (Some (bstr ''ENV'')) lenstr e")
    case None
    with environ_str_overrun(1) [of lenstr e] have "?over lenstr e" by simp
    with None show ?thesis unfolding split by simp
  next
    case (Some r)
    obtain b str where r: "r = (b, str)" by fastforce
    have "\<not> ?over lenstr e" using environ_str_overrun(1) [of lenstr e] Some by simp
    moreover have "environ_loop (Some (bstr ''ENV'')) lenstr L (e # es) =
        environ_loop (Some (bstr ''ENV'')) b (environ_add L str) es" by (simp add: Some r)
    ultimately show ?thesis
      unfolding split environ_str_overrun(2) [OF Some [unfolded r], symmetric]
      using Cons.IH [of b "environ_add L str"] by (simp only: simp_thms)
  qed
qed simp

text \<open>
  C33. The buffer of \<open>UdmVarListAddEnviron\<close> has 1024 bytes and grows when a string of the
  environment is longer than it (to 64 bytes more than this string), but the prefix is not
  counted: with the prefix \<open>ENV\<close> of both callers the function writes a zero behind its buffer
  exactly when some string of the environment is at most as long as the buffer that the strings
  before it have left (\<open>environ_buffer\<close>), and at most 4 bytes shorter.
\<close>

theorem UdmVarListAddEnviron_overrun:
  "UdmVarListAddEnviron L (Some (bstr ''ENV'')) es = None \<longleftrightarrow>
    (\<exists>pre e post. es = pre @ e # post \<and>
       environ_buffer 1024 pre \<le> length e + 4 \<and> length e \<le> environ_buffer 1024 pre)"
  using environ_loop_overrun [of 1024 L es] by (simp add: UdmVarListAddEnviron_def)

definition environ_name :: "byte list \<Rightarrow> byte list" where
  "environ_name e = takeWhile (\<lambda>c. c \<noteq> 0x3D) e"

lemma environ_loop_short:
  assumes "\<forall>e \<in> set es. length e < 1000 \<and> 0x3D \<in> set e"
  shows "\<exists>L' new. environ_loop None 1024 L es = Some L' \<and> vars L' = vars L @ new \<and> svars L' = svars L \<and>
    map var_name new = map environ_name es"
  using assms
proof (induction es arbitrary: L)
  case (Cons e es)
  then have e: "length e < 1000" "0x3D \<in> set e" by simp_all
  then have "environ_str None 1024 e = Some (1024, e)" by (simp add: environ_str_def)
  moreover obtain v where v: "environ_add L e = L\<lparr>vars := vars L @ [v]\<rparr>" "var_name v = environ_name e"
    using e(2) by (auto simp: environ_add_def UdmVarListAddStrWithSection_def set_last_Add Let_def environ_name_def)
  moreover obtain L' new where "environ_loop None 1024 (environ_add L e) es = Some L'"
    "vars L' = vars (environ_add L e) @ new" "svars L' = svars (environ_add L e)" "map var_name new = map environ_name es"
    using Cons.IH [of "environ_add L e"] Cons.prems by auto
  ultimately show ?case by (auto intro!: exI [of _ "v # new"])
qed simp

lemma MoveLast_unsorted:
  assumes "\<not> sorted (map var_key W)"
  shows "\<not> sorted (map var_key (UdmVarListMoveLast (W @ [x])))"
proof
  assume srt: "sorted (map var_key (UdmVarListMoveLast (W @ [x])))"
  define r where "r = move_pos (W @ [x]) x 0 (length W)"
  consider "UdmVarListMoveLast (W @ [x]) = W @ [x]" | "UdmVarListMoveLast (W @ [x]) = take r W @ [x] @ drop r W"
    by (auto simp: UdmVarListMoveLast_def Let_def r_def)
  then show False
  proof cases
    case 1
    with srt assms show False by (simp add: sorted_append)
  next
    case 2
    have "sorted (map var_key (take r W @ drop r W))"
      using srt unfolding 2 map_append sorted_append by auto
    with assms show False by simp
  qed
qed

text \<open>
  \<open>UdmVarListAddEnviron\<close> can leave the list unsorted: deleting does not change \<open>svars\<close>, and
  when the environment has just one string more than \<open>svars\<close> after everything was deleted, only
  the last new variable is moved, and the others stay in the order of the environment.
\<close>

theorem UdmVarListAddEnviron_unsorted:
  assumes "vars L = []" "length es = svars L + 1"
    and "\<forall>e \<in> set es. length e < 1000 \<and> 0x3D \<in> set e"
    and "\<not> sorted (map (\<lambda>e. name_key (environ_name e)) (butlast es))"
  shows "\<exists>L'. UdmVarListAddEnviron L None es = Some L' \<and> \<not> var_sorted L'"
proof -
  obtain L1 where L1: "environ_loop None 1024 L es = Some L1" "svars L1 = svars L"
    "map var_name (vars L1) = map environ_name es"
    using environ_loop_short [OF assms(3), of L] assms(1) by auto
  then have len: "length (vars L1) = svars L1 + 1" using assms(2) by (metis length_map)
  then obtain W x where W: "vars L1 = W @ [x]" by (cases "vars L1" rule: rev_cases) auto
  have "map var_key W = map (\<lambda>e. name_key (environ_name e)) (butlast es)"
  proof -
    have "map var_key W = map name_key (butlast (map var_name (vars L1)))" by (simp add: W)
    also have "\<dots> = map (\<lambda>e. name_key (environ_name e)) (butlast es)" by (simp add: L1(3) map_butlast comp_def)
    finally show ?thesis .
  qed
  then have ns: "\<not> sorted (map var_key W)" using assms(4) by simp
  then have "2 \<le> length W" by (cases W; cases "tl W") (auto simp: Suc_le_eq)
  then have "UdmVarListSort L1 = L1\<lparr>vars := UdmVarListMoveLast (W @ [x]), svars := length (vars L1)\<rparr>"
    using len by (simp add: UdmVarListSort_def W)
  then have "\<not> var_sorted (UdmVarListSort L1)" using MoveLast_unsorted [OF ns] by (simp add: var_sorted_def)
  then show ?thesis using L1(1) by (simp add: UdmVarListAddEnviron_def)
qed

definition emptied_list :: udm_varlist where
  "emptied_list = UdmVarListFree (UdmVarListAddStr (UdmVarListAddStr UdmVarListInit (bstr ''a'') None) (bstr ''b'') None)"

lemma emptied_list: "var_reachable emptied_list" "vars emptied_list = []" "svars emptied_list = 2"
  unfolding emptied_list_def
  by (rule var_reachable.step [OF var_reachable.step [OF var_reachable.step
        [OF var_reachable.init var_step.AddStr] var_step.AddStr] var_step.Free])
    (simp_all add: UdmVarListFree_def UdmVarListAddStr_def UdmVarListAddStrWithSection_def set_last_Add Let_def
      UdmVarListSort_def UdmVarListInit_def UdmVarListMoveLast_def)

theorem UdmVarListAddEnviron_unsorted_witness:
  "var_reachable emptied_list \<and>
   (\<exists>L'. UdmVarListAddEnviron emptied_list None [bstr ''B=1'', bstr ''A=2'', bstr ''C=3''] = Some L' \<and> \<not> var_sorted L')"
  using UdmVarListAddEnviron_unsorted [of emptied_list "[bstr ''B=1'', bstr ''A=2'', bstr ''C=3'']"]
  by (simp add: emptied_list environ_name_def name_key_def bstr_def l1tolower_ranges)

end
