(* ===== verification/Sgml.thy ===== *)
theory Sgml
  imports Vars "HOL-Library.Sublist"
begin

text \<open>
  SGML entities (\<^verbatim>\<open>src/sgml.c\<close>).  A C string is the list of its bytes before the closing zero.
  The table is searched for the first name that is a prefix of the string; the comparison of a
  name does not stop at the zero of the string, so that a string that ends where the name ends
  is read behind its end (\<open>None\<close>).
\<close>

subsection \<open>The table\<close>

definition SGMLChars :: "(byte list \<times> int) list" where
  "SGMLChars = map (\<lambda>(n, u). (bstr n, u))
     [
      (''lt'', 60), (''gt'', 62), (''amp'', 38), (''quot'', 34), (''nbsp'', 160),
      (''iexcl'', 161), (''cent'', 162), (''pound'', 163), (''curren'', 164), (''yen'', 165),
      (''brvbar'', 166), (''sect'', 167), (''uml'', 168), (''copy'', 169), (''ordf'', 170),
      (''laquo'', 171), (''not'', 172), (''shy'', 173), (''reg'', 174), (''hibar'', 175),
      (''deg'', 176), (''plusmn'', 177), (''sup2'', 178), (''sup3'', 179), (''acute'', 180),
      (''micro'', 181), (''para'', 182), (''middot'', 183), (''cedil'', 184), (''sup1'', 185),
      (''ordm'', 186), (''raquo'', 187), (''frac14'', 188), (''frac12'', 189), (''frac34'', 190),
      (''iquest'', 191), (''Agrave'', 192), (''Aacute'', 193), (''Acirc'', 194),
      (''Atilde'', 195), (''Auml'', 196), (''Aring'', 197), (''AElig'', 198), (''Ccedil'', 199),
      (''Egrave'', 200), (''Eacute'', 201), (''Ecirc'', 202), (''Euml'', 203), (''Igrave'', 205),
      (''Iacute'', 204), (''Icirc'', 206), (''Iuml'', 207), (''ETH'', 208), (''Ntilde'', 209),
      (''Ograve'', 210), (''Oacute'', 211), (''Ocirc'', 212), (''Otilde'', 213), (''Ouml'', 214),
      (''times'', 215), (''Oslash'', 216), (''Ugrave'', 217), (''Uacute'', 218),
      (''Ucirc'', 219), (''Uuml'', 220), (''Yacute'', 221), (''THORN'', 222), (''szlig'', 223),
      (''agrave'', 224), (''aacute'', 225), (''acirc'', 226), (''atilde'', 227), (''auml'', 228),
      (''aring'', 229), (''aelig'', 230), (''ccedil'', 231), (''egrave'', 232),
      (''eacute'', 233), (''ecirc'', 234), (''euml'', 235), (''igrave'', 236), (''iacute'', 237),
      (''icirc'', 238), (''iuml'', 239), (''eth'', 240), (''ntilde'', 241), (''ograve'', 242),
      (''oacute'', 243), (''ocirc'', 244), (''otilde'', 245), (''ouml'', 246), (''divide'', 247),
      (''oslash'', 248), (''ugrave'', 249), (''uacute'', 250), (''ucirc'', 251), (''uuml'', 252),
      (''yacute'', 253), (''thorn'', 254), (''yuml'', 255), (''OElig'', 338), (''oelig'', 339),
      (''Scaron'', 352), (''scaron'', 353), (''Yuml'', 376), (''fnof'', 402), (''circ'', 710),
      (''tilde'', 732), (''Alpha'', 913), (''Beta'', 914), (''Gamma'', 915), (''Delta'', 916),
      (''Epsilon'', 917), (''Zeta'', 918), (''Eta'', 919), (''Theta'', 920), (''Iota'', 921),
      (''Kappa'', 922), (''Lambda'', 923), (''Mu'', 924), (''Nu'', 925), (''Xi'', 926),
      (''Omicron'', 927), (''Pi'', 928), (''Rho'', 929), (''Sigma'', 931), (''Tau'', 932),
      (''Upsilon'', 933), (''Phi'', 934), (''Chi'', 935), (''Psi'', 936), (''Omega'', 937),
      (''alpha'', 945), (''beta'', 946), (''gamma'', 947), (''delta'', 948), (''epsilon'', 949),
      (''zeta'', 950), (''eta'', 951), (''theta'', 952), (''iota'', 953), (''kappa'', 954),
      (''lambda'', 955), (''mu'', 956), (''nu'', 957), (''xi'', 958), (''omicron'', 959),
      (''pi'', 960), (''rho'', 961), (''sigmaf'', 962), (''sigma'', 963), (''tau'', 964),
      (''upsilon'', 965), (''phi'', 966), (''chi'', 967), (''psi'', 968), (''omega'', 969),
      (''thetasym'', 977), (''upsih'', 978), (''piv'', 982), (''ensp'', 8194), (''emsp'', 8195),
      (''thinsp'', 8201), (''zwnj'', 8204), (''zwj'', 8205), (''lrm'', 8206), (''rlm'', 8207),
      (''ndash'', 8211), (''mdash'', 8212), (''lsquo'', 8216), (''rsquo'', 8217),
      (''sbquo'', 8218), (''ldquo'', 8220), (''rdquo'', 8221), (''bdquo'', 8222),
      (''dagger'', 8224), (''Dagger'', 8225), (''bull'', 8226), (''hellip'', 8230),
      (''permil'', 8240), (''prime'', 8242), (''Prime'', 8243), (''lsaquo'', 8249),
      (''rsaquo'', 8250), (''oline'', 8254), (''frasl'', 8260), (''euro'', 8364),
      (''weierp'', 8472), (''image'', 8465), (''real'', 8476), (''trade'', 8482),
      (''alefsym'', 8501), (''larr'', 8592), (''uarr'', 8593), (''rarr'', 8594),
      (''darr'', 8595), (''harr'', 8596), (''crarr'', 8629), (''lArr'', 8656), (''uArr'', 8657),
      (''rArr'', 8658), (''dArr'', 8659), (''hArr'', 8660), (''forall'', 8704), (''part'', 8706),
      (''exist'', 8707), (''empty'', 8709), (''nabla'', 8711), (''isin'', 8712),
      (''notin'', 8713), (''ni'', 8715), (''prod'', 8719), (''sum'', 8721), (''minus'', 8722),
      (''lowast'', 8727), (''radic'', 8730), (''prop'', 8733), (''infin'', 8734),
      (''ang'', 8736), (''and'', 8743), (''or'', 8744), (''cap'', 8745), (''cup'', 8746),
      (''int'', 8747), (''there4'', 8756), (''sim'', 8764), (''cong'', 8773), (''asymp'', 8776),
      (''ne'', 8800), (''equiv'', 8801), (''le'', 8804), (''ge'', 8805), (''sub'', 8834),
      (''sup'', 8835), (''nsub'', 8836), (''sube'', 8838), (''supe'', 8839), (''oplus'', 8853),
      (''otimes'', 8855), (''perp'', 8869), (''sdot'', 8901), (''lceil'', 8968),
      (''rceil'', 8969), (''lfloor'', 8970), (''rfloor'', 8971), (''lang'', 9001),
      (''rang'', 9002), (''loz'', 9674), (''spades'', 9824), (''clubs'', 9827),
      (''hearts'', 9829), (''diams'', 9830)]"

datatype sgml_cmp = Differs | Matches | Overruns

fun cmp_entity :: "byte list \<Rightarrow> byte list \<Rightarrow> sgml_cmp" where
  "cmp_entity [] [] = Overruns"
| "cmp_entity (c # s) [] = Matches"
| "cmp_entity [] (d # t) = Differs"
| "cmp_entity (c # s) (d # t) = (if c = d then cmp_entity s t else Differs)"

fun sgml_lookup :: "(byte list \<times> int) list \<Rightarrow> byte list \<Rightarrow> int option" where
  "sgml_lookup [] sgml = Some 0"
| "sgml_lookup ((n, u) # tab) sgml =
     (case cmp_entity sgml n of
        Matches \<Rightarrow> Some u
      | Overruns \<Rightarrow> None
      | Differs \<Rightarrow> sgml_lookup tab sgml)"

definition UdmSgmlToUni :: "byte list \<Rightarrow> int option" where
  "UdmSgmlToUni sgml = sgml_lookup SGMLChars sgml"

subsection \<open>UdmSGMLScan\<close>

text \<open>\<open>strtol\<close> with base 16: white space, a sign, an optional prefix and digits.\<close>

definition hex_digit :: "byte \<Rightarrow> nat option" where
  "hex_digit c =
     (if 0x30 \<le> c \<and> c \<le> 0x39 then Some (unat c - 48)
      else if 0x41 \<le> c \<and> c \<le> 0x46 then Some (unat c - 55)
      else if 0x61 \<le> c \<and> c \<le> 0x66 then Some (unat c - 87)
      else None)"

fun hex_digits :: "nat \<Rightarrow> byte list \<Rightarrow> nat" where
  "hex_digits n [] = n"
| "hex_digits n (c # s) = (case hex_digit c of Some d \<Rightarrow> hex_digits (16 * n + d) s | None \<Rightarrow> n)"

definition hex_number :: "byte list \<Rightarrow> nat" where
  "hex_number s =
     (case s of
        c # x # d # t \<Rightarrow> if c = 0x30 \<and> (x = 0x78 \<or> x = 0x58) \<and> hex_digit d \<noteq> None then hex_digits 0 (d # t)
                         else hex_digits 0 s
      | _ \<Rightarrow> hex_digits 0 s)"

definition strtol16 :: "byte list \<Rightarrow> int" where
  "strtol16 s =
     (let s = dropWhile (\<lambda>c. c = 0x20 \<or> 9 \<le> c \<and> c \<le> 13) s;
          n = (case s of
                 [] \<Rightarrow> 0
               | c # cs \<Rightarrow> if c = 0x2D then - int (hex_number cs)
                           else if c = 0x2B then int (hex_number cs)
                           else int (hex_number s))
      in int4_of (max (- (2 ^ 63)) (min (2 ^ 63 - 1) n)))"

text \<open>The character of the entity; \<open>str\<close> begins with the ampersand.\<close>

definition entity_char :: "byte list \<Rightarrow> int option" where
  "entity_char str =
     (if str ! 1 = 0x23 then
        Some (if str ! 2 = 0x78 \<or> str ! 2 = 0x58 then strtol16 (drop 3 str) else atoi (drop 2 str))
      else UdmSgmlToUni (drop 1 str))"

function scan_entity :: "byte list \<Rightarrow> nat \<Rightarrow> nat \<Rightarrow> (int \<times> nat) option" where
  "scan_entity str end10 p =
     (if p < end10 then
        if str ! p = 0x3B then
          (case entity_char str of
             None \<Rightarrow> None
           | Some wc \<Rightarrow> if wc \<noteq> 0 then Some (wc, p + 1) else scan_entity str end10 (Suc p))
        else scan_entity str end10 (Suc p)
      else Some (0x26, 1))"
  by pat_completeness auto
termination
  by (relation "measure (\<lambda>(str, end10, p). end10 - p)") auto

declare scan_entity.simps [simp del]

text \<open>The result is the character and the number of bytes scanned.\<close>

definition UdmSGMLScan :: "byte list \<Rightarrow> (int \<times> nat) option" where
  "UdmSGMLScan str = scan_entity str (min 10 (length str)) 2"

subsection \<open>UdmSGMLUnescape\<close>

definition UDM_MAX_SGML_LEN :: nat where "UDM_MAX_SGML_LEN = 20"

definition is_alpha :: "byte \<Rightarrow> bool" where
  "is_alpha c \<longleftrightarrow> 0x61 \<le> c \<and> c \<le> 0x7A \<or> 0x41 \<le> c \<and> c \<le> 0x5A"

text \<open>What the string begins with is replaced: the character and the rest behind the entity.\<close>

definition unescape_number :: "byte list \<Rightarrow> (byte \<times> byte list) option" where
  "unescape_number ds =
     (let n = length (takeWhile is_digit (take (UDM_MAX_SGML_LEN - 2) ds)); e = drop n ds
      in if first_char e = 0x3B then
           let v = atoi ds
           in Some (if 0 \<le> v \<and> v \<le> 255 then word_of_int v else 0x20, tl e)
         else None)"

definition unescape_name :: "byte list \<Rightarrow> (byte \<times> byte list) option option" where
  "unescape_name s =
     (let n = length (takeWhile is_alpha (take (UDM_MAX_SGML_LEN - 1) s)); e = drop n s
      in if first_char e = 0x3B then
           (case UdmSgmlToUni s of
              None \<Rightarrow> None
            | Some u \<Rightarrow> let c = word_of_int u in Some (if c \<noteq> 0 then Some (c, tl e) else None))
         else Some None)"

function UdmSGMLUnescape :: "byte list \<Rightarrow> byte list option" where
  "UdmSGMLUnescape [] = Some []"
| "UdmSGMLUnescape (c # s) =
     (if c = 0x26 then
        (case (if first_char s = 0x23 then Some (unescape_number (tl s)) else unescape_name s) of
           None \<Rightarrow> None
         | Some None \<Rightarrow> map_option ((#) c) (UdmSGMLUnescape s)
         | Some (Some (d, rest)) \<Rightarrow> map_option ((#) d) (UdmSGMLUnescape rest))
      else map_option ((#) c) (UdmSGMLUnescape s))"
  by pat_completeness auto
termination
proof (relation "measure length", goal_cases)
  case (3 c s x2 x2a x y)
  have "length (tl (drop n t)) < Suc (length s)" if "length t \<le> length s" for n t using that by auto
  then show ?case using 3
    by (auto simp: unescape_number_def unescape_name_def Let_def split: if_splits option.splits)
qed auto

subsection \<open>UdmHTMLEncode\<close>

definition html_char :: "byte \<Rightarrow> byte list" where
  "html_char c =
     (if c = 0x26 then bstr ''&amp;''
      else if c = 0x22 then bstr ''&quot;''
      else if c = 0x3C then bstr ''&lt;''
      else if c = 0x3E then bstr ''&gt;''
      else [c])"

fun UdmHTMLEncode :: "nat \<Rightarrow> byte list \<Rightarrow> byte list" where
  "UdmHTMLEncode dstlen [] = []"
| "UdmHTMLEncode dstlen (c # src) =
     (let ch = html_char c; chlen = length ch
      in if chlen > dstlen then [] else ch @ UdmHTMLEncode (dstlen - chlen) src)"

subsection \<open>Entities are found\<close>

lemma cmp_entity_prefix: "s \<noteq> [] \<Longrightarrow> cmp_entity (n @ s) n = Matches"
  by (induction n) (auto simp: neq_Nil_conv)

lemma cmp_entity_semicolon: "0x3B \<notin> set n \<Longrightarrow> 0x3B \<in> set s \<Longrightarrow> cmp_entity s n \<noteq> Overruns"
  by (induction s n rule: cmp_entity.induct) auto

lemma entity_names: "\<forall>(n, u) \<in> set SGMLChars. 0x3B \<notin> set n"
  by (simp add: SGMLChars_def bstr_def)

lemma sgml_lookup_total:
  "\<forall>(n, u) \<in> set tab. 0x3B \<notin> set n \<Longrightarrow> 0x3B \<in> set s \<Longrightarrow> \<exists>u. sgml_lookup tab s = Some u"
  by (induction tab) (auto split: sgml_cmp.splits dest: cmp_entity_semicolon)

lemma UdmSgmlToUni_total: "0x3B \<in> set s \<Longrightarrow> \<exists>u. UdmSgmlToUni s = Some u"
  unfolding UdmSgmlToUni_def by (rule sgml_lookup_total [OF entity_names])

lemma scan_entity_range:
  "2 \<le> p \<Longrightarrow> end10 \<le> length str \<Longrightarrow>
   \<exists>wc n. scan_entity str end10 p = Some (wc, n) \<and> 1 \<le> n \<and> n \<le> max 1 end10"
proof (induction str end10 p rule: scan_entity.induct)
  case (1 str end10 p)
  show ?case
  proof (cases "p < end10 \<and> str ! p = 0x3B")
    case True
    have "p - 1 < length (drop 1 str)" using True "1.prems" unfolding length_drop by linarith
    moreover from this have "drop 1 str ! (p - 1) = 0x3B" using True "1.prems" by simp
    ultimately have "0x3B \<in> set (drop 1 str)" by (metis nth_mem)
    from UdmSgmlToUni_total [OF this] obtain u where "UdmSgmlToUni (drop 1 str) = Some u" by blast
    then obtain wc where wc: "entity_char str = Some wc" unfolding entity_char_def by (metis (full_types))
    show ?thesis
    proof (cases "wc = 0")
      case z: True
      with "1.IH"(1) [OF _ _ wc] True "1.prems" wc show ?thesis by (subst scan_entity.simps) simp
    next
      case False
      with True wc show ?thesis by (subst scan_entity.simps) simp
    qed
  next
    case False
    show ?thesis
    proof (cases "p < end10")
      case True
      with False "1.IH"(2) "1.prems" show ?thesis by (subst scan_entity.simps) simp
    next
      case False
      then show ?thesis by (subst scan_entity.simps) simp
    qed
  qed
qed

lemma UdmSGMLScan_range:
  "str \<noteq> [] \<Longrightarrow> \<exists>wc n. UdmSGMLScan str = Some (wc, n) \<and> 1 \<le> n \<and> n \<le> length str"
  using scan_entity_range [of 2 "min 10 (length str)" str] by (cases str) (fastforce simp: UdmSGMLScan_def)+

subsection \<open>Encoding and unescaping\<close>

lemma SGMLChars_first:
  "SGMLChars = (bstr ''lt'', 60) # (bstr ''gt'', 62) # (bstr ''amp'', 38) # (bstr ''quot'', 34) # drop 4 SGMLChars"
  by (simp add: SGMLChars_def)

lemma SgmlToUni_html:
  "UdmSgmlToUni (bstr ''lt;'' @ t) = Some 60" "UdmSgmlToUni (bstr ''gt;'' @ t) = Some 62"
  "UdmSgmlToUni (bstr ''amp;'' @ t) = Some 38" "UdmSgmlToUni (bstr ''quot;'' @ t) = Some 34"
  unfolding UdmSgmlToUni_def by (subst SGMLChars_first, simp add: bstr_def)+

lemma unescape_name_html:
  "unescape_name (bstr ''lt;'' @ t) = Some (Some (0x3C, t))" "unescape_name (bstr ''gt;'' @ t) = Some (Some (0x3E, t))"
  "unescape_name (bstr ''amp;'' @ t) = Some (Some (0x26, t))" "unescape_name (bstr ''quot;'' @ t) = Some (Some (0x22, t))"
  using SgmlToUni_html [of t]
  by (simp_all add: unescape_name_def UDM_MAX_SGML_LEN_def bstr_def is_alpha_def first_char_def Let_def)

lemma Unescape_html_char: "UdmSGMLUnescape (html_char c @ t) = map_option ((#) c) (UdmSGMLUnescape t)"
  using unescape_name_html [of t]
  by (auto simp: html_char_def bstr_def first_char_def)

text \<open>
  C34. Encoding a text for HTML and replacing its entities again gives the text back, whatever
  bytes it has (an ampersand of the text is not taken for the begin of an entity), when the
  buffer has room for the encoded text; a smaller buffer is never exceeded, and what is written
  is then the encoding of a prefix of the text.
\<close>

theorem UdmHTMLEncode_unescape:
  "length (UdmHTMLEncode dstlen s) \<le> dstlen \<and>
   (\<exists>k. UdmSGMLUnescape (UdmHTMLEncode dstlen s) = Some (take k s)) \<and>
   UdmSGMLUnescape (UdmHTMLEncode (6 * length s) s) = Some s"
proof -
  have len: "length (UdmHTMLEncode dstlen s) \<le> dstlen"
  proof (induction dstlen s rule: UdmHTMLEncode.induct)
    case (2 dstlen c src)
    then show ?case by (cases "length (html_char c) > dstlen") (simp_all add: Let_def le_diff_conv2 add.commute)
  qed simp
  have pre: "\<exists>k \<le> length s. UdmSGMLUnescape (UdmHTMLEncode dstlen s) = Some (take k s)"
  proof (induction dstlen s rule: UdmHTMLEncode.induct)
    case (2 dstlen c src)
    show ?case
    proof (cases "length (html_char c) > dstlen")
      case False
      with 2 [OF refl refl] obtain k where "k \<le> length src"
        "UdmSGMLUnescape (UdmHTMLEncode (dstlen - length (html_char c)) src) = Some (take k src)" by auto
      with False show ?thesis by (auto simp: Let_def Unescape_html_char intro!: exI [of _ "Suc k"])
    qed (auto simp: Let_def intro!: exI [of _ 0])
  qed simp
  have "length (html_char c) \<le> 6" for c by (simp add: html_char_def bstr_def)
  then have "6 * length s \<le> n \<Longrightarrow> UdmSGMLUnescape (UdmHTMLEncode n s) = Some s" for n
  proof (induction n s rule: UdmHTMLEncode.induct)
    case (2 n c src)
    from "2.prems"(2) [of c] "2.prems"(1) have "length (html_char c) \<le> n" "6 * length src \<le> n - length (html_char c)" by simp_all
    with "2.IH" [OF refl refl] "2.prems"(2) show ?case by (simp add: Let_def Unescape_html_char)
  qed simp
  from len pre this [of "6 * length s"] show ?thesis by auto
qed

subsection \<open>What becomes of an entity\<close>

lemma cmp_entity_name:
  "0x3B \<notin> set m \<Longrightarrow> 0x3B \<notin> set n \<Longrightarrow> cmp_entity (n @ 0x3B # t) m = (if prefix m n then Matches else Differs)"
proof (induction n arbitrary: m)
  case Nil
  then show ?case by (cases m) auto
next
  case (Cons c n)
  then show ?case by (cases m) auto
qed

text \<open>The first entry of the table whose name the string \<open>n\<close> begins with.\<close>

definition first_prefix :: "(byte list \<times> int) list \<Rightarrow> byte list \<Rightarrow> (byte list \<times> int) option" where
  "first_prefix tab n = find (\<lambda>(m, u). prefix m n) tab"

lemma sgml_lookup_first:
  assumes "\<forall>(m, u) \<in> set tab. 0x3B \<notin> set m" "0x3B \<notin> set n"
  shows "sgml_lookup tab (n @ 0x3B # t) = Some (case first_prefix tab n of None \<Rightarrow> 0 | Some (m, u) \<Rightarrow> u)"
  using assms(1) by (induction tab) (auto simp: first_prefix_def cmp_entity_name assms(2))

lemma is_alpha_not_semicolon: "list_all is_alpha n \<Longrightarrow> 0x3B \<notin> set n"
  by (auto simp: list_all_iff is_alpha_def)

lemma takeWhile_alpha:
  assumes "list_all is_alpha n" "length n \<le> 19"
  shows "length (takeWhile is_alpha (take 19 (n @ 0x3B # t))) = length n"
proof -
  have "take 19 (n @ 0x3B # t) = n @ take (19 - length n) (0x3B # t)" using assms(2) by simp
  moreover have "takeWhile is_alpha (take k (0x3B # t)) = []" for k
    by (cases k) (simp_all add: is_alpha_def)
  moreover have "takeWhile is_alpha (n @ ys) = n @ takeWhile is_alpha ys" for ys
    using assms(1) by (simp add: list_all_iff)
  ultimately show ?thesis by simp
qed

lemma unescape_name_entity:
  assumes "list_all is_alpha n" "length n \<le> 19"
  shows "unescape_name (n @ 0x3B # t) =
    Some (case first_prefix SGMLChars n of None \<Rightarrow> None
          | Some (m, u) \<Rightarrow> if (word_of_int u :: byte) = 0 then None else Some (word_of_int u, t))"
  using sgml_lookup_first [OF entity_names is_alpha_not_semicolon [OF assms(1)], of t] takeWhile_alpha [OF assms, of t]
  by (simp add: unescape_name_def UDM_MAX_SGML_LEN_def UdmSgmlToUni_def first_char_def Let_def split: option.split)

text \<open>
  C35. What \<open>UdmSGMLUnescape\<close> makes of an entity of letters: not the character of the entity of
  that name, but of the first entry of the table whose name the name of the entity begins with,
  and only the low byte of it; where that byte is 0, or there is no such entry, the entity is
  left as it is.  So \<open>&alpha;\<close> (U+03B1) becomes the plus-minus sign of Latin-1, \<open>&notin;\<close>
  (U+2209) becomes the sign of \<open>&not;\<close>, which stands before it in the table, and \<open>&forall;\<close>
  (U+2200) is left.
\<close>

theorem UdmSGMLUnescape_entity:
  assumes "list_all is_alpha n" "length n \<le> 19" "n \<noteq> []"
  shows "UdmSGMLUnescape (0x26 # n @ 0x3B # t) =
    (case first_prefix SGMLChars n of
       None \<Rightarrow> map_option ((#) 0x26) (UdmSGMLUnescape (n @ 0x3B # t))
     | Some (m, u) \<Rightarrow>
         if (word_of_int u :: byte) = 0 then map_option ((#) 0x26) (UdmSGMLUnescape (n @ 0x3B # t))
         else map_option ((#) (word_of_int u)) (UdmSGMLUnescape t))"
proof -
  obtain c n' where n: "n = c # n'" using assms(3) by (cases n) auto
  then have "c \<noteq> 0x23" using assms(1) by (auto simp: is_alpha_def)
  then have "first_char (n @ 0x3B # t) \<noteq> 0x23" by (simp add: n first_char_def)
  then show ?thesis using unescape_name_entity [OF assms(1,2), of t]
    by (subst UdmSGMLUnescape.simps) (simp split: option.split)
qed

lemma wrong_entities:
  "first_prefix SGMLChars (bstr ''alpha'') = Some (bstr ''alpha'', 945)"
  "first_prefix SGMLChars (bstr ''notin'') = Some (bstr ''not'', 172)"
  "first_prefix SGMLChars (bstr ''forall'') = Some (bstr ''forall'', 8704)"
  by (simp_all add: first_prefix_def SGMLChars_def bstr_def)

theorem UdmSGMLUnescape_entity_witness:
  "UdmSGMLUnescape (0x26 # bstr ''alpha'' @ 0x3B # []) = Some [0xB1] \<and>
   UdmSGMLUnescape (0x26 # bstr ''notin'' @ 0x3B # []) = Some [0xAC] \<and>
   UdmSGMLUnescape (0x26 # bstr ''forall'' @ 0x3B # []) = Some (bstr ''&forall;'')"
proof -
  have "list_all is_alpha (bstr w) \<and> length (bstr w) \<le> 19 \<and> bstr w \<noteq> []"
    if "w \<in> {''alpha'', ''notin'', ''forall''}" for w
    using that by (auto simp: bstr_def is_alpha_def)
  then show ?thesis
    using UdmSGMLUnescape_entity [of "bstr ''alpha''" "[]"] UdmSGMLUnescape_entity [of "bstr ''notin''" "[]"]
      UdmSGMLUnescape_entity [of "bstr ''forall''" "[]"]
    by (simp add: wrong_entities) (simp add: bstr_def)
qed

end
