(* ===== verification/Charset.thy ===== *)
theory Charset
  imports Sgml
begin

text \<open>
  Character sets: UTF-8 (\<^verbatim>\<open>src/uconv-utf8.c\<close>), the 8-bit sets (\<^verbatim>\<open>src/uconv-8bit.c\<close>) and
  the conversion of a text between two sets (\<open>UdmConv\<close> of \<^verbatim>\<open>src/uconv.c\<close>), which takes the
  functions of the sets as function pointers.

  A reader gets the bytes from the pointer to the end and returns its code and the character it
  stored, if it did; a writer gets the character and the room in the buffer, and returns its
  code and the bytes.  The writer of UTF-8 changes the character it is given; the
  conversion uses the changed one only to test that it is not 0, which it becomes for no other
  character, so that the change is not modelled.
\<close>

subsection \<open>Codes\<close>

definition UDM_CHARSET_ILSEQ :: int where "UDM_CHARSET_ILSEQ = 0"
definition UDM_CHARSET_ILSEQ2 :: int where "UDM_CHARSET_ILSEQ2 = - 1"
definition UDM_CHARSET_ILSEQ3 :: int where "UDM_CHARSET_ILSEQ3 = - 2"
definition UDM_CHARSET_ILSEQ4 :: int where "UDM_CHARSET_ILSEQ4 = - 3"
definition UDM_CHARSET_ILSEQ5 :: int where "UDM_CHARSET_ILSEQ5 = - 4"
definition UDM_CHARSET_ILSEQ6 :: int where "UDM_CHARSET_ILSEQ6 = - 5"
definition UDM_CHARSET_TOOFEW :: "int \<Rightarrow> int" where "UDM_CHARSET_TOOFEW n = - 6 - n"
definition UDM_CHARSET_ILUNI :: int where "UDM_CHARSET_ILUNI = 0"
definition UDM_CHARSET_TOOSMALL :: int where "UDM_CHARSET_TOOSMALL = - 1"
definition UDM_CHARSET_CACHEDUNI :: int where "UDM_CHARSET_CACHEDUNI = - 100"

lemmas charset_codes [simp] =
  UDM_CHARSET_ILSEQ_def UDM_CHARSET_ILSEQ2_def UDM_CHARSET_ILSEQ3_def UDM_CHARSET_ILSEQ4_def
  UDM_CHARSET_ILSEQ5_def UDM_CHARSET_ILSEQ6_def UDM_CHARSET_TOOFEW_def UDM_CHARSET_ILUNI_def
  UDM_CHARSET_TOOSMALL_def UDM_CHARSET_CACHEDUNI_def

definition UDM_RECODE_HTML_NONASCII :: nat where "UDM_RECODE_HTML_NONASCII = 1"
definition UDM_RECODE_HTML_SPECIAL :: nat where "UDM_RECODE_HTML_SPECIAL = 2"
definition UDM_RECODE_HTML_NONASCII_HEX :: nat where "UDM_RECODE_HTML_NONASCII_HEX = 4"

lemmas recode_flags [simp] =
  UDM_RECODE_HTML_NONASCII_def UDM_RECODE_HTML_SPECIAL_def UDM_RECODE_HTML_NONASCII_HEX_def

type_synonym mb_wc = "nat \<Rightarrow> byte list \<Rightarrow> int \<times> int option"
type_synonym wc_mb = "nat \<Rightarrow> int \<Rightarrow> nat \<Rightarrow> int \<times> byte list"

text \<open>The call of \<open>UdmSGMLScan\<close>; that it reads behind the string does not occur
  (\<open>UdmSGMLScan_range\<close>).\<close>

definition scan_special :: "byte list \<Rightarrow> int \<times> int option" where
  "scan_special s =
     (case UdmSGMLScan s of Some (wc, n) \<Rightarrow> (int n, Some wc) | None \<Rightarrow> (UDM_CHARSET_ILSEQ, None))"

definition IS_SPECIAL :: "byte \<Rightarrow> bool" where
  "IS_SPECIAL x \<longleftrightarrow> x = 0x22 \<or> x = 0x26 \<or> x = 0x3C \<or> x = 0x3E"

definition IS_SPECIAL_QUICK :: "byte \<Rightarrow> bool" where
  "IS_SPECIAL_QUICK x \<longleftrightarrow> x AND 0xE1 = 0x20 \<and> IS_SPECIAL x"

subsection \<open>8-bit sets\<close>

definition udm_mb_wc_ascii :: mb_wc where
  "udm_mb_wc_ascii flags s =
     (if hd s = 0x26 \<and> flags AND UDM_RECODE_HTML_SPECIAL \<noteq> 0 then scan_special s
      else if unat (hd s) > 0x7F then (UDM_CHARSET_ILSEQ, None)
      else (1, Some (uint (hd s))))"

definition udm_wc_mb_ascii :: wc_mb where
  "udm_wc_mb_ascii flags wc room =
     (if wc > 0x7F then (UDM_CHARSET_ILUNI, [])
      else
        let s = word_of_int wc in
        if flags AND UDM_RECODE_HTML_SPECIAL \<noteq> 0 \<and> IS_SPECIAL_QUICK s then (UDM_CHARSET_ILUNI, [s])
        else (1, [s]))"

definition udm_mb_wc_latin1 :: mb_wc where
  "udm_mb_wc_latin1 flags s =
     (if hd s = 0x26 \<and> flags AND UDM_RECODE_HTML_SPECIAL \<noteq> 0 then scan_special s
      else (1, Some (uint (hd s))))"

definition udm_wc_mb_latin1 :: wc_mb where
  "udm_wc_mb_latin1 flags wc room =
     (if wc > 0xFF then (UDM_CHARSET_ILUNI, [])
      else
        let s = word_of_int wc in
        if flags AND UDM_RECODE_HTML_SPECIAL \<noteq> 0 \<and> IS_SPECIAL_QUICK s then (UDM_CHARSET_ILUNI, [s])
        else (1, [s]))"

text \<open>The tables of a set.\<close>

record udm_uni_idx =
  idx_from :: int
  idx_to :: int
  idx_tab :: "byte list"

definition udm_mb_wc_8bit :: "int list \<Rightarrow> mb_wc" where
  "udm_mb_wc_8bit tab_to_uni flags s =
     (if hd s = 0x26 \<and> flags AND UDM_RECODE_HTML_SPECIAL \<noteq> 0 then scan_special s
      else
        let wc = tab_to_uni ! unat (hd s)
        in (if wc = 0 \<and> hd s \<noteq> 0 then UDM_CHARSET_ILSEQ else 1, Some wc))"

fun udm_wc_mb_8bit :: "udm_uni_idx list \<Rightarrow> wc_mb" where
  "udm_wc_mb_8bit [] flags wc room = (UDM_CHARSET_ILUNI, [])"
| "udm_wc_mb_8bit (idx # rest) flags wc room =
     (if idx_from idx \<le> wc \<and> idx_to idx \<ge> wc then
        let s = idx_tab idx ! nat (wc - idx_from idx) in
        if flags AND UDM_RECODE_HTML_SPECIAL \<noteq> 0 \<and> IS_SPECIAL_QUICK s then (UDM_CHARSET_ILUNI, [s])
        else (if s = 0 \<and> wc \<noteq> 0 then UDM_CHARSET_ILUNI else 1, [s])
      else udm_wc_mb_8bit rest flags wc room)"

subsection \<open>UTF-8\<close>

abbreviation tail_bits :: "byte \<Rightarrow> nat" where
  "tail_bits b \<equiv> unat b XOR 0x80"

definition udm_mb_wc_utf8 :: mb_wc where
  "udm_mb_wc_utf8 flags s =
     (let c = unat (hd s); n = length s; t = (\<lambda>i. tail_bits (s ! i)); b = (\<lambda>i. unat (s ! i)) in
      if c < 0x80 then
        (if hd s = 0x26 \<and> flags AND UDM_RECODE_HTML_SPECIAL \<noteq> 0 then scan_special s else (1, Some (int c)))
      else if c < 0xc2 then (UDM_CHARSET_ILSEQ, None)
      else if c < 0xe0 then
        if n < 2 then (UDM_CHARSET_TOOFEW 0, None)
        else if \<not> t 1 < 0x40 then (UDM_CHARSET_ILSEQ2, None)
        else (2, Some (int (push_bit 6 (c AND 0x1f) OR t 1)))
      else if c < 0xf0 then
        if n < 3 then (UDM_CHARSET_TOOFEW 0, None)
        else if \<not> (t 1 < 0x40 \<and> t 2 < 0x40 \<and> (c \<ge> 0xe1 \<or> b 1 \<ge> 0xa0)) then (UDM_CHARSET_ILSEQ3, None)
        else (3, Some (int ((push_bit 12 (c AND 0x0f) OR push_bit 6 (t 1)) OR t 2)))
      else if c < 0xf8 then
        if n < 4 then (UDM_CHARSET_TOOFEW 0, None)
        else if \<not> (t 1 < 0x40 \<and> t 2 < 0x40 \<and> t 3 < 0x40 \<and> (c \<ge> 0xf1 \<or> b 1 \<ge> 0x90)) then (UDM_CHARSET_ILSEQ4, None)
        else (4, Some (int (((push_bit 18 (c AND 0x07) OR push_bit 12 (t 1)) OR push_bit 6 (t 2)) OR t 3)))
      else if c < 0xfc then
        if n < 5 then (UDM_CHARSET_TOOFEW 0, None)
        else if \<not> (t 1 < 0x40 \<and> t 2 < 0x40 \<and> t 3 < 0x40 \<and> t 4 < 0x40 \<and> (c \<ge> 0xf9 \<or> b 1 \<ge> 0x88)) then (UDM_CHARSET_ILSEQ5, None)
        else (5, Some (int ((((push_bit 24 (c AND 0x03) OR push_bit 18 (t 1)) OR push_bit 12 (t 2)) OR push_bit 6 (t 3)) OR t 4)))
      else if c < 0xfe then
        if n < 6 then (UDM_CHARSET_TOOFEW 0, None)
        else if \<not> (t 1 < 0x40 \<and> t 2 < 0x40 \<and> t 3 < 0x40 \<and> t 4 < 0x40 \<and> t 5 < 0x40 \<and> (c \<ge> 0xfd \<or> b 1 \<ge> 0x84)) then (UDM_CHARSET_ILSEQ6, None)
        else (6, Some (int (((((push_bit 30 (c AND 0x01) OR push_bit 24 (t 1)) OR push_bit 18 (t 2)) OR push_bit 12 (t 3)) OR push_bit 6 (t 4)) OR t 5)))
      else (UDM_CHARSET_ILSEQ, None))"

text \<open>The cases of the switch that is passed through: the marks that are set while the bytes
  are written from the last one on.\<close>

fun utf8_bytes :: "nat list \<Rightarrow> nat \<Rightarrow> byte list \<Rightarrow> byte list" where
  "utf8_bytes [] wc acc = of_nat wc # acc"
| "utf8_bytes (m # ms) wc acc =
     utf8_bytes ms (drop_bit 6 wc OR m) (of_nat (0x80 OR (wc AND 0x3f)) # acc)"

definition utf8_marks :: "nat \<Rightarrow> nat list" where
  "utf8_marks cnt = drop (6 - cnt) [0x4000000, 0x200000, 0x10000, 0x800, 0xC0]"

definition udm_wc_mb_utf8 :: wc_mb where
  "udm_wc_mb_utf8 flags wc room =
     (if wc < 0x80 then
        let r0 = word_of_int wc in
        if flags AND UDM_RECODE_HTML_SPECIAL \<noteq> 0 \<and> (r0 = 0x22 \<or> r0 = 0x26 \<or> r0 = 0x3C \<or> r0 = 0x3E)
        then (UDM_CHARSET_ILUNI, [r0]) else (1, [r0])
      else if wc > 0x7fffffff then (UDM_CHARSET_ILUNI, [])
      else
        let cnt = (if wc < 0x800 then 2 else if wc < 0x10000 then 3 else if wc < 0x200000 then 4
                   else if wc < 0x4000000 then 5 else 6)
        in if room < cnt then (UDM_CHARSET_TOOSMALL, [])
           else (int cnt, utf8_bytes (utf8_marks cnt) (nat wc) []))"

subsection \<open>UdmConv\<close>

text \<open>Reading the next character: the text behind it and the character, or the end of the
  conversion.\<close>

definition conv_read :: "mb_wc \<Rightarrow> wc_mb \<Rightarrow> nat \<Rightarrow> byte list \<Rightarrow> nat \<Rightarrow> int \<Rightarrow> (byte list \<times> int) option" where
  "conv_read from_mb_wc to_wc_mb flags s room wc =
     (let (res, pwc) = from_mb_wc flags s; wc = (case pwc of Some w \<Rightarrow> w | None \<Rightarrow> wc) in
      if res > 0 then Some (drop (nat res) s, wc)
      else if res = UDM_CHARSET_ILSEQ \<or> res = UDM_CHARSET_ILSEQ2 \<or> res = UDM_CHARSET_ILSEQ3 \<or>
              res = UDM_CHARSET_ILSEQ4 \<or> res = UDM_CHARSET_ILSEQ5 \<or> res = UDM_CHARSET_ILSEQ6 then
        let s = drop (if res = UDM_CHARSET_ILSEQ then 1 else nat (- res)) s; wc = 0x3F
        in if fst (to_wc_mb flags wc room) \<le> 0 then None else Some (s, wc)
      else if res \<noteq> UDM_CHARSET_CACHEDUNI then None
      else Some (s, wc))"

fun hex_str :: "nat \<Rightarrow> byte list" where
  "hex_str n =
     (let d = of_nat (if n mod 16 < 10 then 48 + n mod 16 else 55 + n mod 16)
      in if n < 16 then [d] else hex_str (n div 16) @ [d])"

declare hex_str.simps [simp del]

definition char_ref :: "nat \<Rightarrow> int \<Rightarrow> byte list" where
  "char_ref flags wc =
     (if flags AND UDM_RECODE_HTML_NONASCII_HEX \<noteq> 0
      then bstr ''&#x'' @ hex_str (nat (wc mod 2 ^ 32)) @ bstr '';''
      else bstr ''&#'' @ int_str wc @ bstr '';'')"

text \<open>Writing the character: what is written and counted with the value that \<open>wc[0]\<close> is left with,
  the end of the conversion, or a write behind the buffer (\<open>sprintf\<close> closes the string).\<close>

datatype conv_put = Put "byte list" int | Stop | Behind_buffer

definition conv_write :: "wc_mb \<Rightarrow> nat \<Rightarrow> int \<Rightarrow> nat \<Rightarrow> conv_put" where
  "conv_write to_wc_mb flags wc room =
     (let (res, bs) = to_wc_mb flags wc room in
      if res > 0 then Put bs wc
      else if res = UDM_CHARSET_ILUNI then
        if flags AND (UDM_RECODE_HTML_NONASCII OR UDM_RECODE_HTML_NONASCII_HEX) \<noteq> 0 then
          if room > 8 then
            (if length (char_ref flags wc) < room then Put (char_ref flags wc) wc else Behind_buffer)
          else Stop
        else if fst (to_wc_mb flags 0x3F room) \<le> 0 then Stop
        else Put [] 0x3F
      else Stop)"

text \<open>The loop.  It ends with the bytes that were counted or with a fault: the write behind the
  buffer, or the assertion at the end of its body, which \<open>UDM_ASSERT\<close> tests in debug builds
  (\<open>asserts\<close>) and not in others.  \<open>None\<close> is a loop without end.\<close>

datatype conv_fault = Overrun | Assertion

partial_function (option) conv_loop ::
    "bool \<Rightarrow> mb_wc \<Rightarrow> wc_mb \<Rightarrow> nat \<Rightarrow> byte list \<Rightarrow> nat \<Rightarrow> int \<Rightarrow> byte list \<Rightarrow> (conv_fault + byte list) option" where
  "conv_loop asserts from_mb_wc to_wc_mb flags s room wc out =
     (if s \<noteq> [] \<and> room > 0 then
        (case conv_read from_mb_wc to_wc_mb flags s room wc of
           None \<Rightarrow> Some (Inr out)
         | Some (s, wc) \<Rightarrow>
             (case conv_write to_wc_mb flags wc room of
                Put bs wc \<Rightarrow>
                  if asserts \<and> \<not> (wc \<noteq> 0 \<or> s = []) then Some (Inl Assertion)
                  else conv_loop asserts from_mb_wc to_wc_mb flags s (room - length bs) wc (out @ bs)
              | Stop \<Rightarrow> Some (Inr out)
              | Behind_buffer \<Rightarrow> Some (Inl Overrun)))
      else Some (Inr out))"

definition UdmConv :: "bool \<Rightarrow> mb_wc \<Rightarrow> wc_mb \<Rightarrow> nat \<Rightarrow> nat \<Rightarrow> byte list \<Rightarrow> (conv_fault + byte list) option" where
  "UdmConv asserts from_mb_wc to_wc_mb flags dlen s = conv_loop asserts from_mb_wc to_wc_mb flags s dlen 0 []"

definition UdmConvSizeNeeded :: "nat \<Rightarrow> nat" where
  "UdmConvSizeNeeded srclen = srclen * 14"

subsection \<open>Bits as sums\<close>

lemma or_low_nat:
  fixes x r :: nat
  assumes "2 ^ n dvd x" "r < 2 ^ n"
  shows "x OR r = x + r"
proof -
  from assms(1) obtain k where "x = push_bit n k" by (auto simp: dvd_def push_bit_eq_mult mult.commute)
  with push_bit_or_nat [OF assms(2), of k] show ?thesis by (simp add: push_bit_eq_mult)
qed

lemma or_mark:
  fixes x :: nat
  shows "x < 0x4000000 \<Longrightarrow> x OR 0x4000000 = 0x4000000 + x" "x < 0x200000 \<Longrightarrow> x OR 0x200000 = 0x200000 + x"
    "x < 0x10000 \<Longrightarrow> x OR 0x10000 = 0x10000 + x" "x < 0x800 \<Longrightarrow> x OR 0x800 = 0x800 + x"
    "x < 64 \<Longrightarrow> x OR 0xC0 = 0xC0 + x"
  using or_low_nat [of 26 "0x4000000" x] or_low_nat [of 21 "0x200000" x] or_low_nat [of 16 "0x10000" x]
    or_low_nat [of 11 "0x800" x] or_low_nat [of 6 "0xC0" x]
  by (simp_all add: or.commute)

lemma utf8_step:
  assumes "r < 64"
  shows "utf8_bytes (m # ms) (64 * q + r) acc = utf8_bytes ms (q OR m) (of_nat (128 + r) # acc)"
proof -
  have "drop_bit 6 (64 * q + r) = q" using assms by (simp add: drop_bit_eq_div)
  moreover have "0x80 OR ((64 * q + r) AND 0x3f) = 128 + r" using assms or_nat_num(4) [of r] by (simp add: and_mask_nat)
  ultimately show ?thesis by (simp only: utf8_bytes.simps)
qed

lemma unat_byte: "n < 256 \<Longrightarrow> unat (of_nat n :: byte) = n"
  by (simp add: unsigned_of_nat take_bit_eq_mod)

lemma tail_bits_byte: "r < 64 \<Longrightarrow> tail_bits (of_nat (128 + r)) = r"
  using xor_128 [of "128 + r"] by (simp add: unat_byte del: of_nat_add)

lemma tail_byte:
  assumes "tail_bits b < 64"
  shows "b = of_nat (128 + tail_bits b)"
proof -
  have "unat b < 256" using unsigned_less [of b] by simp
  with assms xor_128 [of "unat b"] have "128 \<le> unat b" "tail_bits b = unat b - 128" by (auto split: if_splits)
  then show ?thesis by simp
qed

text \<open>The joined tails of a sequence.\<close>

lemma join_tails:
  fixes q r1 r2 r3 r4 r5 :: nat
  assumes "r1 < 64" "r2 < 64" "r3 < 64" "r4 < 64" "r5 < 64"
  shows "push_bit 6 q OR r1 = 64 * q + r1"
    "(push_bit 12 q OR push_bit 6 r1) OR r2 = 64 * (64 * q + r1) + r2"
    "((push_bit 18 q OR push_bit 12 r1) OR push_bit 6 r2) OR r3 = 64 * (64 * (64 * q + r1) + r2) + r3"
    "(((push_bit 24 q OR push_bit 18 r1) OR push_bit 12 r2) OR push_bit 6 r3) OR r4 =
       64 * (64 * (64 * (64 * q + r1) + r2) + r3) + r4"
    "((((push_bit 30 q OR push_bit 24 r1) OR push_bit 18 r2) OR push_bit 12 r3) OR push_bit 6 r4) OR r5 =
       64 * (64 * (64 * (64 * (64 * q + r1) + r2) + r3) + r4) + r5"
proof -
  have j: "push_bit (n + 6) x OR push_bit n r = push_bit n (64 * x + r)" if "r < 64" for n x r :: nat
  proof -
    have "push_bit (n + 6) x OR push_bit n r = push_bit n (push_bit 6 x OR r)"
      by (simp add: push_bit_or add.commute)
    also have "push_bit 6 x OR r = 64 * x + r" using push_bit_or_nat [of r 6 x] that by (simp add: mult.commute)
    finally show ?thesis .
  qed
  show one: "push_bit 6 q OR r1 = 64 * q + r1" using j [OF assms(1), of 0 q] by simp
  show "(push_bit 12 q OR push_bit 6 r1) OR r2 = 64 * (64 * q + r1) + r2"
    using j [OF assms(1), of 6 q] j [OF assms(2), of 0 "64 * q + r1"] by simp
  show "((push_bit 18 q OR push_bit 12 r1) OR push_bit 6 r2) OR r3 = 64 * (64 * (64 * q + r1) + r2) + r3"
    using j [OF assms(1), of 12 q] j [OF assms(2), of 6 "64 * q + r1"] j [OF assms(3), of 0 "64 * (64 * q + r1) + r2"] by simp
  show "(((push_bit 24 q OR push_bit 18 r1) OR push_bit 12 r2) OR push_bit 6 r3) OR r4 =
       64 * (64 * (64 * (64 * q + r1) + r2) + r3) + r4"
    using j [OF assms(1), of 18 q] j [OF assms(2), of 12 "64 * q + r1"] j [OF assms(3), of 6 "64 * (64 * q + r1) + r2"]
      j [OF assms(4), of 0 "64 * (64 * (64 * q + r1) + r2) + r3"] by simp
  show "((((push_bit 30 q OR push_bit 24 r1) OR push_bit 18 r2) OR push_bit 12 r3) OR push_bit 6 r4) OR r5 =
       64 * (64 * (64 * (64 * (64 * q + r1) + r2) + r3) + r4) + r5"
    using j [OF assms(1), of 24 q] j [OF assms(2), of 18 "64 * q + r1"] j [OF assms(3), of 12 "64 * (64 * q + r1) + r2"]
      j [OF assms(4), of 6 "64 * (64 * (64 * q + r1) + r2) + r3"]
      j [OF assms(5), of 0 "64 * (64 * (64 * (64 * q + r1) + r2) + r3) + r4"] by simp
qed

lemma lead_bits:
  fixes q :: nat
  shows "q < 32 \<Longrightarrow> (192 + q) AND 0x1f = q" "q < 16 \<Longrightarrow> (224 + q) AND 0x0f = q" "q < 8 \<Longrightarrow> (240 + q) AND 0x07 = q"
    "q < 4 \<Longrightarrow> (248 + q) AND 0x03 = q" "q < 2 \<Longrightarrow> (252 + q) AND 0x01 = q"
  by (simp_all add: and_mask_nat mod_add_eq [symmetric] del: One_nat_def)

abbreviation tail :: "nat \<Rightarrow> byte" where
  "tail r \<equiv> of_nat (128 + r)"

subsection \<open>The sequences of UTF-8\<close>

lemma utf8_marks_simps:
  "utf8_marks 2 = [0xC0]" "utf8_marks 3 = [0x800, 0xC0]" "utf8_marks 4 = [0x10000, 0x800, 0xC0]"
  "utf8_marks 5 = [0x200000, 0x10000, 0x800, 0xC0]" "utf8_marks 6 = [0x4000000, 0x200000, 0x10000, 0x800, 0xC0]"
  by (simp_all add: utf8_marks_def)

lemma utf8_last: "q < 64 \<Longrightarrow> r < 64 \<Longrightarrow> utf8_bytes [0xC0] (64 * q + r) acc = of_nat (0xC0 + q) # tail r # acc"
  by (subst utf8_step) (simp_all only: or_mark(5) utf8_bytes.simps)

lemma utf8_bytes2: "q < 32 \<Longrightarrow> r1 < 64 \<Longrightarrow> utf8_bytes (utf8_marks 2) (64 * q + r1) [] = [of_nat (192 + q), tail r1]"
  unfolding utf8_marks_simps by (subst utf8_last) simp_all

lemma utf8_800:
  assumes "q < 32" "r < 64" "t < 64"
  shows "utf8_bytes [0x800, 0xC0] (64 * (64 * q + r) + t) acc = of_nat (0xC0 + (32 + q)) # tail r # tail t # acc"
proof -
  have "(64 * q + r) OR 0x800 = 64 * (32 + q) + r" using assms by (subst or_mark(4)) simp_all
  then show ?thesis using assms utf8_step [of t "0x800" "[0xC0]" "64 * q + r"] utf8_last [of "32 + q" r] by simp
qed

lemma utf8_bytes3:
  assumes "q < 16" "r1 < 64" "r2 < 64"
  shows "utf8_bytes (utf8_marks 3) (64 * (64 * q + r1) + r2) [] = [of_nat (224 + q), tail r1, tail r2]"
proof -
  have "(0xC0 :: nat) + (32 + q) = 224 + q" by simp
  then show ?thesis unfolding utf8_marks_simps using utf8_800 [of q r1 r2 "[]"] assms by simp
qed

lemma utf8_10000:
  assumes "q < 16" "r < 64" "s < 64" "t < 64"
  shows "utf8_bytes [0x10000, 0x800, 0xC0] (64 * (64 * (64 * q + r) + s) + t) acc =
    of_nat (0xC0 + (48 + q)) # tail r # tail s # tail t # acc"
proof -
  have "(64 * (64 * q + r) + s) OR 0x10000 = 64 * (64 * (16 + q) + r) + s" using assms by (subst or_mark(3)) simp_all
  moreover have "32 + (16 + q) = 48 + q" by simp
  ultimately show ?thesis
    using assms utf8_step [of t "0x10000" "[0x800, 0xC0]" "64 * (64 * q + r) + s"] utf8_800 [of "16 + q" r s] by simp
qed

lemma utf8_bytes4:
  assumes "q < 8" "r1 < 64" "r2 < 64" "r3 < 64"
  shows "utf8_bytes (utf8_marks 4) (64 * (64 * (64 * q + r1) + r2) + r3) [] = [of_nat (240 + q), tail r1, tail r2, tail r3]"
proof -
  have "(0xC0 :: nat) + (48 + q) = 240 + q" by simp
  then show ?thesis unfolding utf8_marks_simps using utf8_10000 [of q r1 r2 r3 "[]"] assms by simp
qed

lemma utf8_200000:
  assumes "q < 8" "r < 64" "s < 64" "t < 64" "u < 64"
  shows "utf8_bytes [0x200000, 0x10000, 0x800, 0xC0] (64 * (64 * (64 * (64 * q + r) + s) + t) + u) acc =
    of_nat (0xC0 + (56 + q)) # tail r # tail s # tail t # tail u # acc"
proof -
  have "(64 * (64 * (64 * q + r) + s) + t) OR 0x200000 = 64 * (64 * (64 * (8 + q) + r) + s) + t"
    using assms by (subst or_mark(2)) simp_all
  moreover have "48 + (8 + q) = 56 + q" by simp
  ultimately show ?thesis
    using assms utf8_step [of u "0x200000" "[0x10000, 0x800, 0xC0]" "64 * (64 * (64 * q + r) + s) + t"]
      utf8_10000 [of "8 + q" r s t] by simp
qed

lemma utf8_bytes5:
  assumes "q < 4" "r1 < 64" "r2 < 64" "r3 < 64" "r4 < 64"
  shows "utf8_bytes (utf8_marks 5) (64 * (64 * (64 * (64 * q + r1) + r2) + r3) + r4) [] =
    [of_nat (248 + q), tail r1, tail r2, tail r3, tail r4]"
proof -
  have "(0xC0 :: nat) + (56 + q) = 248 + q" by simp
  then show ?thesis unfolding utf8_marks_simps using utf8_200000 [of q r1 r2 r3 r4 "[]"] assms by simp
qed

lemma utf8_bytes6:
  assumes "q < 2" "r1 < 64" "r2 < 64" "r3 < 64" "r4 < 64" "r5 < 64"
  shows "utf8_bytes (utf8_marks 6) (64 * (64 * (64 * (64 * (64 * q + r1) + r2) + r3) + r4) + r5) [] =
    [of_nat (252 + q), tail r1, tail r2, tail r3, tail r4, tail r5]"
proof -
  have "(64 * (64 * (64 * (64 * q + r1) + r2) + r3) + r4) OR 0x4000000 = 64 * (64 * (64 * (64 * (4 + q) + r1) + r2) + r3) + r4"
    using assms by (subst or_mark(1)) simp_all
  moreover have "(0xC0 :: nat) + (56 + (4 + q)) = 252 + q" by simp
  ultimately show ?thesis
    unfolding utf8_marks_simps
    using assms utf8_step [of r5 "0x4000000" "[0x200000, 0x10000, 0x800, 0xC0]" "64 * (64 * (64 * (64 * q + r1) + r2) + r3) + r4"]
      utf8_200000 [of "4 + q" r1 r2 r3 r4] by simp
qed

lemma byte_facts:
  "q < 32 \<Longrightarrow> unat (of_nat (192 + q) :: byte) = 192 + q" "q < 16 \<Longrightarrow> unat (of_nat (224 + q) :: byte) = 224 + q"
  "q < 8 \<Longrightarrow> unat (of_nat (240 + q) :: byte) = 240 + q" "q < 4 \<Longrightarrow> unat (of_nat (248 + q) :: byte) = 248 + q"
  "q < 2 \<Longrightarrow> unat (of_nat (252 + q) :: byte) = 252 + q" "r < 64 \<Longrightarrow> unat (tail r) = 128 + r"
  by (rule unat_byte, simp)+

lemma xor_tail: "r < 64 \<Longrightarrow> (128 + r) XOR 128 = (r :: nat)"
  using xor_128 [of "128 + r"] by simp

lemmas utf8_dec = udm_mb_wc_utf8_def Let_def byte_facts xor_tail lead_bits join_tails

lemma utf8_dec2:
  assumes "2 \<le> q" "q < 32" "r1 < 64"
  shows "udm_mb_wc_utf8 fl (of_nat (192 + q) # tail r1 # rest) = (2, Some (int (64 * q + r1)))"
  using assms by (simp add: utf8_dec del: of_nat_add)

lemma utf8_dec3:
  assumes "q < 16" "r1 < 64" "r2 < 64" "1 \<le> q \<or> 32 \<le> r1"
  shows "udm_mb_wc_utf8 fl (of_nat (224 + q) # tail r1 # tail r2 # rest) = (3, Some (int (64 * (64 * q + r1) + r2)))"
proof -
  have "225 \<le> 224 + q \<or> 160 \<le> 128 + r1" using assms(4) by linarith
  with assms show ?thesis by (simp add: utf8_dec del: of_nat_add)
qed

lemma utf8_dec4:
  assumes "q < 8" "r1 < 64" "r2 < 64" "r3 < 64" "1 \<le> q \<or> 16 \<le> r1"
  shows "udm_mb_wc_utf8 fl (of_nat (240 + q) # tail r1 # tail r2 # tail r3 # rest) =
    (4, Some (int (64 * (64 * (64 * q + r1) + r2) + r3)))"
proof -
  have "241 \<le> 240 + q \<or> 144 \<le> 128 + r1" using assms(5) by linarith
  with assms show ?thesis by (simp add: utf8_dec del: of_nat_add)
qed

lemma utf8_dec5:
  assumes "q < 4" "r1 < 64" "r2 < 64" "r3 < 64" "r4 < 64" "1 \<le> q \<or> 8 \<le> r1"
  shows "udm_mb_wc_utf8 fl (of_nat (248 + q) # tail r1 # tail r2 # tail r3 # tail r4 # rest) =
    (5, Some (int (64 * (64 * (64 * (64 * q + r1) + r2) + r3) + r4)))"
proof -
  have "249 \<le> 248 + q \<or> 136 \<le> 128 + r1" using assms(6) by linarith
  with assms show ?thesis by (simp add: utf8_dec del: of_nat_add)
qed

lemma utf8_dec6:
  assumes "q < 2" "r1 < 64" "r2 < 64" "r3 < 64" "r4 < 64" "r5 < 64" "1 \<le> q \<or> 4 \<le> r1"
  shows "udm_mb_wc_utf8 fl (of_nat (252 + q) # tail r1 # tail r2 # tail r3 # tail r4 # tail r5 # rest) =
    (6, Some (int (64 * (64 * (64 * (64 * (64 * q + r1) + r2) + r3) + r4) + r5)))"
proof -
  have "253 \<le> 252 + q \<or> 132 \<le> 128 + r1" using assms(7) by linarith
  moreover have "(252 + q) mod 2 = q" using assms(1) by presburger
  ultimately show ?thesis using assms by (simp add: utf8_dec del: of_nat_add)
qed

text \<open>The sequences as a datatype of their own: the number of bytes, the leading bits and the
  tails; each is the one way to write its character.\<close>

fun utf8_seq :: "nat \<Rightarrow> nat list \<Rightarrow> byte list \<Rightarrow> bool" where
  "utf8_seq q [r1] bs \<longleftrightarrow> 2 \<le> q \<and> q < 32 \<and> r1 < 64 \<and> bs = [of_nat (192 + q), tail r1]"
| "utf8_seq q [r1, r2] bs \<longleftrightarrow> q < 16 \<and> r1 < 64 \<and> r2 < 64 \<and> (1 \<le> q \<or> 32 \<le> r1) \<and> bs = [of_nat (224 + q), tail r1, tail r2]"
| "utf8_seq q [r1, r2, r3] bs \<longleftrightarrow> q < 8 \<and> r1 < 64 \<and> r2 < 64 \<and> r3 < 64 \<and> (1 \<le> q \<or> 16 \<le> r1) \<and>
     bs = [of_nat (240 + q), tail r1, tail r2, tail r3]"
| "utf8_seq q [r1, r2, r3, r4] bs \<longleftrightarrow> q < 4 \<and> r1 < 64 \<and> r2 < 64 \<and> r3 < 64 \<and> r4 < 64 \<and> (1 \<le> q \<or> 8 \<le> r1) \<and>
     bs = [of_nat (248 + q), tail r1, tail r2, tail r3, tail r4]"
| "utf8_seq q [r1, r2, r3, r4, r5] bs \<longleftrightarrow> q < 2 \<and> r1 < 64 \<and> r2 < 64 \<and> r3 < 64 \<and> r4 < 64 \<and> r5 < 64 \<and> (1 \<le> q \<or> 4 \<le> r1) \<and>
     bs = [of_nat (252 + q), tail r1, tail r2, tail r3, tail r4, tail r5]"
| "utf8_seq q _ bs \<longleftrightarrow> False"

definition utf8_char :: "nat \<Rightarrow> nat list \<Rightarrow> nat" where
  "utf8_char q rs = foldl (\<lambda>x r. 64 * x + r) q rs"

lemma utf8_seq_dec:
  "utf8_seq q rs bs \<Longrightarrow> udm_mb_wc_utf8 fl (bs @ rest) = (int (Suc (length rs)), Some (int (utf8_char q rs)))"
  by (cases "(q, rs, bs)" rule: utf8_seq.cases)
    (simp_all add: utf8_dec2 utf8_dec3 utf8_dec4 utf8_dec5 utf8_dec6 utf8_char_def del: of_nat_add of_nat_mult)

lemma udm_wc_mb_utf8_int:
  assumes "128 \<le> n" "n < 2 ^ 31"
  shows "udm_wc_mb_utf8 fl (int n) room =
    (let cnt = (if n < 0x800 then 2 else if n < 0x10000 then 3 else if n < 0x200000 then 4 else if n < 0x4000000 then 5 else 6)
     in if room < cnt then (- 1, []) else (int cnt, utf8_bytes (utf8_marks cnt) n []))"
  using assms by (simp add: udm_wc_mb_utf8_def Let_def)

lemma utf8_enc2:
  assumes "2 \<le> q" "r1 < 64" "q < 32" "2 \<le> room"
  shows "udm_wc_mb_utf8 fl (int (64 * q + r1)) room = (2, [of_nat (192 + q), tail r1])"
proof -
  have b: "128 \<le> 64 * q + r1" "64 * q + r1 < 0x800" using assms by simp_all
  show ?thesis by (subst udm_wc_mb_utf8_int) (use b assms utf8_bytes2 [of q r1] in \<open>simp_all del: of_nat_add distrib_left_numeral\<close>)
qed

lemma utf8_enc3:
  assumes "1 \<le> q \<or> 32 \<le> r1" "r1 < 64" "r2 < 64" "q < 16" "3 \<le> room"
  shows "udm_wc_mb_utf8 fl (int (64 * (64 * q + r1) + r2)) room = (3, [of_nat (224 + q), tail r1, tail r2])"
proof -
  have "32 \<le> 64 * q + r1" using assms(1) by auto
  then have b: "0x800 \<le> 64 * (64 * q + r1) + r2" "64 * (64 * q + r1) + r2 < 0x10000" using assms(2-) by simp_all
  show ?thesis by (subst udm_wc_mb_utf8_int) (use b assms utf8_bytes3 [of q r1 r2] in \<open>simp_all del: of_nat_add distrib_left_numeral\<close>)
qed

lemma utf8_enc4:
  assumes "1 \<le> q \<or> 16 \<le> r1" "r1 < 64" "r2 < 64" "r3 < 64" "q < 8" "4 \<le> room"
  shows "udm_wc_mb_utf8 fl (int (64 * (64 * (64 * q + r1) + r2) + r3)) room = (4, [of_nat (240 + q), tail r1, tail r2, tail r3])"
proof -
  have "16 \<le> 64 * q + r1" using assms(1) by auto
  then have b: "0x10000 \<le> 64 * (64 * (64 * q + r1) + r2) + r3" "64 * (64 * (64 * q + r1) + r2) + r3 < 0x200000" using assms(2-) by simp_all
  show ?thesis by (subst udm_wc_mb_utf8_int) (use b assms utf8_bytes4 [of q r1 r2 r3] in \<open>simp_all del: of_nat_add distrib_left_numeral\<close>)
qed

lemma utf8_enc5:
  assumes "1 \<le> q \<or> 8 \<le> r1" "r1 < 64" "r2 < 64" "r3 < 64" "r4 < 64" "q < 4" "5 \<le> room"
  shows "udm_wc_mb_utf8 fl (int (64 * (64 * (64 * (64 * q + r1) + r2) + r3) + r4)) room = (5, [of_nat (248 + q), tail r1, tail r2, tail r3, tail r4])"
proof -
  have "8 \<le> 64 * q + r1" using assms(1) by auto
  then have b: "0x200000 \<le> 64 * (64 * (64 * (64 * q + r1) + r2) + r3) + r4" "64 * (64 * (64 * (64 * q + r1) + r2) + r3) + r4 < 0x4000000" using assms(2-) by simp_all
  show ?thesis by (subst udm_wc_mb_utf8_int) (use b assms utf8_bytes5 [of q r1 r2 r3 r4] in \<open>simp_all del: of_nat_add distrib_left_numeral\<close>)
qed

lemma utf8_enc6:
  assumes "1 \<le> q \<or> 4 \<le> r1" "r1 < 64" "r2 < 64" "r3 < 64" "r4 < 64" "r5 < 64" "q < 2" "6 \<le> room"
  shows "udm_wc_mb_utf8 fl (int (64 * (64 * (64 * (64 * (64 * q + r1) + r2) + r3) + r4) + r5)) room = (6, [of_nat (252 + q), tail r1, tail r2, tail r3, tail r4, tail r5])"
proof -
  have "4 \<le> 64 * q + r1" using assms(1) by auto
  then have b: "0x4000000 \<le> 64 * (64 * (64 * (64 * (64 * q + r1) + r2) + r3) + r4) + r5" "64 * (64 * (64 * (64 * (64 * q + r1) + r2) + r3) + r4) + r5 < 0x80000000" using assms(2-) by simp_all
  show ?thesis by (subst udm_wc_mb_utf8_int) (use b assms utf8_bytes6 [of q r1 r2 r3 r4 r5] in \<open>simp_all del: of_nat_add distrib_left_numeral\<close>)
qed

lemma utf8_seq_enc:
  assumes "utf8_seq q rs bs" "Suc (length rs) \<le> room"
  shows "udm_wc_mb_utf8 fl (int (utf8_char q rs)) room = (int (Suc (length rs)), bs)"
  using assms
  by (cases "(q, rs, bs)" rule: utf8_seq.cases)
    (simp_all add: utf8_char_def utf8_enc2 utf8_enc3 utf8_enc4 utf8_enc5 utf8_enc6
      del: of_nat_add of_nat_mult distrib_left_numeral)

lemma utf8_seq_exists:
  assumes "128 \<le> n" "n < 2 ^ 31"
  obtains q rs bs where "utf8_seq q rs bs" "utf8_char q rs = n"
proof -
  define q1 where "q1 = n div 64"
  define q2 where "q2 = q1 div 64"
  define q3 where "q3 = q2 div 64"
  define q4 where "q4 = q3 div 64"
  define q5 where "q5 = q4 div 64"
  have split: "n = 64 * q1 + n mod 64" "q1 = 64 * q2 + q1 mod 64" "q2 = 64 * q3 + q2 mod 64"
    "q3 = 64 * q4 + q3 mod 64" "q4 = 64 * q5 + q4 mod 64"
    by (simp_all add: q1_def q2_def q3_def q4_def q5_def)
  note char = utf8_char_def foldl_Cons foldl_Nil
  consider "n < 0x800" | "0x800 \<le> n" "n < 0x10000" | "0x10000 \<le> n" "n < 0x200000"
    | "0x200000 \<le> n" "n < 0x4000000" | "0x4000000 \<le> n" by linarith
  then show ?thesis
  proof cases
    case 1
    have "utf8_seq q1 [n mod 64] [of_nat (192 + q1), tail (n mod 64)]"
      using 1 assms split by simp
    moreover have "utf8_char q1 [n mod 64] = n"
      unfolding char by (simp only: split(1) [symmetric])
    ultimately show ?thesis by (rule that)
  next
    case 2
    then have "1 \<le> q2 \<or> 32 \<le> q1 mod 64" using split by linarith
    then have "utf8_seq q2 [q1 mod 64, n mod 64] [of_nat (224 + q2), tail (q1 mod 64), tail (n mod 64)]"
      using 2 split by simp
    moreover have "utf8_char q2 [q1 mod 64, n mod 64] = n"
      unfolding char by (simp only: split(2, 1) [symmetric])
    ultimately show ?thesis by (rule that)
  next
    case 3
    then have "1 \<le> q3 \<or> 16 \<le> q2 mod 64" using split by linarith
    then have "utf8_seq q3 [q2 mod 64, q1 mod 64, n mod 64] [of_nat (240 + q3), tail (q2 mod 64), tail (q1 mod 64), tail (n mod 64)]"
      using 3 split by simp
    moreover have "utf8_char q3 [q2 mod 64, q1 mod 64, n mod 64] = n"
      unfolding char by (simp only: split(3, 2, 1) [symmetric])
    ultimately show ?thesis by (rule that)
  next
    case 4
    then have "1 \<le> q4 \<or> 8 \<le> q3 mod 64" using split by linarith
    then have "utf8_seq q4 [q3 mod 64, q2 mod 64, q1 mod 64, n mod 64] [of_nat (248 + q4), tail (q3 mod 64), tail (q2 mod 64), tail (q1 mod 64), tail (n mod 64)]"
      using 4 split by simp
    moreover have "utf8_char q4 [q3 mod 64, q2 mod 64, q1 mod 64, n mod 64] = n"
      unfolding char by (simp only: split(4, 3, 2, 1) [symmetric])
    ultimately show ?thesis by (rule that)
  next
    case 5
    then have "1 \<le> q5 \<or> 4 \<le> q4 mod 64" using split by linarith
    then have "utf8_seq q5 [q4 mod 64, q3 mod 64, q2 mod 64, q1 mod 64, n mod 64] [of_nat (252 + q5), tail (q4 mod 64), tail (q3 mod 64), tail (q2 mod 64), tail (q1 mod 64), tail (n mod 64)]"
      using 5 assms split by simp
    moreover have "utf8_char q5 [q4 mod 64, q3 mod 64, q2 mod 64, q1 mod 64, n mod 64] = n"
      unfolding char by (simp only: split(5, 4, 3, 2, 1) [symmetric])
    ultimately show ?thesis by (rule that)
  qed
qed

text \<open>The reader accepts these sequences only.\<close>

lemma unat_tail_byte: "tail_bits b < 64 \<Longrightarrow> unat b = 128 + tail_bits b"
  using tail_byte [of b] byte_facts(6) [of "tail_bits b"] by metis

lemma lead_byte: "n \<le> unat (b :: byte) \<Longrightarrow> b = of_nat (n + (unat b - n))"
  by simp

lemma utf8_mb_seq:
  assumes "udm_mb_wc_utf8 fl s = (m, Some wc)" "0 < m" "s \<noteq> []" "128 \<le> unat (hd s)"
  obtains q rs bs rest where "s = bs @ rest" "utf8_seq q rs bs"
proof -
  define c where "c = unat (hd s)"
  obtain q where q: "c = 128 + q" using assms(4) by (metis c_def le_Suc_ex)
  note rd = assms(1) [unfolded udm_mb_wc_utf8_def Let_def, folded c_def]
  have hd: "hd s = of_nat c" by (simp add: c_def)
  from assms(4) have c: "\<not> c < 0x80" by (simp add: c_def)
  have "0xc2 \<le> c" "c < 0xfe" using rd assms(2) c by (auto split: if_splits)
  then consider "c < 0xe0" | "0xe0 \<le> c" "c < 0xf0" | "0xf0 \<le> c" "c < 0xf8" | "0xf8 \<le> c" "c < 0xfc" | "0xfc \<le> c" by linarith
  then show ?thesis
  proof cases
    case 1
    have n: "2 \<le> length s" "tail_bits (s ! 1) < 64"
      using rd assms(2) c 1 \<open>0xc2 \<le> c\<close> by (auto split: if_splits)
    then obtain s0 s1 rest where s: "s = s0 # s1 # rest"
      by (auto simp: numeral_eq_Suc Suc_le_length_iff)
    have c0: "192 \<le> unat s0" "unat s0 < 0xe0" using 1 \<open>0xc2 \<le> c\<close> s by (simp_all add: c_def)
    have t: "tail_bits s1 < 64" using n s by simp_all
    have "utf8_seq (unat s0 - 192) [tail_bits s1] [s0, s1]"
      using n s c0 t c_def \<open>0xc2 \<le> c\<close> lead_byte [OF c0(1)] unat_tail_byte [OF t(1)] tail_byte [OF t(1)]
      by (auto simp: c_def)
    with that [of "[s0, s1]" rest] s show ?thesis by (simp only: append.simps)
  next
    case 2
    have n: "3 \<le> length s" "tail_bits (s ! 1) < 64" "tail_bits (s ! 2) < 64" "c \<ge> 0xe1 \<or> unat (s ! 1) \<ge> 0xa0"
      using rd assms(2) c 2 by (auto split: if_splits)
    then obtain s0 s1 s2 rest where s: "s = s0 # s1 # s2 # rest"
      by (auto simp: numeral_eq_Suc Suc_le_length_iff)
    have c0: "224 \<le> unat s0" "unat s0 < 0xf0" using 2 s by (simp_all add: c_def)
    have t: "tail_bits s1 < 64" "tail_bits s2 < 64" using n s by simp_all
    have "utf8_seq (unat s0 - 224) [tail_bits s1, tail_bits s2] [s0, s1, s2]"
      using n s c0 t lead_byte [OF c0(1)] unat_tail_byte [OF t(1)] tail_byte [OF t(1)] tail_byte [OF t(2)]
      by (auto simp: c_def)
    with that [of "[s0, s1, s2]" rest] s show ?thesis by (simp only: append.simps)
  next
    case 3
    have n: "4 \<le> length s" "tail_bits (s ! 1) < 64" "tail_bits (s ! 2) < 64" "tail_bits (s ! 3) < 64" "c \<ge> 0xf1 \<or> unat (s ! 1) \<ge> 0x90"
      using rd assms(2) c 3 by (auto split: if_splits)
    then obtain s0 s1 s2 s3 rest where s: "s = s0 # s1 # s2 # s3 # rest"
      by (auto simp: numeral_eq_Suc Suc_le_length_iff)
    have c0: "240 \<le> unat s0" "unat s0 < 0xf8" using 3 s by (simp_all add: c_def)
    have t: "tail_bits s1 < 64" "tail_bits s2 < 64" "tail_bits s3 < 64" using n s by simp_all
    have "utf8_seq (unat s0 - 240) [tail_bits s1, tail_bits s2, tail_bits s3] [s0, s1, s2, s3]"
      using n s c0 t lead_byte [OF c0(1)] unat_tail_byte [OF t(1)] tail_byte [OF t(1)] tail_byte [OF t(2)] tail_byte [OF t(3)]
      by (auto simp: c_def)
    with that [of "[s0, s1, s2, s3]" rest] s show ?thesis by (simp only: append.simps)
  next
    case 4
    have n: "5 \<le> length s" "tail_bits (s ! 1) < 64" "tail_bits (s ! 2) < 64" "tail_bits (s ! 3) < 64" "tail_bits (s ! 4) < 64" "c \<ge> 0xf9 \<or> unat (s ! 1) \<ge> 0x88"
      using rd assms(2) c 4 by (auto split: if_splits)
    then obtain s0 s1 s2 s3 s4 rest where s: "s = s0 # s1 # s2 # s3 # s4 # rest"
      by (auto simp: numeral_eq_Suc Suc_le_length_iff)
    have c0: "248 \<le> unat s0" "unat s0 < 0xfc" using 4 s by (simp_all add: c_def)
    have t: "tail_bits s1 < 64" "tail_bits s2 < 64" "tail_bits s3 < 64" "tail_bits s4 < 64" using n s by simp_all
    have "utf8_seq (unat s0 - 248) [tail_bits s1, tail_bits s2, tail_bits s3, tail_bits s4] [s0, s1, s2, s3, s4]"
      using n s c0 t lead_byte [OF c0(1)] unat_tail_byte [OF t(1)] tail_byte [OF t(1)] tail_byte [OF t(2)] tail_byte [OF t(3)] tail_byte [OF t(4)]
      by (auto simp: c_def)
    with that [of "[s0, s1, s2, s3, s4]" rest] s show ?thesis by (simp only: append.simps)
  next
    case 5
    have n: "6 \<le> length s" "tail_bits (s ! 1) < 64" "tail_bits (s ! 2) < 64" "tail_bits (s ! 3) < 64" "tail_bits (s ! 4) < 64" "tail_bits (s ! 5) < 64" "c \<ge> 0xfd \<or> unat (s ! 1) \<ge> 0x84"
      using rd assms(2) c 5 \<open>c < 0xfe\<close> by (auto split: if_splits)
    then obtain s0 s1 s2 s3 s4 s5 rest where s: "s = s0 # s1 # s2 # s3 # s4 # s5 # rest"
      by (auto simp: numeral_eq_Suc Suc_le_length_iff)
    have c0: "252 \<le> unat s0" "unat s0 < 0xfe" using 5 \<open>c < 0xfe\<close> s by (simp_all add: c_def)
    have t: "tail_bits s1 < 64" "tail_bits s2 < 64" "tail_bits s3 < 64" "tail_bits s4 < 64" "tail_bits s5 < 64" using n s by simp_all
    have "utf8_seq (unat s0 - 252) [tail_bits s1, tail_bits s2, tail_bits s3, tail_bits s4, tail_bits s5] [s0, s1, s2, s3, s4, s5]"
      using n s c0 t \<open>c < 0xfe\<close> lead_byte [OF c0(1)] unat_tail_byte [OF t(1)] tail_byte [OF t(1)] tail_byte [OF t(2)] tail_byte [OF t(3)] tail_byte [OF t(4)] tail_byte [OF t(5)]
      by (auto simp: c_def)
    with that [of "[s0, s1, s2, s3, s4, s5]" rest] s show ?thesis by (simp only: append.simps)
  qed
qed

lemma udm_mb_wc_utf8_ascii:
  "unat b < 128 \<Longrightarrow> fl AND UDM_RECODE_HTML_SPECIAL = 0 \<Longrightarrow> udm_mb_wc_utf8 fl (b # rest) = (1, Some (uint b))"
  by (simp add: udm_mb_wc_utf8_def)

lemma udm_wc_mb_utf8_ascii:
  "0 \<le> wc \<Longrightarrow> wc < 128 \<Longrightarrow> fl AND UDM_RECODE_HTML_SPECIAL = 0 \<Longrightarrow> udm_wc_mb_utf8 fl wc room = (1, [word_of_int wc])"
  by (simp add: udm_wc_mb_utf8_def)

lemma utf8_seq_exists_int:
  assumes "128 \<le> c" "c < 2 ^ 31"
  obtains q rs bs where "utf8_seq q rs bs" "c = int (utf8_char q rs)"
proof -
  have "128 \<le> nat c" "nat c < 2 ^ 31" using assms by simp_all
  then obtain q rs bs where "utf8_seq q rs bs" "utf8_char q rs = nat c" by (rule utf8_seq_exists)
  moreover have "c = int (nat c)" using assms by simp
  ultimately show ?thesis using that by metis
qed

lemma utf8_room:
  assumes "udm_wc_mb_utf8 fl wc room = (n, bs)" "0 < n"
  shows "udm_wc_mb_utf8 fl wc (max room 6) = (n, bs)"
  using assms by (auto simp: udm_wc_mb_utf8_def Let_def split: if_splits)

lemma utf8_len_le6: "utf8_seq q rs bs \<Longrightarrow> Suc (length rs) \<le> 6 \<and> length bs = Suc (length rs)"
  by (cases "(q, rs, bs)" rule: utf8_seq.cases) auto

text \<open>What is written is one of the sequences.\<close>

lemma utf8_wc_seq:
  assumes "udm_wc_mb_utf8 fl wc room = (n, bs)" "0 < n" "128 \<le> wc"
  obtains q rs where "utf8_seq q rs bs" "n = int (Suc (length rs))" "wc = int (utf8_char q rs)"
proof -
  have "wc < 2 ^ 31" using assms by (auto simp: udm_wc_mb_utf8_def split: if_splits)
  with assms(3) obtain q rs bs' where seq: "utf8_seq q rs bs'" and w: "wc = int (utf8_char q rs)"
    by (rule utf8_seq_exists_int)
  have "Suc (length rs) \<le> max room 6" using utf8_len_le6 [OF seq(1)] by linarith
  from utf8_seq_enc [OF seq(1) this, of fl] utf8_room [OF assms(1,2)] w
  have "n = int (Suc (length rs))" "bs = bs'" by simp_all
  with seq(1) w that show ?thesis by blast
qed

text \<open>The reader of UTF-8 is the inverse of the writer.\<close>

lemma utf8_read_written:
  assumes "udm_wc_mb_utf8 fl wc room = (n, bs)" "0 < n" "0 \<le> wc" "fl AND UDM_RECODE_HTML_SPECIAL = 0"
  shows "udm_mb_wc_utf8 fl (bs @ rest) = (n, Some wc)"
proof (cases "wc < 128")
  case True
  then have "unat (word_of_int wc :: byte) < 128" "uint (word_of_int wc :: byte) = wc"
    using assms(3) by (simp_all add: unsigned_of_int uint_word_of_int take_bit_eq_mod)
  with True assms udm_wc_mb_utf8_ascii [of wc fl room] udm_mb_wc_utf8_ascii [of "word_of_int wc" fl rest] show ?thesis
    by simp
next
  case False
  then show ?thesis using utf8_wc_seq [OF assms(1,2)] utf8_seq_dec by (metis linorder_not_less)
qed

lemma utf8_written_read:
  assumes "udm_mb_wc_utf8 fl s = (n, Some wc)" "0 < n" "s \<noteq> []" "fl AND UDM_RECODE_HTML_SPECIAL = 0"
  shows "\<exists>bs rest. s = bs @ rest \<and> udm_wc_mb_utf8 fl wc 6 = (n, bs) \<and> 0 \<le> wc"
proof (cases "unat (hd s) < 128")
  case True
  obtain b rest where s: "s = b # rest" using assms(3) by (cases s) auto
  then have wc: "n = 1" "wc = uint b" using True assms udm_mb_wc_utf8_ascii [of b fl rest] by simp_all
  have "int (unat b) < int 128" using True s by (simp only: of_nat_less_iff list.sel)
  with wc(2) have "wc < 128" by simp
  then have "udm_wc_mb_utf8 fl wc 6 = (n, [b])" using udm_wc_mb_utf8_ascii [of wc fl 6] assms(4) wc by simp
  then show ?thesis using s wc(2) by (intro exI [of _ "[b]"] exI [of _ rest]) simp
next
  case False
  then have "128 \<le> unat (hd s)" by simp
  then obtain q rs bs rest where s: "s = bs @ rest" "utf8_seq q rs bs"
    by (rule utf8_mb_seq [OF assms(1-3)])
  moreover have "udm_mb_wc_utf8 fl s = (int (Suc (length rs)), Some (int (utf8_char q rs)))"
    using utf8_seq_dec [OF s(2)] s(1) by simp
  ultimately show ?thesis using utf8_seq_enc [OF s(2), of 6 fl] utf8_len_le6 [OF s(2)] assms(1) by auto
qed

text \<open>The bytes of a character.\<close>

definition utf8_enc :: "int \<Rightarrow> byte list option" where
  "utf8_enc c = (if 0 \<le> c \<and> c < 2 ^ 31 then Some (snd (udm_wc_mb_utf8 0 c 6)) else None)"

definition latin1_enc :: "int \<Rightarrow> byte list option" where
  "latin1_enc c = (if 0 \<le> c \<and> c \<le> 0xFF then Some [word_of_int c] else None)"

definition ascii_enc :: "int \<Rightarrow> byte list option" where
  "ascii_enc c = (if 0 \<le> c \<and> c \<le> 0x7F then Some [word_of_int c] else None)"

definition encode_text :: "(int \<Rightarrow> byte list option) \<Rightarrow> int list \<Rightarrow> byte list" where
  "encode_text enc cs = concat (map (\<lambda>c. the (enc c)) cs)"

text \<open>What becomes of a character: its bytes in the target set, else a reference to it when the
  flags ask for one, else nothing.\<close>

definition put_char :: "(int \<Rightarrow> byte list option) \<Rightarrow> nat \<Rightarrow> int \<Rightarrow> byte list" where
  "put_char enc fl c = (case enc c of Some bs \<Rightarrow> bs
     | None \<Rightarrow> if fl AND (UDM_RECODE_HTML_NONASCII OR UDM_RECODE_HTML_NONASCII_HEX) \<noteq> 0 then char_ref fl c else [])"

lemma encode_text_simps [simp]: "encode_text enc [] = []" "encode_text enc (c # cs) = the (enc c) @ encode_text enc cs"
  by (simp_all add: encode_text_def)

subsection \<open>What the conversion relies on\<close>

locale charset =
  fixes mb_wc :: mb_wc and wc_mb :: wc_mb and enc :: "int \<Rightarrow> byte list option"
  assumes reads: "fl AND UDM_RECODE_HTML_SPECIAL = 0 \<Longrightarrow> enc c = Some bs \<Longrightarrow> mb_wc fl (bs @ rest) = (int (length bs), Some c)"
    and writes: "fl AND UDM_RECODE_HTML_SPECIAL = 0 \<Longrightarrow> enc c = Some bs \<Longrightarrow> length bs \<le> room \<Longrightarrow>
      wc_mb fl c room = (int (length bs), bs)"
    and ill_uni: "enc c = None \<Longrightarrow> 0 \<le> c \<Longrightarrow> c < 2 ^ 31 \<Longrightarrow> fst (wc_mb fl c room) = 0"
    and nonempty: "enc c = Some bs \<Longrightarrow> bs \<noteq> []"
    and qmark: "enc 0x3F = Some [0x3F]"
    and unicode: "enc c = Some bs \<Longrightarrow> 0 \<le> c \<and> c < 2 ^ 31"

locale conversion = src: charset from_mb from_wc from_enc + dst: charset to_mb to_wc to_enc
  for from_mb from_wc from_enc to_mb to_wc to_enc
begin

lemma read_step:
  assumes "fl AND UDM_RECODE_HTML_SPECIAL = 0" "from_enc c = Some bs"
  shows "conv_read from_mb to_wc fl (bs @ s) room wc = Some (s, c)"
  using src.reads [OF assms, of s] src.nonempty [OF assms(2)] by (simp add: conv_read_def)

lemma write_step:
  assumes "fl AND UDM_RECODE_HTML_SPECIAL = 0" "0 \<le> c" "c < 2 ^ 31" "0 < room" "length (put_char to_enc fl c) + k \<le> room" "9 \<le> k"
  shows "\<exists>w. conv_write to_wc fl c room = Put (put_char to_enc fl c) w \<and> (w = 0 \<longrightarrow> c = 0)"
proof (cases "to_enc c")
  case None
  have "to_wc fl 0x3F room = (1, [0x3F])"
    using dst.writes [OF assms(1) dst.qmark, of room] assms(4) by simp
  moreover obtain bs where "to_wc fl c room = (0, bs)"
    using dst.ill_uni [OF None assms(2,3)] by (metis prod.collapse)
  ultimately show ?thesis
    using None assms(4,5,6) by (cases "fl AND 5 = 0") (simp_all add: conv_write_def put_char_def)
next
  case (Some bs)
  then show ?thesis
    using dst.writes [OF assms(1) Some, of room] dst.nonempty [OF Some] assms(5) by (simp add: conv_write_def put_char_def)
qed

lemma loop:
  assumes "fl AND UDM_RECODE_HTML_SPECIAL = 0" "\<forall>c \<in> set cs. from_enc c \<noteq> None"
    "length (concat (map (put_char to_enc fl) cs)) + 9 \<le> room" "asserts \<Longrightarrow> 0 \<notin> set (butlast cs)"
  shows "conv_loop asserts from_mb to_wc fl (encode_text from_enc cs) room wc out =
    Some (Inr (out @ concat (map (put_char to_enc fl) cs)))"
  using assms(2-4)
proof (induction cs arbitrary: room wc out)
  case Nil
  then show ?case by (subst conv_loop.simps) simp
next
  case (Cons c cs)
  then obtain bs where bs: "from_enc c = Some bs" by auto
  have c: "0 \<le> c" "c < 2 ^ 31" using src.unicode [OF bs] by simp_all
  have "length (put_char to_enc fl c) + 9 \<le> room" using Cons.prems(2) by simp
  from write_step [OF assms(1) c _ this order.refl] this obtain w where
    w: "conv_write to_wc fl c room = Put (put_char to_enc fl c) w" "w = 0 \<longrightarrow> c = 0" by auto
  have ok: "\<not> (asserts \<and> \<not> (w \<noteq> 0 \<or> encode_text from_enc cs = []))"
    using Cons.prems(3) w(2) by (cases cs) auto
  have "asserts \<Longrightarrow> 0 \<notin> set (butlast cs)" using Cons.prems(3) by (cases cs) auto
  moreover have "encode_text from_enc (c # cs) \<noteq> []" "encode_text from_enc (c # cs) = bs @ encode_text from_enc cs"
    using bs src.nonempty [OF bs] by simp_all
  ultimately show ?case
    using Cons.prems(1,2) read_step [OF assms(1) bs, of "encode_text from_enc cs" room wc] w(1) ok
    by (subst conv_loop.simps) (simp add: Cons.IH)
qed

lemma UdmConv_encode:
  assumes "fl AND UDM_RECODE_HTML_SPECIAL = 0" "\<forall>c \<in> set cs. from_enc c \<noteq> None"
    "length (concat (map (put_char to_enc fl) cs)) + 9 \<le> dlen" "asserts \<Longrightarrow> 0 \<notin> set (butlast cs)"
  shows "UdmConv asserts from_mb to_wc fl dlen (encode_text from_enc cs) = Some (Inr (concat (map (put_char to_enc fl) cs)))"
  using loop [OF assms] by (simp add: UdmConv_def)

end

lemma utf8_enc_Some:
  assumes "utf8_enc c = Some bs"
  shows "0 \<le> c" "c < 2 ^ 31" "bs \<noteq> []"
    "fl AND UDM_RECODE_HTML_SPECIAL = 0 \<Longrightarrow> length bs \<le> room \<Longrightarrow> udm_wc_mb_utf8 fl c room = (int (length bs), bs)"
proof -
  show c: "0 \<le> c" "c < 2 ^ 31" using assms by (simp_all add: utf8_enc_def split: if_splits)
  have bs: "snd (udm_wc_mb_utf8 0 c 6) = bs" using assms by (simp add: utf8_enc_def split: if_splits)
  have "bs \<noteq> [] \<and> (fl AND UDM_RECODE_HTML_SPECIAL = 0 \<and> length bs \<le> room \<longrightarrow> udm_wc_mb_utf8 fl c room = (int (length bs), bs))"
  proof (cases "c < 128")
    case True
    then have "bs = [word_of_int c]" using bs c udm_wc_mb_utf8_ascii [of c 0 6] by simp
    then show ?thesis
      using True c udm_wc_mb_utf8_ascii [of c fl room] by simp_all
  next
    case False
    then have "128 \<le> c" by simp
    from this c(2) obtain q rs bs' where s: "utf8_seq q rs bs'" "c = int (utf8_char q rs)" by (rule utf8_seq_exists_int)
    then show ?thesis
      using utf8_seq_enc [OF s(1), of 6 0] utf8_seq_enc [OF s(1), of room fl] utf8_len_le6 [OF s(1)] bs s(2) by auto
  qed
  then show "bs \<noteq> []" "fl AND UDM_RECODE_HTML_SPECIAL = 0 \<Longrightarrow> length bs \<le> room \<Longrightarrow> udm_wc_mb_utf8 fl c room = (int (length bs), bs)" by simp_all
qed

interpretation utf8: charset udm_mb_wc_utf8 udm_wc_mb_utf8 utf8_enc
proof unfold_locales
  fix fl c bs rest assume fl: "fl AND UDM_RECODE_HTML_SPECIAL = 0" and e: "utf8_enc c = Some bs"
  have w: "udm_wc_mb_utf8 fl c (length bs) = (int (length bs), bs)" by (rule utf8_enc_Some(4) [OF e fl order.refl])
  then show "udm_mb_wc_utf8 fl (bs @ rest) = (int (length bs), Some c)"
    using utf8_enc_Some(1-3) [OF e] by (intro utf8_read_written [OF w _ _ fl]) auto
next
  fix fl c bs room assume "fl AND UDM_RECODE_HTML_SPECIAL = 0" "utf8_enc c = Some bs" "length bs \<le> (room :: nat)"
  then show "udm_wc_mb_utf8 fl c room = (int (length bs), bs)" by (intro utf8_enc_Some(4))
next
  show "utf8_enc 0x3F = Some [0x3F]" by (simp add: utf8_enc_def udm_wc_mb_utf8_def)
next
  fix c bs assume e: "utf8_enc c = Some bs"
  show "bs \<noteq> []" by (rule utf8_enc_Some(3) [OF e])
  show "0 \<le> c \<and> c < 2 ^ 31" using utf8_enc_Some(1,2) [OF e] ..
qed (simp add: utf8_enc_def)

interpretation latin1: charset udm_mb_wc_latin1 udm_wc_mb_latin1 latin1_enc
  by unfold_locales (auto simp: udm_mb_wc_latin1_def udm_wc_mb_latin1_def latin1_enc_def unsigned_of_int uint_word_of_int
      take_bit_eq_mod split: if_splits)

interpretation ascii: charset udm_mb_wc_ascii udm_wc_mb_ascii ascii_enc
  by unfold_locales (auto simp: udm_mb_wc_ascii_def udm_wc_mb_ascii_def ascii_enc_def unsigned_of_int uint_word_of_int
      take_bit_eq_mod split: if_splits)

interpretation utf8_latin1: conversion udm_mb_wc_utf8 udm_wc_mb_utf8 utf8_enc udm_mb_wc_latin1 udm_wc_mb_latin1 latin1_enc ..

interpretation utf8_utf8: conversion udm_mb_wc_utf8 udm_wc_mb_utf8 utf8_enc udm_mb_wc_utf8 udm_wc_mb_utf8 utf8_enc ..

interpretation latin1_utf8: conversion udm_mb_wc_latin1 udm_wc_mb_latin1 latin1_enc udm_mb_wc_utf8 udm_wc_mb_utf8 utf8_enc ..

subsection \<open>Properties\<close>

lemma length_hex_str: "n < 16 ^ k \<Longrightarrow> 0 < k \<Longrightarrow> length (hex_str n) \<le> k"
proof (induction k arbitrary: n)
  case (Suc k)
  show ?case
  proof (cases "n < 16")
    case True
    then show ?thesis by (subst hex_str.simps) simp
  next
    case False
    with Suc.prems have "n div 16 < 16 ^ k" "0 < k" by (simp_all add: less_mult_imp_div_less) (cases k, simp_all)
    with Suc.IH False show ?thesis by (subst hex_str.simps) simp
  qed
qed simp

lemma length_char_ref:
  assumes "0 \<le> c" "c < 2 ^ 31"
  shows "length (char_ref fl c) \<le> 13"
proof -
  have "nat c < 10 ^ 10" "nat (c mod 2 ^ 32) < 16 ^ 8" using assms by (simp_all add: nat_less_iff)
  then have "length (digits (nat c)) \<le> 10" "length (hex_str (nat (c mod 2 ^ 32))) \<le> 8"
    using length_digits [of "nat c" 10] length_hex_str [of "nat (c mod 2 ^ 32)" 8] by simp_all
  with assms show ?thesis by (simp add: char_ref_def int_str_def bstr_def)
qed

lemma utf8_enc_ascii: "0 \<le> c \<Longrightarrow> c < 128 \<Longrightarrow> utf8_enc c = Some [word_of_int c]"
  using udm_wc_mb_utf8_ascii [of c 0 6] by (simp add: utf8_enc_def)

lemma utf8_enc_length:
  assumes "128 \<le> c" "c < 2 ^ 31"
  shows "2 \<le> length (the (utf8_enc c))"
proof -
  obtain q rs bs where s: "utf8_seq q rs bs" "c = int (utf8_char q rs)" by (rule utf8_seq_exists_int [OF assms])
  have "2 \<le> length bs" using s(1) by (cases "(q, rs, bs)" rule: utf8_seq.cases) auto
  with utf8_seq_enc [OF s(1), of 6 0] utf8_len_le6 [OF s(1)] s(2) assms show ?thesis by (simp add: utf8_enc_def)
qed

lemma put_latin1_size:
  assumes "\<forall>c \<in> set cs. 0 \<le> c \<and> c < 2 ^ 31" "cs \<noteq> []"
  shows "length (concat (map (put_char latin1_enc fl) cs)) + 9 \<le> 14 * length (encode_text utf8_enc cs)"
proof -
  have one: "length (put_char latin1_enc fl c) + 9 \<le> 14 * length (the (utf8_enc c))" if "0 \<le> c" "c < 2 ^ 31" for c
  proof (cases "c < 128")
    case True
    then show ?thesis using that by (simp add: put_char_def latin1_enc_def utf8_enc_ascii)
  next
    case False
    then show ?thesis using utf8_enc_length [of c] length_char_ref [OF that, of fl] that
      by (simp add: put_char_def latin1_enc_def)
  qed
  show ?thesis using assms
  proof (induction cs)
    case (Cons c cs)
    show ?case
    proof (cases cs)
      case Nil
      then show ?thesis using Cons.prems one [of c] by simp
    next
      case (Cons d ds)
      then show ?thesis using Cons.IH Cons.prems one [of c] by simp
    qed
  qed simp
qed

text \<open>
  C6. The reader of UTF-8 stores a character and returns a positive count exactly when the text
  starts with the bytes that the writer of UTF-8 makes of that character, and the count is
  their number: the two agree on every character below 2^31, and the reader accepts neither
  overlong sequences nor stray, missing or wrong tail bytes.
\<close>

theorem udm_mb_wc_utf8_inverse:
  assumes "s \<noteq> []" "fl AND UDM_RECODE_HTML_SPECIAL = 0"
  shows "udm_mb_wc_utf8 fl s = (n, Some wc) \<and> 0 < n \<longleftrightarrow>
    (\<exists>bs rest. s = bs @ rest \<and> udm_wc_mb_utf8 fl wc 6 = (n, bs) \<and> 0 < n \<and> 0 \<le> wc)"
  using utf8_read_written [where room = 6] utf8_written_read assms by metis

theorem udm_mb_wc_utf8_inverse_witness:
  "udm_mb_wc_utf8 0 [0xE2, 0x82, 0xAC, 0x41] = (3, Some 0x20AC) \<and> (0 :: int) < 3 \<longleftrightarrow>
    (\<exists>bs rest. [0xE2, 0x82, 0xAC, 0x41] = bs @ rest \<and> udm_wc_mb_utf8 0 0x20AC 6 = (3, bs) \<and> (0 :: int) < 3 \<and> (0 :: int) \<le> 0x20AC)"
  by (rule udm_mb_wc_utf8_inverse) simp_all

text \<open>
  C16. A text in UTF-8 converted to Latin-1 into a buffer of the size that \<open>UdmConvSizeNeeded\<close>
  asks for: the conversion ends, stays inside the buffer and reaches the end of the text; each
  character of Latin-1 becomes its byte, and each other one a numeric reference if a flag asks
  for references.  Without the flag it is dropped: the question mark that replaces it is
  written to the buffer but never counted.  In a debug build a character 0 may stand only at
  the end of the text, as the assertion of the loop demands; in other builds anywhere.
\<close>

theorem UdmConv_utf8_latin1:
  assumes "\<forall>c \<in> set cs. 0 \<le> c \<and> c < 2 ^ 31" "fl AND UDM_RECODE_HTML_SPECIAL = 0"
    and "asserts \<Longrightarrow> 0 \<notin> set (butlast cs)"
  shows "UdmConv asserts udm_mb_wc_utf8 udm_wc_mb_latin1 fl (UdmConvSizeNeeded (length (encode_text utf8_enc cs))) (encode_text utf8_enc cs) =
    Some (Inr (concat (map (put_char latin1_enc fl) cs)))"
proof (cases "cs = []")
  case True
  then show ?thesis by (simp add: UdmConv_def conv_loop.simps)
next
  case False
  from put_latin1_size [OF assms(1) this, of fl] assms show ?thesis
    by (intro utf8_latin1.UdmConv_encode) (simp_all add: utf8_enc_def UdmConvSizeNeeded_def mult.commute)
qed

theorem UdmConv_utf8_latin1_witness:
  "UdmConv True udm_mb_wc_utf8 udm_wc_mb_latin1 0 (UdmConvSizeNeeded (length (encode_text utf8_enc [0x41, 0x20AC, 0xE4]))) (encode_text utf8_enc [0x41, 0x20AC, 0xE4]) =
    Some (Inr (concat (map (put_char latin1_enc 0) [0x41, 0x20AC, 0xE4])))"
  by (rule UdmConv_utf8_latin1) simp_all

text \<open>
  C36. Writing a reference needs as many bytes as it is long, and one for the zero that closes
  it, but \<open>UdmConv\<close> only tests that more than eight are left: in a buffer that is larger than
  eight bytes and not longer than the reference, the bytes behind the buffer are overwritten.
\<close>

theorem UdmConv_reference_overrun:
  assumes "0xFF < c" "c < 2 ^ 31" "8 < dlen" "dlen \<le> length (char_ref UDM_RECODE_HTML_NONASCII c)"
  shows "UdmConv asserts udm_mb_wc_utf8 udm_wc_mb_latin1 UDM_RECODE_HTML_NONASCII dlen (encode_text utf8_enc [c]) = Some (Inl Overrun)"
proof -
  obtain bs where bs: "utf8_enc c = Some bs" using assms by (simp add: utf8_enc_def)
  have fl: "UDM_RECODE_HTML_NONASCII AND UDM_RECODE_HTML_SPECIAL = 0" by simp
  have r: "conv_read udm_mb_wc_utf8 udm_wc_mb_latin1 UDM_RECODE_HTML_NONASCII bs dlen 0 = Some ([], c)"
    using utf8_latin1.read_step [OF fl bs, of "[]" dlen 0] by simp
  have w: "conv_write udm_wc_mb_latin1 UDM_RECODE_HTML_NONASCII c dlen = Behind_buffer"
    using assms by (simp add: conv_write_def udm_wc_mb_latin1_def)
  show ?thesis using utf8_enc_Some(3) [OF bs] assms(3) bs r w
    by (simp add: UdmConv_def conv_loop.simps del: UDM_RECODE_HTML_NONASCII_def)
qed

theorem UdmConv_reference_overrun_witness:
  "UdmConv False udm_mb_wc_utf8 udm_wc_mb_latin1 UDM_RECODE_HTML_NONASCII 9 (encode_text utf8_enc [1000000]) = Some (Inl Overrun)"
  by (rule UdmConv_reference_overrun)
    (simp_all add: char_ref_def int_str_def bstr_def digits.simps)

end
