(* ===== verification/Crc32.thy ===== *)
theory Crc32
  imports Prelude
begin

text \<open>
  Check sums (\<^verbatim>\<open>src/crc32.c\<close>), used to find copies of a document and to name pairs of words.
  The functions take a \<open>char\<close>, which is signed or not; only its low eight bits are used.
  The reference definition is the division of the text by the polynomial, bit by bit.
\<close>

unbundle bit_operations_syntax

subsection \<open>The functions\<close>

definition crc32tab :: "uint4 list" where
  "crc32tab =
     [
      0x00000000, 0x77073096, 0xee0e612c, 0x990951ba, 0x076dc419, 0x706af48f, 0xe963a535, 0x9e6495a3,
      0x0edb8832, 0x79dcb8a4, 0xe0d5e91e, 0x97d2d988, 0x09b64c2b, 0x7eb17cbd, 0xe7b82d07, 0x90bf1d91,
      0x1db71064, 0x6ab020f2, 0xf3b97148, 0x84be41de, 0x1adad47d, 0x6ddde4eb, 0xf4d4b551, 0x83d385c7,
      0x136c9856, 0x646ba8c0, 0xfd62f97a, 0x8a65c9ec, 0x14015c4f, 0x63066cd9, 0xfa0f3d63, 0x8d080df5,
      0x3b6e20c8, 0x4c69105e, 0xd56041e4, 0xa2677172, 0x3c03e4d1, 0x4b04d447, 0xd20d85fd, 0xa50ab56b,
      0x35b5a8fa, 0x42b2986c, 0xdbbbc9d6, 0xacbcf940, 0x32d86ce3, 0x45df5c75, 0xdcd60dcf, 0xabd13d59,
      0x26d930ac, 0x51de003a, 0xc8d75180, 0xbfd06116, 0x21b4f4b5, 0x56b3c423, 0xcfba9599, 0xb8bda50f,
      0x2802b89e, 0x5f058808, 0xc60cd9b2, 0xb10be924, 0x2f6f7c87, 0x58684c11, 0xc1611dab, 0xb6662d3d,
      0x76dc4190, 0x01db7106, 0x98d220bc, 0xefd5102a, 0x71b18589, 0x06b6b51f, 0x9fbfe4a5, 0xe8b8d433,
      0x7807c9a2, 0x0f00f934, 0x9609a88e, 0xe10e9818, 0x7f6a0dbb, 0x086d3d2d, 0x91646c97, 0xe6635c01,
      0x6b6b51f4, 0x1c6c6162, 0x856530d8, 0xf262004e, 0x6c0695ed, 0x1b01a57b, 0x8208f4c1, 0xf50fc457,
      0x65b0d9c6, 0x12b7e950, 0x8bbeb8ea, 0xfcb9887c, 0x62dd1ddf, 0x15da2d49, 0x8cd37cf3, 0xfbd44c65,
      0x4db26158, 0x3ab551ce, 0xa3bc0074, 0xd4bb30e2, 0x4adfa541, 0x3dd895d7, 0xa4d1c46d, 0xd3d6f4fb,
      0x4369e96a, 0x346ed9fc, 0xad678846, 0xda60b8d0, 0x44042d73, 0x33031de5, 0xaa0a4c5f, 0xdd0d7cc9,
      0x5005713c, 0x270241aa, 0xbe0b1010, 0xc90c2086, 0x5768b525, 0x206f85b3, 0xb966d409, 0xce61e49f,
      0x5edef90e, 0x29d9c998, 0xb0d09822, 0xc7d7a8b4, 0x59b33d17, 0x2eb40d81, 0xb7bd5c3b, 0xc0ba6cad,
      0xedb88320, 0x9abfb3b6, 0x03b6e20c, 0x74b1d29a, 0xead54739, 0x9dd277af, 0x04db2615, 0x73dc1683,
      0xe3630b12, 0x94643b84, 0x0d6d6a3e, 0x7a6a5aa8, 0xe40ecf0b, 0x9309ff9d, 0x0a00ae27, 0x7d079eb1,
      0xf00f9344, 0x8708a3d2, 0x1e01f268, 0x6906c2fe, 0xf762575d, 0x806567cb, 0x196c3671, 0x6e6b06e7,
      0xfed41b76, 0x89d32be0, 0x10da7a5a, 0x67dd4acc, 0xf9b9df6f, 0x8ebeeff9, 0x17b7be43, 0x60b08ed5,
      0xd6d6a3e8, 0xa1d1937e, 0x38d8c2c4, 0x4fdff252, 0xd1bb67f1, 0xa6bc5767, 0x3fb506dd, 0x48b2364b,
      0xd80d2bda, 0xaf0a1b4c, 0x36034af6, 0x41047a60, 0xdf60efc3, 0xa867df55, 0x316e8eef, 0x4669be79,
      0xcb61b38c, 0xbc66831a, 0x256fd2a0, 0x5268e236, 0xcc0c7795, 0xbb0b4703, 0x220216b9, 0x5505262f,
      0xc5ba3bbe, 0xb2bd0b28, 0x2bb45a92, 0x5cb36a04, 0xc2d7ffa7, 0xb5d0cf31, 0x2cd99e8b, 0x5bdeae1d,
      0x9b64c2b0, 0xec63f226, 0x756aa39c, 0x026d930a, 0x9c0906a9, 0xeb0e363f, 0x72076785, 0x05005713,
      0x95bf4a82, 0xe2b87a14, 0x7bb12bae, 0x0cb61b38, 0x92d28e9b, 0xe5d5be0d, 0x7cdcefb7, 0x0bdbdf21,
      0x86d3d2d4, 0xf1d4e242, 0x68ddb3f8, 0x1fda836e, 0x81be16cd, 0xf6b9265b, 0x6fb077e1, 0x18b74777,
      0x88085ae6, 0xff0f6a70, 0x66063bca, 0x11010b5c, 0x8f659eff, 0xf862ae69, 0x616bffd3, 0x166ccf45,
      0xa00ae278, 0xd70dd2ee, 0x4e048354, 0x3903b3c2, 0xa7672661, 0xd06016f7, 0x4969474d, 0x3e6e77db,
      0xaed16a4a, 0xd9d65adc, 0x40df0b66, 0x37d83bf0, 0xa9bcae53, 0xdebb9ec5, 0x47b2cf7f, 0x30b5ffe9,
      0xbdbdf21c, 0xcabac28a, 0x53b39330, 0x24b4a3a6, 0xbad03605, 0xcdd70693, 0x54de5729, 0x23d967bf,
      0xb3667a2e, 0xc4614ab8, 0x5d681b02, 0x2a6f2b94, 0xb40bbe37, 0xc30c8ea1, 0x5a05df1b, 0x2d02ef8d]"

definition CRC32 :: "uint4 \<Rightarrow> byte \<Rightarrow> uint4" where
  "CRC32 crc ch = drop_bit 8 crc XOR crc32tab ! unat ((crc XOR ucast ch) AND 0xff)"

definition UdmCRC32 :: "byte list \<Rightarrow> uint4" where
  "UdmCRC32 b = NOT (foldl CRC32 (- 1) b)"

definition UdmCRC32Update :: "uint4 \<Rightarrow> byte list \<Rightarrow> uint4" where
  "UdmCRC32Update prev b = NOT (foldl CRC32 (NOT prev) b)"

definition UdmCRC32UpdateStr :: "uint4 \<Rightarrow> byte list \<Rightarrow> uint4" where
  "UdmCRC32UpdateStr prev s = NOT (foldl CRC32 (NOT prev) s)"

definition CRC32_unicode :: "uint4 \<Rightarrow> 32 word \<Rightarrow> uint4" where
  "CRC32_unicode crc wc = CRC32 (CRC32 crc (ucast (drop_bit 8 wc))) (ucast wc)"

definition UdmCRC32UpdateUnicode :: "uint4 \<Rightarrow> 32 word list \<Rightarrow> uint4" where
  "UdmCRC32UpdateUnicode prev b = NOT (foldl CRC32_unicode (NOT prev) b)"

subsection \<open>The division bit by bit\<close>

definition crc_poly :: uint4 where "crc_poly = 0xEDB88320"

definition crc_bit :: "uint4 \<Rightarrow> uint4" where
  "crc_bit x = drop_bit 1 x XOR (if odd x then crc_poly else 0)"

abbreviation crc_bits :: "nat \<Rightarrow> uint4 \<Rightarrow> uint4" where
  "crc_bits n \<equiv> crc_bit ^^ n"

lemma odd_xor_iff: "odd (x XOR y :: uint4) \<longleftrightarrow> odd x \<noteq> odd y"
  by (simp flip: bit_0 add: bit_xor_iff)

lemma crc_bit_xor: "crc_bit (x XOR y) = crc_bit x XOR crc_bit y"
  by (cases "odd x"; cases "odd y") (simp_all add: crc_bit_def odd_xor_iff drop_bit_xor ac_simps)

lemma crc_bits_xor: "crc_bits n (x XOR y) = crc_bits n x XOR crc_bits n y"
  by (induction n) (simp_all add: crc_bit_xor)

lemma crc_bits_push: "crc_bits n (push_bit n x) = x" if "drop_bit (32 - n) x = 0" "n \<le> 32"
  using that
proof (induction n arbitrary: x)
  case (Suc n)
  have "crc_bit (push_bit (Suc n) x) = push_bit n x"
  proof -
    have "drop_bit 1 (push_bit (Suc n) x) = push_bit n x"
    proof (rule bit_word_eqI)
      fix m assume m: "m < LENGTH(32)"
      have "\<not> bit x k" if "32 - Suc n \<le> k" for k
        using arg_cong [OF Suc.prems(1), of "\<lambda>w. bit w (k - (32 - Suc n))"] that by (simp add: bit_drop_bit_eq)
      moreover have "32 - Suc n \<le> m - n" if "m = 31" using that by simp
      ultimately show "bit (drop_bit 1 (push_bit (Suc n) x)) m = bit (push_bit n x) m"
        using m Suc.prems(2) by (cases "m = 31") (auto simp: bit_drop_bit_eq bit_push_bit_iff simp del: push_bit_Suc)
    qed
    then show ?thesis by (simp add: crc_bit_def)
  qed
  moreover have "drop_bit (32 - n) x = 0"
  proof -
    have "32 - n = 1 + (32 - Suc n)" using Suc.prems(2) by simp
    then have "drop_bit (32 - n) x = drop_bit 1 (drop_bit (32 - Suc n) x)" by (simp only: drop_bit_drop_bit)
    with Suc.prems(1) show ?thesis by simp
  qed
  ultimately show ?case using Suc.IH [of x] Suc.prems(2) by (simp add: funpow_swap1)
qed simp

lemma crc_bits8: "crc_bits 8 x = crc_bit (crc_bit (crc_bit (crc_bit (crc_bit (crc_bit (crc_bit (crc_bit x)))))))"
  by (simp add: eval_nat_numeral)

lemma crc_bit_numeral:
  "crc_bit 0 = 0" "crc_bit 1 = 0xEDB88320"
  "crc_bit (numeral (num.Bit0 n)) = drop_bit 1 (numeral (num.Bit0 n))"
  "crc_bit (numeral (num.Bit1 n)) = drop_bit 1 (numeral (num.Bit1 n)) XOR 0xEDB88320"
  by (simp_all add: crc_bit_def crc_poly_def del: drop_bit_Suc One_nat_def)

definition crc_byte :: "nat \<Rightarrow> uint4" where
  "crc_byte i = crc_bits 8 (of_nat i)"

lemma crc_byte_numeral:
  "crc_byte 0 = 0" "crc_byte (Suc 0) = crc_bits 8 1" "crc_byte (numeral k) = crc_bits 8 (numeral k)"
  by (simp_all add: crc_byte_def crc_bits8 crc_bit_numeral(1))

lemma upt256: "[0..<256] = 0 # Suc 0 # [2..<256]"
  by (simp add: upt_conv_Cons)

lemma crc32tab_bits: "crc32tab = map crc_byte [0..<256]"
  unfolding crc32tab_def upt256
  by (simp add: crc_byte_numeral crc_bits8 crc_bit_numeral)

lemma crc32tab_nth: "i < 256 \<Longrightarrow> crc32tab ! i = crc_bits 8 (of_nat i)"
  by (simp add: crc32tab_bits crc_byte_def del: upt_rec_numeral)

lemma mask8: "(0xff :: uint4) = Bit_Operations.mask 8"
  by (simp add: mask_numeral)

lemma byte_bit: "8 \<le> n \<Longrightarrow> \<not> bit (b :: byte) n"
  using bit_imp_le_length [of b n] by auto

lemma low_byte_split: "x = push_bit 8 (drop_bit 8 x) XOR (x AND 0xff)" for x :: uint4
  unfolding mask8 by (rule bit_word_eqI) (auto simp: bit_simps)

lemma CRC32_bits: "CRC32 crc ch = crc_bits 8 (crc XOR ucast ch)"
proof -
  define y where "y = crc XOR ucast ch"
  have "drop_bit 8 (ucast ch :: uint4) = 0" by (rule bit_word_eqI) (simp add: bit_simps byte_bit)
  then have hi: "drop_bit 8 y = drop_bit 8 crc" by (simp add: y_def drop_bit_xor)
  have "y AND 0xff = take_bit 8 y" unfolding mask8 by (simp add: take_bit_eq_mask)
  then have lo: "unat (y AND 0xff) < 256" using take_bit_nat_less_exp [of 8 "unat y"] by (simp add: unsigned_take_bit_eq)
  have "crc_bits 8 y = crc_bits 8 (push_bit 8 (drop_bit 8 y)) XOR crc_bits 8 (y AND 0xff)"
    using crc_bits_xor [of 8 "push_bit 8 (drop_bit 8 y)" "y AND 0xff"] by (simp only: low_byte_split [of y, symmetric])
  also have "crc_bits 8 (push_bit 8 (drop_bit 8 y)) = drop_bit 8 y"
  proof (rule crc_bits_push)
    show "drop_bit (32 - 8) (drop_bit 8 y) = 0" by (rule bit_word_eqI) (auto simp: bit_simps dest: bit_imp_le_length)
  qed simp
  also have "crc_bits 8 (y AND 0xff) = crc32tab ! unat (y AND 0xff)"
    using lo by (simp add: crc32tab_nth)
  finally show ?thesis by (simp add: CRC32_def hi flip: y_def)
qed

lemma crc_bit_inj: "crc_bit x = crc_bit y \<Longrightarrow> x = y"
proof -
  have top: "bit (crc_bit x) 31 \<longleftrightarrow> odd x" for x
    using bit_imp_le_length [of x 32] by (auto simp: crc_bit_def crc_poly_def bit_xor_iff bit_drop_bit_eq)
  assume e: "crc_bit x = crc_bit y"
  then have o: "odd x \<longleftrightarrow> odd y" using top by metis
  define p where "p = (if odd x then crc_poly else 0)"
  have "drop_bit 1 x XOR p = drop_bit 1 y XOR p" using e o by (simp add: crc_bit_def p_def)
  then have "(drop_bit 1 x XOR p) XOR p = (drop_bit 1 y XOR p) XOR p" by simp
  then have "drop_bit 1 x = drop_bit 1 y" by (simp only: xor.assoc xor_self_eq xor.right_neutral)
  then have "x div 2 = y div 2" by (simp add: drop_bit_eq_div)
  moreover have "x mod 2 = y mod 2" using o by (simp add: mod2_eq_if)
  ultimately show "x = y" using div_mult_mod_eq [of x 2] div_mult_mod_eq [of y 2] by metis
qed

lemma crc_bits_inj: "crc_bits n x = crc_bits n y \<Longrightarrow> x = y"
  by (induction n) (auto dest: crc_bit_inj)

text \<open>The bytes of a word, the first one lowest.\<close>

fun le_word :: "byte list \<Rightarrow> uint4" where
  "le_word [] = 0"
| "le_word (b # bs) = ucast b XOR push_bit 8 (le_word bs)"

lemma le_word_bits: "length bs \<le> 4 \<Longrightarrow> 8 * length bs \<le> k \<Longrightarrow> \<not> bit (le_word bs) k"
  by (induction bs arbitrary: k) (auto simp: bit_simps byte_bit)

lemma foldl_CRC32: "length bs \<le> 4 \<Longrightarrow> foldl CRC32 s bs = crc_bits (8 * length bs) (s XOR le_word bs)"
proof (induction bs arbitrary: s)
  case (Cons b bs)
  have "crc_bits 8 (push_bit 8 (le_word bs)) = le_word bs"
  proof (rule crc_bits_push)
    show "drop_bit (32 - 8) (le_word bs) = 0"
      using Cons.prems le_word_bits [of bs] by (intro bit_word_eqI) (auto simp: bit_simps)
  qed simp
  then have "CRC32 s b XOR le_word bs = crc_bits 8 (s XOR le_word (b # bs))"
    by (simp add: CRC32_bits crc_bits_xor ac_simps)
  moreover have "crc_bits (8 * length (b # bs)) z = crc_bits (8 * length bs) (crc_bits 8 z)" for z
    using funpow_add [of "8 * length bs" 8 crc_bit] by (simp add: add.commute)
  ultimately show ?case using Cons by simp
qed simp

lemma le_word_inj: "le_word a = le_word b \<Longrightarrow> length a = length b \<Longrightarrow> length a \<le> 4 \<Longrightarrow> a = b"
proof (induction a arbitrary: b)
  case (Cons x a)
  then obtain y b' where b: "b = y # b'" by (cases b) auto
  have "ucast x XOR push_bit 8 (le_word a) = (ucast y XOR push_bit 8 (le_word b') :: uint4)" using Cons.prems b by simp
  note bits = arg_cong [OF this, of "\<lambda>w. bit w i" for i, unfolded bit_xor_iff bit_push_bit_iff]
  have "x = y"
  proof (rule bit_word_eqI)
    fix i assume "i < LENGTH(8)"
    then show "bit x i = bit y i" using bits [of i] by (simp add: bit_simps)
  qed
  moreover have "le_word a = le_word b'"
  proof (rule bit_word_eqI)
    fix i assume i: "i < LENGTH(32)"
    show "bit (le_word a) i = bit (le_word b') i"
    proof (cases "i < 24")
      case True
      then show ?thesis using bits [of "8 + i"] i by (simp add: bit_simps byte_bit)
    next
      case False
      then show ?thesis using Cons.prems b le_word_bits [of a i] le_word_bits [of b' i] by simp
    qed
  qed
  ultimately show ?case using Cons b by simp
qed simp

lemma foldl_CRC32_inj: "foldl CRC32 s c = foldl CRC32 t c \<Longrightarrow> s = t"
proof (induction c arbitrary: s t)
  case (Cons b c)
  then have "CRC32 s b = CRC32 t b" by simp
  then have "s XOR ucast b = t XOR ucast b" unfolding CRC32_bits by (rule crc_bits_inj)
  then have "(s XOR ucast b) XOR ucast b = (t XOR ucast b) XOR ucast b" by simp
  then show ?case by (simp add: xor.assoc)
qed simp

subsection \<open>Properties\<close>

text \<open>
  C37. The check sum that is computed byte by byte with the table is the one that divides the
  text by the polynomial bit by bit, and updating a check sum with a second text gives the
  check sum of the two texts joined.
\<close>

theorem UdmCRC32_divides:
  "UdmCRC32 b = NOT (foldl (\<lambda>crc ch. crc_bits 8 (crc XOR ucast ch)) (- 1) b) \<and>
   UdmCRC32Update (UdmCRC32 a) b = UdmCRC32 (a @ b) \<and>
   UdmCRC32UpdateStr 0 b = UdmCRC32 b \<and>
   UdmCRC32UpdateStr (UdmCRC32UpdateStr p a) b = UdmCRC32UpdateStr p (a @ b)"
proof -
  have "CRC32 = (\<lambda>crc ch. crc_bits 8 (crc XOR ucast ch))" by (intro ext CRC32_bits)
  then show ?thesis by (simp add: UdmCRC32_def UdmCRC32Update_def UdmCRC32UpdateStr_def)
qed

text \<open>
  C38. Two texts of the same length that differ inside four consecutive bytes only have the same
  check sum exactly when they are equal.
\<close>

theorem UdmCRC32_detects_burst:
  assumes "length m = length n" "length m \<le> 4"
  shows "UdmCRC32 (a @ m @ c) = UdmCRC32 (a @ n @ c) \<longleftrightarrow> m = n"
proof
  assume "UdmCRC32 (a @ m @ c) = UdmCRC32 (a @ n @ c)"
  then have "foldl CRC32 (foldl CRC32 (foldl CRC32 (- 1) a) m) c = foldl CRC32 (foldl CRC32 (foldl CRC32 (- 1) a) n) c"
    by (metis UdmCRC32_def bit.double_compl foldl_append)
  then have "foldl CRC32 (foldl CRC32 (- 1) a) m = foldl CRC32 (foldl CRC32 (- 1) a) n" by (rule foldl_CRC32_inj)
  then have "foldl CRC32 (- 1) a XOR le_word m = foldl CRC32 (- 1) a XOR le_word n"
    using assms foldl_CRC32 [of m] foldl_CRC32 [of n] crc_bits_inj by metis
  then have "foldl CRC32 (- 1) a XOR (foldl CRC32 (- 1) a XOR le_word m) = foldl CRC32 (- 1) a XOR (foldl CRC32 (- 1) a XOR le_word n)"
    by (rule arg_cong)
  then have "le_word m = le_word n" by (simp flip: xor.assoc)
  then show "m = n" using assms by (rule le_word_inj)
qed simp

theorem UdmCRC32_detects_burst_witness:
  "UdmCRC32 (bstr ''12'' @ bstr ''3456'' @ bstr ''78'') = UdmCRC32 (bstr ''12'' @ bstr ''3465'' @ bstr ''78'') \<longleftrightarrow>
    bstr ''3456'' = bstr ''3465''"
  by (rule UdmCRC32_detects_burst) (simp_all add: bstr_def)

end
