(* ===== verification/Url.thy ===== *)
theory Url
  imports Vars
begin

text \<open>
  Web addresses (\<^verbatim>\<open>src/url.c\<close>): parsing, canonical form and the normal form of a path.  A C
  string is the list of its bytes before the closing zero, a pointer that may be null an
  \<open>option\<close>; memory allocation is taken to succeed.  The code reads before a string in one place
  and writes behind a buffer in another one; there the result is \<open>None\<close>.
\<close>

subsection \<open>Records and tables\<close>

record udm_url =
  url_schema :: "byte list option"
  url_specific :: "byte list option"
  url_hostinfo :: "byte list option"
  url_auth :: "byte list option"
  url_hostname :: "byte list option"
  url_path :: "byte list option"
  url_filename :: "byte list option"
  url_anchor :: "byte list option"
  url_port :: int
  url_default_port :: int

datatype url_rc = UDM_URL_OK | UDM_URL_BAD

definition UdmURLInit :: udm_url where
  "UdmURLInit = \<lparr>url_schema = None, url_specific = None, url_hostinfo = None, url_auth = None, url_hostname = None,
     url_path = None, url_filename = None, url_anchor = None, url_port = 0, url_default_port = 0\<rparr>"

text \<open>All members are released and set to null.\<close>

definition UdmURLFree :: "udm_url \<Rightarrow> udm_url" where
  "UdmURLFree url = UdmURLInit"

definition hexd :: "byte list" where
  "hexd = bstr ''0123456789ABCDEF''"

definition ch2x :: "byte \<Rightarrow> nat option" where
  "ch2x ch =
     (if 0x30 \<le> ch \<and> ch \<le> 0x39 then Some (unat ch - 48)
      else if 0x61 \<le> ch \<and> ch \<le> 0x66 then Some (10 + (unat ch - 97))
      else if 0x41 \<le> ch \<and> ch \<le> 0x46 then Some (10 + (unat ch - 65))
      else None)"

definition get_default_port :: "byte list \<Rightarrow> int" where
  "get_default_port schema =
     (let s = map ascii_lower schema in
      if s = bstr ''http'' then 80
      else if s = bstr ''https'' then 443
      else if s = bstr ''nntp'' then 119
      else if s = bstr ''news'' then 119
      else if s = bstr ''ftp'' then 21
      else 0)"

definition path_enc_type :: "nat list" where
  "path_enc_type =
     [
      1, 1, 1, 1, 1, 1, 1, 1, 1, 1, 1, 1, 1, 1, 1, 1, 1, 1, 1, 1, 1, 1, 1, 1, 1, 1, 1, 1, 1, 1, 1, 1,
      2, 0, 2, 2, 0, 2, 4, 0, 0, 0, 0, 0, 0, 0, 0, 0, 0, 0, 0, 0, 0, 0, 0, 0, 0, 0, 0, 2, 2, 0, 2, 2,
      0, 0, 0, 0, 0, 0, 0, 0, 0, 0, 0, 0, 0, 0, 0, 0, 0, 0, 0, 0, 0, 0, 0, 0, 0, 0, 0, 2, 2, 2, 2, 0,
      2, 0, 0, 0, 0, 0, 0, 0, 0, 0, 0, 0, 0, 0, 0, 0, 0, 0, 0, 0, 0, 0, 0, 0, 0, 0, 0, 2, 2, 2, 0, 1,
      3, 3, 3, 3, 3, 3, 3, 3, 3, 3, 3, 3, 3, 3, 3, 3, 3, 3, 3, 3, 3, 3, 3, 3, 3, 3, 3, 3, 3, 3, 3, 3,
      3, 3, 3, 3, 3, 3, 3, 3, 3, 3, 3, 3, 3, 3, 3, 3, 3, 3, 3, 3, 3, 3, 3, 3, 3, 3, 3, 3, 3, 3, 3, 3,
      3, 3, 3, 3, 3, 3, 3, 3, 3, 3, 3, 3, 3, 3, 3, 3, 3, 3, 3, 3, 3, 3, 3, 3, 3, 3, 3, 3, 3, 3, 3, 3,
      3, 3, 3, 3, 3, 3, 3, 3, 3, 3, 3, 3, 3, 3, 3, 3, 3, 3, 3, 3, 3, 3, 3, 3, 3, 3, 3, 3, 3, 3, 3, 3]"

definition query_enc_type :: "nat list" where
  "query_enc_type =
     [
      1, 1, 1, 1, 1, 1, 1, 1, 1, 1, 1, 1, 1, 1, 1, 1, 1, 1, 1, 1, 1, 1, 1, 1, 1, 1, 1, 1, 1, 1, 1, 1,
      1, 0, 1, 0, 0, 0, 0, 0, 0, 0, 0, 0, 0, 0, 0, 0, 0, 0, 0, 0, 0, 0, 0, 0, 0, 0, 0, 0, 1, 0, 1, 0,
      0, 0, 0, 0, 0, 0, 0, 0, 0, 0, 0, 0, 0, 0, 0, 0, 0, 0, 0, 0, 0, 0, 0, 0, 0, 0, 0, 0, 0, 0, 0, 0,
      1, 0, 0, 0, 0, 0, 0, 0, 0, 0, 0, 0, 0, 0, 0, 0, 0, 0, 0, 0, 0, 0, 0, 0, 0, 0, 0, 0, 0, 0, 0, 1,
      1, 1, 1, 1, 1, 1, 1, 1, 1, 1, 1, 1, 1, 1, 1, 1, 1, 1, 1, 1, 1, 1, 1, 1, 1, 1, 1, 1, 1, 1, 1, 1,
      1, 1, 1, 1, 1, 1, 1, 1, 1, 1, 1, 1, 1, 1, 1, 1, 1, 1, 1, 1, 1, 1, 1, 1, 1, 1, 1, 1, 1, 1, 1, 1,
      1, 1, 1, 1, 1, 1, 1, 1, 1, 1, 1, 1, 1, 1, 1, 1, 1, 1, 1, 1, 1, 1, 1, 1, 1, 1, 1, 1, 1, 1, 1, 1,
      1, 1, 1, 1, 1, 1, 1, 1, 1, 1, 1, 1, 1, 1, 1, 1, 1, 1, 1, 1, 1, 1, 1, 1, 1, 1, 1, 1, 1, 1, 1, 1]"

definition hostname_valid_characters :: "nat list" where
  "hostname_valid_characters =
     [
      0, 0, 0, 0, 0, 0, 0, 0, 0, 0, 0, 0, 0, 0, 0, 0, 0, 0, 0, 0, 0, 0, 0, 0, 0, 0, 0, 0, 0, 0, 0, 0,
      0, 0, 0, 0, 0, 0, 0, 0, 0, 0, 0, 0, 0, 1, 1, 0, 1, 1, 1, 1, 1, 1, 1, 1, 1, 1, 0, 0, 0, 0, 0, 0,
      0, 1, 1, 1, 1, 1, 1, 1, 1, 1, 1, 1, 1, 1, 1, 1, 1, 1, 1, 1, 1, 1, 1, 1, 1, 1, 1, 0, 0, 0, 0, 1,
      0, 1, 1, 1, 1, 1, 1, 1, 1, 1, 1, 1, 1, 1, 1, 1, 1, 1, 1, 1, 1, 1, 1, 1, 1, 1, 1, 0, 0, 0, 0, 0,
      0, 0, 0, 0, 0, 0, 0, 0, 0, 0, 0, 0, 0, 0, 0, 0, 0, 0, 0, 0, 0, 0, 0, 0, 0, 0, 0, 0, 0, 0, 0, 0,
      0, 0, 0, 0, 0, 0, 0, 0, 0, 0, 0, 0, 0, 0, 0, 0, 0, 0, 0, 0, 0, 0, 0, 0, 0, 0, 0, 0, 0, 0, 0, 0,
      0, 0, 0, 0, 0, 0, 0, 0, 0, 0, 0, 0, 0, 0, 0, 0, 0, 0, 0, 0, 0, 0, 0, 0, 0, 0, 0, 0, 0, 0, 0, 0,
      0, 0, 0, 0, 0, 0, 0, 0, 0, 0, 0, 0, 0, 0, 0, 0, 0, 0, 0, 0, 0, 0, 0, 0, 0, 0, 0, 0, 0, 0, 0, 0]"

subsection \<open>Escaping\<close>

definition percent :: "nat \<Rightarrow> nat \<Rightarrow> byte list" where
  "percent hi lo = [0x25, hexd ! hi, hexd ! lo]"

text \<open>The byte that is escaped at the beginning of a string: its two digits.\<close>

definition escaped :: "byte list \<Rightarrow> (nat \<times> nat) option" where
  "escaped s =
     (case s of
        c # h # l # rest \<Rightarrow>
          (if c = 0x25 then
             (case ch2x h of Some hi \<Rightarrow> (case ch2x l of Some lo \<Rightarrow> Some (hi, lo) | None \<Rightarrow> None) | None \<Rightarrow> None)
           else None)
      | _ \<Rightarrow> None)"

function canonize_path :: "nat \<Rightarrow> bool \<Rightarrow> byte list \<Rightarrow> byte list" where
  "canonize_path room query [] = []"
| "canonize_path room query (c # s) =
     (if room = 0 then []
      else
        (case escaped (c # s) of
           Some (hi, lo) \<Rightarrow>
             let code = hi * 16 + lo in
             if path_enc_type ! code \<noteq> 0 then
               if 3 < room then percent hi lo @ canonize_path (room - 3) query (drop 2 s) else []
             else of_nat code # canonize_path (room - 1) query (drop 2 s)
         | None \<Rightarrow>
             if c = 0x3F \<and> \<not> query then c # canonize_path (room - 1) True s
             else
               let code = unat c in
               if path_enc_type ! code \<noteq> 0 \<and> \<not> (path_enc_type ! code = 4 \<and> query) then
                 if 3 < room then percent (code div 16) (code mod 16) @ canonize_path (room - 3) query s else []
               else c # canonize_path (room - 1) query s))"
  by pat_completeness auto
termination
  by (relation "measure (\<lambda>(room, query, s). length s)") auto

definition UdmURLCanonizePath :: "nat \<Rightarrow> byte list \<Rightarrow> byte list" where
  "UdmURLCanonizePath dstsize src = canonize_path dstsize False src"

definition UdmURLQueryStringCanonize :: "byte list \<Rightarrow> byte list" where
  "UdmURLQueryStringCanonize src =
     concat (map (\<lambda>c. if query_enc_type ! unat c \<noteq> 0 then percent (unat c div 16) (unat c mod 16) else [c]) src)"

definition UdmURLQueryStringAppend :: "byte list \<Rightarrow> byte list option \<Rightarrow> byte list" where
  "UdmURLQueryStringAppend dst query =
     (case query of Some q \<Rightarrow> dst @ [0x3F] @ UdmURLQueryStringCanonize q | None \<Rightarrow> dst)"

subsection \<open>Normal form of a path\<close>

text \<open>\<open>strchr\<close>: the string before the character and the one behind it.\<close>

definition split_at :: "byte \<Rightarrow> byte list \<Rightarrow> (byte list \<times> byte list) option" where
  "split_at c s = (if c \<in> set s then Some (takeWhile (\<lambda>x. x \<noteq> c) s, tl (dropWhile (\<lambda>x. x \<noteq> c) s)) else None)"

fun strstr :: "byte list \<Rightarrow> byte list \<Rightarrow> nat option" where
  "strstr pat s =
     (if take (length pat) s = pat then Some 0
      else case s of [] \<Rightarrow> None | c # s' \<Rightarrow> map_option Suc (strstr pat s'))"

declare strstr.simps [simp del]

abbreviation slash :: byte where "slash \<equiv> 0x2F"

fun skip_non_slashes :: "byte list \<Rightarrow> nat \<Rightarrow> nat" where
  "skip_non_slashes s 0 = 0"
| "skip_non_slashes s (Suc p) = (if s ! Suc p \<noteq> slash then skip_non_slashes s p else Suc p)"

fun skip_slashes :: "byte list \<Rightarrow> nat \<Rightarrow> nat" where
  "skip_slashes s 0 = 0"
| "skip_slashes s (Suc p) = (if Suc p > 1 \<and> s ! p = slash then skip_slashes s p else Suc p)"

definition cut_dotdot :: "byte list \<Rightarrow> nat \<Rightarrow> byte list" where
  "cut_dotdot s d =
     (let p = (if d > 0 then skip_slashes s (skip_non_slashes s (d - 1)) else 0)
      in take p s @ drop (d + 3) s)"

lemma skip_non_slashes_le: "skip_non_slashes s p \<le> p"
  by (induction p) (simp_all add: le_Suc_eq)

lemma skip_slashes_le: "skip_slashes s p \<le> p"
  by (induction p) (simp_all add: le_Suc_eq)

lemma strstr_Some: "strstr pat s = Some d \<Longrightarrow> d + length pat \<le> length s \<and> take (length pat) (drop d s) = pat"
proof (induction s arbitrary: d)
  case Nil
  then show ?case by (subst (asm) strstr.simps) (auto split: if_splits)
next
  case (Cons c s)
  show ?case
  proof (cases "take (length pat) (c # s) = pat")
    case True
    with Cons.prems have "d = 0" by (subst (asm) strstr.simps) simp
    moreover have "length pat \<le> length (c # s)" using arg_cong [OF True, of length] by (simp only: length_take)
    ultimately show ?thesis using True by (simp only: drop_0 add_0 simp_thms)
  next
    case False
    with Cons.prems obtain d' where "strstr pat s = Some d'" "d = Suc d'" by (subst (asm) strstr.simps) auto
    with Cons.IH show ?thesis by simp
  qed
qed

function remove_dotdot :: "byte list \<Rightarrow> byte list" where
  "remove_dotdot s =
     (case strstr (bstr ''/../'') s of
        Some d \<Rightarrow> remove_dotdot (cut_dotdot s d)
      | None \<Rightarrow> s)"
  by pat_completeness auto
termination
proof (relation "measure length")
  fix s d assume "strstr (bstr ''/../'') s = Some d"
  then have "d + 4 \<le> length s" using strstr_Some [of "bstr ''/../''" s d] by simp
  moreover have "skip_slashes s (skip_non_slashes s (d - 1)) \<le> d"
    using skip_slashes_le [of s "skip_non_slashes s (d - 1)"] skip_non_slashes_le [of s "d - 1"] by simp
  ultimately have "length (cut_dotdot s d) < length s" unfolding cut_dotdot_def Let_def by (auto simp: min_def)
  then show "(cut_dotdot s d, s) \<in> measure length" by simp
qed simp

declare remove_dotdot.simps [simp del]

text \<open>The end \<open>/..\<close>; of the path \<open>/..\<close> itself the byte before the string is read.\<close>

definition remove_last_dotdot :: "byte list \<Rightarrow> byte list option" where
  "remove_last_dotdot s =
     (let n = length s in
      if n > 2 \<and> drop (n - 3) s = bstr ''/..'' then
        if n = 3 then None
        else let d = skip_non_slashes s (n - 4) in Some (if s ! d = slash then take (d + 1) s else [slash])
      else Some s)"

text \<open>All places of a pattern are replaced, always the first one that is left.\<close>

function replace_all :: "byte list \<Rightarrow> byte list \<Rightarrow> byte list \<Rightarrow> byte list" where
  "replace_all pat new s =
     (if length new < length pat then
        (case strstr pat s of
           Some d \<Rightarrow> replace_all pat new (take d s @ new @ drop (d + length pat) s)
         | None \<Rightarrow> s)
      else s)"
  by pat_completeness auto
termination
proof (relation "measure (\<lambda>(pat, new, s). length s)")
  fix pat new s :: "byte list" and d assume "length new < length pat" "strstr pat s = Some d"
  then show "((pat, new, take d s @ new @ drop (d + length pat) s), pat, new, s) \<in> measure (\<lambda>(pat, new, s). length s)"
    using strstr_Some [of pat s d] by (simp, linarith)
qed simp

declare replace_all.simps [simp del]

definition remove_last_dot :: "byte list \<Rightarrow> byte list" where
  "remove_last_dot s =
     (if length s > 2 \<and> drop (length s - 2) s = bstr ''/.'' then butlast s else s)"

definition normalize_path :: "byte list \<Rightarrow> byte list option" where
  "normalize_path s =
     (case remove_last_dotdot (remove_dotdot s) of
        None \<Rightarrow> None
      | Some s \<Rightarrow>
          let s = replace_all (bstr ''/./'') (bstr ''/'') s;
              s = remove_last_dot s;
              s = replace_all (bstr ''//'') (bstr ''/'') s;
              s = replace_all (bstr ''%7E'') (bstr ''~'') s
          in Some s)"

definition UdmURLNormalizePath :: "byte list \<Rightarrow> byte list option" where
  "UdmURLNormalizePath str =
     (let (str, q) = (case split_at 0x3F str of
                        Some (s, q) \<Rightarrow> (s, if q = [] then None else Some q)
                      | None \<Rightarrow> (str, None))
      in case normalize_path str of
           None \<Rightarrow> None
         | Some s \<Rightarrow> Some (case q of Some q \<Rightarrow> s @ [0x3F] @ q | None \<Rightarrow> s))"

subsection \<open>Parsing\<close>

definition is_alnum :: "byte \<Rightarrow> bool" where
  "is_alnum c \<longleftrightarrow> is_digit c \<or> 0x41 \<le> c \<and> c \<le> 0x5A \<or> 0x61 \<le> c \<and> c \<le> 0x7A"

definition schema_char :: "byte \<Rightarrow> bool" where
  "schema_char c \<longleftrightarrow> is_alnum c \<or> c \<in> set (bstr ''+-.'')"

definition find_schema :: "byte list \<Rightarrow> (byte list \<times> byte list) option" where
  "find_schema src =
     (case split_at 0x3A src of
        Some (schema, rest) \<Rightarrow> if \<forall>c \<in> set schema. schema_char c then Some (schema, rest) else None
      | None \<Rightarrow> None)"

definition hostname_ok :: "byte list \<Rightarrow> bool" where
  "hostname_ok s \<longleftrightarrow> (\<forall>c \<in> set s. hostname_valid_characters ! unat c \<noteq> 0)"

text \<open>The name is converted up to the first character that is not valid.\<close>

definition lower_hostname :: "byte list \<Rightarrow> byte list" where
  "lower_hostname s =
     (let valid = (\<lambda>c. hostname_valid_characters ! unat c \<noteq> 0)
      in map ascii_lower (takeWhile valid s) @ dropWhile valid s)"

text \<open>Behind the two slashes: host with an optional path, an optional user and port.\<close>

definition parse_hostinfo :: "byte list \<Rightarrow> udm_url \<Rightarrow> url_rc \<times> udm_url" where
  "parse_hostinfo beg url =
     (let n = length (takeWhile (\<lambda>c. c \<noteq> slash) beg);
          hostinfo = take n beg;
          path = (if n < length beg then drop n beg else [slash]);
          url = url\<lparr>url_path := Some path, url_hostinfo := Some hostinfo\<rparr>;
          (url, host) = (case split_at 0x40 hostinfo of
                           Some (auth, host) \<Rightarrow> (url\<lparr>url_auth := Some auth\<rparr>, host)
                         | None \<Rightarrow> (url, hostinfo));
          (host, port) = (case split_at 0x3A host of
                            Some (host, port) \<Rightarrow> (host, atoi port)
                          | None \<Rightarrow> (host, 0))
      in (if hostname_ok host then UDM_URL_OK else UDM_URL_BAD,
          url\<lparr>url_hostname := Some (lower_hostname host), url_port := port\<rparr>))"

definition parse_nohost :: "byte list \<Rightarrow> byte list \<Rightarrow> udm_url \<Rightarrow> url_rc \<times> udm_url" where
  "parse_nohost schema specific url =
     (if schema \<in> {bstr ''mailto'', bstr ''javascript''} then (UDM_URL_BAD, url)
      else if schema \<in> {bstr ''file'', bstr ''exec'', bstr ''cgi'', bstr ''htdb''} then
        (UDM_URL_OK, url\<lparr>url_path := Some specific\<rparr>)
      else if schema = bstr ''news'' then
        (UDM_URL_OK, url\<lparr>url_hostname := Some (bstr ''localhost''), url_path := Some (slash # specific), url_default_port := 119\<rparr>)
      else (UDM_URL_BAD, url))"

definition parse_schema :: "byte list \<Rightarrow> url_rc \<times> udm_url" where
  "parse_schema src =
     (case find_schema src of
        Some (schema, specific) \<Rightarrow>
          let schema = map ascii_lower schema;
              url = UdmURLInit\<lparr>url_schema := Some schema, url_specific := Some specific,
                               url_default_port := get_default_port schema\<rparr>
          in if take 2 specific = [slash, slash] then parse_hostinfo (drop 2 specific) url
             else parse_nohost schema specific url
      | None \<Rightarrow> (UDM_URL_OK, UdmURLInit\<lparr>url_path := Some src\<rparr>))"

text \<open>The size of the blocks for the path and the file is \<open>newlen\<close>.\<close>

definition newlen :: "byte list \<Rightarrow> nat" where
  "newlen path = 3 * length path + 1"

definition cut_anchor :: "byte list \<Rightarrow> byte list" where
  "cut_anchor path = takeWhile (\<lambda>c. c \<noteq> 0x23) path"

definition cut_query :: "byte list \<Rightarrow> byte list \<times> byte list option" where
  "cut_query path =
     (case split_at 0x3F path of
        Some (path, query) \<Rightarrow> (path, if query = [] then None else Some query)
      | None \<Rightarrow> (path, None))"

text \<open>The file is what is behind the last slash.\<close>

definition split_file :: "byte list \<Rightarrow> byte list \<times> byte list option" where
  "split_file path =
     (let file = rev (takeWhile (\<lambda>c. c \<noteq> slash) (rev path))
      in if slash \<in> set path \<and> file \<noteq> [] then (take (length path - length file) path, Some file) else (path, None))"

definition is_relative :: "byte list \<Rightarrow> bool" where
  "is_relative path \<longleftrightarrow> path \<noteq> [] \<and> hd path \<noteq> slash \<and> first_char (tl path) \<noteq> 0x3A"

definition parse_path :: "byte list \<Rightarrow> udm_url \<Rightarrow> udm_url option" where
  "parse_path url_path_str url =
     (let whole = cut_anchor url_path_str; n = newlen whole; (path, query) = cut_query whole in
      if is_relative path then
        Some (url\<lparr>url_filename := Some (UdmURLQueryStringAppend (if take 2 path = bstr ''./'' then drop 2 path else path) query),
                  url_path := Some []\<rparr>)
      else
        (case UdmURLNormalizePath (UdmURLCanonizePath n path) of
           None \<Rightarrow> None
         | Some path \<Rightarrow>
             let (path, file) = split_file path;
                 file = (if query \<noteq> None \<and> file = None then Some [] else file)
             in Some (url\<lparr>url_filename := map_option (\<lambda>f. UdmURLQueryStringAppend f query) file, url_path := Some path\<rparr>)))"

definition UdmURLParse :: "udm_url \<Rightarrow> byte list \<Rightarrow> (url_rc \<times> udm_url) option" where
  "UdmURLParse url src =
     (case parse_schema src of
        (UDM_URL_OK, url) \<Rightarrow> map_option (\<lambda>url. (UDM_URL_OK, url)) (parse_path (the (url_path url)) url)
      | (UDM_URL_BAD, url) \<Rightarrow> Some (UDM_URL_BAD, url))"

subsection \<open>Canonical form\<close>

text \<open>\<open>snprintf\<close>: the length of the text and the part of it that is written.\<close>

definition snprintf_str :: "nat \<Rightarrow> byte list \<Rightarrow> nat \<times> byte list" where
  "snprintf_str dstsize s = (length s, take (dstsize - 1) s)"

definition str_or :: "byte list \<Rightarrow> byte list option \<Rightarrow> byte list" where
  "str_or d s = (case s of Some s \<Rightarrow> s | None \<Rightarrow> d)"

text \<open>The port is printed to an array of ten bytes.\<close>

definition url_text :: "udm_url \<Rightarrow> byte list option" where
  "url_text url =
     (let schema = str_or [] (url_schema url) in
      if schema \<in> {bstr ''mailto'', bstr ''javascript''} then Some (schema @ bstr '':'' @ str_or [] (url_specific url))
      else if schema = bstr ''htdb'' then
        Some (schema @ bstr '':'' @ str_or [slash] (url_path url) @ str_or [] (url_filename url))
      else
        let show_port = (url_port url \<noteq> 0 \<and> url_port url \<noteq> url_default_port url);
            port = (if show_port then int_str (url_port url) else [])
        in if length port < 10 then
             Some (schema @ bstr ''://'' @ str_or [] (url_auth url) @ (if url_auth url \<noteq> None then [0x40] else []) @
               str_or [] (url_hostname url) @ (if show_port then [0x3A] else []) @ port @
               str_or [slash] (url_path url) @ str_or [] (url_filename url))
           else None)"

definition UdmURLCanonize :: "byte list \<Rightarrow> nat \<Rightarrow> (nat \<times> byte list) option" where
  "UdmURLCanonize src dstsize =
     (case UdmURLParse UdmURLInit src of
        None \<Rightarrow> None
      | Some (rc, url) \<Rightarrow>
          if rc \<noteq> UDM_URL_OK \<or> url_schema url = None then Some (snprintf_str dstsize src)
          else map_option (snprintf_str dstsize) (url_text url))"

subsection \<open>Canonical paths\<close>

lemma lengths [simp]:
  "length path_enc_type = 256" "length query_enc_type = 256" "length hostname_valid_characters = 256" "length hexd = 16"
  by (simp_all add: path_enc_type_def query_enc_type_def hostname_valid_characters_def hexd_def)

lemma ch2x_hexd: "i < 16 \<Longrightarrow> ch2x (hexd ! i) = Some i"
proof -
  have "[0..<16] = [0, 1, 2, 3, 4, 5, 6, 7, 8, 9, 10, 11, 12, 13, 14, 15]" by (simp add: upt_conv_Cons)
  then have "map ch2x hexd = map Some [0..<16]"
    by (simp add: hexd_def bstr_def ch2x_def)
  then show "i < 16 \<Longrightarrow> ch2x (hexd ! i) = Some i" by (simp add: list_eq_iff_nth_eq del: upt_rec_numeral)
qed

lemma ch2x_less: "ch2x c = Some n \<Longrightarrow> n < 16"
proof -
  assume a: "ch2x c = Some n"
  have "0x30 \<le> c \<and> c \<le> 0x39 \<Longrightarrow> 48 \<le> unat c \<and> unat c \<le> 57" "0x61 \<le> c \<and> c \<le> 0x66 \<Longrightarrow> 97 \<le> unat c \<and> unat c \<le> 102"
    "0x41 \<le> c \<and> c \<le> 0x46 \<Longrightarrow> 65 \<le> unat c \<and> unat c \<le> 70"
    by (simp_all add: word_le_nat_alt)
  with a show "n < 16" by (auto simp: ch2x_def split: if_splits)
qed

lemma escaped_percent: "hi < 16 \<Longrightarrow> lo < 16 \<Longrightarrow> escaped (percent hi lo @ t) = Some (hi, lo)"
  by (simp add: escaped_def percent_def ch2x_hexd)

lemma escaped_other: "c \<noteq> 0x25 \<Longrightarrow> escaped (c # s) = None"
  by (auto simp: escaped_def split: list.splits)

lemma escaped_SomeD: "escaped (c # s) = Some (hi, lo) \<Longrightarrow> c = 0x25 \<and> hi < 16 \<and> lo < 16 \<and> 2 \<le> length s"
  by (auto simp: escaped_def ch2x_less split: list.splits if_splits option.splits)

text \<open>The conversion in a buffer that is large enough.\<close>

function canon :: "bool \<Rightarrow> byte list \<Rightarrow> byte list" where
  "canon query [] = []"
| "canon query (c # s) =
     (case escaped (c # s) of
        Some (hi, lo) \<Rightarrow>
          (if path_enc_type ! (hi * 16 + lo) \<noteq> 0 then percent hi lo else [of_nat (hi * 16 + lo)]) @ canon query (drop 2 s)
      | None \<Rightarrow>
          if c = 0x3F \<and> \<not> query then c # canon True s
          else (if path_enc_type ! unat c \<noteq> 0 \<and> \<not> (path_enc_type ! unat c = 4 \<and> query)
                then percent (unat c div 16) (unat c mod 16) else [c]) @ canon query s)"
  by pat_completeness auto
termination
  by (relation "measure (\<lambda>(query, s). length s)") auto

lemma canonize_path_canon: "3 * length s < room \<Longrightarrow> canonize_path room query s = canon query s"
proof (induction query s arbitrary: room rule: canon.induct)
  case (2 query c s)
  show ?case
  proof (cases "escaped (c # s)")
    case None
    with 2 show ?thesis by (auto simp: Let_def)
  next
    case (Some p)
    then obtain hi lo where p: "escaped (c # s) = Some (hi, lo)" by (cases p) auto
    from escaped_SomeD [OF p] have "2 \<le> length s" by simp
    with 2 p show ?thesis by (auto simp: Let_def)
  qed
qed simp

lemma length_percent [simp]: "length (percent hi lo) = 3"
  by (simp add: percent_def)

lemma length_canon: "length (canon query s) \<le> 3 * length s"
proof (induction query s rule: canon.induct)
  case (2 query c s)
  show ?case
  proof (cases "escaped (c # s)")
    case None
    with 2 show ?thesis by (auto simp: Let_def)
  next
    case (Some p)
    then obtain hi lo where p: "escaped (c # s) = Some (hi, lo)" by (cases p) auto
    from escaped_SomeD [OF p] have "2 \<le> length s" by simp
    moreover have "length (canon query (drop 2 s)) \<le> 3 * (length s - 2)" using 2 p by simp
    moreover have "length (canon query (c # s)) \<le> 3 + length (canon query (drop 2 s))" using p by simp
    moreover have "length (c # s) = (length s - 2) + 3" using escaped_SomeD [OF p] by simp
    ultimately show ?thesis by linarith
  qed
qed simp

text \<open>What is between the escapes of a canonical path.\<close>

definition path_char :: "byte \<Rightarrow> bool" where
  "path_char c \<longleftrightarrow> path_enc_type ! unat c = 0 \<or> c = 0x25 \<or> c = 0x3F \<or> c = 0x26"

lemma enc_type_marks: "path_enc_type ! 0x25 = 2" "path_enc_type ! 0x3F = 2" "path_enc_type ! 0x26 = 4" "path_enc_type ! 0x2F = 0"
    "path_enc_type ! 0x23 = 2" "path_enc_type ! 0x7E = 0"
  by (simp_all add: path_enc_type_def)

lemma safe_not_mark:
  assumes "path_enc_type ! n = 0" "n < 256"
  shows "(of_nat n :: byte) \<noteq> 0x25" "(of_nat n :: byte) \<noteq> 0x3F" "unat (of_nat n :: byte) = n"
proof -
  show u: "unat (of_nat n :: byte) = n" using assms(2) by (simp add: unsigned_of_nat take_bit_eq_mod)
  show "(of_nat n :: byte) \<noteq> 0x25" "(of_nat n :: byte) \<noteq> 0x3F"
    using u assms(1) enc_type_marks(1,2) by auto
qed

lemma unat_lt256: "unat (b :: byte) < 256"
  using unsigned_less [of b] by simp

lemma canon_percent:
  assumes "hi < 16" "lo < 16" "path_enc_type ! (hi * 16 + lo) \<noteq> 0"
  shows "canon query (percent hi lo @ t) = percent hi lo @ canon query t"
proof -
  have "escaped (0x25 # hexd ! hi # hexd ! lo # t) = Some (hi, lo)"
    using escaped_percent [OF assms(1,2), of t] by (simp add: percent_def)
  with assms(3) show ?thesis by (simp add: percent_def)
qed

lemma canon_idem: "canon query (canon query s) = canon query s"
proof (induction query s rule: canon.induct)
  case (2 query c s)
  show ?case
  proof (cases "escaped (c # s)")
    case None
    have div: "unat c div 16 < 16" "unat c mod 16 < 16" "unat c div 16 * 16 + unat c mod 16 = unat c"
      using unat_lt256 [of c] by (simp_all add: div_mult_mod_eq less_mult_imp_div_less)
    show ?thesis
    proof (cases "c = 0x3F \<and> \<not> query")
      case True
      with None 2 show ?thesis by (simp add: escaped_other)
    next
      case False
      have IH: "canon query (canon query s) = canon query s" using 2(2) None False by blast
      show ?thesis
      proof (cases "path_enc_type ! unat c \<noteq> 0 \<and> \<not> (path_enc_type ! unat c = 4 \<and> query)")
        case True
        have "canon query (c # s) = percent (unat c div 16) (unat c mod 16) @ canon query s"
          using None True False by auto
        with True IH canon_percent [OF div(1,2)] div(3) show ?thesis by simp
      next
        case safe: False
        then have "c \<noteq> 0x25" using enc_type_marks(1) by auto
        then have "canon query (c # t) = c # canon query t" for t using escaped_other [of c] False safe by auto
        with IH show ?thesis by simp
      qed
    qed
  next
    case (Some p)
    then obtain hi lo where p: "escaped (c # s) = Some (hi, lo)" by (cases p) auto
    from escaped_SomeD [OF p] have b: "hi < 16" "lo < 16" "hi * 16 + lo < 256" by simp_all
    show ?thesis
    proof (cases "path_enc_type ! (hi * 16 + lo) = 0")
      case True
      note s = safe_not_mark [OF True b(3)]
      from p 2 True s show ?thesis by (simp add: escaped_other del: of_nat_add of_nat_mult)
    next
      case False
      with p 2 canon_percent [OF b(1,2)] show ?thesis by simp
    qed
  qed
qed simp

subsection \<open>Paths as segments\<close>

definition path_of :: "byte list list \<Rightarrow> byte list" where
  "path_of segs = concat (map (\<lambda>s. slash # s) segs)"

abbreviation no_slash :: "byte list \<Rightarrow> bool" where
  "no_slash s \<equiv> slash \<notin> set s"

abbreviation dot_seg :: "byte list" where "dot_seg \<equiv> [0x2E]"
abbreviation dotdot_seg :: "byte list" where "dotdot_seg \<equiv> [0x2E, 0x2E]"

lemma path_of_simps [simp]:
  "path_of [] = []" "path_of (s # segs) = slash # s @ path_of segs" "path_of (xs @ ys) = path_of xs @ path_of ys"
  by (simp_all add: path_of_def)

lemma strstr_skip: "no_slash p \<Longrightarrow> strstr (slash # pat) (p @ x) = map_option ((+) (length p)) (strstr (slash # pat) x)"
proof (induction p)
  case Nil
  show ?case by (cases "strstr (slash # pat) x") simp_all
next
  case (Cons c p)
  then have "strstr (slash # pat) ((c # p) @ x) = map_option Suc (strstr (slash # pat) (p @ x))"
    by (subst strstr.simps) simp
  with Cons show ?case by (simp add: option.map_comp comp_def)
qed

text \<open>A segment between two slashes is found where it first occurs.\<close>

lemma seg_match:
  "no_slash p \<Longrightarrow> no_slash q \<Longrightarrow> take (Suc (length q)) (p @ slash # x) = q @ [slash] \<longleftrightarrow> p = q"
  by (induction p arbitrary: q; case_tac q) (auto simp: Cons_eq_append_conv)

lemma seg_match_last: "no_slash p \<Longrightarrow> take n p \<noteq> q @ [slash]"
  using set_take_subset [of n p] by (metis in_set_conv_decomp subsetD)

lemma strstr_seg_Some:
  assumes "\<forall>p \<in> set pre. no_slash p \<and> p \<noteq> q" "no_slash q"
  shows "strstr (slash # q @ [slash]) (path_of pre @ slash # q @ slash # x) = Some (length (path_of pre))"
  using assms(1)
proof (induction pre)
  case Nil
  show ?case by (subst strstr.simps) simp
next
  case (Cons p pre)
  define y where "y = path_of pre @ slash # q @ slash # x"
  obtain z where z: "y = slash # z" by (cases pre) (simp_all add: y_def)
  have "take (length (slash # q @ [slash])) (slash # p @ y) \<noteq> slash # q @ [slash]"
    using seg_match [of p q z] Cons.prems assms(2) z by simp
  then have "strstr (slash # q @ [slash]) (slash # p @ y) = map_option Suc (strstr (slash # q @ [slash]) (p @ y))"
    by (subst strstr.simps) simp
  with Cons show ?case by (simp add: strstr_skip flip: y_def)
qed

lemma strstr_seg_None:
  assumes "\<forall>p \<in> set pre. no_slash p \<and> p \<noteq> q" "no_slash q" "no_slash s"
  shows "strstr (slash # q @ [slash]) (path_of pre @ slash # s) = None"
  using assms(1)
proof (induction pre)
  case Nil
  have "strstr (slash # q @ [slash]) [] = None" by (subst strstr.simps) simp
  then have "strstr (slash # q @ [slash]) (s @ []) = None" using strstr_skip [OF assms(3), of "q @ [slash]" "[]"] by simp
  moreover have "take (length (slash # q @ [slash])) (slash # s) \<noteq> slash # q @ [slash]"
    using seg_match_last [OF assms(3)] by simp
  ultimately show ?case by (subst strstr.simps) simp
next
  case (Cons p pre)
  define y where "y = path_of pre @ slash # s"
  obtain z where z: "y = slash # z" by (cases pre) (simp_all add: y_def)
  have "take (length (slash # q @ [slash])) (slash # p @ y) \<noteq> slash # q @ [slash]"
    using seg_match [of p q z] Cons.prems assms(2) z by simp
  then have "strstr (slash # q @ [slash]) (slash # p @ y) = map_option Suc (strstr (slash # q @ [slash]) (p @ y))"
    by (subst strstr.simps) simp
  with Cons show ?case by (simp add: strstr_skip flip: y_def)
qed

lemma skip_to_slash: "no_slash s \<Longrightarrow> skip_non_slashes (a @ slash # s @ x) (length a + length s) = length a"
proof (induction s arbitrary: x rule: rev_induct)
  case Nil
  show ?case by (cases "length a") (simp_all add: nth_append)
next
  case (snoc c s)
  have "(a @ slash # (s @ [c]) @ x) ! Suc (length a + length s) = c" by (simp add: nth_append)
  with snoc show ?case by simp
qed

text \<open>The segment before \<open>/../\<close> is cut out with it, if there is one.\<close>

lemma cut_dotdot_seg:
  assumes "\<forall>p \<in> set pre. no_slash p \<and> p \<noteq> []"
  shows "cut_dotdot (path_of pre @ slash # dotdot_seg @ slash # x) (length (path_of pre)) = path_of (butlast pre) @ slash # x"
proof (cases pre rule: rev_cases)
  case Nil
  then show ?thesis by (simp add: cut_dotdot_def)
next
  case (snoc ini s)
  define a where "a = path_of ini"
  define t where "t = slash # dotdot_seg @ slash # x"
  have s: "no_slash s" "s \<noteq> []" using assms snoc by auto
  have drop4: "drop (4 + length s) (slash # s @ y) = drop 3 y" for y
  proof -
    have "4 + length s = Suc (length s + 3)" by simp
    then show ?thesis by (simp only: drop_Suc_Cons drop_append) simp
  qed
  have whole: "path_of pre @ t = a @ slash # s @ t" by (simp add: snoc a_def)
  have "skip_non_slashes (a @ slash # s @ t) (length a + length s) = length a" by (rule skip_to_slash [OF s(1)])
  moreover have "skip_slashes (a @ slash # s @ t) (length a) = length a"
  proof (cases ini rule: rev_cases)
    case Nil
    then show ?thesis by (simp add: a_def)
  next
    case (snoc ini' r)
    then have r: "no_slash r" "r \<noteq> []" using assms \<open>pre = ini @ [s]\<close> by auto
    then have "last r \<noteq> slash" using last_in_set [of r] by metis
    with r have "last a \<noteq> slash" "a \<noteq> []" using snoc by (auto simp: a_def)
    then have "(a @ slash # s @ t) ! (length a - 1) \<noteq> slash" by (simp add: nth_append last_conv_nth)
    then show ?thesis using \<open>a \<noteq> []\<close> by (cases "length a") simp_all
  qed
  ultimately show ?thesis
    unfolding cut_dotdot_def Let_def using snoc whole drop4 by (simp add: a_def t_def)
qed

lemma set_tlD: "x \<in> set (tl xs) \<Longrightarrow> x \<in> set xs"
  by (cases xs) simp_all

lemma last_slash_unique:
  assumes "a @ slash # s = b @ slash # t" "no_slash s" "no_slash t"
  shows "a = b" "s = t"
proof -
  have "rev (takeWhile (\<lambda>c. c \<noteq> slash) (rev (u @ slash # v))) = v" if "no_slash v" for u v
    using that by (simp add: takeWhile_append)
  with assms show "s = t" by metis
  with assms(1) show "a = b" by simp
qed

text \<open>What the code makes of the segments: a segment \<open>..\<close> removes the segment before it; only then
  the segments \<open>.\<close> are dropped.\<close>

fun resolve :: "byte list list \<Rightarrow> byte list list \<Rightarrow> byte list list" where
  "resolve st [] = rev st"
| "resolve st [s] = rev (s # st)"
| "resolve st (s # t # segs) = (if s = dotdot_seg then resolve (tl st) (t # segs) else resolve (s # st) (t # segs))"

definition resolve_last :: "byte list list \<Rightarrow> byte list list option" where
  "resolve_last segs =
     (if last segs = dotdot_seg then (if length segs = 1 then None else Some (butlast (butlast segs) @ [[]])) else Some segs)"

definition drop_dots :: "byte list list \<Rightarrow> byte list list" where
  "drop_dots segs =
     (let segs = filter (\<lambda>s. s \<noteq> dot_seg) (butlast segs) @ [last segs]
      in if last segs = dot_seg \<and> length segs > 1 then butlast segs @ [[]] else segs)"

definition proper_segs :: "byte list list \<Rightarrow> bool" where
  "proper_segs segs \<longleftrightarrow> segs \<noteq> [] \<and> (\<forall>s \<in> set segs. no_slash s) \<and> [] \<notin> set (butlast segs)"

lemma remove_dotdot_segs:
  assumes "\<forall>s \<in> set st. no_slash s \<and> s \<noteq> [] \<and> s \<noteq> dotdot_seg" "\<forall>s \<in> set segs. no_slash s" "[] \<notin> set (butlast segs)" "segs \<noteq> []"
  shows "remove_dotdot (path_of (rev st @ segs)) = path_of (resolve st segs)"
  using assms
proof (induction st segs rule: resolve.induct)
  case (2 st s)
  then have "strstr (bstr ''/../'') (path_of (rev st) @ slash # s) = None"
    using strstr_seg_None [of "rev st" dotdot_seg s] by (simp add: bstr_def)
  then show ?case by (subst remove_dotdot.simps) simp
next
  case (3 st s t segs)
  show ?case
  proof (cases "s = dotdot_seg")
    case True
    obtain x where x: "path_of (t # segs) = slash # x" by simp
    have pre: "\<forall>p \<in> set (rev st). no_slash p \<and> p \<noteq> dotdot_seg" "\<forall>p \<in> set (rev st). no_slash p \<and> p \<noteq> []" using 3(3) by auto
    have "strstr (bstr ''/../'') (path_of (rev st) @ slash # dotdot_seg @ slash # x) = Some (length (path_of (rev st)))"
      using strstr_seg_Some [OF pre(1), of x] by (simp add: bstr_def)
    moreover have "path_of (rev st @ s # t # segs) = path_of (rev st) @ slash # dotdot_seg @ slash # x"
      using x True by simp
    moreover have "butlast (rev st) = rev (tl st)" by (cases st) simp_all
    ultimately have "remove_dotdot (path_of (rev st @ s # t # segs)) = remove_dotdot (path_of (rev (tl st) @ t # segs))"
      using cut_dotdot_seg [OF pre(2), of x] x by (subst remove_dotdot.simps) simp
    moreover have "remove_dotdot (path_of (rev (tl st) @ t # segs)) = path_of (resolve (tl st) (t # segs))"
      by (rule 3(1) [OF True]) (use 3(3-) in \<open>auto dest: set_tlD split: if_splits\<close>)
    ultimately show ?thesis using True by simp
  next
    case False
    have "remove_dotdot (path_of (rev (s # st) @ t # segs)) = path_of (resolve (s # st) (t # segs))"
      by (rule 3(2) [OF False]) (use 3(3-) False in \<open>auto split: if_splits\<close>)
    with False show ?thesis by simp
  qed
qed simp

lemma resolve_proper:
  assumes "\<forall>s \<in> set st. no_slash s \<and> s \<noteq> []" "\<forall>s \<in> set segs. no_slash s" "[] \<notin> set (butlast segs)" "segs \<noteq> []"
  shows "proper_segs (resolve st segs)"
  using assms
proof (induction st segs rule: resolve.induct)
  case (3 st s t segs)
  then show ?case by (auto dest: set_tlD split: if_splits)
qed (auto simp: proper_segs_def)

lemma remove_last_dotdot_segs:
  assumes "proper_segs segs"
  shows "remove_last_dotdot (path_of segs) = map_option path_of (resolve_last segs)"
proof -
  define ini s where "ini = butlast segs" and "s = last segs"
  have segs: "segs = ini @ [s]" "no_slash s" using assms by (auto simp: ini_def s_def proper_segs_def)
  show ?thesis
  proof (cases "s = dotdot_seg")
    case True
    show ?thesis
    proof (cases ini rule: rev_cases)
      case Nil
      with True segs show ?thesis by (simp add: remove_last_dotdot_def resolve_last_def bstr_def)
    next
      case (snoc ini' r)
      then have r: "no_slash r" using assms segs by (auto simp: proper_segs_def)
      have p: "path_of segs = path_of ini' @ slash # r @ (slash # dotdot_seg)" using segs True snoc by simp
      have "length (path_of segs) - 4 = length (path_of ini') + length r" "length (path_of segs) > 3" by (simp_all add: p)
      with skip_to_slash [OF r, of "path_of ini'" "slash # dotdot_seg"] True segs snoc show ?thesis
        by (simp add: remove_last_dotdot_def resolve_last_def p bstr_def Let_def nth_append butlast_append)
    qed
  next
    case False
    have "\<not> (length (path_of segs) > 2 \<and> drop (length (path_of segs) - 3) (path_of segs) = bstr ''/..'')"
    proof
      assume a: "length (path_of segs) > 2 \<and> drop (length (path_of segs) - 3) (path_of segs) = bstr ''/..''"
      then obtain b where "path_of segs = b @ bstr ''/..''" by (metis append_take_drop_id)
      then have "path_of ini @ slash # s = b @ slash # dotdot_seg" using segs by (simp add: bstr_def)
      then have "s = dotdot_seg" by (rule last_slash_unique(2)) (use segs in simp_all)
      with False show False by simp
    qed
    then have "remove_last_dotdot (path_of segs) = Some (path_of segs)"
      unfolding remove_last_dotdot_def Let_def by (simp only: if_False)
    with False segs show ?thesis by (simp add: resolve_last_def)
  qed
qed

lemma replace_all_None: "strstr pat s = None \<Longrightarrow> replace_all pat new s = s"
  by (subst replace_all.simps) simp

lemma replace_slash_dot_slash:
  assumes "\<forall>s \<in> set pre. no_slash s \<and> s \<noteq> dot_seg" "\<forall>s \<in> set segs. no_slash s" "segs \<noteq> []"
  shows "replace_all (bstr ''/./'') (bstr ''/'') (path_of (pre @ segs)) =
    path_of (pre @ filter (\<lambda>s. s \<noteq> dot_seg) (butlast segs) @ [last segs])"
  using assms
proof (induction segs arbitrary: pre rule: induct_list012)
  case (2 s)
  then have "strstr (bstr ''/./'') (path_of (pre @ [s])) = None"
    using strstr_seg_None [of pre dot_seg s] by (simp add: bstr_def)
  then show ?case by (simp add: replace_all_None)
next
  case (3 s t segs)
  show ?case
  proof (cases "s = dot_seg")
    case True
    have "strstr (bstr ''/./'') (path_of (pre @ s # t # segs)) = Some (length (path_of pre))"
      using strstr_seg_Some [OF 3(3), of "t @ path_of segs"] True by (simp add: bstr_def)
    then have "replace_all (bstr ''/./'') (bstr ''/'') (path_of (pre @ s # t # segs)) =
        replace_all (bstr ''/./'') (bstr ''/'') (path_of (pre @ t # segs))"
      using True by (subst replace_all.simps) (simp add: bstr_def)
    then show ?thesis using 3(2) [of pre] 3(3-) True by simp
  next
    case False
    then show ?thesis using 3(2) [of "pre @ [s]"] 3(3-) by simp
  qed
qed simp

lemma remove_last_dot_segs:
  assumes "\<forall>s \<in> set segs. no_slash s" "segs \<noteq> []"
  shows "remove_last_dot (path_of segs) = path_of (if last segs = dot_seg \<and> length segs > 1 then butlast segs @ [[]] else segs)"
proof -
  define ini s where "ini = butlast segs" and "s = last segs"
  have segs: "segs = ini @ [s]" "no_slash s" using assms by (auto simp: ini_def s_def)
  show ?thesis
  proof (cases "s = dot_seg")
    case True
    then show ?thesis using segs
      by (cases ini) (simp_all add: remove_last_dot_def bstr_def butlast_append)
  next
    case False
    have "\<not> (length (path_of segs) > 2 \<and> drop (length (path_of segs) - 2) (path_of segs) = bstr ''/.'')"
    proof
      assume a: "length (path_of segs) > 2 \<and> drop (length (path_of segs) - 2) (path_of segs) = bstr ''/.''"
      then obtain b where "path_of segs = b @ bstr ''/.''" by (metis append_take_drop_id)
      then have "path_of ini @ slash # s = b @ slash # dot_seg" using segs by (simp add: bstr_def)
      then have "s = dot_seg" by (rule last_slash_unique(2)) (use segs in simp_all)
      with False show False by simp
    qed
    then have "remove_last_dot (path_of segs) = path_of segs" unfolding remove_last_dot_def by (simp only: if_False)
    with False segs show ?thesis by simp
  qed
qed

lemma no_double_slash:
  assumes "proper_segs segs"
  shows "replace_all (bstr ''//'') (bstr ''/'') (path_of segs) = path_of segs"
proof -
  define ini s where "ini = butlast segs" and "s = last segs"
  have segs: "segs = ini @ [s]" "no_slash s" using assms by (auto simp: ini_def s_def proper_segs_def)
  moreover have "\<forall>p \<in> set ini. no_slash p \<and> p \<noteq> []" using assms segs by (auto simp: proper_segs_def)
  ultimately have "strstr (bstr ''//'') (path_of segs) = None"
    using strstr_seg_None [of ini "[]" s] by (simp add: bstr_def)
  then show ?thesis by (rule replace_all_None)
qed

lemma drop_dots_proper:
  assumes "proper_segs segs"
  shows "proper_segs (drop_dots segs)"
  using assms by (cases segs rule: rev_cases) (auto simp: drop_dots_def proper_segs_def Let_def butlast_append)

lemma set_butlast2: "x \<in> set (butlast (butlast xs)) \<Longrightarrow> x \<in> set xs"
  by (rule in_set_butlastD [OF in_set_butlastD])

lemma resolve_last_proper: "proper_segs segs \<Longrightarrow> resolve_last segs = Some r \<Longrightarrow> proper_segs r"
  using set_butlast2 [of _ segs] in_set_butlastD [of _ "butlast segs"] by (auto simp: resolve_last_def proper_segs_def split: if_splits)

abbreviation tilde :: "byte list \<Rightarrow> byte list" where
  "tilde \<equiv> replace_all (bstr ''%7E'') (bstr ''~'')"

lemma UdmURLNormalizePath_segs:
  assumes "proper_segs segs" "0x3F \<notin> set (path_of segs)"
  shows "UdmURLNormalizePath (path_of segs) =
    map_option (\<lambda>r. tilde (path_of (drop_dots r))) (resolve_last (resolve [] segs))"
proof -
  have p: "proper_segs (resolve [] segs)" using assms(1) by (intro resolve_proper) (auto simp: proper_segs_def)
  have "remove_dotdot (path_of segs) = path_of (resolve [] segs)"
    using remove_dotdot_segs [of "[]" segs] assms(1) by (simp add: proper_segs_def)
  with p have l: "remove_last_dotdot (remove_dotdot (path_of segs)) = map_option path_of (resolve_last (resolve [] segs))"
    by (simp add: remove_last_dotdot_segs)
  have "UdmURLNormalizePath (path_of segs) = normalize_path (path_of segs)"
    using assms(2) by (simp add: UdmURLNormalizePath_def split_at_def split: option.splits)
  also have "\<dots> = map_option (\<lambda>r. tilde (path_of (drop_dots r))) (resolve_last (resolve [] segs))"
  proof (cases "resolve_last (resolve [] segs)")
    case None
    with l show ?thesis by (simp add: normalize_path_def)
  next
    case (Some r)
    have r: "proper_segs r" by (rule resolve_last_proper [OF p Some])
    define f where "f = filter (\<lambda>s. s \<noteq> dot_seg) (butlast r) @ [last r]"
    have "replace_all (bstr ''/./'') (bstr ''/'') (path_of r) = path_of f"
      using replace_slash_dot_slash [of "[]" r] r by (simp add: proper_segs_def f_def)
    moreover have "remove_last_dot (path_of f) = path_of (drop_dots r)"
      using r by (subst remove_last_dot_segs) (auto simp: f_def drop_dots_def proper_segs_def Let_def dest: in_set_butlastD)
    moreover have "replace_all (bstr ''//'') (bstr ''/'') (path_of (drop_dots r)) = path_of (drop_dots r)"
      by (rule no_double_slash [OF drop_dots_proper [OF r]])
    ultimately show ?thesis using l Some by (simp add: normalize_path_def)
  qed
  finally show ?thesis .
qed

text \<open>The removal of dot segments of RFC 3986 (section 5.2.4) on the segments of a path.\<close>

fun rfc_remove_dots :: "byte list list \<Rightarrow> byte list list \<Rightarrow> byte list list" where
  "rfc_remove_dots st [] = rev st"
| "rfc_remove_dots st [s] =
     (if s = dot_seg then rev ([] # st) else if s = dotdot_seg then rev ([] # tl st) else rev (s # st))"
| "rfc_remove_dots st (s # t # segs) =
     (if s = dot_seg then rfc_remove_dots st (t # segs)
      else if s = dotdot_seg then rfc_remove_dots (tl st) (t # segs)
      else rfc_remove_dots (s # st) (t # segs))"

lemma resolve_rfc:
  assumes "dot_seg \<notin> set segs" "segs \<noteq> []" "dotdot_seg \<notin> set st" "dot_seg \<notin> set st"
  shows "resolve_last (resolve st segs) = (if resolve st segs = [dotdot_seg] then None else Some (rfc_remove_dots st segs)) \<and>
    dot_seg \<notin> set (rfc_remove_dots st segs)"
  using assms
proof (induction st segs rule: resolve.induct)
  case (2 st s)
  then show ?case by (cases st) (auto simp: resolve_last_def butlast_append)
next
  case (3 st s t segs)
  then have nt: "dotdot_seg \<notin> set (tl st)" "dot_seg \<notin> set (tl st)" using set_tlD [of _ st] by blast+
  have s: "s \<noteq> dot_seg" "dot_seg \<notin> set (t # segs)" using 3(3) by auto
  define st' where "st' = (if s = dotdot_seg then tl st else s # st)"
  have e: "resolve st (s # t # segs) = resolve st' (t # segs)" "rfc_remove_dots st (s # t # segs) = rfc_remove_dots st' (t # segs)"
    using s(1) by (simp_all add: st'_def)
  have "dotdot_seg \<notin> set st'" "dot_seg \<notin> set st'" using nt s(1) 3(5,6) by (auto simp: st'_def)
  then have IH: "resolve_last (resolve st' (t # segs)) =
      (if resolve st' (t # segs) = [dotdot_seg] then None else Some (rfc_remove_dots st' (t # segs))) \<and>
      dot_seg \<notin> set (rfc_remove_dots st' (t # segs))"
  proof (cases "s = dotdot_seg")
    case True
    then have "st' = tl st" by (simp add: st'_def)
    then show ?thesis using 3(1) [OF True s(2)] nt by blast
  next
    case False
    then have "st' = s # st" by (simp add: st'_def)
    then show ?thesis using 3(2) [OF False s(2)] \<open>dotdot_seg \<notin> set st'\<close> \<open>dot_seg \<notin> set st'\<close> by blast
  qed
  show ?case unfolding e by (rule IH)
qed simp

lemma drop_dots_id: "segs \<noteq> [] \<Longrightarrow> dot_seg \<notin> set segs \<Longrightarrow> drop_dots segs = segs"
  by (cases segs rule: rev_cases) (auto simp: drop_dots_def Let_def filter_id_conv)

lemma rfc_nonempty: "segs \<noteq> [] \<Longrightarrow> rfc_remove_dots st segs \<noteq> []"
  by (induction st segs rule: rfc_remove_dots.induct) auto

text \<open>
  C15. A path of segments none of which is empty (but perhaps the last one) or a single dot is
  normalized as RFC 3986 says, except when nothing but \<open>/..\<close> is left: then the byte before
  the path is read.
\<close>

theorem UdmURLNormalizePath_rfc:
  assumes "proper_segs segs" "0x3F \<notin> set (path_of segs)" "dot_seg \<notin> set segs"
  shows "UdmURLNormalizePath (path_of segs) =
    (if resolve [] segs = [dotdot_seg] then None else Some (tilde (path_of (rfc_remove_dots [] segs))))"
proof -
  have "segs \<noteq> []" using assms(1) by (simp add: proper_segs_def)
  with resolve_rfc [OF assms(3), of "[]"] have "resolve_last (resolve [] segs) =
      (if resolve [] segs = [dotdot_seg] then None else Some (rfc_remove_dots [] segs))" "dot_seg \<notin> set (rfc_remove_dots [] segs)"
    by simp_all
  with UdmURLNormalizePath_segs [OF assms(1,2)] drop_dots_id rfc_nonempty [OF \<open>segs \<noteq> []\<close>] show ?thesis by simp
qed

theorem UdmURLNormalizePath_rfc_witness:
  "UdmURLNormalizePath (path_of [bstr ''a'', bstr ''b'', dotdot_seg, bstr ''c.html'']) =
    (if resolve [] [bstr ''a'', bstr ''b'', dotdot_seg, bstr ''c.html''] = [dotdot_seg] then None
     else Some (tilde (path_of (rfc_remove_dots [] [bstr ''a'', bstr ''b'', dotdot_seg, bstr ''c.html'']))))"
  by (rule UdmURLNormalizePath_rfc) (simp_all add: proper_segs_def bstr_def)

text \<open>
  C40. Where the normal form is not that of RFC 3986: a segment \<open>.\<close> before \<open>..\<close> is removed in place
  of the directory before it, the path \<open>/.\<close> is kept, and of the path \<open>/..\<close> the byte before the
  string is read.
\<close>

theorem UdmURLNormalizePath_not_rfc:
  assumes "proper_segs [a, b]" "{dot_seg, dotdot_seg} \<inter> {a, b} = {}" "0x3F \<notin> set a \<union> set b"
  shows "UdmURLNormalizePath (path_of [a, dot_seg, dotdot_seg, b]) = Some (tilde (path_of [a, b])) \<and>
    rfc_remove_dots [] [a, dot_seg, dotdot_seg, b] = [b] \<and>
    UdmURLNormalizePath (bstr ''/.'') = Some (bstr ''/.'') \<and> UdmURLNormalizePath (bstr ''/..'') = None"
proof -
  have "UdmURLNormalizePath (path_of [a, dot_seg, dotdot_seg, b]) = Some (tilde (path_of [a, b]))"
    using assms by (subst UdmURLNormalizePath_segs) (auto simp: proper_segs_def resolve_last_def drop_dots_def)
  moreover have "UdmURLNormalizePath (path_of [dotdot_seg]) = None"
    by (subst UdmURLNormalizePath_segs) (simp_all add: proper_segs_def resolve_last_def)
  moreover have "UdmURLNormalizePath (path_of [dot_seg]) = Some (tilde (path_of [dot_seg]))"
    by (subst UdmURLNormalizePath_segs) (simp_all add: proper_segs_def resolve_last_def drop_dots_def)
  moreover have "tilde (path_of [dot_seg]) = path_of [dot_seg]"
    by (rule replace_all_None) (simp add: strstr.simps bstr_def)
  ultimately show ?thesis using assms by (simp add: bstr_def)
qed

theorem UdmURLNormalizePath_not_rfc_witness:
  "UdmURLNormalizePath (path_of [bstr ''a'', dot_seg, dotdot_seg, bstr ''b'']) = Some (tilde (path_of [bstr ''a'', bstr ''b''])) \<and>
    rfc_remove_dots [] [bstr ''a'', dot_seg, dotdot_seg, bstr ''b''] = [bstr ''b''] \<and>
    UdmURLNormalizePath (bstr ''/.'') = Some (bstr ''/.'') \<and> UdmURLNormalizePath (bstr ''/..'') = None"
  by (rule UdmURLNormalizePath_not_rfc) (simp_all add: proper_segs_def bstr_def)

subsection \<open>The blocks for the path and the file are large enough\<close>

lemma cut_dotdot_length: "strstr (bstr ''/../'') s = Some d \<Longrightarrow> length (cut_dotdot s d) \<le> length s"
  using strstr_Some [of "bstr ''/../''" s d] skip_slashes_le [of s "skip_non_slashes s (d - 1)"] skip_non_slashes_le [of s "d - 1"]
  by (auto simp: cut_dotdot_def Let_def min_def)

lemma remove_dotdot_length: "length (remove_dotdot s) \<le> length s"
proof (induction s rule: remove_dotdot.induct)
  case (1 s)
  then show ?case using cut_dotdot_length [of s]
    by (subst remove_dotdot.simps) (auto split: option.splits intro: order_trans)
qed

lemma replace_all_length: "length (replace_all pat new s) \<le> length s"
proof (induction pat new s rule: replace_all.induct)
  case (1 pat new s)
  show ?case
  proof (cases "length new < length pat")
    case True
    show ?thesis
    proof (cases "strstr pat s")
      case (Some d)
      with 1 [OF True Some] strstr_Some [OF Some] True show ?thesis by (subst replace_all.simps) simp
    qed (subst replace_all.simps, simp)
  qed (subst replace_all.simps, simp)
qed

lemma normalize_path_length:
  assumes "normalize_path s = Some r"
  shows "length r \<le> length s"
proof -
  obtain t where t: "remove_last_dotdot (remove_dotdot s) = Some t" using assms by (auto simp: normalize_path_def split: option.splits)
  have "length t \<le> length (remove_dotdot s)" using t by (auto simp: remove_last_dotdot_def Let_def split: if_splits)
  moreover have "length (remove_last_dot u) \<le> length u" for u by (simp add: remove_last_dot_def)
  moreover have "r = tilde (replace_all (bstr ''//'') (bstr ''/'') (remove_last_dot (replace_all (bstr ''/./'') (bstr ''/'') t)))"
    using assms t by (simp add: normalize_path_def Let_def)
  ultimately have "length r \<le> length t"
    using replace_all_length [of "bstr ''/./''" "bstr ''/''" t] by (simp del: length_bstr) (meson le_trans replace_all_length)
  with \<open>length t \<le> length (remove_dotdot s)\<close> remove_dotdot_length [of s] show ?thesis by linarith
qed

lemma split_at_append: "c \<notin> set a \<Longrightarrow> split_at c (a @ c # b) = Some (a, b)"
  by (induction a) (auto simp: split_at_def)

lemma split_at_SomeD:
  assumes "split_at c s = Some (a, b)"
  shows "s = a @ c # b \<and> c \<notin> set a"
proof -
  have "c \<in> set s" using assms by (simp add: split_at_def split: if_splits)
  then obtain a' b' where s: "s = a' @ c # b'" "c \<notin> set a'" by (metis split_list_first)
  with assms split_at_append [OF s(2), of b'] show ?thesis by simp
qed

lemma split_at_None: "c \<notin> set s \<Longrightarrow> split_at c s = None"
  by (simp add: split_at_def)

lemma UdmURLNormalizePath_length:
  assumes "UdmURLNormalizePath s = Some r"
  shows "length r \<le> length s"
proof (cases "split_at 0x3F s")
  case None
  with assms show ?thesis by (auto simp: UdmURLNormalizePath_def dest: normalize_path_length split: option.splits)
next
  case (Some p)
  then obtain a b where p: "split_at 0x3F s = Some (a, b)" by (cases p) auto
  from split_at_SomeD [OF p] have "length s = length a + 1 + length b" by simp
  with assms p show ?thesis by (auto simp: UdmURLNormalizePath_def dest!: normalize_path_length split: option.splits if_splits)
qed

lemma length_query: "length (UdmURLQueryStringCanonize q) \<le> 3 * length q"
  by (induction q) (auto simp: UdmURLQueryStringCanonize_def)

lemma length_append: "length (UdmURLQueryStringAppend dst query) \<le> length dst + (case query of Some q \<Rightarrow> 1 + 3 * length q | None \<Rightarrow> 0)"
  using length_query by (simp add: UdmURLQueryStringAppend_def split: option.splits)

lemma cut_query_length: "cut_query whole = (path, query) \<Longrightarrow>
    length path + (case query of Some q \<Rightarrow> 1 + length q | None \<Rightarrow> 0) \<le> length whole"
  by (auto simp: cut_query_def dest!: split_at_SomeD split: option.splits if_splits)

lemma split_file_length: "split_file path = (p, Some f) \<Longrightarrow> length f \<le> length path"
  using length_takeWhile_le [of "\<lambda>c. c \<noteq> slash" "rev path"] by (auto simp: split_file_def Let_def split: if_splits)

text \<open>
  C39. What is copied and appended to the block of the file name, with the zero that closes it,
  fits into it: the block has three bytes for each byte of the path without its anchor, and one more.
\<close>

theorem parse_path_fits:
  assumes "parse_path p url = Some url'" "url_filename url = None" "url_filename url' = Some f"
  shows "length f < newlen (cut_anchor p)"
proof -
  define whole where "whole = cut_anchor p"
  obtain path query where q: "cut_query whole = (path, query)" by (cases "cut_query whole") auto
  have l: "length path + (case query of Some q \<Rightarrow> 1 + length q | None \<Rightarrow> 0) \<le> length whole" by (rule cut_query_length [OF q])
  have "\<exists>g. f = UdmURLQueryStringAppend g query \<and> length g \<le> 3 * length path"
  proof (cases "is_relative path")
    case True
    with assms q show ?thesis
      by (intro exI [of _ "if take 2 path = bstr ''./'' then drop 2 path else path"]) (auto simp: parse_path_def Let_def simp flip: whole_def)
  next
    case False
    with assms(1) q obtain r where r: "UdmURLNormalizePath (UdmURLCanonizePath (newlen whole) path) = Some r"
      by (auto simp: parse_path_def Let_def simp flip: whole_def split: option.splits)
    obtain d fl where sf: "split_file r = (d, fl)" by (cases "split_file r") auto
    have "3 * length path < newlen whole" using l by (simp add: newlen_def split: option.splits)
    then have "length r \<le> 3 * length path"
      using UdmURLNormalizePath_length [OF r] length_canon [of False path]
      by (simp add: UdmURLCanonizePath_def canonize_path_canon)
    moreover have "length g \<le> length r" if "fl = Some g" for g using split_file_length [of r d g] sf that by simp
    ultimately show ?thesis using assms False q r sf
      by (cases fl; cases query) (auto simp: parse_path_def Let_def simp flip: whole_def)
  qed
  then obtain g where g: "f = UdmURLQueryStringAppend g query" "length g \<le> 3 * length path" by blast
  then show ?thesis using l length_append [of g query]
    by (cases query) (simp_all add: newlen_def flip: whole_def)
qed

subsection \<open>Addresses in canonical form\<close>

lemma length_digits_ge: "10 ^ k \<le> n \<Longrightarrow> k < length (digits n)"
proof (induction k arbitrary: n)
  case 0
  then show ?case by simp
next
  case (Suc k)
  then have "\<not> n < 10" "10 ^ k \<le> n div 10" by (simp_all add: less_eq_div_iff_mult_less_eq mult.commute)
    (metis One_nat_def Suc_leI le_trans mult_le_mono2 nat_mult_1_right not_less one_le_numeral one_le_power zero_less_power zero_less_numeral)
  with Suc.IH show ?case by (subst digits.simps) simp
qed

text \<open>The parts of an address: they are such that parsing has nothing to convert.\<close>

record url_parts =
  up_schema :: "byte list"
  up_auth :: "byte list option"
  up_host :: "byte list"
  up_port :: int
  up_dirs :: "byte list list"
  up_name :: "byte list"
  up_query :: "byte list option"

definition safe_seg :: "byte list \<Rightarrow> bool" where
  "safe_seg s \<longleftrightarrow> no_slash s \<and> (\<forall>c \<in> set s. path_enc_type ! unat c = 0) \<and> s \<noteq> dot_seg \<and> s \<noteq> dotdot_seg"

definition canonical_parts :: "url_parts \<Rightarrow> bool" where
  "canonical_parts p \<longleftrightarrow>
     (\<forall>c \<in> set (up_schema p). schema_char c) \<and> map ascii_lower (up_schema p) = up_schema p \<and>
     up_schema p \<notin> {bstr ''mailto'', bstr ''javascript'', bstr ''htdb''} \<and>
     (\<forall>a. up_auth p = Some a \<longrightarrow> no_slash a \<and> 0x40 \<notin> set a) \<and>
     hostname_ok (up_host p) \<and> map ascii_lower (up_host p) = up_host p \<and>
     0 \<le> up_port p \<and> up_port p < 2 ^ 31 \<and> (up_port p = 0 \<or> up_port p \<noteq> get_default_port (up_schema p)) \<and>
     (\<forall>s \<in> set (up_dirs p). safe_seg s \<and> s \<noteq> []) \<and> safe_seg (up_name p) \<and>
     (\<forall>q. up_query p = Some q \<longrightarrow> q \<noteq> [] \<and> (\<forall>c \<in> set q. query_enc_type ! unat c = 0 \<and> c \<noteq> 0x23))"

definition parts_hostinfo :: "url_parts \<Rightarrow> byte list" where
  "parts_hostinfo p =
     (case up_auth p of Some a \<Rightarrow> a @ [0x40] | None \<Rightarrow> []) @ up_host p @
     (if up_port p \<noteq> 0 then 0x3A # int_str (up_port p) else [])"

definition parts_path :: "url_parts \<Rightarrow> byte list" where
  "parts_path p = path_of (up_dirs p @ [[]])"

definition parts_file :: "url_parts \<Rightarrow> byte list" where
  "parts_file p = up_name p @ (case up_query p of Some q \<Rightarrow> 0x3F # q | None \<Rightarrow> [])"

definition parts_text :: "url_parts \<Rightarrow> byte list" where
  "parts_text p = up_schema p @ bstr ''://'' @ parts_hostinfo p @ parts_path p @ parts_file p"

definition parts_url :: "url_parts \<Rightarrow> udm_url" where
  "parts_url p = UdmURLInit\<lparr>url_schema := Some (up_schema p),
     url_specific := Some (bstr ''//'' @ parts_hostinfo p @ parts_path p @ parts_file p),
     url_hostinfo := Some (parts_hostinfo p), url_auth := up_auth p, url_hostname := Some (up_host p),
     url_path := Some (parts_path p), url_filename := (if parts_file p = [] then None else Some (parts_file p)),
     url_port := up_port p, url_default_port := get_default_port (up_schema p)\<rparr>"

lemma host_marks: "hostname_valid_characters ! 0x2F = 0" "hostname_valid_characters ! 0x40 = 0" "hostname_valid_characters ! 0x3A = 0"
  by (simp_all add: hostname_valid_characters_def)

lemma host_no_marks: "hostname_ok h \<Longrightarrow> slash \<notin> set h \<and> 0x40 \<notin> set h \<and> 0x3A \<notin> set h"
  using host_marks by (auto simp: hostname_ok_def)

lemma lower_hostname_id: "hostname_ok h \<Longrightarrow> map ascii_lower h = h \<Longrightarrow> lower_hostname h = h"
  by (simp add: hostname_ok_def lower_hostname_def Let_def takeWhile_eq_all_conv [THEN iffD2] dropWhile_eq_Nil_conv [THEN iffD2])

lemma int_str_no_marks: "0 \<le> n \<Longrightarrow> slash \<notin> set (int_str n) \<and> 0x40 \<notin> set (int_str n) \<and> 0x3A \<notin> set (int_str n)"
  using digits_are_digits [of "nat n"] by (auto simp: int_str_def is_digit_def)

lemma parts_hostinfo_no_slash: "canonical_parts p \<Longrightarrow> no_slash (parts_hostinfo p)"
  using host_no_marks int_str_no_marks by (auto simp: parts_hostinfo_def canonical_parts_def split: option.splits)

lemma schema_no_colon: "\<forall>c \<in> set s. schema_char c \<Longrightarrow> 0x3A \<notin> set s"
  by (auto simp: schema_char_def is_alnum_def is_digit_def bstr_def)

lemma parse_hostinfo_parts:
  assumes "canonical_parts p" "path = slash # r"
  shows "parse_hostinfo (parts_hostinfo p @ path) url =
    (UDM_URL_OK, url\<lparr>url_path := Some path, url_hostinfo := Some (parts_hostinfo p),
       url_auth := (case up_auth p of Some a \<Rightarrow> Some a | None \<Rightarrow> url_auth url),
       url_hostname := Some (up_host p), url_port := up_port p\<rparr>)"
proof -
  define hi where "hi = parts_hostinfo p"
  define tl' where "tl' = up_host p @ (if up_port p \<noteq> 0 then 0x3A # int_str (up_port p) else [])"
  have n: "length (takeWhile (\<lambda>c. c \<noteq> slash) (hi @ path)) = length hi"
    using parts_hostinfo_no_slash [OF assms(1)] assms(2) by (subst takeWhile_append) (auto simp: hi_def)
  have host: "hostname_ok (up_host p)" "map ascii_lower (up_host p) = up_host p" "0 \<le> up_port p" "up_port p < 2 ^ 31"
    using assms(1) by (simp_all add: canonical_parts_def)
  have at: "0x40 \<notin> set tl'" using host_no_marks [OF host(1)] int_str_no_marks [OF host(3)] by (auto simp: tl'_def)
  have a: "split_at 0x40 hi = (case up_auth p of Some a \<Rightarrow> Some (a, tl') | None \<Rightarrow> None)"
    using assms(1) split_at_append [of "0x40" _ tl'] split_at_None [OF at]
    by (auto simp: hi_def parts_hostinfo_def tl'_def canonical_parts_def split: option.splits)
  have hi: "hi = (case up_auth p of Some a \<Rightarrow> a @ [0x40] | None \<Rightarrow> []) @ tl'" by (simp add: hi_def parts_hostinfo_def tl'_def)
  have c: "(case split_at 0x3A tl' of Some (host, port) \<Rightarrow> (host, atoi port) | None \<Rightarrow> (tl', 0)) = (up_host p, up_port p)"
    using host_no_marks [OF host(1)] host split_at_append [of "0x3A" "up_host p" "int_str (up_port p)"] atoi_int_str [of "up_port p"]
    by (auto simp: tl'_def split_at_None)
  show ?thesis using n a c hi assms(2) lower_hostname_id [OF host(1,2)] host(1)
    by (cases "up_auth p") (simp_all add: parse_hostinfo_def Let_def flip: hi_def)
qed

lemma canon_safe: "\<forall>c \<in> set s. path_enc_type ! unat c = 0 \<Longrightarrow> canon query s = s"
proof (induction s)
  case (Cons c s)
  then have "c \<noteq> 0x25" "c \<noteq> 0x3F" using enc_type_marks(1,2) by auto
  with Cons show ?case by (simp add: escaped_other)
qed simp

lemma query_canonize_safe: "\<forall>c \<in> set q. query_enc_type ! unat c = 0 \<Longrightarrow> UdmURLQueryStringCanonize q = q"
  by (induction q) (simp_all add: UdmURLQueryStringCanonize_def)

lemma strstr_first: "c \<notin> set s \<Longrightarrow> strstr (c # pat) s = None"
  by (induction s) (subst strstr.simps, auto)+

lemma rfc_remove_dots_id:
  assumes "\<forall>s \<in> set segs. s \<noteq> dot_seg \<and> s \<noteq> dotdot_seg"
  shows "rfc_remove_dots st segs = rev st @ segs" "resolve st segs = rev st @ segs"
  using assms by (induction st segs rule: rfc_remove_dots.induct) auto

lemma path_of_safe: "\<forall>s \<in> set segs. safe_seg s \<Longrightarrow> c \<in> set (path_of segs) \<Longrightarrow> path_enc_type ! unat c = 0"
  using enc_type_marks(4) by (auto simp: path_of_def safe_seg_def split: if_splits)

lemma normalize_safe:
  assumes "proper_segs segs" "\<forall>s \<in> set segs. safe_seg s"
  shows "UdmURLNormalizePath (path_of segs) = Some (path_of segs)"
proof -
  have c: "0x3F \<notin> set (path_of segs)" "0x25 \<notin> set (path_of segs)"
    using path_of_safe [OF assms(2)] enc_type_marks(1,2) by fastforce+
  have d: "\<forall>s \<in> set segs. s \<noteq> dot_seg \<and> s \<noteq> dotdot_seg" using assms(2) by (simp add: safe_seg_def)
  then have "dot_seg \<notin> set segs" "segs \<noteq> [dotdot_seg]" by auto
  moreover have "tilde (path_of segs) = path_of segs"
    by (rule replace_all_None) (use strstr_first [OF c(2)] in \<open>simp add: bstr_def\<close>)
  ultimately show ?thesis
    using UdmURLNormalizePath_rfc [OF assms(1) c(1)] rfc_remove_dots_id [OF d, of "[]"] by simp
qed

lemma split_file_path: "no_slash f \<Longrightarrow> split_file (path_of (dirs @ [f])) = (path_of (dirs @ [[]]), if f = [] then None else Some f)"
  by (cases "f = []") (auto simp: split_file_def Let_def takeWhile_append takeWhile_eq_all_conv [THEN iffD2])

lemma parse_path_parts:
  assumes "canonical_parts p" "url_filename url = None"
  shows "parse_path (parts_path p @ parts_file p) url =
    Some (url\<lparr>url_filename := (if parts_file p = [] then None else Some (parts_file p)), url_path := Some (parts_path p)\<rparr>)"
proof -
  define segs where "segs = up_dirs p @ [up_name p]"
  have safe: "\<forall>s \<in> set segs. safe_seg s" and proper: "proper_segs segs"
    using assms(1) by (auto simp: segs_def canonical_parts_def proper_segs_def safe_seg_def)
  have chars: "0x23 \<notin> set (path_of segs)" "0x3F \<notin> set (path_of segs)" using path_of_safe [OF safe] enc_type_marks by fastforce+
  define whole where "whole = path_of segs @ (case up_query p of Some q \<Rightarrow> 0x3F # q | None \<Rightarrow> [])"
  have w: "parts_path p @ parts_file p = whole" by (simp add: parts_path_def parts_file_def whole_def segs_def)
  have q: "\<And>q. up_query p = Some q \<Longrightarrow> q \<noteq> [] \<and> 0x23 \<notin> set q \<and> UdmURLQueryStringCanonize q = q"
    using assms(1) query_canonize_safe by (auto simp: canonical_parts_def)
  have anchor: "cut_anchor whole = whole"
    unfolding cut_anchor_def using chars q by (auto simp: whole_def takeWhile_eq_all_conv split: option.splits)
  have query: "cut_query whole = (path_of segs, up_query p)"
    using chars(2) q by (auto simp: whole_def cut_query_def split_at_append split_at_None split: option.splits)
  have rel: "\<not> is_relative (path_of segs)" by (cases "up_dirs p") (simp_all add: is_relative_def segs_def)
  have "3 * length (path_of segs) < newlen whole" by (simp add: newlen_def whole_def)
  then have canon: "UdmURLCanonizePath (newlen whole) (path_of segs) = path_of segs"
    using path_of_safe [OF safe] by (simp add: UdmURLCanonizePath_def canonize_path_canon canon_safe)
  have name: "no_slash (up_name p)" using assms(1) by (simp add: canonical_parts_def safe_seg_def)
  have append: "UdmURLQueryStringAppend f (up_query p) = f @ (case up_query p of Some q \<Rightarrow> 0x3F # q | None \<Rightarrow> [])" for f
    using q by (simp add: UdmURLQueryStringAppend_def split: option.splits)
  show ?thesis
    unfolding w parse_path_def Let_def anchor query
    using rel canon normalize_safe [OF proper safe] split_file_path [OF name, of "up_dirs p"] append
    by (cases "up_query p") (auto simp: parts_file_def parts_path_def segs_def)
qed

text \<open>
  C14. An address in canonical form (lower case, no character that has to be escaped, no dot
  segment, no default port) is parsed into exactly its parts, and is its own canonical form; but
  a port of ten digits is written to an array of ten bytes, that has no room for the zero that
  closes the number.
\<close>

theorem UdmURLParse_canonical:
  assumes "canonical_parts p"
  shows "UdmURLParse url (parts_text p) = Some (UDM_URL_OK, parts_url p) \<and>
    UdmURLCanonize (parts_text p) dstsize = (if up_port p < 10 ^ 9 then Some (snprintf_str dstsize (parts_text p)) else None)"
proof -
  define specific where "specific = bstr ''//'' @ parts_hostinfo p @ parts_path p @ parts_file p"
  have txt_eq: "parts_text p = up_schema p @ 0x3A # specific" by (simp add: parts_text_def specific_def bstr_def)
  have schema: "\<forall>c \<in> set (up_schema p). schema_char c" "map ascii_lower (up_schema p) = up_schema p"
    using assms by (simp_all add: canonical_parts_def)
  have f: "find_schema (parts_text p) = Some (up_schema p, specific)"
    unfolding txt_eq using schema by (simp add: find_schema_def split_at_append schema_no_colon)
  obtain r where r: "parts_path p @ parts_file p = slash # r" by (cases "up_dirs p") (simp_all add: parts_path_def)
  have sp: "take 2 specific = [slash, slash]" "drop 2 specific = parts_hostinfo p @ (parts_path p @ parts_file p)"
    by (simp_all add: specific_def bstr_def)
  define url0 where "url0 = UdmURLInit\<lparr>url_schema := Some (up_schema p), url_specific := Some specific,
      url_default_port := get_default_port (up_schema p)\<rparr>"
  have none: "url_filename url0 = None" "url_auth url0 = None" by (simp_all add: url0_def UdmURLInit_def)
  have parse: "parse_schema (parts_text p) = parse_hostinfo (parts_hostinfo p @ (parts_path p @ parts_file p)) url0"
    using f sp schema by (simp add: parse_schema_def url0_def Let_def)
  have ok: "UdmURLParse url (parts_text p) = Some (UDM_URL_OK, parts_url p)" for url
    unfolding UdmURLParse_def parse parse_hostinfo_parts [OF assms r]
    using none by (cases "up_auth p") (simp_all add: parse_path_parts [OF assms] parts_url_def url0_def specific_def UdmURLInit_def)
  have port: "0 \<le> up_port p" "up_port p < 2 ^ 31" "up_port p = 0 \<or> up_port p \<noteq> get_default_port (up_schema p)"
    using assms by (simp_all add: canonical_parts_def)
  have "length (int_str (up_port p)) < 10 \<longleftrightarrow> up_port p < 10 ^ 9"
  proof (cases "up_port p < 10 ^ 9")
    case True
    then show ?thesis using port(1) length_digits [of "nat (up_port p)" 9] by (simp add: int_str_def nat_less_iff)
  next
    case False
    then have "10 ^ 9 \<le> nat (up_port p)" by simp
    then show ?thesis using port(1) False length_digits_ge [of 9 "nat (up_port p)"] by (simp add: int_str_def)
  qed
  moreover have "up_schema p \<notin> {bstr ''mailto'', bstr ''javascript'', bstr ''htdb''}" using assms by (simp add: canonical_parts_def)
  ultimately have prints: "url_text (parts_url p) = (if up_port p < 10 ^ 9 then Some (parts_text p) else None)"
    using port(3) by (auto simp: url_text_def Let_def parts_url_def str_or_def UdmURLInit_def parts_text_def parts_hostinfo_def split: option.splits)
  show ?thesis using ok prints by (simp add: UdmURLCanonize_def) (simp add: parts_url_def UdmURLInit_def)
qed

definition example_parts :: url_parts where
  "example_parts = \<lparr>up_schema = bstr ''http'', up_auth = Some (bstr ''me''), up_host = bstr ''www.example.com'', up_port = 8080,
     up_dirs = [bstr ''docs''], up_name = bstr ''index.html'', up_query = Some (bstr ''q=1'')\<rparr>"

theorem UdmURLParse_canonical_witness:
  "UdmURLParse UdmURLInit (parts_text example_parts) = Some (UDM_URL_OK, parts_url example_parts) \<and>
    UdmURLCanonize (parts_text example_parts) 1000 =
      (if up_port example_parts < 10 ^ 9 then Some (snprintf_str 1000 (parts_text example_parts)) else None)"
  by (rule UdmURLParse_canonical)
    (simp add: canonical_parts_def example_parts_def bstr_def schema_char_def is_alnum_def is_digit_def ascii_lower_def
      hostname_ok_def hostname_valid_characters_def safe_seg_def path_enc_type_def query_enc_type_def get_default_port_def)

theorem parse_path_fits_witness:
  "length (bstr ''c%20d?x%20y'') < newlen (cut_anchor (bstr ''/a/c d?x y#z''))"
  by (rule parse_path_fits [of _ UdmURLInit "UdmURLInit\<lparr>url_filename := Some (bstr ''c%20d?x%20y''), url_path := Some (bstr ''/a/'')\<rparr>"])
    (code_simp, simp_all add: UdmURLInit_def)

text \<open>
  Converting a path to its canonical form a second time changes nothing, and three bytes for
  each byte of the path and one more are enough.
\<close>

theorem UdmURLCanonizePath_idempotent:
  "UdmURLCanonizePath (newlen (UdmURLCanonizePath (newlen s) s)) (UdmURLCanonizePath (newlen s) s) = UdmURLCanonizePath (newlen s) s \<and>
    length (UdmURLCanonizePath (newlen s) s) < newlen s"
  using length_canon [of False s] by (simp add: UdmURLCanonizePath_def newlen_def canonize_path_canon canon_idem)

end
