(* ===== verification/Word_Lists.thy ===== *)
theory Word_Lists
  imports Prelude
begin

text \<open>
  The words of a query and of a document (\<^verbatim>\<open>src/word.c\<close>, the structures of
  \<^verbatim>\<open>include/udm_common.h\<close>).

  A wide word is a word to search for: a word of the query or one of its forms; \<open>w_order\<close> is
  the number of the word in the query, which its forms share.  The origins and kinds of match are
  the numbers of the header; 0 is the value of a word that was only zeroed.
\<close>

abbreviation (input) UDM_WORD_ORIGIN_QUERY :: nat where "UDM_WORD_ORIGIN_QUERY \<equiv> 1"
abbreviation (input) UDM_WORD_ORIGIN_STOP :: nat where "UDM_WORD_ORIGIN_STOP \<equiv> 5"

abbreviation (input) UDM_MATCH_FULL :: nat where "UDM_MATCH_FULL \<equiv> 0"
abbreviation (input) UDM_MATCH_BEGIN :: nat where "UDM_MATCH_BEGIN \<equiv> 1"
abbreviation (input) UDM_MATCH_SUBSTR :: nat where "UDM_MATCH_SUBSTR \<equiv> 2"
abbreviation (input) UDM_MATCH_END :: nat where "UDM_MATCH_END \<equiv> 3"
abbreviation (input) UDM_MATCH_NUMERIC_LT :: nat where "UDM_MATCH_NUMERIC_LT \<equiv> 7"
abbreviation (input) UDM_MATCH_NUMERIC_GT :: nat where "UDM_MATCH_NUMERIC_GT \<equiv> 8"
abbreviation (input) UDM_MATCH_RANGE :: nat where "UDM_MATCH_RANGE \<equiv> 9"

abbreviation (input) UDM_MAXWORDPERQUERY :: nat where "UDM_MAXWORDPERQUERY \<equiv> 64"
abbreviation (input) UDM_DEFAULT_USER_WORD_WEIGHT :: int where "UDM_DEFAULT_USER_WORD_WEIGHT \<equiv> 256"

record wideword =
  w_order :: nat
  order_extra_width :: nat
  w_count :: nat
  doccount :: nat
  w_word :: "byte list"
  w_len :: nat
  origin :: nat
  weight :: int
  user_weight :: int
  w_match :: nat
  w_secno :: nat
  phrpos :: nat
  phrlen :: nat
  phrwidth :: nat

record widewordlist =
  nuniq :: nat
  Words :: "wideword list"

definition zero_wideword :: wideword where
  "zero_wideword = \<lparr>w_order = 0, order_extra_width = 0, w_count = 0, doccount = 0, w_word = [],
     w_len = 0, origin = 0, weight = 0, user_weight = 0, w_match = 0, w_secno = 0, phrpos = 0,
     phrlen = 0, phrwidth = 0\<rparr>"

definition UdmWideWordInit :: wideword where
  "UdmWideWordInit = zero_wideword\<lparr>user_weight := UDM_DEFAULT_USER_WORD_WEIGHT\<rparr>"

text \<open>The copy leaves \<open>doccount\<close> and \<open>weight\<close> of the destination as they are.\<close>

definition UdmWideWordCopy :: "wideword \<Rightarrow> wideword \<Rightarrow> wideword" where
  "UdmWideWordCopy Dst Src =
     Dst\<lparr>w_len := w_len Src, w_order := w_order Src, order_extra_width := order_extra_width Src,
         phrpos := phrpos Src, phrlen := phrlen Src, w_count := w_count Src,
         w_word := w_word Src, origin := origin Src, w_match := w_match Src,
         w_secno := w_secno Src, phrwidth := phrwidth Src, user_weight := user_weight Src\<rparr>"

definition UdmWideWordListInit :: widewordlist where
  "UdmWideWordListInit = \<lparr>nuniq = 0, Words = []\<rparr>"

subsection \<open>Adding a wide word\<close>

text \<open>The \<open>switch\<close> on the origin falls through from \<open>QUERY\<close> to \<open>STOP\<close>.\<close>

definition join_word :: "wideword \<Rightarrow> wideword \<Rightarrow> wideword" where
  "join_word W Word =
     (let W = W\<lparr>w_count := w_count W + w_count Word\<rparr>;
          W = (if phrpos W \<noteq> phrpos Word \<or> phrlen W \<noteq> phrlen Word
               then W\<lparr>phrpos := 0, phrlen := 0\<rparr> else W);
          W = (if origin Word = UDM_WORD_ORIGIN_QUERY
               then (if origin W = UDM_WORD_ORIGIN_STOP then W else W\<lparr>origin := origin Word\<rparr>)
               else if origin Word = UDM_WORD_ORIGIN_STOP then W\<lparr>origin := origin Word\<rparr>
               else W)
      in W\<lparr>w_order := w_order Word\<rparr>)"

definition same_word :: "wideword \<Rightarrow> wideword \<Rightarrow> bool" where
  "same_word W Word \<longleftrightarrow> w_len W = w_len Word \<and> strcmp (w_word W) (w_word Word) = 0"

fun add_wideword :: "wideword list \<Rightarrow> wideword \<Rightarrow> bool \<Rightarrow> wideword list" where
  "add_wideword [] Word for_stat = [UdmWideWordCopy UdmWideWordInit Word]"
| "add_wideword (W # ws) Word for_stat =
     (if same_word W Word \<and> for_stat then W\<lparr>w_count := w_count W + w_count Word\<rparr> # ws
      else if same_word W Word \<and> w_order W = w_order Word then join_word W Word # ws
      else W # add_wideword ws Word for_stat)"

definition UdmWideWordListAddInternal :: "widewordlist \<Rightarrow> wideword \<Rightarrow> bool \<Rightarrow> widewordlist" where
  "UdmWideWordListAddInternal L Word for_stat = L\<lparr>Words := add_wideword (Words L) Word for_stat\<rparr>"

definition UdmWideWordListAdd :: "widewordlist \<Rightarrow> wideword \<Rightarrow> widewordlist" where
  "UdmWideWordListAdd L Word = UdmWideWordListAddInternal L Word False"

definition UdmWideWordListAddForStat :: "widewordlist \<Rightarrow> wideword \<Rightarrow> widewordlist" where
  "UdmWideWordListAddForStat L Word = UdmWideWordListAddInternal L Word True"

definition UdmWideWordListAddLike :: "widewordlist \<Rightarrow> wideword \<Rightarrow> byte list \<Rightarrow> widewordlist" where
  "UdmWideWordListAddLike L orig word = UdmWideWordListAdd L (orig\<lparr>w_word := word, w_len := length word\<rparr>)"

text \<open>The new array is not initialised; \<open>mem\<close> is what it holds.\<close>

definition UdmWideWordListCopy :: "wideword list \<Rightarrow> widewordlist \<Rightarrow> widewordlist" where
  "UdmWideWordListCopy mem Src =
     Src\<lparr>Words := map (\<lambda>(M, W). UdmWideWordCopy M W) (zip mem (Words Src))\<rparr>"

text \<open>
  The last three words become one word with the text of the range; \<open>nwords\<close> and \<open>nuniq\<close> are
  unsigned, so that the result is \<open>None\<close> when there are fewer than three words (the pointer
  is before the array) and \<open>nuniq\<close> wraps around below zero.
\<close>

definition UdmWideWordListMakeRange :: "widewordlist \<Rightarrow> byte \<Rightarrow> byte \<Rightarrow> widewordlist option" where
  "UdmWideWordListMakeRange WWL beg close =
     (if length (Words WWL) < 3 then None
      else
        let n = length (Words WWL) - 3; W0 = Words WWL ! n; W2 = Words WWL ! (n + 2);
            txt = [beg] @ w_word W0 @ bstr '' TO '' @ w_word W2 @ [close]
        in Some \<lparr>nuniq = (if nuniq WWL < 2 then nuniq WWL + 2 ^ 64 - 2 else nuniq WWL - 2),
                Words = take n (Words WWL) @
                  [W0\<lparr>w_word := txt, w_len := 1 + w_len W0 + 4 + w_len W2 + 1, w_match := UDM_MATCH_RANGE\<rparr>]\<rparr>)"

definition wwcmp :: "wideword cmp" where
  "wwcmp w1 w2 =
     (let rc = strcmp (w_word w1) (w_word w2)
      in if rc \<noteq> 0 then rc else int (w_secno w1) - int (w_secno w2))"

definition UdmWideWordListSort :: "widewordlist \<Rightarrow> widewordlist" where
  "UdmWideWordListSort L = L\<lparr>Words := UdmSort wwcmp (Words L)\<rparr>"

end
