(* ===== verification/Search_Loop.thy ===== *)
theory Search_Loop
  imports Score_Merge Bool_Query Word_Lists
begin

text \<open>
  The main loop of a search (\<^verbatim>\<open>src/score.c\<close>): the sections found for the words of a query,
  sorted by document, are turned into the list of the documents that satisfy the query.

  A section carries the coordinates its pointer \<open>Coord\<close> refers to (\<open>crds\<close>).  The counters
  \<open>count\<close> have one element for every word of the query, \<open>nuniq\<close> in all.  Where the code
  reads or writes outside an array, or shifts by more than the width of a word, the result is
  \<open>None\<close>.  The rank of a document (\<open>UdmCalcScore\<close>) is computed with floating-point numbers
  and is an argument of the loop, with a state of its own for what it keeps from one document
  to the next; the loop is modelled for the default \<open>NewVersion no\<close>.
\<close>

record found_section = udm_section +
  crds :: "coord2 list"

subsection \<open>Searching a phrase in the coordinates of a section\<close>

text \<open>
  The loop over the words of the phrase after its first one.  \<open>CoordPrev\<close> is the coordinate
  of the last word found, \<open>delta\<close> the distance the next one must have; \<open>CoordCurr\<close> is the
  list of the coordinates from the pointer on.
\<close>

fun phrase_words :: "stack_item list \<Rightarrow> coord2 \<Rightarrow> nat \<Rightarrow> coord2 list \<Rightarrow> bool" where
  "phrase_words [] CoordPrev delta CoordCurr = True"
| "phrase_words (CmdCur # cmds) CoordPrev delta CoordCurr =
     (if cmd CmdCur = UDM_STACK_STOP then phrase_words cmds CoordPrev (delta + 1) CoordCurr
      else
        (case dropWhile (\<lambda>c. pos CoordPrev = pos c \<or>
                 pos CoordPrev + delta = pos c \<and> corder c \<noteq> arg CmdCur) CoordCurr of
           [] \<Rightarrow> False
         | c # rest \<Rightarrow>
             if int (pos CoordPrev) \<noteq> int (pos c) - int delta \<or> arg CmdCur \<noteq> corder c then False
             else phrase_words cmds c 1 (c # rest)))"

definition equals_sign :: nat where "equals_sign = 61"

fun CheckOnePhrase :: "stack_item \<Rightarrow> stack_item list \<Rightarrow> coord2 list \<Rightarrow> nat \<Rightarrow> nat \<Rightarrow> nat" where
  "CheckOnePhrase CmdBeg cmds [] cmd_arg slen = 0"
| "CheckOnePhrase CmdBeg cmds (CoordFirst # rest) cmd_arg slen =
     (if arg CmdBeg \<noteq> corder CoordFirst then CheckOnePhrase CmdBeg cmds rest cmd_arg slen
      else if phrase_words cmds CoordFirst 1 rest then
        (if cmd_arg = equals_sign \<and> length (CmdBeg # cmds) + 1 \<noteq> slen
         then CheckOnePhrase CmdBeg cmds rest cmd_arg slen else 1)
      else CheckOnePhrase CmdBeg cmds rest cmd_arg slen)"

definition set_count :: "nat list \<Rightarrow> nat \<Rightarrow> nat \<Rightarrow> nat list option" where
  "set_count cnt i v = (if i < length cnt then Some (cnt[i := v]) else None)"

fun mark_words :: "stack_item list \<Rightarrow> nat \<Rightarrow> nat list \<Rightarrow> nat list option" where
  "mark_words [] a cnt = Some cnt"
| "mark_words (i # items) a cnt =
     (if cmd i = UDM_STACK_WORD then
        (case (if arg i < length cnt then set_count cnt (arg i) (cnt ! arg i OR a) else None) of
           None \<Rightarrow> None
         | Some cnt \<Rightarrow> mark_words items a cnt)
      else mark_words items a cnt)"

text \<open>
  The stop words at the beginning of a phrase are skipped (\<open>rstart\<close>).  The loop for those at
  its end looks at \<open>query[rend]\<close> before it steps back, which is the closing item and not a
  stop word, so that it never steps; of a phrase that is not closed it reads behind the list.
\<close>

function CheckPhrase :: "stack_item list \<Rightarrow> coord2 list \<Rightarrow> nat list \<Rightarrow> nat \<Rightarrow> nat list option" where
  "CheckPhrase [] coords cnt slen = Some cnt"
| "CheckPhrase (q # query) coords cnt slen =
     (if cmd q \<noteq> UDM_STACK_PHRASE then CheckPhrase query coords cnt slen
      else
        let inner = takeWhile (\<lambda>i. cmd i \<noteq> UDM_STACK_PHRASE) query;
            rest = dropWhile (\<lambda>i. cmd i \<noteq> UDM_STACK_PHRASE) query
        in case dropWhile (\<lambda>i. cmd i = UDM_STACK_STOP) inner of
             [] \<Rightarrow> CheckPhrase (tl rest) coords cnt slen
           | CmdBeg # cmds \<Rightarrow>
               if rest = [] then None
               else (case mark_words (CmdBeg # cmds) (CheckOnePhrase CmdBeg cmds coords (arg q) slen) cnt of
                       None \<Rightarrow> None
                     | Some cnt \<Rightarrow> CheckPhrase (tl rest) coords cnt slen))"
  by pat_completeness auto
termination
  by (relation "measure (\<lambda>(query, coords, cnt, slen). length query)")
    (auto simp: less_Suc_eq_le le_diff_conv intro: le_trans [OF length_dropWhile_le])

subsection \<open>Parameters of the search\<close>

record score_param =
  search_mode :: search_mode
  ItemList :: "stack_item list"
  WWList :: widewordlist
  RareWordNumDocs :: nat

definition UdmOptimizeUsingAND :: "stack_item list \<Rightarrow> search_mode \<Rightarrow> bool" where
  "UdmOptimizeUsingAND items mode \<longleftrightarrow>
     mode = UDM_MODE_ALL \<or>
     mode = UDM_MODE_BOOL \<and>
     list_all (\<lambda>i. cmd i = UDM_STACK_PHRASE \<or> cmd i = UDM_STACK_AND \<or> cmd i = UDM_STACK_WORD) items"

definition UdmWWListMaxWordWeight :: "wideword list \<Rightarrow> int" where
  "UdmWWListMaxWordWeight ws =
     foldl (\<lambda>m W. if m < weight W mod 2 ^ 64 then weight W mod 2 ^ 64 else m) 0 ws"

definition UdmSectionListMinMaxSecno :: "found_section list \<Rightarrow> nat \<times> nat" where
  "UdmSectionListMinMaxSecno SL =
     foldl (\<lambda>(mn, mx) S. (if mn > secno S then secno S else mn, if mx < secno S then secno S else mx))
       (255, 0) SL"

text \<open>The masks of the orders a word stands for: its own, and with \<open>order_extra_width\<close> those of
  the words a synonym replaces.\<close>

definition one_shl :: "nat \<Rightarrow> uint4 option" where
  "one_shl n = (if n < 32 then Some (push_bit n 1) else None)"

fun extra_mask :: "nat list \<Rightarrow> nat \<Rightarrow> uint4 \<Rightarrow> uint4 option" where
  "extra_mask [] ord m = Some m"
| "extra_mask (b # bs) ord m =
     (case one_shl (ord + b) of None \<Rightarrow> None | Some x \<Rightarrow> extra_mask bs ord (m OR x))"

fun word_masks :: "wideword list \<Rightarrow> uint4 list \<Rightarrow> uint4 list option" where
  "word_masks [] masks = Some masks"
| "word_masks (W # ws) masks =
     (case one_shl (w_order W) of None \<Rightarrow> None
      | Some m \<Rightarrow>
         (case extra_mask [1..<order_extra_width W] (w_order W) m of None \<Rightarrow> None
          | Some m \<Rightarrow> if w_order W < length masks then word_masks ws (masks[w_order W := m]) else None))"

definition UdmInitWordMask :: "wideword list \<Rightarrow> uint4 list option" where
  "UdmInitWordMask ws = word_masks ws (replicate (length ws) 0)"

text \<open>The threshold is computed as \<open>size_t\<close>, kept in an \<open>int\<close> and compared with a \<open>size_t\<close>.\<close>

definition UdmCountThreshold :: "search_mode \<Rightarrow> nat \<Rightarrow> size_t" where
  "UdmCountThreshold mode n =
     (if mode = UDM_MODE_ALL_MINUS then of_nat n - 1
      else if mode = UDM_MODE_ALL_MINUS_HALF then 1 + (of_nat n - 1) div 2
      else 0)"

definition int_of_size :: "size_t \<Rightarrow> int" where
  "int_of_size w = sint (ucast w :: uint4)"

definition UpdateCount :: "nat list \<Rightarrow> wideword \<Rightarrow> nat \<Rightarrow> nat list option" where
  "UpdateCount cnt W limit = (if phrlen W < limit then set_count cnt (w_order W) 1 else Some cnt)"

fun rare_words :: "nat \<Rightarrow> wideword list \<Rightarrow> nat list \<Rightarrow> nat list option" where
  "rare_words n [] cnt = Some cnt"
| "rare_words n (W # ws) cnt =
     (if n \<noteq> 0 \<and> doccount W < n then
        (if w_order W < length cnt then
           rare_words n ws (if cnt ! w_order W = 0 then cnt[w_order W := 1] else cnt)
         else None)
      else rare_words n ws cnt)"

definition UdmRareWordCountInit :: "nat \<Rightarrow> wideword list \<Rightarrow> nat list option" where
  "UdmRareWordCountInit n ws = rare_words n ws (replicate UDM_MAXWORDPERQUERY 0)"


subsection \<open>The sections of one document\<close>

record density_item =
  di_seclen :: uint4
  di_seccnt :: uint4
  di_secno :: nat

record merged_section =
  ms_Coords :: "coord2 list"
  ms_ncoords :: nat
  ms_secno :: nat

record score_parts =
  sp_url_id :: urlid_t
  density_param :: "density_item list"
  max_word_weight :: uint4
  ncoords_for_malloc :: nat
  sp_max_secno :: nat
  MergedSectionLists :: "merged_section list"

definition MixDensityLengthAndWeight :: "nat \<Rightarrow> uint4 \<Rightarrow> uint4" where
  "MixDensityLengthAndWeight x y = of_nat x * y"

definition UdmDensityParamItemInit :: "uint4 \<Rightarrow> nat \<Rightarrow> found_section \<Rightarrow> wideword option \<Rightarrow> density_item" where
  "UdmDensityParamItemInit mw sec S1 W1 =
     \<lparr>di_seclen = MixDensityLengthAndWeight (seclen S1) mw,
      di_seccnt = (case W1 of None \<Rightarrow> 0
                   | Some W \<Rightarrow> MixDensityLengthAndWeight (ncoords S1) (of_int (weight W))),
      di_secno = sec\<rparr>"

definition UdmDensityParamItemAddWord :: "density_item \<Rightarrow> found_section \<Rightarrow> wideword \<Rightarrow> density_item" where
  "UdmDensityParamItemAddWord item S W =
     (if seclen S \<noteq> 0
      then item\<lparr>di_seccnt := di_seccnt item + MixDensityLengthAndWeight (ncoords S) (of_int (weight W))\<rparr>
      else item)"

definition UdmDensityParamAddItem :: "score_parts \<Rightarrow> density_item \<Rightarrow> score_parts" where
  "UdmDensityParamAddItem parts item = parts\<lparr>density_param := density_param parts @ [item]\<rparr>"

definition UdmDensityParamAdd :: "score_parts \<Rightarrow> nat \<Rightarrow> found_section \<Rightarrow> wideword \<Rightarrow> score_parts" where
  "UdmDensityParamAdd parts sec S1 W1 =
     (if seclen S1 \<noteq> 0
      then UdmDensityParamAddItem parts (UdmDensityParamItemInit (max_word_weight parts) sec S1 (Some W1))
      else parts)"

definition UdmDensityParamAdd2 ::
    "score_parts \<Rightarrow> nat \<Rightarrow> found_section \<Rightarrow> wideword \<Rightarrow> found_section \<Rightarrow> wideword \<Rightarrow> score_parts" where
  "UdmDensityParamAdd2 parts sec S1 W1 S2 W2 =
     (if seclen S1 \<noteq> 0
      then UdmDensityParamAddItem parts
        (UdmDensityParamItemAddWord (UdmDensityParamItemInit (max_word_weight parts) sec S1 (Some W1)) S2 W2)
      else parts)"

definition word_at :: "wideword list \<Rightarrow> nat \<Rightarrow> wideword option" where
  "word_at ws i = (if i < length ws then Some (ws ! i) else None)"

text \<open>The loop over three and more sections of one section number.\<close>

fun count_words ::
    "wideword list \<Rightarrow> nat \<Rightarrow> found_section list \<Rightarrow> nat list \<Rightarrow> density_item \<Rightarrow> (nat list \<times> density_item) option" where
  "count_words ws limit [] cnt item = Some (cnt, item)"
| "count_words ws limit (S # Ss) cnt item =
     (case word_at ws (wordnum S) of None \<Rightarrow> None
      | Some W \<Rightarrow>
          (case UpdateCount cnt W limit of None \<Rightarrow> None
           | Some cnt \<Rightarrow> count_words ws limit Ss cnt (UdmDensityParamItemAddWord item S W)))"

text \<open>The counters, the parts of the score and the coordinates (with their number) after the
  words of one section were counted and their coordinates merged.\<close>

definition merge_section ::
    "wideword list \<Rightarrow> nat \<Rightarrow> found_section list \<Rightarrow> nat list \<times> score_parts \<Rightarrow>
     (nat list \<times> score_parts \<times> coord2 list \<times> nat) option" where
  "merge_section ws limit Ss st =
     (let (cnt, parts) = st; S1 = hd Ss; sec = secno S1;
          parts = (if sp_max_secno parts < sec then parts\<lparr>sp_max_secno := sec\<rparr> else parts)
      in case Ss of
           [S1] \<Rightarrow>
             (case word_at ws (wordnum S1) of None \<Rightarrow> None
              | Some W1 \<Rightarrow>
                  (case UpdateCount cnt W1 limit of None \<Rightarrow> None
                   | Some cnt \<Rightarrow> Some (cnt, UdmDensityParamAdd parts sec S1 W1, [], 0)))
         | [S1, S2] \<Rightarrow>
             (case word_at ws (wordnum S1) of None \<Rightarrow> None
              | Some W1 \<Rightarrow>
                  (case word_at ws (wordnum S2) of None \<Rightarrow> None
                   | Some W2 \<Rightarrow>
                       (case UpdateCount cnt W1 limit of None \<Rightarrow> None
                        | Some cnt \<Rightarrow>
                            (case UpdateCount cnt W2 limit of None \<Rightarrow> None
                             | Some cnt \<Rightarrow>
                                 Some (cnt, UdmDensityParamAdd2 parts sec S1 W1 S2 W2,
                                   UdmMergeCoordsN2 (order S1) (crds S1) (order S2) (crds S2))))))
         | _ \<Rightarrow>
             (case count_words ws limit Ss cnt (UdmDensityParamItemInit (max_word_weight parts) sec S1 None) of
                None \<Rightarrow> None
              | Some (cnt, item) \<Rightarrow>
                  (let cs = UdmMergeCoordsMany (map (\<lambda>S. (order S, crds S)) Ss)
                   in Some (cnt, UdmDensityParamAddItem parts item, cs, length cs))))"

definition UdmCalcUniqSection ::
    "score_param \<Rightarrow> nat \<Rightarrow> found_section list \<Rightarrow> nat list \<times> score_parts \<Rightarrow> (nat list \<times> score_parts) option" where
  "UdmCalcUniqSection param limit Ss st =
     (case merge_section (Words (WWList param)) limit Ss st of None \<Rightarrow> None
      | Some (cnt, parts, cs, n) \<Rightarrow>
          (let parts = parts\<lparr>MergedSectionLists := MergedSectionLists parts @
                 [\<lparr>ms_Coords = cs, ms_ncoords = n, ms_secno = secno (hd Ss)\<rparr>]\<rparr>
           in if search_mode param = UDM_MODE_BOOL \<and> 1 < n then
                (case CheckPhrase (ItemList param) (take n cs) cnt (seclen (hd Ss)) of
                   None \<Rightarrow> None
                 | Some cnt \<Rightarrow> Some (cnt, parts))
              else Some (cnt, parts)))"

fun uniq_loop ::
    "score_param \<Rightarrow> nat \<Rightarrow> found_section list list \<Rightarrow> nat list \<times> score_parts \<Rightarrow> (nat list \<times> score_parts) option" where
  "uniq_loop param limit [] st = Some st"
| "uniq_loop param limit (Ss # rest) st =
     (case UdmCalcUniqSection param limit Ss st of None \<Rightarrow> None
      | Some st \<Rightarrow> uniq_loop param limit rest st)"

text \<open>
  \<open>UniqSec\<close>, an array of 256 pointers (here offsets from the first section of the document): where
  the groups of sections of one section number begin, and after them the end of the document.
  A section number is one byte, so that the one given to \<open>prev_secno\<close> first differs from that
  of the first section.
\<close>

fun fill_UniqSec ::
    "found_section list \<Rightarrow> nat \<Rightarrow> nat \<Rightarrow> nat list \<Rightarrow> nat \<Rightarrow> (nat list \<times> nat) option" where
  "fill_UniqSec [] End prev_secno UniqSec nuniqsections =
     (if nuniqsections < length UniqSec then Some (UniqSec[nuniqsections := End], nuniqsections) else None)"
| "fill_UniqSec (S # Ss) End prev_secno UniqSec nuniqsections =
     (if prev_secno \<noteq> secno S then
        (if nuniqsections < length UniqSec
         then fill_UniqSec Ss (End + 1) (secno S) (UniqSec[nuniqsections := End]) (nuniqsections + 1)
         else None)
      else fill_UniqSec Ss (End + 1) prev_secno UniqSec nuniqsections)"

definition document_groups :: "found_section list \<Rightarrow> found_section list list option" where
  "document_groups doc =
     (case fill_UniqSec doc 0 ((secno (hd doc) + 1) mod 256) ((replicate 256 0)[0 := 0]) 0 of
        None \<Rightarrow> None
      | Some (UniqSec, nuniqsections) \<Rightarrow>
          Some (map (\<lambda>usec. take (UniqSec ! (usec + 1) - UniqSec ! usec) (drop (UniqSec ! usec) doc))
            [0..<nuniqsections]))"

text \<open>The same groups without the array.\<close>

function uniq_sections :: "found_section list \<Rightarrow> found_section list list" where
  "uniq_sections [] = []"
| "uniq_sections (S # Ss) =
     (S # takeWhile (\<lambda>T. secno T = secno S) Ss) # uniq_sections (dropWhile (\<lambda>T. secno T = secno S) Ss)"
  by pat_completeness auto
termination
  by (relation "measure length") (auto simp: le_imp_less_Suc length_dropWhile_le)

fun group_starts :: "nat \<Rightarrow> nat \<Rightarrow> found_section list \<Rightarrow> nat list" where
  "group_starts k prev [] = []"
| "group_starts k prev (S # Ss) =
     (if prev \<noteq> secno S then k # group_starts (k + 1) (secno S) Ss else group_starts (k + 1) prev Ss)"

fun slices :: "'a list \<Rightarrow> nat list \<Rightarrow> 'a list list" where
  "slices xs (a # b # bs) = take (b - a) (drop a xs) # slices xs (b # bs)"
| "slices xs _ = []"

lemma fill_UniqSec_eq:
  "n \<le> length U \<Longrightarrow> fill_UniqSec Ss k prev U n =
    (let st = group_starts k prev Ss @ [k + length Ss]
     in if n + length st \<le> length U
        then Some (take n U @ st @ drop (n + length st) U, n + length st - 1) else None)"
proof (induction Ss k prev U n rule: fill_UniqSec.induct)
  case (1 k prev U n)
  then show ?case by (auto simp: upd_conv_take_nth_drop)
next
  case (2 S Ss k prev U n)
  show ?case
  proof (cases "prev \<noteq> secno S \<and> n < length U")
    case True
    with 2 have "fill_UniqSec Ss (k + 1) (secno S) (U[n := k]) (n + 1) =
      (let st = group_starts (k + 1) (secno S) Ss @ [k + 1 + length Ss]
       in if n + 1 + length st \<le> length (U[n := k])
          then Some (take (n + 1) (U[n := k]) @ st @ drop (n + 1 + length st) (U[n := k]), n + 1 + length st - 1) else None)"
      by simp
    with True show ?thesis by (auto simp: Let_def take_Suc_conv_app_nth)
  next
    case False
    with 2 show ?thesis by (auto simp: Let_def)
  qed
qed

lemma slices_map:
  "map (\<lambda>i. take (st ! (i + 1) - st ! i) (drop (st ! i) xs)) [0..<length st - 1] = slices xs st"
proof (induction xs st rule: slices.induct)
  case (1 xs a b bs)
  have "[0..<length (a # b # bs) - 1] = 0 # map Suc [0..<length (b # bs) - 1]"
    by (simp add: upt_conv_Cons map_Suc_upt del: upt_Suc)
  with 1 show ?case by (simp add: comp_def del: upt_Suc)
qed simp_all

lemma group_starts_while:
  "group_starts k p Ss =
    group_starts (k + length (takeWhile (\<lambda>T. secno T = p) Ss)) p (dropWhile (\<lambda>T. secno T = p) Ss)"
  by (induction Ss arbitrary: k) auto

lemma group_starts_Cons: "Ss \<noteq> [] \<Longrightarrow> p \<noteq> secno (hd Ss) \<Longrightarrow> \<exists>r. group_starts k p Ss = k # r"
  by (cases Ss) auto

lemma slices_group_starts:
  assumes "Ss \<noteq> [] \<Longrightarrow> prev \<noteq> secno (hd Ss)"
  shows "slices (pre @ Ss) (group_starts (length pre) prev Ss @ [length pre + length Ss]) = uniq_sections Ss"
  using assms
proof (induction Ss arbitrary: pre prev rule: uniq_sections.induct)
  case (2 S Ss)
  define t d where "t = takeWhile (\<lambda>T. secno T = secno S) Ss" and "d = dropWhile (\<lambda>T. secno T = secno S) Ss"
  have Ss: "Ss = t @ d" by (simp add: t_def d_def)
  have hd: "d \<noteq> [] \<Longrightarrow> secno S \<noteq> secno (hd d)" using hd_dropWhile [of "\<lambda>T. secno T = secno S" Ss] by (simp add: d_def)
  let ?p = "pre @ S # t"
  let ?rest = "group_starts (length ?p) (secno S) d @ [length ?p + length d]"
  have st: "group_starts (length pre) prev (S # Ss) @ [length pre + length (S # Ss)] = length pre # ?rest"
    using 2(2) group_starts_while [of "length pre + 1" "secno S" Ss] unfolding t_def [symmetric] d_def [symmetric]
    by (simp add: Ss)
  obtain r where r: "?rest = length ?p # r"
    using group_starts_Cons [of d "secno S" "length ?p"] hd by (cases "d = []") auto
  have IH: "slices (?p @ d) ?rest = uniq_sections d"
    by (rule 2(1) [of "secno S" ?p, folded d_def, OF hd])
  have "slices (pre @ S # Ss) (length pre # ?rest) = take (length ?p - length pre) (drop (length pre) (?p @ d)) # slices (?p @ d) ?rest"
    unfolding r by (simp add: Ss)
  also have "\<dots> = (S # t) # uniq_sections d" using IH by simp
  finally show ?case unfolding st by (simp add: t_def d_def)
qed simp

lemma length_slices: "length (slices xs st) = length st - 1"
  by (induction xs st rule: slices.induct) auto

lemma document_groups_eq:
  "document_groups doc = (if length (uniq_sections doc) < 256 then Some (uniq_sections doc) else None)"
proof -
  define prev where "prev = (secno (hd doc) + 1) mod 256"
  have "prev \<noteq> secno (hd doc)"
  proof
    assume p: "prev = secno (hd doc)"
    then have "secno (hd doc) < 256" by (metis mod_less_divisor prev_def zero_less_numeral)
    with p show False by (cases "secno (hd doc) = 255") (auto simp: prev_def)
  qed
  then have s: "slices doc (group_starts 0 prev doc @ [length doc]) = uniq_sections doc"
    using slices_group_starts [of doc prev "[]"] by simp
  define st where "st = group_starts 0 prev doc @ [length doc]"
  have len: "length (uniq_sections doc) = length st - 1" "st \<noteq> []" using s length_slices [of doc st] by (auto simp: st_def)
  have f: "fill_UniqSec doc 0 prev ((replicate 256 0)[0 := 0]) 0 =
      (if length st \<le> 256 then Some (st @ drop (length st) ((replicate 256 0)[0 := 0]), length st - 1) else None)"
    by (simp add: fill_UniqSec_eq st_def Let_def)
  have "map (\<lambda>i. take ((st @ u) ! (i + 1) - (st @ u) ! i) (drop ((st @ u) ! i) doc)) [0..<length st - 1] = uniq_sections doc" for u
  proof -
    have "map (\<lambda>i. take ((st @ u) ! (i + 1) - (st @ u) ! i) (drop ((st @ u) ! i) doc)) [0..<length st - 1] =
        map (\<lambda>i. take (st ! (i + 1) - st ! i) (drop (st ! i) doc)) [0..<length st - 1]"
      by (rule map_cong) (auto simp: nth_append)
    with slices_map [of st doc] s show ?thesis by (simp add: st_def)
  qed
  note m = this [simplified]
  have "length st \<le> 256 \<longleftrightarrow> length (uniq_sections doc) < 256" using len by (cases st) auto
  then show ?thesis unfolding document_groups_def prev_def [symmetric] f by (simp add: m)
qed

text \<open>The array for the merged coordinates of a document only grows; the result is \<open>acoords\<close>.\<close>

definition UdmSectionList2Realloc :: "nat \<Rightarrow> nat \<Rightarrow> nat" where
  "UdmSectionList2Realloc acoords n = (if n \<ge> acoords then n + 1024 else acoords)"

text \<open>
  The integer part of the score of a document: each pair of a section number and a word adds
  once to the two sums.  The bytes of \<open>added\<close> are the same memory for all documents and are
  cleared up to the largest offset used.
\<close>

definition OFFS_FROM_NUNIQ_SECNO_ORDER :: "nat \<Rightarrow> nat \<Rightarrow> nat \<Rightarrow> nat" where
  "OFFS_FROM_NUNIQ_SECNO_ORDER n s ord = n * s + ord"

fun breakdown_loop ::
    "nat \<Rightarrow> nat list \<Rightarrow> nat list \<Rightarrow> found_section list \<Rightarrow> nat \<Rightarrow> nat \<Rightarrow> nat \<Rightarrow> nat list \<Rightarrow>
     (nat \<times> nat \<times> nat \<times> nat list) option" where
  "breakdown_loop n Dsum_add RDsum_add [] Dsum RDsum max_added_offs added = Some (Dsum, RDsum, max_added_offs, added)"
| "breakdown_loop n Dsum_add RDsum_add (S # Ss) Dsum RDsum max_added_offs added =
     (let offs = OFFS_FROM_NUNIQ_SECNO_ORDER n (secno S) (order S)
      in if offs < length added \<and> offs < length Dsum_add \<and> offs < length RDsum_add then
           (if added ! offs = 0
            then breakdown_loop n Dsum_add RDsum_add Ss (Dsum + Dsum_add ! offs) (RDsum + RDsum_add ! offs)
              (if offs > max_added_offs then offs else max_added_offs) (added[offs := 1])
            else breakdown_loop n Dsum_add RDsum_add Ss Dsum RDsum max_added_offs added)
         else None)"

definition UdmCalcCosineSectionBreakDown ::
    "nat \<Rightarrow> nat list \<Rightarrow> nat list \<Rightarrow> nat list \<Rightarrow> found_section list \<Rightarrow> (nat \<times> nat \<times> nat list) option" where
  "UdmCalcCosineSectionBreakDown n Dsum_add RDsum_add added Ss =
     (case breakdown_loop n Dsum_add RDsum_add Ss 0 0 0 added of None \<Rightarrow> None
      | Some (Dsum, RDsum, max_added_offs, added) \<Rightarrow>
          if max_added_offs < length added
          then Some (Dsum, RDsum, replicate (max_added_offs + 1) 0 @ drop (max_added_offs + 1) added)
          else None)"

subsection \<open>The loop over the documents\<close>

text \<open>What the loop computes once: \<open>word_order_mask\<close>, \<open>rare_word_extra_count\<close>,
  \<open>expected_and_word_mask\<close> and whether the shortcut for a phrase of two words is used.\<close>

record loop_tables =
  word_order_mask :: "uint4 list"
  rare_extra :: "nat list"
  expected_and_word_mask :: uint4
  minmax_pos2 :: bool

fun document_mask :: "uint4 list \<Rightarrow> found_section list \<Rightarrow> uint4 \<Rightarrow> uint4 option" where
  "document_mask masks [] m = Some m"
| "document_mask masks (S # Ss) m =
     (if order S < length masks then document_mask masks Ss (m OR masks ! order S) else None)"

definition expected_word_mask :: "nat \<Rightarrow> uint4 option" where
  "expected_word_mask n = (if n < 64 then Some (of_int (2 ^ n - 1)) else None)"

definition update_count_phrlen_limit :: "search_mode \<Rightarrow> nat" where
  "update_count_phrlen_limit mode = (if mode = UDM_MODE_BOOL then 2 else UDM_MAXWORDPERQUERY)"

definition optimize_using_minmax_pos2 :: "score_param \<Rightarrow> bool option" where
  "optimize_using_minmax_pos2 param =
     (if UdmOptimizeUsingAND (ItemList param) (search_mode param) \<and> nuniq (WWList param) = 2
      then (case word_at (Words (WWList param)) 1 of None \<Rightarrow> None | Some W \<Rightarrow> Some (phrpos W > 0))
      else Some False)"

text \<open>\<open>None\<close>: an access outside the array; \<open>Some True\<close>: the document is skipped because it
  does not have all words, or because its two words are too far from each other.\<close>

definition quick_skip :: "score_param \<Rightarrow> loop_tables \<Rightarrow> found_section list \<Rightarrow> bool option" where
  "quick_skip param tables doc =
     (case document_mask (word_order_mask tables) doc 0 of None \<Rightarrow> None
      | Some word_mask \<Rightarrow>
          Some (UdmOptimizeUsingAND (ItemList param) (search_mode param) \<and>
                  word_mask \<noteq> expected_and_word_mask tables \<or>
                minmax_pos2 tables \<and> length doc = 2 \<and>
                  (minpos (doc ! 0) > maxpos (doc ! 1) + 1 \<or> minpos (doc ! 1) > maxpos (doc ! 0) + 1)))"

definition all_counted :: "nat \<Rightarrow> nat list \<Rightarrow> bool" where
  "all_counted n cnt \<longleftrightarrow> list_all (\<lambda>z. cnt ! z \<noteq> 0) [0..<n]"

definition count_with_rare :: "nat \<Rightarrow> nat list \<Rightarrow> nat list \<Rightarrow> nat" where
  "count_with_rare n rare cnt =
     sum_list (map (\<lambda>z. if cnt ! z \<noteq> 0 then 1 + rare ! z else 0) [0..<n])"

definition count_is_enough :: "score_param \<Rightarrow> nat list \<Rightarrow> nat list \<Rightarrow> bool" where
  "count_is_enough param rare cnt =
     (let n = nuniq (WWList param); mode = search_mode param
      in if mode = UDM_MODE_ALL \<and> n > 30 then all_counted n cnt
         else if mode = UDM_MODE_ALL_MINUS \<or> mode = UDM_MODE_ALL_MINUS_HALF then
           \<not> of_nat (count_with_rare n rare cnt) < (word_of_int (int_of_size (UdmCountThreshold mode n)) :: size_t)
         else True)"

definition search_document ::
    "score_param \<Rightarrow> loop_tables \<Rightarrow> found_section list \<Rightarrow> (nat list \<times> score_parts) option option" where
  "search_document param tables doc =
     (case quick_skip param tables doc of None \<Rightarrow> None
      | Some True \<Rightarrow> Some None
      | Some False \<Rightarrow>
          (let cnt = replicate (nuniq (WWList param)) 0;
               parts = \<lparr>sp_url_id = url_id (hd doc), density_param = [],
                  max_word_weight = of_int (UdmWWListMaxWordWeight (Words (WWList param))),
                  ncoords_for_malloc = sum_list (map ncoords doc), sp_max_secno = 0,
                  MergedSectionLists = []\<rparr>
           in case document_groups doc of None \<Rightarrow> None
              | Some groups \<Rightarrow>
                (case uniq_loop param (update_count_phrlen_limit (search_mode param)) groups (cnt, parts) of
                 None \<Rightarrow> None
               | Some (cnt, parts) \<Rightarrow>
                   (case (if search_mode param = UDM_MODE_BOOL then UdmCalcBoolItems (ItemList param) cnt else Some 1) of
                      None \<Rightarrow> None
                    | Some v \<Rightarrow>
                        if v = 0 \<or> \<not> count_is_enough param (rare_extra tables) cnt then Some None
                        else Some (Some (cnt, parts))))))"

type_synonym 's calc_score = "'s \<Rightarrow> found_section list \<Rightarrow> nat list \<Rightarrow> score_parts \<Rightarrow> uint4 \<times> 's"

function documents_loop ::
    "score_param \<Rightarrow> loop_tables \<Rightarrow> 's calc_score \<Rightarrow> found_section list \<Rightarrow> 's \<Rightarrow> (udm_url_score list \<times> 's) option" where
  "documents_loop param tables calc [] s = Some ([], s)"
| "documents_loop param tables calc (From # rest) s =
     (let doc = From # takeWhile (\<lambda>T. url_id T = url_id From) rest;
          End = dropWhile (\<lambda>T. url_id T = url_id From) rest
      in case search_document param tables doc of None \<Rightarrow> None
         | Some None \<Rightarrow> documents_loop param tables calc End s
         | Some (Some (cnt, parts)) \<Rightarrow>
             (let (score, s) = calc s doc cnt parts
              in case documents_loop param tables calc End s of None \<Rightarrow> None
                 | Some (L, s) \<Rightarrow> Some (\<lparr>us_url_id = url_id From, us_score = score\<rparr> # L, s)))"
  by pat_completeness auto
termination
  by (relation "measure (\<lambda>(param, tables, calc, From, s). length From)")
    (auto simp: le_imp_less_Suc length_dropWhile_le)

definition loop_tables_of :: "score_param \<Rightarrow> loop_tables option" where
  "loop_tables_of param =
     (case UdmRareWordCountInit (RareWordNumDocs param) (Words (WWList param)) of None \<Rightarrow> None
      | Some rare \<Rightarrow>
          (case UdmInitWordMask (Words (WWList param)) of None \<Rightarrow> None
           | Some masks \<Rightarrow>
               (case expected_word_mask (nuniq (WWList param)) of None \<Rightarrow> None
                | Some expected \<Rightarrow>
                    (case optimize_using_minmax_pos2 param of None \<Rightarrow> None
                     | Some minmax \<Rightarrow>
                         Some \<lparr>word_order_mask = masks, rare_extra = rare,
                               expected_and_word_mask = expected, minmax_pos2 = minmax\<rparr>))))"

definition UdmGroupByURLLoop2 ::
    "score_param \<Rightarrow> 's calc_score \<Rightarrow> 's \<Rightarrow> found_section list \<Rightarrow> udm_url_score list option" where
  "UdmGroupByURLLoop2 param calc s SL =
     (case loop_tables_of param of None \<Rightarrow> None
      | Some tables \<Rightarrow>
          (case documents_loop param tables calc SL s of None \<Rightarrow> None | Some (L, s) \<Rightarrow> Some L))"

text \<open>The loop for a query of one word takes every document; its scores need no coordinates.\<close>

function UdmGroupByURLLoop_OneWord_All2 :: "(found_section list \<Rightarrow> uint4) \<Rightarrow> found_section list \<Rightarrow> udm_url_score list" where
  "UdmGroupByURLLoop_OneWord_All2 calc1 [] = []"
| "UdmGroupByURLLoop_OneWord_All2 calc1 (From # rest) =
     \<lparr>us_url_id = url_id From, us_score = calc1 (From # takeWhile (\<lambda>T. url_id T = url_id From) rest)\<rparr> #
     UdmGroupByURLLoop_OneWord_All2 calc1 (dropWhile (\<lambda>T. url_id T = url_id From) rest)"
  by pat_completeness auto
termination
  by (relation "measure (\<lambda>(calc1, From). length From)") (auto simp: le_imp_less_Suc length_dropWhile_le)

subsection \<open>The search mode, and the second try in the loose mode\<close>

definition UdmScoreParamInitStep2 ::
    "score_param \<Rightarrow> stack_item list \<Rightarrow> nat \<Rightarrow> search_mode \<Rightarrow> score_param option" where
  "UdmScoreParamInitStep2 param items ncmds mode =
     (if ncmds > 0 \<or> mode = UDM_MODE_BOOL then
        (case UdmStackItemListCopy items mode of None \<Rightarrow> None
         | Some copied \<Rightarrow>
             Some (param\<lparr>ItemList := copied, search_mode := (if copied \<noteq> [] then UDM_MODE_BOOL else mode)\<rparr>))
      else Some (param\<lparr>ItemList := [], search_mode := mode\<rparr>))"

definition UdmGroupByURLInternal2 ::
    "score_param \<Rightarrow> stack_item list \<Rightarrow> nat \<Rightarrow> 's calc_score \<Rightarrow> 's \<Rightarrow> (found_section list \<Rightarrow> uint4) \<Rightarrow>
     found_section list \<Rightarrow> search_mode \<Rightarrow> udm_url_score list \<Rightarrow> udm_url_score list option" where
  "UdmGroupByURLInternal2 param items ncmds calc s calc1 SL mode ScoreList =
     (if sum_list (map ncoords SL) = 0 then Some ScoreList
      else
        (case UdmScoreParamInitStep2 param items ncmds mode of None \<Rightarrow> None
         | Some param \<Rightarrow>
             if nuniq (WWList param) = 1 then Some (UdmGroupByURLLoop_OneWord_All2 calc1 SL)
             else UdmGroupByURLLoop2 param calc s SL))"

definition UdmGroupByURL2 ::
    "score_param \<Rightarrow> stack_item list \<Rightarrow> nat \<Rightarrow> 's calc_score \<Rightarrow> 's \<Rightarrow> (found_section list \<Rightarrow> uint4) \<Rightarrow>
     found_section list \<Rightarrow> search_mode \<Rightarrow> search_mode \<Rightarrow> nat \<Rightarrow> udm_url_score list option" where
  "UdmGroupByURL2 param items ncmds calc s calc1 SL mode LooseMode threshold =
     (case UdmGroupByURLInternal2 param items ncmds calc s calc1 SL mode [] of None \<Rightarrow> None
      | Some ScoreList \<Rightarrow>
          if mode = UDM_MODE_ALL \<and> threshold \<noteq> 0 \<and> SL \<noteq> [] \<and> length ScoreList < threshold
          then UdmGroupByURLInternal2 param items ncmds calc s calc1 SL LooseMode ScoreList
          else Some ScoreList)"

end
