(* ===== verification/Phrase_Check.thy ===== *)
theory Phrase_Check
  imports Search_Loop
begin

text \<open>
  The phrase search of \<^verbatim>\<open>src/score.c\<close>: \<open>CheckOnePhrase\<close> finds a phrase exactly where its words
  stand one behind another (\<open>phrase_from\<close>), the merge of the coordinates of two words, which leaves
  out the middle of a run, does not change that, and \<open>CheckPhrase\<close> sets the counters of all words
  of the phrases found.
\<close>

subsection \<open>Where a phrase stands\<close>

text \<open>
  \<open>phrase_from coords cmds p delta\<close>: the items after a word at position \<open>p\<close> are found, the next
  word at the distance \<open>delta\<close>; a stop word only adds to the distance, and no word of the query
  stands in its place.
\<close>

definition stands :: "coord2 list \<Rightarrow> nat \<Rightarrow> nat \<Rightarrow> bool" where
  "stands coords p w \<longleftrightarrow> (\<exists>c \<in> set coords. pos c = p \<and> corder c = w)"

fun phrase_from :: "coord2 list \<Rightarrow> stack_item list \<Rightarrow> nat \<Rightarrow> nat \<Rightarrow> bool" where
  "phrase_from coords [] p delta = True"
| "phrase_from coords (i # cmds) p delta =
     (if cmd i = UDM_STACK_STOP then phrase_from coords cmds p (delta + 1)
      else stands coords (p + delta) (arg i) \<and> (\<forall>c \<in> set coords. pos c \<le> p \<or> p + delta \<le> pos c) \<and>
        phrase_from coords cmds (p + delta) 1)"

lemma not_stands:
  assumes "\<forall>x \<in> set pre. pos x \<le> p" "0 < d"
    and "\<forall>x \<in> set skip. p = pos x \<or> p + d = pos x \<and> corder x \<noteq> w" 
  shows "\<not> stands (pre @ skip) (p + d) w"
proof
  assume "stands (pre @ skip) (p + d) w"
  then obtain x where x: "x \<in> set pre \<or> x \<in> set skip" "pos x = p + d" "corder x = w" by (auto simp: stands_def)
  from x(1) show False
  proof
    assume "x \<in> set pre"
    with assms(1,2) x(2) show False by (metis add_le_same_cancel1 not_less)
  next
    assume "x \<in> set skip"
    with assms(3) have "p = pos x \<or> corder x \<noteq> w" by blast
    with assms(2) x(2,3) show False by simp
  qed
qed

lemma phrase_words_from:
  assumes "sorted (map pos (pre @ cur))" "\<forall>x \<in> set pre. pos x \<le> pos prv" "\<forall>x \<in> set cur. pos prv \<le> pos x" "0 < d"
  shows "phrase_words cmds prv d cur \<longleftrightarrow> phrase_from (pre @ cur) cmds (pos prv) d"
  using assms
proof (induction cmds arbitrary: pre cur prv d)
  case (Cons i cmds)
  show ?case
  proof (cases "cmd i = UDM_STACK_STOP")
    case False
    let ?P = "\<lambda>c. pos prv = pos c \<or> pos prv + d = pos c \<and> corder c \<noteq> arg i"
    define skip where "skip = takeWhile ?P cur"
    have skip: "\<forall>c \<in> set skip. ?P c" unfolding skip_def using set_takeWhileD [of _ ?P cur] by blast
    show ?thesis
    proof (cases "dropWhile ?P cur")
      case Nil
      then have "cur = skip" unfolding skip_def by (metis append_Nil2 takeWhile_dropWhile_id)
      then have "\<not> stands (pre @ cur) (pos prv + d) (arg i)"
        using not_stands [OF Cons.prems(2,4)] skip by simp
      with Nil False show ?thesis by (simp del: dropWhile_eq_Nil_conv)
    next
      case (Cons c rest)
      then have cur: "cur = skip @ c # rest" unfolding skip_def by (metis takeWhile_dropWhile_id)
      have c: "\<not> ?P c" using hd_dropWhile [of ?P cur] unfolding Cons by simp
      with Cons.prems(3) cur have gt: "pos prv < pos c" by (simp add: order_less_le)
      have rest: "\<forall>x \<in> set rest. pos c \<le> pos x" using Cons.prems(1) by (auto simp: cur sorted_append)
      show ?thesis
      proof (cases "pos prv + d = pos c")
        case True
        with c have w: "arg i = corder c" by auto
        have "phrase_words cmds c 1 (c # rest) = phrase_from ((pre @ skip) @ (c # rest)) cmds (pos c) 1"
          by (rule Cons.IH) (use Cons.prems skip gt True rest in \<open>auto simp: cur intro: less_imp_le\<close>)
        moreover have "stands (pre @ cur) (pos prv + d) (arg i)"
          using True w by (auto simp: stands_def cur)
        moreover have "\<forall>x \<in> set (pre @ cur). pos x \<le> pos prv \<or> pos prv + d \<le> pos x"
          using Cons.prems(2) skip rest True by (auto simp: cur)
        ultimately show ?thesis using False Cons True w by (simp add: cur)
      next
        case neq: False
        have "\<not> phrase_from (pre @ cur) (i # cmds) (pos prv) d"
        proof
          assume "phrase_from (pre @ cur) (i # cmds) (pos prv) d"
          with False have st: "stands (pre @ cur) (pos prv + d) (arg i)"
            and between: "\<forall>x \<in> set (pre @ cur). pos x \<le> pos prv \<or> pos prv + d \<le> pos x" by auto
          from between gt neq have "pos prv + d < pos c" by (fastforce simp: cur)
          with rest have "\<not> stands (c # rest) (pos prv + d) (arg i)" by (auto simp: stands_def)
          moreover have "\<not> stands (pre @ skip) (pos prv + d) (arg i)"
            by (rule not_stands [OF Cons.prems(2,4) skip])
          ultimately show False using st by (auto simp: stands_def cur)
        qed
        with False Cons neq show ?thesis by auto
      qed
    qed
  qed (use Cons in simp)
qed simp

theorem CheckOnePhrase_finds:
  assumes "sorted (map pos coords)"
  shows "CheckOnePhrase CmdBeg cmds coords cmd_arg slen =
    (if (\<exists>c \<in> set coords. corder c = arg CmdBeg \<and> phrase_from coords cmds (pos c) 1) \<and>
        (cmd_arg = equals_sign \<longrightarrow> slen = length cmds + 2) then 1 else 0)"
proof -
  have "CheckOnePhrase CmdBeg cmds rest cmd_arg slen =
      (if (\<exists>c \<in> set rest. corder c = arg CmdBeg \<and> phrase_from coords cmds (pos c) 1) \<and>
          (cmd_arg = equals_sign \<longrightarrow> slen = length cmds + 2) then 1 else 0)" if "coords = pre @ rest" for pre rest
    using that
  proof (induction rest arbitrary: pre)
    case (Cons c rest)
    from assms Cons.prems have "phrase_words cmds c 1 rest = phrase_from ((pre @ [c]) @ rest) cmds (pos c) 1"
      by (intro phrase_words_from) (auto simp: sorted_append)
    with Cons.IH [of "pre @ [c]"] Cons.prems show ?case by auto
  qed simp
  from this [of "[]"] show ?thesis by simp
qed

subsection \<open>The merge of two words keeps the phrases\<close>

lemma run_ends_keeps_change:
  assumes "corder x \<noteq> corder y"
  shows "x \<in> set (run_ends prv (A @ x # y # B)) \<and> y \<in> set (run_ends prv (A @ x # y # B))"
proof (induction A arbitrary: prv)
  case Nil
  have "y \<in> set (run_ends (Some (corder x)) (y # B))" using assms by (cases B) auto
  with assms show ?case by auto
next
  case (Cons a A)
  obtain b C where bc: "A @ x # y # B = b # C" by (cases A) auto
  with Cons.IH [of "Some (corder a)"] show ?case by simp
qed

lemma order_changes:
  assumes "corder x \<noteq> corder y"
  shows "\<exists>U u v V. x # Z @ [y] = U @ u # v # V \<and> corder u \<noteq> corder v"
  using assms
proof (induction Z arbitrary: x)
  case Nil
  then show ?case by (intro exI [of _ "[]"]) auto
next
  case (Cons z Z)
  show ?case
  proof (cases "corder x = corder z")
    case True
    with Cons obtain U u v V where "z # Z @ [y] = U @ u # v # V" "corder u \<noteq> corder v" by metis
    then have "x # (z # Z) @ [y] = (x # U) @ u # v # V" by simp
    with \<open>corder u \<noteq> corder v\<close> show ?thesis by blast
  next
    case False
    then show ?thesis by (intro exI [of _ "[]"]) auto
  qed
qed

definition next_to :: "coord2 list \<Rightarrow> nat \<Rightarrow> nat \<Rightarrow> nat \<Rightarrow> nat \<Rightarrow> bool" where
  "next_to cs p w d v \<longleftrightarrow>
     stands cs p w \<and> stands cs (p + d) v \<and> (\<forall>c \<in> set cs. pos c \<le> p \<or> p + d \<le> pos c)"

lemma subseq_in_set: "subseq xs ys \<Longrightarrow> x \<in> set xs \<Longrightarrow> x \<in> set ys"
  by (erule list_emb_set) auto

lemma strict_split:
  assumes "sorted_wrt (\<lambda>a b. pos a < pos b) full" "x \<in> set full" "y \<in> set full" "pos x < pos y"
  obtains A Z B where "full = A @ x # Z @ y # B" "\<forall>a \<in> set A. pos a < pos x"
    "\<forall>z \<in> set Z. pos x < pos z \<and> pos z < pos y" "\<forall>b \<in> set B. pos y < pos b"
proof -
  from assms(2) obtain A R where f: "full = A @ x # R" by (meson split_list)
  with assms have "y \<in> set R" by (auto simp: sorted_wrt_append)
  then obtain Z B where "R = Z @ y # B" by (meson split_list)
  with f assms(1) show ?thesis by (intro that [of A Z B]) (auto simp: sorted_wrt_append)
qed

lemma change_inside:
  assumes "x # Z @ [y] = U @ u # v # V" "Z \<noteq> []"
  shows "u \<in> set Z \<or> v \<in> set Z"
proof (cases U)
  case Nil
  with assms show ?thesis by (cases Z) auto
next
  case (Cons a U')
  with assms have "Z @ [y] = (U' @ [u]) @ (v # V)" by simp
  then have "Z = U' @ u # butlast (v # V)" by (metis append.assoc append_Cons append_Nil butlast_append butlast_snoc list.distinct(1))
  then show ?thesis by simp
qed

lemma next_to_subseq:
  assumes sub: "subseq cs full" and runs: "subseq (run_ends None full) cs"
    and srt: "sorted_wrt (\<lambda>a b. pos a < pos b) full" and wv: "w \<noteq> v" and d: "0 < d"
  shows "next_to cs p w d v \<longleftrightarrow> next_to full p w d v"
proof -
  have kept: "x \<in> set cs \<and> y \<in> set cs" if "full = A @ x # y # B" "corder x \<noteq> corder y" for A B x y
    using run_ends_keeps_change [OF that(2), of None A B] subseq_in_set [OF runs] that(1) by blast
  have split: "\<exists>A x Z y B. full = A @ x # Z @ y # B \<and> pos x = p \<and> pos y = p + d \<and> corder x = w \<and> corder y = v \<and>
      (\<forall>a \<in> set A. pos a < p) \<and> (\<forall>z \<in> set Z. p < pos z \<and> pos z < p + d) \<and> (\<forall>b \<in> set B. p + d < pos b)"
    if st: "stands full p w" "stands full (p + d) v"
  proof -
    from st obtain x y where x: "x \<in> set full" "pos x = p" "corder x = w"
      and y: "y \<in> set full" "pos y = p + d" "corder y = v" by (auto simp: stands_def)
    with d have "pos x < pos y" by simp
    from strict_split [OF srt x(1) y(1) this] x y show ?thesis by metis
  qed
  show ?thesis
  proof
    assume n: "next_to cs p w d v"
    then have "stands full p w" "stands full (p + d) v"
      unfolding next_to_def stands_def using subseq_in_set [OF sub] by blast+
    from split [OF this] obtain A x Z y B where f: "full = A @ x # Z @ y # B"
      and xy: "pos x = p" "pos y = p + d" "corder x = w" "corder y = v"
      and abz: "\<forall>a \<in> set A. pos a < p" "\<forall>z \<in> set Z. p < pos z \<and> pos z < p + d" "\<forall>b \<in> set B. p + d < pos b"
      by blast
    have "Z = []"
    proof (rule ccontr)
      assume Z: "Z \<noteq> []"
      from order_changes [of x y Z] xy wv obtain U u v' V where U: "x # Z @ [y] = U @ u # v' # V"
        and ch: "corder u \<noteq> corder v'" by metis
      then have "full = (A @ U) @ u # v' # (V @ B)" using f by (metis append.assoc append_Cons append_Nil)
      from kept [OF this ch] change_inside [OF U Z] obtain c where "c \<in> set cs" "c \<in> set Z" by blast
      with abz(2) n show False by (fastforce simp: next_to_def)
    qed
    with f xy abz show "next_to full p w d v" using d by (auto simp: next_to_def stands_def)
  next
    assume n: "next_to full p w d v"
    then have "stands full p w" "stands full (p + d) v" by (auto simp: next_to_def)
    from split [OF this] obtain A x Z y B where f: "full = A @ x # Z @ y # B"
      and xy: "pos x = p" "pos y = p + d" "corder x = w" "corder y = v"
      and z: "\<forall>z \<in> set Z. p < pos z \<and> pos z < p + d" by blast
    from z n f have "Z = []" by (cases Z) (auto simp: next_to_def)
    with f have "full = A @ x # y # B" by simp
    from kept [OF this] xy wv have "x \<in> set cs" "y \<in> set cs" by auto
    with xy n subseq_in_set [OF sub] show "next_to cs p w d v" by (auto simp: next_to_def stands_def)
  qed
qed

subsection \<open>Phrases in merged coordinates\<close>

definition word_args :: "stack_item list \<Rightarrow> nat list" where
  "word_args ws = map arg (filter (\<lambda>i. cmd i = UDM_STACK_WORD) ws)"

definition words_and_stops :: "stack_item list \<Rightarrow> bool" where
  "words_and_stops ws \<longleftrightarrow> (\<forall>i \<in> set ws. cmd i = UDM_STACK_WORD \<or> cmd i = UDM_STACK_STOP)"

definition phrase_stands :: "coord2 list \<Rightarrow> nat \<Rightarrow> stack_item list \<Rightarrow> bool" where
  "phrase_stands cs w ws \<longleftrightarrow> (\<exists>c \<in> set cs. corder c = w \<and> phrase_from cs ws (pos c) 1)"

lemma phrase_from_cong: "set cs = set cs' \<Longrightarrow> phrase_from cs ws p d = phrase_from cs' ws p d"
  by (induction ws arbitrary: p d) (auto simp: stands_def)

lemma phrase_stands_cong: "set cs = set cs' \<Longrightarrow> phrase_stands cs w ws = phrase_stands cs' w ws"
  using phrase_from_cong [of cs cs'] by (simp add: phrase_stands_def)

lemma phrase_from_words:
  "phrase_from cs ws p d \<Longrightarrow> words_and_stops ws \<Longrightarrow> v \<in> set (word_args ws) \<Longrightarrow> v \<in> corder ` set cs"
proof (induction ws arbitrary: p d)
  case (Cons i ws)
  then have ws: "words_and_stops ws" by (simp add: words_and_stops_def)
  show ?case
  proof (cases "cmd i = UDM_STACK_STOP")
    case True
    with Cons.prems have "phrase_from cs ws p (d + 1)" "v \<in> set (word_args ws)" by (auto simp: word_args_def)
    with Cons.IH ws show ?thesis by blast
  next
    case False
    with Cons.prems have f: "stands cs (p + d) (arg i)" "phrase_from cs ws (p + d) 1"
      and v: "v = arg i \<or> v \<in> set (word_args ws)" by (auto simp: word_args_def split: if_splits)
    from v show ?thesis
    proof
      assume "v = arg i"
      with f(1) obtain c where "c \<in> set cs" "corder c = v" by (auto simp: stands_def)
      then show ?thesis by blast
    qed (use Cons.IH f(2) ws in blast)
  qed
qed (simp add: word_args_def)

lemma phrase_stands_words:
  assumes "phrase_stands cs w ws" "words_and_stops ws" "v \<in> set (w # word_args ws)"
  shows "v \<in> corder ` set cs"
  using assms phrase_from_words [of cs ws _ 1 v] by (auto simp: phrase_stands_def)

lemma phrase_from_stops: "words_and_stops ws \<Longrightarrow> word_args ws = [] \<Longrightarrow> phrase_from cs ws p d"
  by (induction ws arbitrary: p d) (auto simp: word_args_def words_and_stops_def filter_empty_conv)

text \<open>The stop words before the next word only add to its distance.\<close>

lemma phrase_from_first:
  assumes "words_and_stops ws" "word_args ws = v # vs"
  obtains n rest where "\<And>cs p d. phrase_from cs ws p d \<longleftrightarrow>
      stands cs (p + (d + n)) v \<and> (\<forall>c \<in> set cs. pos c \<le> p \<or> p + (d + n) \<le> pos c) \<and>
      phrase_from cs rest (p + (d + n)) 1"
    "words_and_stops rest" "word_args rest = vs"
proof -
  have "\<exists>n rest. (\<forall>cs p d. phrase_from cs ws p d \<longleftrightarrow>
      stands cs (p + (d + n)) v \<and> (\<forall>c \<in> set cs. pos c \<le> p \<or> p + (d + n) \<le> pos c) \<and>
      phrase_from cs rest (p + (d + n)) 1) \<and> words_and_stops rest \<and> word_args rest = vs"
    using assms
  proof (induction ws)
    case (Cons i ws)
    show ?case
    proof (cases "cmd i = UDM_STACK_STOP")
      case True
      with Cons.prems have "words_and_stops ws" "word_args ws = v # vs"
        by (auto simp: words_and_stops_def word_args_def)
      from Cons.IH [OF this] obtain n rest where n: "\<And>cs p d. phrase_from cs ws p d \<longleftrightarrow>
          stands cs (p + (d + n)) v \<and> (\<forall>c \<in> set cs. pos c \<le> p \<or> p + (d + n) \<le> pos c) \<and>
          phrase_from cs rest (p + (d + n)) 1" and rest: "words_and_stops rest" "word_args rest = vs" by blast
      have "phrase_from cs (i # ws) p d \<longleftrightarrow>
          stands cs (p + (d + Suc n)) v \<and> (\<forall>c \<in> set cs. pos c \<le> p \<or> p + (d + Suc n) \<le> pos c) \<and>
          phrase_from cs rest (p + (d + Suc n)) 1" for cs p d
        using n [of cs p "d + 1"] True by simp
      with rest show ?thesis by blast
    next
      case False
      with Cons.prems have i: "arg i = v" "words_and_stops ws" "word_args ws = vs"
        by (auto simp: words_and_stops_def word_args_def)
      with False show ?thesis by (intro exI [of _ 0] exI [of _ ws]) auto
    qed
  qed (simp add: word_args_def)
  then show ?thesis using that by blast
qed

lemma phrase_stands_next_to:
  assumes ws: "words_and_stops ws" and dist: "distinct (w # word_args ws)" and ne: "word_args ws \<noteq> []"
    and two: "card (corder ` set full) \<le> 2" and sub: "set cs \<subseteq> set full"
    and nt: "\<And>p d v. w \<noteq> v \<Longrightarrow> 0 < d \<Longrightarrow> next_to cs p w d v \<longleftrightarrow> next_to full p w d v"
  shows "phrase_stands cs w ws \<longleftrightarrow> phrase_stands full w ws"
proof -
  obtain v vs where v: "word_args ws = v # vs" using ne by (cases "word_args ws") auto
  obtain n rest where n: "\<And>cs p d. phrase_from cs ws p d \<longleftrightarrow>
      stands cs (p + (d + n)) v \<and> (\<forall>c \<in> set cs. pos c \<le> p \<or> p + (d + n) \<le> pos c) \<and>
      phrase_from cs rest (p + (d + n)) 1" and rest: "words_and_stops rest" "word_args rest = vs"
    using phrase_from_first [OF ws v] by blast
  have wv: "w \<noteq> v" using dist v by auto
  show ?thesis
  proof (cases "vs = []")
    case True
    have "phrase_stands l w ws \<longleftrightarrow> (\<exists>p. next_to l p w (1 + n) v)" for l
      using n [of l _ 1] phrase_from_stops [OF rest(1), of l] rest(2) True
      by (auto simp: phrase_stands_def next_to_def stands_def)
    with nt [OF wv, of "1 + n"] show ?thesis by simp
  next
    case False
    have "\<not> phrase_stands l w ws" if l: "set l \<subseteq> set full" for l
    proof
      assume "phrase_stands l w ws"
      from phrase_stands_words [OF this ws] l have "set (w # word_args ws) \<subseteq> corder ` set full" by blast
      then have "card (set (w # word_args ws)) \<le> 2" by (meson card_mono finite_imageI finite_set order_trans two)
      moreover have "card (set (w # word_args ws)) = length (w # word_args ws)" using distinct_card [OF dist] .
      ultimately show False using v False by (cases vs) auto
    qed
    with sub show ?thesis by blast
  qed
qed

lemma set_merge_full: "set (merge_full o1 o2 A B) = sec_to_crd o1 ` set A \<union> sec_to_crd o2 ` set B"
  by (induction o1 o2 A B rule: merge_full.induct) auto

lemma pos_crd [simp]: "pos (sec_to_crd ord c) = pos c"
  by (simp add: sec_to_crd_def)

definition strict :: "coord2 list \<Rightarrow> bool" where
  "strict cs \<longleftrightarrow> sorted_wrt (\<lambda>a b. pos a < pos b) cs"

lemma strict_merge_full:
  "strict A \<Longrightarrow> strict B \<Longrightarrow> pos ` set A \<inter> pos ` set B = {} \<Longrightarrow> strict (merge_full o1 o2 A B)"
proof (induction o1 o2 A B rule: merge_full.induct)
  case (1 o1 o2 c1 src1 c2 src2)
  show ?case
  proof (cases "pos c1 < pos c2")
    case True
    with 1 show ?thesis by (auto simp: strict_def set_merge_full)
  next
    case False
    moreover from 1 have "pos c1 \<noteq> pos c2" by auto
    ultimately have "pos c2 < pos c1" by simp
    with 1 False show ?thesis by (auto simp: strict_def set_merge_full)
  qed
qed (auto simp: strict_def sorted_wrt_map)

lemma sorted_strict: "strict cs \<Longrightarrow> sorted (map pos cs)"
  unfolding strict_def sorted_map by (erule sorted_wrt_mono_rel [rotated]) simp

lemma subseq_strict: "subseq xs ys \<Longrightarrow> strict ys \<Longrightarrow> strict xs"
  unfolding strict_def by (induction rule: list_emb.induct) (auto dest: subseq_in_set)

lemma phrase_needs_two:
  assumes "phrase_stands cs w ws" "words_and_stops ws" "distinct (w # word_args ws)" "word_args ws \<noteq> []"
  shows "2 \<le> card (corder ` set cs)"
proof -
  from phrase_stands_words [OF assms(1,2)] have "set (w # word_args ws) \<subseteq> corder ` set cs" by blast
  then have "card (set (w # word_args ws)) \<le> card (corder ` set cs)" by (rule card_mono [rotated]) simp
  moreover have "card (set (w # word_args ws)) = length (w # word_args ws)" by (rule distinct_card [OF assms(3)])
  ultimately show ?thesis using assms(4) by (cases "word_args ws") auto
qed

lemma UdmMergeCoordsN2_phrase:
  assumes A: "A \<noteq> []" "strict A" and B: "B \<noteq> []" "strict B"
    and dj: "o1 \<noteq> o2 \<Longrightarrow> pos ` set A \<inter> pos ` set B = {}"
    and ws: "words_and_stops ws" "distinct (w # word_args ws)" "word_args ws \<noteq> []"
  shows "phrase_stands (fst (UdmMergeCoordsN2 o1 A o2 B)) w ws \<longleftrightarrow> phrase_stands (coords_of [(o1, A), (o2, B)]) w ws"
proof -
  let ?full = "merge_full o1 o2 A B" and ?cs = "fst (UdmMergeCoordsN2 o1 A o2 B)"
  note ends = UdmMergeCoordsN2_keeps_ends [OF A(1) B(1), of o1 o2]
  have sub: "set ?cs \<subseteq> set ?full" using subseq_in_set [OF conjunct1 [OF ends]] by blast
  have orders: "corder ` set ?full \<subseteq> {o1, o2}" by (auto simp: set_merge_full)
  have "phrase_stands ?cs w ws \<longleftrightarrow> phrase_stands ?full w ws"
  proof (cases "o1 = o2")
    case True
    have "\<not> phrase_stands l w ws" if "set l \<subseteq> set ?full" for l
    proof
      assume "phrase_stands l w ws"
      from phrase_needs_two [OF this ws] have "2 \<le> card (corder ` set l)" .
      moreover have "card (corder ` set l) \<le> card {o1}"
        by (rule card_mono) (use that orders True in auto)
      ultimately show False by simp
    qed
    with sub show ?thesis by blast
  next
    case False
    have st: "strict ?full" by (rule strict_merge_full [OF A(2) B(2) dj [OF False]])
    have "card (corder ` set ?full) \<le> card {o1, o2}" by (rule card_mono [OF _ orders]) simp
    then have "card (corder ` set ?full) \<le> 2" by (rule order_trans) (simp add: card_insert_if)
    moreover have "next_to ?cs p w d v \<longleftrightarrow> next_to ?full p w d v" if "w \<noteq> v" "0 < d" for p d v
      using next_to_subseq [OF _ _ _ that] ends st by (simp add: strict_def)
    ultimately show ?thesis using phrase_stands_next_to [OF ws] sub by blast
  qed
  then show ?thesis using phrase_stands_cong [of ?full] by (simp add: set_merge_full)
qed

lemma UdmMergeCoordsN2_sorted:
  assumes "A \<noteq> []" "sorted (map pos A)" "B \<noteq> []" "sorted (map pos B)"
  shows "sorted (map pos (fst (UdmMergeCoordsN2 o1 A o2 B)))"
proof -
  have "sorted (map pos (merge_full o1 o2 A B))"
    using assms(2,4) by (induction o1 o2 A B rule: merge_full.induct) (auto simp: set_merge_full comp_def)
  moreover have "subseq (map pos (fst (UdmMergeCoordsN2 o1 A o2 B))) (map pos (merge_full o1 o2 A B))"
    using UdmMergeCoordsN2_keeps_ends [OF assms(1,3)] subseq_map by blast
  moreover have "sorted xs" if "subseq xs ys" "sorted ys" for xs ys :: "nat list"
    using that by (induction rule: list_emb.induct) (auto dest: subseq_in_set)
  ultimately show ?thesis by blast
qed

subsection \<open>The phrases of a query\<close>

fun phrases_of :: "query \<Rightarrow> (nat \<times> stack_item list) list" where
  "phrases_of (Word w) = []"
| "phrases_of (Stop w) = []"
| "phrases_of (Phrase w ws) = [(w, ws)]"
| "phrases_of (Paren q) = phrases_of q"
| "phrases_of (Not q) = phrases_of q"
| "phrases_of (And a b) = phrases_of a @ phrases_of b"
| "phrases_of (Or a b) = phrases_of a @ phrases_of b"
| "phrases_of (Juxt a b) = phrases_of a @ phrases_of b"

fun single_words :: "query \<Rightarrow> nat list" where
  "single_words (Word w) = [w]"
| "single_words (Stop w) = []"
| "single_words (Phrase w ws) = []"
| "single_words (Paren q) = single_words q"
| "single_words (Not q) = single_words q"
| "single_words (And a b) = single_words a @ single_words b"
| "single_words (Or a b) = single_words a @ single_words b"
| "single_words (Juxt a b) = single_words a @ single_words b"

definition phrase_orders :: "nat \<times> stack_item list \<Rightarrow> nat list" where
  "phrase_orders ph = fst ph # word_args (snd ph)"

definition nonzero :: "nat list \<Rightarrow> nat set" where
  "nonzero cnt = {k. k < length cnt \<and> cnt ! k \<noteq> 0}"

lemma or_nat_1: "(n OR 1 = 0) = False" for n :: nat
  by (metis even_or_iff even_zero odd_one)

definition mark :: "nat \<Rightarrow> nat list \<Rightarrow> nat list \<Rightarrow> nat list" where
  "mark a ks cnt = foldl (\<lambda>c k. c[k := c ! k OR a]) cnt ks"

lemma length_mark [simp]: "length (mark a ks cnt) = length cnt"
  unfolding mark_def by (induction ks arbitrary: cnt) auto

lemma nonzero_mark:
  "a = 0 \<or> a = 1 \<Longrightarrow> nonzero (mark a ks cnt) = nonzero cnt \<union> (if a = 1 then {k \<in> set ks. k < length cnt} else {})"
proof (induction ks arbitrary: cnt)
  case (Cons k ks)
  have "nonzero (mark a (k # ks) cnt) = nonzero (mark a ks (cnt[k := cnt ! k OR a]))" by (simp add: mark_def)
  moreover have "nonzero (cnt[k := cnt ! k OR a]) = nonzero cnt \<union> (if a = 1 \<and> k < length cnt then {k} else {})"
    using Cons.prems or_nat_1 [of "cnt ! k"] by (auto simp: nonzero_def nth_list_update split: if_splits)
  ultimately show ?case using Cons by auto
qed (simp add: mark_def)

lemma mark_words_mark:
  "\<forall>k \<in> set (word_args items). k < length cnt \<Longrightarrow> mark_words items a cnt = Some (mark a (word_args items) cnt)"
  by (induction items arbitrary: cnt) (auto simp: word_args_def mark_def set_count_def)

definition mark_phrases :: "coord2 list \<Rightarrow> (nat \<times> stack_item list) list \<Rightarrow> nat list \<Rightarrow> nat list" where
  "mark_phrases cs phs cnt =
     foldl (\<lambda>c ph. mark (if phrase_stands cs (fst ph) (snd ph) then 1 else 0) (phrase_orders ph) c) cnt phs"

lemma length_mark_phrases [simp]: "length (mark_phrases cs phs cnt) = length cnt"
  unfolding mark_phrases_def by (induction phs arbitrary: cnt) auto

lemma mark_phrases_append: "mark_phrases cs (xs @ ys) cnt = mark_phrases cs ys (mark_phrases cs xs cnt)"
  by (simp add: mark_phrases_def)

lemma nonzero_mark_phrases:
  "nonzero (mark_phrases cs phs cnt) = nonzero cnt \<union>
     {k. k < length cnt \<and> (\<exists>ph \<in> set phs. k \<in> set (phrase_orders ph) \<and> phrase_stands cs (fst ph) (snd ph))}"
proof (induction phs arbitrary: cnt)
  case (Cons ph phs)
  have "mark_phrases cs (ph # phs) cnt =
      mark_phrases cs phs (mark (if phrase_stands cs (fst ph) (snd ph) then 1 else 0) (phrase_orders ph) cnt)"
    by (simp add: mark_phrases_def)
  with Cons.IH show ?case by (auto simp: nonzero_mark)
qed (simp add: mark_phrases_def)

lemma phrase_dropWhile:
  assumes "words_and_stops ws"
  shows "dropWhile (\<lambda>i. cmd i \<noteq> UDM_STACK_PHRASE) (ws @ i # rest) = dropWhile (\<lambda>i. cmd i \<noteq> UDM_STACK_PHRASE) (i # rest)"
    "takeWhile (\<lambda>i. cmd i \<noteq> UDM_STACK_PHRASE) (ws @ i # rest) = ws @ takeWhile (\<lambda>i. cmd i \<noteq> UDM_STACK_PHRASE) (i # rest)"
  using assms by (induction ws) (auto simp: words_and_stops_def)

lemma CheckPhrase_phrase:
  assumes ws: "words_and_stops ws" and srt: "sorted (map pos cs)"
    and len: "\<forall>k \<in> set (phrase_orders (w, ws)). k < length cnt"
  shows "CheckPhrase (toks op (Phrase w ws) @ rest) cs cnt sl = CheckPhrase rest cs (mark_phrases cs [(w, ws)] cnt) sl"
proof -
  let ?ph = "\<lparr>cmd = UDM_STACK_PHRASE, arg = 0\<rparr>" and ?w = "\<lparr>cmd = UDM_STACK_WORD, arg = w\<rparr>"
  have "toks op (Phrase w ws) @ rest = ?ph # (?w # ws) @ ?ph # rest" by simp
  moreover have "words_and_stops (?w # ws)" using ws by (simp add: words_and_stops_def)
  note cut = phrase_dropWhile [OF this, of ?ph rest]
  have one: "CheckOnePhrase ?w ws cs 0 sl = (if phrase_stands cs w ws then 1 else 0)"
    by (simp add: CheckOnePhrase_finds [OF srt] phrase_stands_def equals_sign_def)
  have "word_args (?w # ws) = phrase_orders (w, ws)" by (simp add: word_args_def phrase_orders_def)
  then have "mark_words (?w # ws) (CheckOnePhrase ?w ws cs 0 sl) cnt = Some (mark_phrases cs [(w, ws)] cnt)"
    using mark_words_mark [of "?w # ws" cnt] len by (simp only: one mark_phrases_def foldl.simps fst_conv snd_conv)
  ultimately show ?thesis using cut by (simp add: Let_def)
qed

lemma CheckPhrase_skip: "cmd i \<noteq> UDM_STACK_PHRASE \<Longrightarrow> CheckPhrase (i # items) cs cnt sl = CheckPhrase items cs cnt sl"
  by simp

declare CheckPhrase.simps(2) [simp del]

lemma well_formed_phrases: "well_formed j p q \<Longrightarrow> ph \<in> set (phrases_of q) \<Longrightarrow> words_and_stops (snd ph)"
  by (induction q arbitrary: p) (auto simp: words_and_stops_def)

lemma CheckPhrase_toks:
  assumes "\<forall>ph \<in> set (phrases_of q). words_and_stops (snd ph)" "cmd o1 \<noteq> UDM_STACK_PHRASE" "sorted (map pos cs)"
    and "\<forall>ph \<in> set (phrases_of q). \<forall>k \<in> set (phrase_orders ph). k < length cnt"
  shows "CheckPhrase (toks [o1] q @ rest) cs cnt sl = CheckPhrase rest cs (mark_phrases cs (phrases_of q) cnt) sl"
  using assms
proof (induction q arbitrary: cnt rest)
  case (Phrase w ws)
  then show ?case
    using CheckPhrase_phrase [of ws cs w cnt "[o1]" rest sl] by simp
qed (simp_all add: ball_Un CheckPhrase_skip mark_phrases_def [of _ "[]"] mark_phrases_append)

lemma CheckPhrase_query:
  assumes "well_formed j p q" "cmd o1 \<noteq> UDM_STACK_PHRASE" "sorted (map pos cs)"
    and "\<forall>ph \<in> set (phrases_of q). \<forall>k \<in> set (phrase_orders ph). k < length cnt"
  shows "CheckPhrase (toks [o1] q) cs cnt sl = Some (mark_phrases cs (phrases_of q) cnt)"
  using CheckPhrase_toks [of q o1 cs cnt "[]" sl] assms well_formed_phrases [OF assms(1)] by simp

end
