(* ===== verification/Search_Documents.thy ===== *)
theory Search_Documents
  imports Phrase_Check
begin

text \<open>
  The decision of \<open>UdmGroupByURLLoop2\<close> on one document: its counters are the words and phrases found
  in it, the quick tests (the mask of the words, the distance of the two words of a phrase) only
  skip documents that do not satisfy the query, and the evaluation of the query decides the rest.
\<close>

subsection \<open>One section of a document\<close>

text \<open>
  \<open>section_ok\<close>: what the earlier stages of the search promise of a section found for a word.
  \<open>apart\<close>: two words of the query do not stand at the same place.  \<open>phrase_ok\<close>: the words of a
  phrase have different orders, and there are at least two of them.
\<close>

definition coords_of_sections :: "found_section list \<Rightarrow> coord2 list" where
  "coords_of_sections Ss = coords_of (map (\<lambda>S. (order S, crds S)) Ss)"

definition section_ok :: "widewordlist \<Rightarrow> found_section \<Rightarrow> bool" where
  "section_ok WL S \<longleftrightarrow>
     wordnum S < length (Words WL) \<and> order S = w_order (Words WL ! wordnum S) \<and> order S < nuniq WL \<and>
     origin (Words WL ! wordnum S) \<noteq> UDM_WORD_ORIGIN_STOP \<and>
     crds S \<noteq> [] \<and> ncoords S = length (crds S) \<and> strict (crds S) \<and>
     list_all (\<lambda>c. minpos S \<le> pos c \<and> pos c \<le> maxpos S) (crds S) \<and> 0 < secno S \<and> secno S < 256"

definition apart :: "found_section list \<Rightarrow> bool" where
  "apart Ss \<longleftrightarrow>
     (\<forall>S \<in> set Ss. \<forall>T \<in> set Ss. secno S = secno T \<longrightarrow> order S \<noteq> order T \<longrightarrow>
        pos ` set (crds S) \<inter> pos ` set (crds T) = {})"

definition phrase_ok :: "nat \<Rightarrow> nat \<times> stack_item list \<Rightarrow> bool" where
  "phrase_ok n ph \<longleftrightarrow>
     words_and_stops (snd ph) \<and> distinct (phrase_orders ph) \<and> word_args (snd ph) \<noteq> [] \<and>
     list_all (\<lambda>k. k < n) (phrase_orders ph)"

definition counted :: "widewordlist \<Rightarrow> nat \<Rightarrow> found_section list \<Rightarrow> nat set" where
  "counted WL limit Ss = order ` {S \<in> set Ss. phrlen (Words WL ! wordnum S) < limit}"

lemma UpdateCount_ok:
  assumes "section_ok WL S" "length cnt = nuniq WL"
  shows "\<exists>cnt'. UpdateCount cnt (Words WL ! wordnum S) limit = Some cnt' \<and> length cnt' = nuniq WL \<and>
    nonzero cnt' = nonzero cnt \<union> counted WL limit [S]"
  using assms by (auto simp: UpdateCount_def set_count_def section_ok_def nonzero_def counted_def nth_list_update)

lemma count_words_ok:
  assumes "\<forall>S \<in> set Ss. section_ok WL S" "length cnt = nuniq WL"
  shows "\<exists>cnt' item'. count_words (Words WL) limit Ss cnt item = Some (cnt', item') \<and> length cnt' = nuniq WL \<and>
    nonzero cnt' = nonzero cnt \<union> counted WL limit Ss"
  using assms
proof (induction Ss arbitrary: cnt item)
  case (Cons S Ss)
  then have S: "section_ok WL S" by simp
  from UpdateCount_ok [OF this Cons.prems(2)] obtain c where
    c: "UpdateCount cnt (Words WL ! wordnum S) limit = Some c" "length c = nuniq WL"
      "nonzero c = nonzero cnt \<union> counted WL limit [S]" by blast
  from Cons.IH [OF _ c(2), of "UdmDensityParamItemAddWord item S (Words WL ! wordnum S)"] Cons.prems obtain c' i' where
    c': "count_words (Words WL) limit Ss c (UdmDensityParamItemAddWord item S (Words WL ! wordnum S)) = Some (c', i')"
      "length c' = nuniq WL" "nonzero c' = nonzero c \<union> counted WL limit Ss" by auto
  have "counted WL limit (S # Ss) = counted WL limit [S] \<union> counted WL limit Ss" by (auto simp: counted_def)
  with c c' S show ?case by (auto simp: word_at_def section_ok_def)
qed (simp add: counted_def)

definition merged_ok :: "found_section list \<Rightarrow> coord2 list \<Rightarrow> nat \<Rightarrow> bool" where
  "merged_ok Ss cs n \<longleftrightarrow>
     (if length Ss = 1 then n = 0
      else n = length cs \<and> sorted (map pos cs) \<and>
        (\<forall>w ws. words_and_stops ws \<longrightarrow> distinct (w # word_args ws) \<longrightarrow> word_args ws \<noteq> [] \<longrightarrow>
           phrase_stands cs w ws = phrase_stands (coords_of_sections Ss) w ws))"

lemma merged_ok_two:
  assumes "section_ok WL S" "section_ok WL T" "apart [S, T]" "secno S = secno T"
  shows "merged_ok [S, T] (fst (UdmMergeCoordsN2 (order S) (crds S) (order T) (crds T)))
    (snd (UdmMergeCoordsN2 (order S) (crds S) (order T) (crds T)))"
proof -
  from assms have ok: "crds S \<noteq> []" "strict (crds S)" "crds T \<noteq> []" "strict (crds T)"
    and dj: "order S \<noteq> order T \<Longrightarrow> pos ` set (crds S) \<inter> pos ` set (crds T) = {}"
    by (auto simp: section_ok_def apart_def)
  show ?thesis
    using UdmMergeCoordsN2_phrase [OF ok dj] UdmMergeCoordsN2_keeps_ends [OF ok(1,3), of "order S" "order T"]
      UdmMergeCoordsN2_sorted [OF ok(1) sorted_strict [OF ok(2)] ok(3) sorted_strict [OF ok(4)], of "order S" "order T"]
    by (simp add: merged_ok_def coords_of_sections_def)
qed

lemma merged_ok_many:
  assumes "\<forall>S \<in> set Ss. section_ok WL S" "length Ss \<noteq> 1"
  shows "merged_ok Ss (UdmMergeCoordsMany (map (\<lambda>S. (order S, crds S)) Ss))
    (length (UdmMergeCoordsMany (map (\<lambda>S. (order S, crds S)) Ss)))"
proof -
  let ?L = "map (\<lambda>S. (order S, crds S)) Ss"
  have "\<forall>(ord, src) \<in> set ?L. sorted (map pos src)"
    using assms(1) by (auto simp: section_ok_def intro: sorted_strict)
  note m = UdmMergeCoordsMany_merges [OF this]
  have "set (UdmMergeCoordsMany ?L) = set (coords_of ?L)" by (rule mset_eq_setD [OF conjunct1 [OF m]])
  moreover have "sorted (map pos (UdmMergeCoordsMany ?L))" by (rule conjunct2 [OF m])
  ultimately show ?thesis using assms(2) phrase_stands_cong by (simp add: merged_ok_def coords_of_sections_def)
qed


text \<open>The coordinates and their number that \<open>UdmCalcUniqSection\<close> keeps of one section.\<close>

definition merged_coords :: "found_section list \<Rightarrow> coord2 list \<times> nat" where
  "merged_coords Ss =
     (case Ss of
        [S] \<Rightarrow> ([], 0)
      | [S, T] \<Rightarrow> UdmMergeCoordsN2 (order S) (crds S) (order T) (crds T)
      | _ \<Rightarrow> (let cs = UdmMergeCoordsMany (map (\<lambda>S. (order S, crds S)) Ss) in (cs, length cs)))"

lemma merged_coords_ok:
  assumes "\<forall>S \<in> set Ss. section_ok WL S" "apart Ss" "\<forall>S \<in> set Ss. secno S = secno (hd Ss)"
  shows "merged_ok Ss (fst (merged_coords Ss)) (snd (merged_coords Ss))"
proof -
  consider S where "Ss = [S]" | S T where "Ss = [S, T]" | "Ss = [] \<or> (\<exists>S T U r. Ss = S # T # U # r)"
    by (cases Ss; cases "tl Ss"; cases "tl (tl Ss)") auto
  then show ?thesis
  proof cases
    case (2 S T)
    with assms have "section_ok WL S" "section_ok WL T" "apart [S, T]" "secno S = secno T" by auto
    from merged_ok_two [OF this] show ?thesis by (simp add: 2 merged_coords_def)
  next
    case 3
    then have "length Ss \<noteq> 1" "merged_coords Ss = (UdmMergeCoordsMany (map (\<lambda>S. (order S, crds S)) Ss),
        length (UdmMergeCoordsMany (map (\<lambda>S. (order S, crds S)) Ss)))"
      by (auto simp: merged_coords_def Let_def)
    with merged_ok_many [OF assms(1)] show ?thesis by simp
  qed (simp add: merged_ok_def merged_coords_def)
qed

lemma merged_coords_sorted:
  assumes "\<forall>S \<in> set Ss. section_ok WL S"
  shows "length Ss = 1 \<and> snd (merged_coords Ss) = 0 \<or>
    snd (merged_coords Ss) = length (fst (merged_coords Ss)) \<and> sorted (map pos (fst (merged_coords Ss)))"
proof -
  consider S where "Ss = [S]" | S T where "Ss = [S, T]" | "Ss = [] \<or> (\<exists>S T U r. Ss = S # T # U # r)"
    by (cases Ss; cases "tl Ss"; cases "tl (tl Ss)") auto
  then show ?thesis
  proof cases
    case (2 S T)
    with assms have ok: "crds S \<noteq> []" "strict (crds S)" "crds T \<noteq> []" "strict (crds T)" by (auto simp: section_ok_def)
    show ?thesis
      using UdmMergeCoordsN2_keeps_ends [OF ok(1,3), of "order S" "order T"]
        UdmMergeCoordsN2_sorted [OF ok(1) sorted_strict [OF ok(2)] ok(3) sorted_strict [OF ok(4)], of "order S" "order T"]
      by (simp add: merged_coords_def 2)
  next
    case 3
    then have e: "length Ss \<noteq> 1" "merged_coords Ss = (UdmMergeCoordsMany (map (\<lambda>S. (order S, crds S)) Ss),
        length (UdmMergeCoordsMany (map (\<lambda>S. (order S, crds S)) Ss)))"
      by (auto simp: merged_coords_def Let_def)
    from merged_ok_many [OF assms e(1)] e show ?thesis by (auto simp: merged_ok_def)
  qed (simp add: merged_coords_def)
qed

lemma merge_section_ok:
  assumes "\<forall>S \<in> set Ss. section_ok WL S" "Ss \<noteq> []"
    and cnt: "length cnt = nuniq WL"
  shows "\<exists>cnt' parts'. merge_section (Words WL) limit Ss (cnt, parts) =
      Some (cnt', parts', fst (merged_coords Ss), snd (merged_coords Ss)) \<and>
    length cnt' = nuniq WL \<and> nonzero cnt' = nonzero cnt \<union> counted WL limit Ss"
proof -
  obtain S rest where Ss: "Ss = S # rest" using assms(2) by (cases Ss) auto
  define pts where "pts = (if sp_max_secno parts < secno S then parts\<lparr>sp_max_secno := secno S\<rparr> else parts)"
  have at: "word_at (Words WL) (wordnum T) = Some (Words WL ! wordnum T)" if "T \<in> set Ss" for T
    using assms(1) that by (auto simp: word_at_def section_ok_def)
  consider "rest = []" | T where "rest = [T]" | T U r where "rest = T # U # r"
    by (cases rest; cases "tl rest") auto
  then show ?thesis
  proof cases
    case 1
    with Ss assms(1) have "section_ok WL S" by simp
    from UpdateCount_ok [OF this cnt, of limit] at [of S] 1 show ?thesis
      by (auto simp: merge_section_def Ss merged_coords_def Let_def)
  next
    case 2
    with Ss assms(1) have S: "section_ok WL S" and T: "section_ok WL T" by auto
    obtain c where c: "UpdateCount cnt (Words WL ! wordnum S) limit = Some c" "length c = nuniq WL"
      "nonzero c = nonzero cnt \<union> counted WL limit [S]" using UpdateCount_ok [OF S cnt] by blast
    obtain c' where c': "UpdateCount c (Words WL ! wordnum T) limit = Some c'" "length c' = nuniq WL"
      "nonzero c' = nonzero c \<union> counted WL limit [T]" using UpdateCount_ok [OF T c(2)] by blast
    have "merge_section (Words WL) limit [S, T] (cnt, parts) =
        Some (c', UdmDensityParamAdd2 pts (secno S) S (Words WL ! wordnum S) T (Words WL ! wordnum T),
          fst (merged_coords Ss), snd (merged_coords Ss))"
      using at [of S] at [of T] c(1) c'(1) 2 by (simp add: merge_section_def pts_def Ss Let_def merged_coords_def)
    moreover have "counted WL limit [S, T] = counted WL limit [S] \<union> counted WL limit [T]"
      by (auto simp: counted_def)
    ultimately show ?thesis using c(3) c'(2,3) by (auto simp: Ss 2)
  next
    case 3
    let ?item = "UdmDensityParamItemInit (max_word_weight pts) (secno S) S None"
    from count_words_ok [OF assms(1) cnt, of limit ?item] obtain c i where
      c: "count_words (Words WL) limit Ss cnt ?item = Some (c, i)" "length c = nuniq WL"
        "nonzero c = nonzero cnt \<union> counted WL limit Ss" by blast
    have "merge_section (Words WL) limit Ss (cnt, parts) =
        Some (c, UdmDensityParamAddItem pts i, fst (merged_coords Ss), snd (merged_coords Ss))"
      using c(1) by (simp add: merge_section_def pts_def Ss 3 Let_def merged_coords_def)
    with c(2,3) show ?thesis by blast
  qed
qed

text \<open>What the items of a query make of the counters.\<close>

definition phrases_checked :: "score_param \<Rightarrow> (nat \<times> stack_item list) list \<Rightarrow> bool" where
  "phrases_checked param phs \<longleftrightarrow>
     (\<forall>ph \<in> set phs. phrase_ok (nuniq (WWList param)) ph) \<and>
     (\<forall>cs cnt sl. sorted (map pos cs) \<longrightarrow> length cnt = nuniq (WWList param) \<longrightarrow>
        CheckPhrase (ItemList param) cs cnt sl = Some (mark_phrases cs phs cnt))"

lemma phrases_checked_query:
  assumes "well_formed j p q" "ItemList param = toks [o1] q" "cmd o1 \<noteq> UDM_STACK_PHRASE"
    and "\<forall>ph \<in> set (phrases_of q). phrase_ok (nuniq (WWList param)) ph"
  shows "phrases_checked param (phrases_of q)"
  unfolding phrases_checked_def
proof (intro conjI allI impI)
  fix cs :: "coord2 list" and cnt :: "nat list" and sl
  assume srt: "sorted (map pos cs)" and len: "length cnt = nuniq (WWList param)"
  have "\<forall>x \<in> set (phrases_of q). \<forall>k \<in> set (phrase_orders x). k < length cnt"
    using assms(4) by (auto simp: phrase_ok_def len list_all_iff)
  from CheckPhrase_query [OF assms(1,3) srt this]
  show "CheckPhrase (ItemList param) cs cnt sl = Some (mark_phrases cs (phrases_of q) cnt)" by (simp add: assms(2))
qed (use assms(4) in blast)

lemma phrases_checked_Nil: "ItemList param = [] \<Longrightarrow> phrases_checked param []"
  by (simp add: phrases_checked_def mark_phrases_def)

text \<open>The words that a group of sections marks as found.\<close>

definition marked ::
    "widewordlist \<Rightarrow> search_mode \<Rightarrow> (nat \<times> stack_item list) list \<Rightarrow> found_section list \<Rightarrow> nat set" where
  "marked WL mode phs Ss =
     counted WL (update_count_phrlen_limit mode) Ss \<union>
     (if mode = UDM_MODE_BOOL
      then {k. \<exists>ph \<in> set phs. k \<in> set (phrase_orders ph) \<and>
              phrase_stands (coords_of_sections Ss) (fst ph) (snd ph)}
      else {})"

lemma short_no_phrase:
  assumes "phrase_ok n ph" "length cs \<le> 1"
  shows "\<not> phrase_stands cs (fst ph) (snd ph)"
proof
  assume "phrase_stands cs (fst ph) (snd ph)"
  from phrase_needs_two [OF this] assms(1) have "2 \<le> card (corder ` set cs)"
    by (auto simp: phrase_ok_def phrase_orders_def)
  moreover have "card (corder ` set cs) \<le> length cs"
    by (meson card_image_le card_length finite_set order_trans)
  ultimately show False using assms(2) by simp
qed

lemma one_section_no_phrase:
  assumes "phrase_ok n ph"
  shows "\<not> phrase_stands (coords_of_sections [S]) (fst ph) (snd ph)"
proof
  assume "phrase_stands (coords_of_sections [S]) (fst ph) (snd ph)"
  from phrase_needs_two [OF this] assms have "2 \<le> card (corder ` set (coords_of_sections [S]))"
    by (auto simp: phrase_ok_def phrase_orders_def)
  moreover have "card (corder ` set (coords_of_sections [S])) \<le> card {order S}"
    by (rule card_mono) (auto simp: coords_of_sections_def)
  ultimately show False by simp
qed

lemma UdmCalcUniqSection_ok:
  assumes Ss: "\<forall>S \<in> set Ss. section_ok (WWList param) S" "apart Ss" "\<forall>S \<in> set Ss. secno S = secno (hd Ss)" "Ss \<noteq> []"
    and cnt: "length cnt = nuniq (WWList param)"
    and q: "search_mode param = UDM_MODE_BOOL \<Longrightarrow> phrases_checked param phs"
  shows "\<exists>cnt' parts'. UdmCalcUniqSection param (update_count_phrlen_limit (search_mode param)) Ss (cnt, parts) = Some (cnt', parts') \<and>
    length cnt' = nuniq (WWList param) \<and>
    nonzero cnt' = nonzero cnt \<union> marked (WWList param) (search_mode param) phs Ss"
proof -
  let ?WL = "WWList param" and ?lim = "update_count_phrlen_limit (search_mode param)"
  define cs n where "cs = fst (merged_coords Ss)" and "n = snd (merged_coords Ss)"
  obtain c pts where m: "merge_section (Words ?WL) ?lim Ss (cnt, parts) = Some (c, pts, cs, n)"
    and c: "length c = nuniq ?WL" "nonzero c = nonzero cnt \<union> counted ?WL ?lim Ss"
    using merge_section_ok [OF Ss(1,4) cnt] unfolding cs_def n_def by blast
  have ok: "merged_ok Ss cs n" unfolding cs_def n_def by (rule merged_coords_ok [OF Ss(1-3)])
  show ?thesis
  proof (cases "search_mode param = UDM_MODE_BOOL")
    case False
    with m c show ?thesis by (simp add: UdmCalcUniqSection_def marked_def Let_def)
  next
    case True
    note q = q [OF True]
    then have ph: "phrase_ok (nuniq ?WL) x" if "x \<in> set phs" for x using that by (auto simp: phrases_checked_def)
    show ?thesis
    proof (cases "1 < n")
      case n: True
      with ok have len: "length Ss \<noteq> 1" by (auto simp: merged_ok_def)
      with ok have cs: "n = length cs" "sorted (map pos cs)" by (auto simp: merged_ok_def)
      have st: "phrase_stands cs (fst x) (snd x) = phrase_stands (coords_of_sections Ss) (fst x) (snd x)"
        if "x \<in> set phs" for x
        using ph [OF that] ok len by (auto simp: merged_ok_def phrase_ok_def phrase_orders_def)
      have lt: "\<forall>x \<in> set phs. \<forall>k \<in> set (phrase_orders x). k < length c"
        using ph by (auto simp: phrase_ok_def c(1) list_all_iff)
      have "CheckPhrase (ItemList param) (take n cs) c (seclen (hd Ss)) = Some (mark_phrases cs phs c)"
        using q cs c(1) by (simp add: phrases_checked_def)
      moreover have "nonzero (mark_phrases cs phs c) = nonzero cnt \<union> marked ?WL (search_mode param) phs Ss"
        using lt st by (auto simp: nonzero_mark_phrases c(2) marked_def True)
      ultimately show ?thesis using m c True n by (simp add: UdmCalcUniqSection_def Let_def)
    next
      case n: False
      have "\<not> phrase_stands (coords_of_sections Ss) (fst x) (snd x)" if "x \<in> set phs" for x
      proof (cases "length Ss = 1")
        case True
        then obtain S where "Ss = [S]" by (cases Ss) auto
        with one_section_no_phrase [OF ph [OF that]] show ?thesis by simp
      next
        case False
        with ok n have "length cs \<le> 1" by (auto simp: merged_ok_def)
        from short_no_phrase [OF ph [OF that] this] ph [OF that] ok False show ?thesis
          by (auto simp: merged_ok_def phrase_ok_def phrase_orders_def)
      qed
      then have "marked ?WL (search_mode param) phs Ss = counted ?WL ?lim Ss" by (auto simp: marked_def)
      with m c n True show ?thesis by (simp add: UdmCalcUniqSection_def Let_def)
    qed
  qed
qed

text \<open>Without \<open>apart\<close> the counters of phrases are not known, but the code returns.\<close>

lemma UdmCalcUniqSection_returns:
  assumes Ss: "\<forall>S \<in> set Ss. section_ok (WWList param) S" "Ss \<noteq> []"
    and cnt: "length cnt = nuniq (WWList param)"
    and q: "search_mode param = UDM_MODE_BOOL \<Longrightarrow> phrases_checked param phs"
  shows "\<exists>cnt' parts'. UdmCalcUniqSection param (update_count_phrlen_limit (search_mode param)) Ss (cnt, parts) = Some (cnt', parts') \<and>
    length cnt' = nuniq (WWList param)"
proof -
  define cs n where "cs = fst (merged_coords Ss)" and "n = snd (merged_coords Ss)"
  obtain c pts where m: "merge_section (Words (WWList param)) (update_count_phrlen_limit (search_mode param)) Ss (cnt, parts) =
      Some (c, pts, cs, n)" and c: "length c = nuniq (WWList param)"
    using merge_section_ok [OF Ss cnt] unfolding cs_def n_def by blast
  show ?thesis
  proof (cases "search_mode param = UDM_MODE_BOOL \<and> 1 < n")
    case False
    with m c show ?thesis by (auto simp: UdmCalcUniqSection_def Let_def)
  next
    case True
    with merged_coords_sorted [OF Ss(1)] have "n = length cs" "sorted (map pos cs)"
      unfolding cs_def [symmetric] n_def [symmetric] by auto
    with q True c have "CheckPhrase (ItemList param) (take n cs) c (seclen (hd Ss)) = Some (mark_phrases cs phs c)"
      by (simp add: phrases_checked_def)
    with m c True show ?thesis by (simp add: UdmCalcUniqSection_def Let_def)
  qed
qed

text \<open>In a section with one word of the query no phrase is searched.\<close>

lemma UdmCalcUniqSection_one:
  assumes "section_ok (WWList param) S" "length cnt = nuniq (WWList param)"
  shows "\<exists>cnt' parts'. UdmCalcUniqSection param limit [S] (cnt, parts) = Some (cnt', parts') \<and>
    length cnt' = nuniq (WWList param) \<and> nonzero cnt' = nonzero cnt \<union> counted (WWList param) limit [S]"
proof -
  obtain c pts where "merge_section (Words (WWList param)) limit [S] (cnt, parts) = Some (c, pts, [], 0)"
    "length c = nuniq (WWList param)" "nonzero c = nonzero cnt \<union> counted (WWList param) limit [S]"
    using merge_section_ok [of "[S]" "WWList param" cnt limit parts] assms by (auto simp: merged_coords_def)
  then show ?thesis by (auto simp: UdmCalcUniqSection_def Let_def)
qed

subsection \<open>The sections of a document by their numbers\<close>

lemma takeWhile_sorted_filter:
  assumes "sorted (f x # map f xs)"
  shows "takeWhile (\<lambda>y. f y = (f x :: 'b :: linorder)) xs = filter (\<lambda>y. f y = f x) xs \<and>
    dropWhile (\<lambda>y. f y = f x) xs = filter (\<lambda>y. f y \<noteq> f x) xs"
  using assms
proof (induction xs)
  case (Cons y xs)
  show ?case
  proof (cases "f y = f x")
    case False
    with Cons.prems have "\<forall>z \<in> set xs. f z \<noteq> f x" by fastforce
    with False show ?thesis by (auto simp: filter_empty_conv intro!: filter_True [symmetric])
  qed (use Cons in auto)
qed simp

lemma uniq_sections_groups:
  assumes "sorted (map secno doc)"
  shows "(\<forall>g \<in> set (uniq_sections doc). g \<noteq> [] \<and> g = filter (\<lambda>S. secno S = secno (hd g)) doc) \<and>
    (\<forall>S \<in> set doc. filter (\<lambda>T. secno T = secno S) doc \<in> set (uniq_sections doc)) \<and>
    distinct (map (\<lambda>g. secno (hd g)) (uniq_sections doc)) \<and>
    (\<lambda>g. secno (hd g)) ` set (uniq_sections doc) \<subseteq> secno ` set doc"
  using assms
proof (induction doc rule: uniq_sections.induct)
  case (2 S Ss)
  let ?rest = "filter (\<lambda>T. secno T \<noteq> secno S) Ss" and ?k = "\<lambda>g :: found_section list. secno (hd g)"
  from takeWhile_sorted_filter [of secno S Ss] 2(2)
  have tw: "takeWhile (\<lambda>T. secno T = secno S) Ss = filter (\<lambda>T. secno T = secno S) Ss"
    "dropWhile (\<lambda>T. secno T = secno S) Ss = ?rest" by simp_all
  have u: "uniq_sections (S # Ss) = filter (\<lambda>T. secno T = secno S) (S # Ss) # uniq_sections ?rest"
    by (simp add: tw)
  have "sorted (map secno ?rest)" using 2(2) by (simp add: sorted_filter)
  with 2(1) have IH: "\<forall>g \<in> set (uniq_sections ?rest). g \<noteq> [] \<and> g = filter (\<lambda>T. secno T = ?k g) ?rest"
    "\<forall>T \<in> set ?rest. filter (\<lambda>U. secno U = secno T) ?rest \<in> set (uniq_sections ?rest)"
    "distinct (map ?k (uniq_sections ?rest))" "?k ` set (uniq_sections ?rest) \<subseteq> secno ` set ?rest"
    by (simp_all add: tw)
  have other: "filter (\<lambda>U. secno U = s) ?rest = filter (\<lambda>U. secno U = s) (S # Ss)" if "s \<noteq> secno S" for s
    using that by (auto intro: filter_cong)
  have "g \<noteq> [] \<and> g = filter (\<lambda>T. secno T = ?k g) (S # Ss)" if "g \<in> set (uniq_sections (S # Ss))" for g
  proof -
    from that u consider "g = filter (\<lambda>T. secno T = secno S) (S # Ss)" | "g \<in> set (uniq_sections ?rest)" by auto
    then show ?thesis
    proof cases
      case 2
      with IH(4) have "?k g \<noteq> secno S" by auto
      with other IH(1) 2 show ?thesis by metis
    qed simp
  qed
  moreover have "filter (\<lambda>U. secno U = secno T) (S # Ss) \<in> set (uniq_sections (S # Ss))" if "T \<in> set (S # Ss)" for T
  proof (cases "secno T = secno S")
    case True
    then show ?thesis unfolding u by simp
  next
    case False
    with that have "T \<in> set ?rest" by auto
    with IH(2) other [OF False] show ?thesis unfolding u by (metis list.set_intros(2))
  qed
  moreover have "distinct (map ?k (uniq_sections (S # Ss)))" using IH(3,4) unfolding u by auto
  moreover have "?k ` set (uniq_sections (S # Ss)) \<subseteq> secno ` set (S # Ss)" using IH(4) unfolding u by auto
  ultimately show ?case by blast
qed simp

lemma uniq_sections_few:
  assumes "sorted (map secno doc)" "\<forall>S \<in> set doc. 0 < secno S \<and> secno S < 256"
  shows "length (uniq_sections doc) < 256"
proof -
  let ?ks = "map (\<lambda>g. secno (hd g)) (uniq_sections doc)"
  note u = uniq_sections_groups [OF assms(1)]
  then have "set ?ks \<subseteq> {1..255}" using assms(2) by fastforce
  then have "card (set ?ks) \<le> card {1..255 :: nat}" by (rule card_mono [rotated]) simp
  moreover have "card (set ?ks) = length ?ks" using u distinct_card by blast
  ultimately show ?thesis by simp
qed

subsection \<open>The counters of a document\<close>

definition group_ok :: "widewordlist \<Rightarrow> found_section list \<Rightarrow> bool" where
  "group_ok WL g \<longleftrightarrow>
     (\<forall>S \<in> set g. section_ok WL S) \<and> apart g \<and> (\<forall>S \<in> set g. secno S = secno (hd g)) \<and> g \<noteq> []"

lemma uniq_loop_ok:
  assumes "\<forall>g \<in> set gs. group_ok (WWList param) g"
    and "length cnt = nuniq (WWList param)"
    and q: "search_mode param = UDM_MODE_BOOL \<Longrightarrow> phrases_checked param phs"
  shows "\<exists>cnt' parts'. uniq_loop param (update_count_phrlen_limit (search_mode param)) gs (cnt, parts) = Some (cnt', parts') \<and>
    length cnt' = nuniq (WWList param) \<and>
    nonzero cnt' = nonzero cnt \<union> (\<Union>g \<in> set gs. marked (WWList param) (search_mode param) phs g)"
  using assms(1,2)
proof (induction gs arbitrary: cnt parts)
  case (Cons g gs)
  from Cons.prems(1) have "group_ok (WWList param) g" by simp
  then have g: "\<forall>S \<in> set g. section_ok (WWList param) S" "apart g" "\<forall>S \<in> set g. secno S = secno (hd g)" "g \<noteq> []"
    unfolding group_ok_def by blast+
  from UdmCalcUniqSection_ok [OF g Cons.prems(2) q, of parts] obtain c pts where
    c: "UdmCalcUniqSection param (update_count_phrlen_limit (search_mode param)) g (cnt, parts) = Some (c, pts)"
      "length c = nuniq (WWList param)" "nonzero c = nonzero cnt \<union> marked (WWList param) (search_mode param) phs g" by blast
  from Cons.IH [OF _ c(2), of pts] Cons.prems(1) obtain c' pts' where
    "uniq_loop param (update_count_phrlen_limit (search_mode param)) gs (c, pts) = Some (c', pts')"
    "length c' = nuniq (WWList param)"
    "nonzero c' = nonzero c \<union> (\<Union>g \<in> set gs. marked (WWList param) (search_mode param) phs g)" by auto
  with c show ?case by auto
qed auto

definition section_coords :: "found_section list \<Rightarrow> nat \<Rightarrow> coord2 list" where
  "section_coords doc s = coords_of_sections (filter (\<lambda>S. secno S = s) doc)"

definition word_in :: "found_section list \<Rightarrow> nat \<Rightarrow> bool" where
  "word_in doc w \<longleftrightarrow> (\<exists>S \<in> set doc. order S = w)"

definition phrase_in :: "found_section list \<Rightarrow> nat \<Rightarrow> stack_item list \<Rightarrow> bool" where
  "phrase_in doc w ws \<longleftrightarrow> (\<exists>S \<in> set doc. phrase_stands (section_coords doc (secno S)) w ws)"

definition document_ok :: "widewordlist \<Rightarrow> found_section list \<Rightarrow> bool" where
  "document_ok WL doc \<longleftrightarrow> doc \<noteq> [] \<and> (\<forall>S \<in> set doc. section_ok WL S) \<and> sorted (map secno doc) \<and> apart doc"

definition found_in :: "widewordlist \<Rightarrow> search_mode \<Rightarrow> (nat \<times> stack_item list) list \<Rightarrow> found_section list \<Rightarrow> nat set" where
  "found_in WL mode phs doc =
     counted WL (update_count_phrlen_limit mode) doc \<union>
     (if mode = UDM_MODE_BOOL
      then {k. \<exists>ph \<in> set phs. k \<in> set (phrase_orders ph) \<and> phrase_in doc (fst ph) (snd ph)}
      else {})"

lemma document_counters:
  assumes doc: "document_ok (WWList param) doc"
    and cnt: "cnt = replicate (nuniq (WWList param)) 0"
    and q: "search_mode param = UDM_MODE_BOOL \<Longrightarrow> phrases_checked param phs"
  shows "\<exists>cnt' parts'. uniq_loop param (update_count_phrlen_limit (search_mode param)) (uniq_sections doc) (cnt, parts) = Some (cnt', parts') \<and>
    length cnt' = nuniq (WWList param) \<and> nonzero cnt' = found_in (WWList param) (search_mode param) phs doc"
proof -
  let ?WL = "WWList param" and ?m = "search_mode param"
  from doc have srt: "sorted (map secno doc)" and ok: "\<forall>S \<in> set doc. section_ok ?WL S" and ap: "apart doc"
    by (auto simp: document_ok_def)
  note u = uniq_sections_groups [OF srt]
  have gin: "set g \<subseteq> set doc" if "g \<in> set (uniq_sections doc)" for g using u that by (metis filter_is_subset)
  have gs: "\<forall>g \<in> set (uniq_sections doc). group_ok ?WL g"
  proof
    fix g assume g: "g \<in> set (uniq_sections doc)"
    obtain k where k: "k = secno (hd g)" by blast
    from g u have "g = filter (\<lambda>S. secno S = k) doc" and ne: "g \<noteq> []" unfolding k by blast+
    then have "\<forall>S \<in> set g. secno S = k" by auto
    moreover have "apart g" using ap gin [OF g] unfolding apart_def by blast
    moreover have "\<forall>S \<in> set g. section_ok ?WL S" using ok gin [OF g] by blast
    ultimately show "group_ok ?WL g" using ne unfolding group_ok_def k by blast
  qed
  have len: "length cnt = nuniq ?WL" and nz: "nonzero cnt = {}" by (auto simp: cnt nonzero_def)
  have counted: "(\<Union>g \<in> set (uniq_sections doc). counted ?WL l g) = counted ?WL l doc" for l
  proof (intro equalityI subsetI)
    fix k assume "k \<in> counted ?WL l doc"
    then obtain S where S: "S \<in> set doc" "phrlen (Words ?WL ! wordnum S) < l" "k = order S" by (auto simp: counted_def)
    then have "S \<in> set (filter (\<lambda>T. secno T = secno S) doc)" by simp
    with S u show "k \<in> (\<Union>g \<in> set (uniq_sections doc). counted ?WL l g)" unfolding counted_def by blast
  qed (use gin in \<open>auto simp: counted_def\<close>)
  have phrases: "(\<exists>g \<in> set (uniq_sections doc). phrase_stands (coords_of_sections g) w ws) = phrase_in doc w ws" for w ws
  proof
    assume "phrase_in doc w ws"
    then show "\<exists>g \<in> set (uniq_sections doc). phrase_stands (coords_of_sections g) w ws"
      using u unfolding phrase_in_def section_coords_def by blast
  next
    assume "\<exists>g \<in> set (uniq_sections doc). phrase_stands (coords_of_sections g) w ws"
    then obtain g where g: "g \<in> set (uniq_sections doc)" "phrase_stands (coords_of_sections g) w ws" by blast
    with u have "g = filter (\<lambda>S. secno S = secno (hd g)) doc" "hd g \<in> set doc" using gin by (auto simp: subset_iff)
    with g(2) show "phrase_in doc w ws" unfolding phrase_in_def section_coords_def by metis
  qed
  have "(\<Union>g \<in> set (uniq_sections doc). marked ?WL ?m phs g) =
      (\<Union>g \<in> set (uniq_sections doc). counted ?WL (update_count_phrlen_limit ?m) g) \<union>
      (if ?m = UDM_MODE_BOOL
       then {k. \<exists>ph \<in> set phs. k \<in> set (phrase_orders ph) \<and>
               (\<exists>g \<in> set (uniq_sections doc). phrase_stands (coords_of_sections g) (fst ph) (snd ph))}
       else {})"
    unfolding marked_def by auto
  also have "\<dots> = found_in ?WL ?m phs doc" by (simp only: counted phrases found_in_def)
  finally have "(\<Union>g \<in> set (uniq_sections doc). marked ?WL ?m phs g) = found_in ?WL ?m phs doc" .
  with uniq_loop_ok [OF gs len q, of parts] nz show ?thesis by simp
qed

subsection \<open>Which documents satisfy a query\<close>

fun satisfies :: "bool \<Rightarrow> found_section list \<Rightarrow> query \<Rightarrow> bool" where
  "satisfies any doc (Word w) = word_in doc w"
| "satisfies any doc (Stop w) = True"
| "satisfies any doc (Phrase w ws) = phrase_in doc w ws"
| "satisfies any doc (Paren q) = satisfies any doc q"
| "satisfies any doc (Not q) = (\<not> satisfies any doc q)"
| "satisfies any doc (And a b) = (satisfies any doc a \<and> satisfies any doc b)"
| "satisfies any doc (Or a b) = (satisfies any doc a \<or> satisfies any doc b)"
| "satisfies any doc (Juxt a b) =
     (if any then satisfies any doc a \<or> satisfies any doc b else satisfies any doc a \<and> satisfies any doc b)"

text \<open>
  \<open>query_ok\<close>: every word of the query has its own order.  \<open>word_ok\<close>: the words of the list are
  those of the query, with the lengths of the phrases they are in; the masks of the words have
  32 bits, which bounds the number of words.
\<close>

definition orders_of :: "query \<Rightarrow> nat list" where
  "orders_of q = single_words q @ concat (map phrase_orders (phrases_of q))"

definition query_ok :: "widewordlist \<Rightarrow> query \<Rightarrow> bool" where
  "query_ok WL q \<longleftrightarrow>
     distinct (orders_of q) \<and> set (orders_of q) = {..<nuniq WL} \<and> list_all (phrase_ok (nuniq WL)) (phrases_of q)"

definition phrase_word :: "query \<Rightarrow> nat \<Rightarrow> bool" where
  "phrase_word q k \<longleftrightarrow> list_ex (\<lambda>ph. k \<in> set (phrase_orders ph)) (phrases_of q)"

definition stop_in_phrase :: "query \<Rightarrow> bool" where
  "stop_in_phrase q \<longleftrightarrow> list_ex (\<lambda>ph. list_ex (\<lambda>i. cmd i = UDM_STACK_STOP) (snd ph)) (phrases_of q)"

definition word_ok :: "widewordlist \<Rightarrow> query \<Rightarrow> wideword \<Rightarrow> bool" where
  "word_ok WL q W \<longleftrightarrow>
     w_order W < 32 \<and> w_order W < length (Words WL) \<and> order_extra_width W = 0 \<and>
     phrlen W < UDM_MAXWORDPERQUERY \<and>
     (origin W \<noteq> UDM_WORD_ORIGIN_STOP \<longrightarrow> (phrlen W < 2 \<longleftrightarrow> \<not> phrase_word q (w_order W))) \<and>
     (phrpos W > 0 \<longrightarrow> phrase_word q (w_order W) \<or> stop_in_phrase q)"

definition words_ok :: "widewordlist \<Rightarrow> query \<Rightarrow> bool" where
  "words_ok WL q \<longleftrightarrow> nuniq WL \<le> 32 \<and> nuniq WL \<le> length (Words WL) \<and> list_all (word_ok WL q) (Words WL)"

lemma distinct_concat_key:
  "distinct (concat (map f xs)) \<Longrightarrow> x \<in> set xs \<Longrightarrow> y \<in> set xs \<Longrightarrow> k \<in> set (f x) \<Longrightarrow> k \<in> set (f y) \<Longrightarrow> x = y"
  by (induction xs) auto

lemma found_single:
  assumes "query_ok WL q" "words_ok WL q" "\<forall>S \<in> set doc. section_ok WL S" "k \<in> set (single_words q)"
  shows "k \<in> found_in WL UDM_MODE_BOOL (phrases_of q) doc \<longleftrightarrow> word_in doc k"
proof -
  have "\<not> phrase_word q k" using assms(1,4) by (auto simp: query_ok_def orders_of_def phrase_word_def list_ex_iff)
  then have "phrlen (Words WL ! wordnum S) < 2" if "S \<in> set doc" "order S = k" for S
    using that assms(2,3) by (auto simp: words_ok_def section_ok_def list_all_iff word_ok_def)
  with \<open>\<not> phrase_word q k\<close> show ?thesis
    by (auto simp: found_in_def counted_def word_in_def update_count_phrlen_limit_def phrase_word_def list_ex_iff)
qed

lemma found_phrase:
  assumes "query_ok WL q" "words_ok WL q" "\<forall>S \<in> set doc. section_ok WL S" "(w, ws) \<in> set (phrases_of q)"
  shows "w \<in> found_in WL UDM_MODE_BOOL (phrases_of q) doc \<longleftrightarrow> phrase_in doc w ws"
proof -
  have w: "w \<in> set (phrase_orders (w, ws))" by (simp add: phrase_orders_def)
  with assms(4) have "phrase_word q w" by (auto simp: phrase_word_def list_ex_iff)
  then have "\<not> phrlen (Words WL ! wordnum S) < 2" if "S \<in> set doc" "order S = w" for S
    using that assms(2,3) by (auto simp: words_ok_def section_ok_def list_all_iff word_ok_def)
  then have "w \<notin> counted WL 2 doc" by (auto simp: counted_def)
  moreover have "ph = (w, ws)" if "ph \<in> set (phrases_of q)" "w \<in> set (phrase_orders ph)" for ph
    by (rule distinct_concat_key [of phrase_orders "phrases_of q", OF _ that(1) assms(4) that(2) w])
      (use assms(1) in \<open>simp add: query_ok_def orders_of_def\<close>)
  then have "(\<exists>ph \<in> set (phrases_of q). w \<in> set (phrase_orders ph) \<and> phrase_in doc (fst ph) (snd ph)) \<longleftrightarrow> phrase_in doc w ws"
    using assms(4) w by (metis fst_conv snd_conv)
  ultimately show ?thesis by (simp add: found_in_def update_count_phrlen_limit_def)
qed

lemma holds_satisfies:
  assumes "\<And>k. k \<in> set (single_words q) \<Longrightarrow> cnt ! k \<noteq> 0 \<longleftrightarrow> word_in doc k"
    and "\<And>w ws. (w, ws) \<in> set (phrases_of q) \<Longrightarrow> cnt ! w \<noteq> 0 \<longleftrightarrow> phrase_in doc w ws"
  shows "holds any cnt q \<longleftrightarrow> satisfies any doc q"
  using assms by (induction q) auto

lemma counters_satisfy:
  assumes "query_ok WL q" "words_ok WL q" "\<forall>S \<in> set doc. section_ok WL S"
    and cnt: "length cnt = nuniq WL" "nonzero cnt = found_in WL UDM_MODE_BOOL (phrases_of q) doc"
  shows "holds any cnt q \<longleftrightarrow> satisfies any doc q"
proof (rule holds_satisfies)
  have lt: "k < nuniq WL" if "k \<in> set (orders_of q)" for k using that assms(1) by (auto simp: query_ok_def)
  show "cnt ! k \<noteq> 0 \<longleftrightarrow> word_in doc k" if "k \<in> set (single_words q)" for k
    using found_single [OF assms(1-3) that] lt [of k] that cnt by (auto simp: nonzero_def orders_of_def)
  show "cnt ! w \<noteq> 0 \<longleftrightarrow> phrase_in doc w ws" if "(w, ws) \<in> set (phrases_of q)" for w ws
  proof -
    have "w \<in> set (orders_of q)" using that by (force simp: orders_of_def phrase_orders_def)
    with found_phrase [OF assms(1-3) that] lt [of w] cnt show ?thesis by (auto simp: nonzero_def)
  qed
qed

subsection \<open>The masks\<close>

lemma bit_shl: "k < 32 \<Longrightarrow> one_shl k = Some (push_bit k 1)"
  by (simp add: one_shl_def)

lemma word_masks_ok:
  assumes "\<forall>W \<in> set ws. w_order W < 32 \<and> w_order W < length masks \<and> order_extra_width W = 0"
  shows "\<exists>masks'. word_masks ws masks = Some masks' \<and> length masks' = length masks \<and>
    (\<forall>k < length masks. masks' ! k = (if k \<in> w_order ` set ws then push_bit k 1 else masks ! k))"
  using assms
proof (induction ws arbitrary: masks)
  case (Cons W ws)
  let ?m = "masks[w_order W := push_bit (w_order W) (1 :: uint4)]"
  from Cons.IH [of ?m] Cons.prems obtain m' where
    m': "word_masks ws ?m = Some m'" "length m' = length masks"
      "\<forall>k < length masks. m' ! k = (if k \<in> w_order ` set ws then push_bit k 1 else ?m ! k)" by auto
  from Cons.prems m'(1) have "word_masks (W # ws) masks = Some m'" by (simp add: bit_shl)
  with m'(2,3) Cons.prems show ?case by (auto simp: nth_list_update)
qed simp

lemma document_mask_bit:
  assumes "\<forall>S \<in> set doc. order S < length masks \<and> order S < 32 \<and> masks ! order S = push_bit (order S) 1"
  shows "\<exists>m'. document_mask masks doc m = Some m' \<and> (\<forall>k < 32. bit m' k \<longleftrightarrow> bit m k \<or> word_in doc k)"
  using assms
proof (induction doc arbitrary: m)
  case (Cons S doc)
  let ?m = "m OR masks ! order S"
  from Cons.IH [of ?m] Cons.prems obtain m' where
    m': "document_mask masks doc ?m = Some m'" "\<forall>k < 32. bit m' k \<longleftrightarrow> bit ?m k \<or> word_in doc k" by auto
  have "bit ?m k \<longleftrightarrow> bit m k \<or> k = order S" if "k < 32" for k
    using Cons.prems that by (auto simp: bit_or_iff bit_exp_iff)
  with m' Cons.prems show ?case by (auto simp: word_in_def)
qed (simp add: word_in_def)

lemma expected_mask_bit:
  assumes "n \<le> 32"
  shows "\<exists>m. expected_word_mask n = Some m \<and> (\<forall>k < 32. bit m k \<longleftrightarrow> k < n)"
proof -
  have "bit (of_int (2 ^ n - 1) :: uint4) k \<longleftrightarrow> k < n" if "k < 32" for k
  proof -
    have "(of_int (2 ^ n - 1) :: uint4) = Bit_Operations.mask n" by (simp add: mask_eq_exp_minus_1)
    with that show ?thesis by (simp add: bit_mask_iff)
  qed
  with assms show ?thesis by (simp add: expected_word_mask_def)
qed

lemma mask_eq_iff:
  assumes "\<forall>k < 32. bit (m :: uint4) k \<longleftrightarrow> word_in doc k" "\<forall>k < 32. bit e k \<longleftrightarrow> k < n" "n \<le> 32"
    "\<forall>S \<in> set doc. order S < n"
  shows "m = e \<longleftrightarrow> (\<forall>k < n. word_in doc k)"
proof
  assume "m = e"
  with assms show "\<forall>k < n. word_in doc k" by (metis order_less_le_trans)
next
  assume all: "\<forall>k < n. word_in doc k"
  have "word_in doc k \<longleftrightarrow> k < n" for k using all assms(4) by (auto simp: word_in_def)
  with assms(1,2) show "m = e" by (intro bit_word_eqI) simp
qed

definition rare :: "score_param \<Rightarrow> nat \<Rightarrow> bool" where
  "rare param k \<longleftrightarrow> RareWordNumDocs param \<noteq> 0 \<and>
     list_ex (\<lambda>W. w_order W = k \<and> doccount W < RareWordNumDocs param) (Words (WWList param))"

lemma rare_words_ok:
  assumes "\<forall>W \<in> set ws. w_order W < length cnt"
  shows "\<exists>cnt'. rare_words n ws cnt = Some cnt' \<and> length cnt' = length cnt \<and>
    (\<forall>k < length cnt. cnt' ! k = (if n \<noteq> 0 \<and> (\<exists>W \<in> set ws. w_order W = k \<and> doccount W < n) \<and> cnt ! k = 0 then 1 else cnt ! k))"
  using assms
proof (induction ws arbitrary: cnt)
  case (Cons W ws)
  define c where "c = (if n \<noteq> 0 \<and> doccount W < n \<and> cnt ! w_order W = 0 then cnt[w_order W := 1] else cnt)"
  have len: "length c = length cnt" by (simp add: c_def)
  have at: "c ! k = (if n \<noteq> 0 \<and> w_order W = k \<and> doccount W < n \<and> cnt ! k = 0 then 1 else cnt ! k)" if "k < length cnt" for k
    using that by (cases "w_order W = k") (auto simp: c_def)
  have "rare_words n (W # ws) cnt = rare_words n ws c" using Cons.prems by (auto simp: c_def)
  moreover from Cons.IH [of c] Cons.prems obtain c' where
    "rare_words n ws c = Some c'" "length c' = length cnt"
    "\<forall>k < length cnt. c' ! k = (if n \<noteq> 0 \<and> (\<exists>W \<in> set ws. w_order W = k \<and> doccount W < n) \<and> c ! k = 0 then 1 else c ! k)"
    unfolding len by auto
  ultimately show ?case using at by auto
qed simp

definition tables_ok :: "score_param \<Rightarrow> loop_tables \<Rightarrow> bool" where
  "tables_ok param tables \<longleftrightarrow>
     (\<forall>W \<in> set (Words (WWList param)). w_order W < length (word_order_mask tables) \<and>
        word_order_mask tables ! w_order W = push_bit (w_order W) 1) \<and>
     (\<forall>k < 32. bit (expected_and_word_mask tables) k \<longleftrightarrow> k < nuniq (WWList param)) \<and>
     (\<forall>k < 32. rare_extra tables ! k = (if rare param k then 1 else 0)) \<and>
     (minmax_pos2 tables \<longleftrightarrow> UdmOptimizeUsingAND (ItemList param) (search_mode param) \<and>
        nuniq (WWList param) = 2 \<and> 0 < phrpos (Words (WWList param) ! 1))"

lemma loop_tables_ok:
  assumes "words_ok (WWList param) q"
  shows "\<exists>tables. loop_tables_of param = Some tables \<and> tables_ok param tables"
proof -
  let ?ws = "Words (WWList param)" and ?n = "nuniq (WWList param)"
  from assms have ws: "\<forall>W \<in> set ?ws. w_order W < 32 \<and> w_order W < length ?ws \<and> order_extra_width W = 0"
    and n: "?n \<le> 32" "?n \<le> length ?ws" by (auto simp: words_ok_def list_all_iff word_ok_def)
  from ws have "\<forall>W \<in> set ?ws. w_order W < length (replicate UDM_MAXWORDPERQUERY (0 :: nat))" by auto
  from rare_words_ok [OF this, of "RareWordNumDocs param"] obtain rr where
    rr: "UdmRareWordCountInit (RareWordNumDocs param) ?ws = Some rr"
      "\<forall>k < 64. rr ! k = (if rare param k \<and> replicate 64 (0 :: nat) ! k = 0 then 1 else replicate 64 0 ! k)"
    unfolding UdmRareWordCountInit_def rare_def list_ex_iff by auto
  from rr(2) have rr32: "\<forall>k < 32. rr ! k = (if rare param k then 1 else 0)" by auto
  from word_masks_ok [of ?ws "replicate (length ?ws) 0"] ws obtain m where
    m: "UdmInitWordMask ?ws = Some m" "length m = length ?ws"
      "\<forall>k < length ?ws. m ! k = (if k \<in> w_order ` set ?ws then push_bit k 1 else 0)"
    unfolding UdmInitWordMask_def by fastforce
  from expected_mask_bit [OF n(1)] obtain e where e: "expected_word_mask ?n = Some e" "\<forall>k < 32. bit e k \<longleftrightarrow> k < ?n"
    by blast
  have x: "optimize_using_minmax_pos2 param = Some (UdmOptimizeUsingAND (ItemList param) (search_mode param) \<and>
      ?n = 2 \<and> 0 < phrpos (?ws ! 1))"
    using n(2) by (auto simp: optimize_using_minmax_pos2_def word_at_def)
  have "loop_tables_of param = Some \<lparr>word_order_mask = m, rare_extra = rr, expected_and_word_mask = e,
      minmax_pos2 = (UdmOptimizeUsingAND (ItemList param) (search_mode param) \<and> ?n = 2 \<and> 0 < phrpos (?ws ! 1))\<rparr>"
    by (simp add: loop_tables_of_def rr(1) m(1) e(1) x)
  moreover have "tables_ok param \<lparr>word_order_mask = m, rare_extra = rr, expected_and_word_mask = e,
      minmax_pos2 = (UdmOptimizeUsingAND (ItemList param) (search_mode param) \<and> ?n = 2 \<and> 0 < phrpos (?ws ! 1))\<rparr>"
    using ws m(2,3) rr32 e(2) by (auto simp: tables_ok_def)
  ultimately show ?thesis by blast
qed

definition too_far :: "found_section list \<Rightarrow> bool" where
  "too_far doc \<longleftrightarrow> length doc = 2 \<and>
     (minpos (doc ! 0) > maxpos (doc ! 1) + 1 \<or> minpos (doc ! 1) > maxpos (doc ! 0) + 1)"

lemma quick_skip_eq:
  assumes t: "tables_ok param tables" and doc: "\<forall>S \<in> set doc. section_ok (WWList param) S" and n: "nuniq (WWList param) \<le> 32"
  shows "quick_skip param tables doc = Some
    (UdmOptimizeUsingAND (ItemList param) (search_mode param) \<and> \<not> (\<forall>k < nuniq (WWList param). word_in doc k) \<or>
     minmax_pos2 tables \<and> too_far doc)"
proof -
  have o: "order S < nuniq (WWList param) \<and> (\<exists>W \<in> set (Words (WWList param)). w_order W = order S)" if "S \<in> set doc" for S
    using doc that by (auto simp: section_ok_def)
  then have "\<forall>S \<in> set doc. order S < length (word_order_mask tables) \<and> order S < 32 \<and>
      word_order_mask tables ! order S = push_bit (order S) 1"
    using t n unfolding tables_ok_def by (metis order_less_le_trans)
  from document_mask_bit [OF this, of 0] obtain m where
    m: "document_mask (word_order_mask tables) doc 0 = Some m" "\<forall>k < 32. bit m k \<longleftrightarrow> word_in doc k" by auto
  have "m = expected_and_word_mask tables \<longleftrightarrow> (\<forall>k < nuniq (WWList param). word_in doc k)"
    by (rule mask_eq_iff [OF m(2) _ n]) (use t o in \<open>auto simp: tables_ok_def\<close>)
  with m(1) show ?thesis by (auto simp: quick_skip_def too_far_def)
qed

lemma phrase_in_words:
  assumes "phrase_in doc w ws" "words_and_stops ws" "k \<in> set (phrase_orders (w, ws))"
  shows "word_in doc k"
proof -
  from assms(1) obtain s where "phrase_stands (section_coords doc s) w ws" by (auto simp: phrase_in_def)
  from phrase_stands_words [OF this assms(2), of k] assms(3) have "k \<in> corder ` set (section_coords doc s)"
    by (simp add: phrase_orders_def)
  then show ?thesis by (auto simp: section_coords_def coords_of_sections_def word_in_def)
qed

definition and_item :: "stack_item \<Rightarrow> bool" where
  "and_item i \<longleftrightarrow> cmd i = UDM_STACK_PHRASE \<or> cmd i = UDM_STACK_AND \<or> cmd i = UDM_STACK_WORD"

lemma and_items_all:
  assumes "list_all and_item (toks [o1] q)" "any \<Longrightarrow> cmd o1 = UDM_STACK_OR" "satisfies any doc q"
  shows "(\<forall>k \<in> set (single_words q). word_in doc k) \<and>
    (\<forall>ph \<in> set (phrases_of q). phrase_in doc (fst ph) (snd ph) \<and> list_all and_item (snd ph))"
  using assms by (induction q) (auto simp: and_item_def split: if_splits)

lemma near_phrase:
  assumes doc: "\<forall>S \<in> set doc. section_ok WL S" and ph: "phrase_in doc w ws" "phrase_ok n (w, ws)" "list_all and_item ws"
  shows "\<not> too_far doc"
proof
  assume far: "too_far doc"
  then obtain A B where AB: "doc = [A, B]" by (auto simp: too_far_def length_Suc_conv numeral_2_eq_2)
  from ph(2) have ws: "words_and_stops ws" and ne: "word_args ws \<noteq> []" and dist: "distinct (w # word_args ws)"
    by (auto simp: phrase_ok_def phrase_orders_def)
  from ne obtain i rest where i: "ws = i # rest" by (cases ws) (auto simp: word_args_def)
  with ws ph(3) have c: "cmd i = UDM_STACK_WORD" by (auto simp: words_and_stops_def and_item_def)
  with dist i have wv: "w \<noteq> arg i" by (auto simp: word_args_def)
  from ph(1) obtain s where st: "phrase_stands (section_coords doc s) w ws" by (auto simp: phrase_in_def)
  then obtain p where p: "stands (section_coords doc s) p w" "stands (section_coords doc s) (p + 1) (arg i)"
    using c by (auto simp: phrase_stands_def i stands_def)
  have in_doc: "\<exists>S \<in> set doc. order S = v \<and> minpos S \<le> x \<and> x \<le> maxpos S" if "stands (section_coords doc s) x v" for x v
    using that doc by (auto simp: stands_def section_coords_def coords_of_sections_def section_ok_def list_all_iff)
  from in_doc [OF p(1)] in_doc [OF p(2)] wv far show False by (auto simp: AB too_far_def)
qed

subsection \<open>The decision on one document\<close>

text \<open>What the quick test of a document may not skip.\<close>

definition accepted :: "score_param \<Rightarrow> found_section list \<Rightarrow> bool" where
  "accepted param doc \<longleftrightarrow>
     (let n = nuniq (WWList param); mode = search_mode param;
          found = filter (word_in doc) [0..<n];
          score = length found + length (filter (rare param) found)
      in if mode = UDM_MODE_ALL \<or> mode = UDM_MODE_BOOL then list_all (word_in doc) [0..<n]
         else if mode = UDM_MODE_ALL_MINUS then n \<le> score + 1
         else if mode = UDM_MODE_ALL_MINUS_HALF then 1 + (n - 1) div 2 \<le> score
         else True)"

lemma search_document_step:
  assumes skip: "quick_skip param tables doc = Some False"
    and doc: "document_ok (WWList param) doc"
    and chk: "search_mode param = UDM_MODE_BOOL \<Longrightarrow> phrases_checked param phs"
    and v: "\<And>cnt. length cnt = nuniq (WWList param) \<Longrightarrow> nonzero cnt = found_in (WWList param) (search_mode param) phs doc \<Longrightarrow>
       (search_mode param = UDM_MODE_BOOL \<longrightarrow> UdmCalcBoolItems (ItemList param) cnt = Some v) \<and>
       count_is_enough param (rare_extra tables) cnt = e"
  shows "\<exists>r. search_document param tables doc = Some r \<and>
    (r = None \<longleftrightarrow> search_mode param = UDM_MODE_BOOL \<and> v = 0 \<or> \<not> e)"
proof -
  define parts where "parts = \<lparr>sp_url_id = url_id (hd doc), density_param = [],
     max_word_weight = of_int (UdmWWListMaxWordWeight (Words (WWList param))),
     ncoords_for_malloc = sum_list (map ncoords doc), sp_max_secno = 0, MergedSectionLists = []\<rparr>"
  from document_counters [OF doc refl chk, of parts] obtain cnt parts' where
    u: "uniq_loop param (update_count_phrlen_limit (search_mode param)) (uniq_sections doc)
      (replicate (nuniq (WWList param)) 0, parts) = Some (cnt, parts')"
    and c: "length cnt = nuniq (WWList param)" "nonzero cnt = found_in (WWList param) (search_mode param) phs doc"
    by blast
  have "length (uniq_sections doc) < 256"
    by (rule uniq_sections_few) (use doc in \<open>auto simp: document_ok_def section_ok_def\<close>)
  with skip u v [OF c] show ?thesis by (auto simp: search_document_def document_groups_eq Let_def parts_def)
qed

lemma search_document_query:
  assumes wf: "well_formed j p q" "j = cmd_code (mode_cmd mode)" "p = 3"
    and items: "ItemList param = toks [mode_op mode] q" "search_mode param = UDM_MODE_BOOL"
    and q: "query_ok (WWList param) q" and w: "words_ok (WWList param) q"
    and t: "tables_ok param tables" and doc: "document_ok (WWList param) doc"
  shows "\<exists>r. search_document param tables doc = Some r \<and> (r = None \<longleftrightarrow> \<not> satisfies (mode = UDM_MODE_ANY) doc q)"
proof -
  let ?WL = "WWList param" and ?any = "mode = UDM_MODE_ANY"
  from doc have S: "\<forall>S \<in> set doc. section_ok ?WL S" and srt: "sorted (map secno doc)" by (auto simp: document_ok_def)
  have op: "cmd (mode_op mode) \<noteq> UDM_STACK_PHRASE" by (simp add: mode_cmd_def)
  have phs: "\<forall>ph \<in> set (phrases_of q). phrase_ok (nuniq ?WL) ph" using q by (simp add: query_ok_def list_all_iff)
  have n: "nuniq ?WL \<le> 32" using w by (simp add: words_ok_def)
  have and_all: "(\<forall>k \<in> set (single_words q). word_in doc k) \<and>
      (\<forall>ph \<in> set (phrases_of q). phrase_in doc (fst ph) (snd ph) \<and> list_all and_item (snd ph))"
    if "list_all and_item (ItemList param)" "satisfies ?any doc q"
    by (rule and_items_all [OF that(1) [unfolded items(1)] _ that(2)]) (simp add: mode_cmd_def)
  have all_in: "\<forall>k < nuniq ?WL. word_in doc k" if all: "list_all and_item (ItemList param)" and sat: "satisfies ?any doc q"
  proof (intro allI impI)
    fix k assume "k < nuniq ?WL"
    then have "k \<in> set (orders_of q)" using q by (simp add: query_ok_def)
    then consider "k \<in> set (single_words q)" | ph where "ph \<in> set (phrases_of q)" "k \<in> set (phrase_orders ph)"
      by (auto simp: orders_of_def)
    then show "word_in doc k"
    proof cases
      case (2 ph)
      with and_all [OF all sat] phs show ?thesis
        using phrase_in_words [of doc "fst ph" "snd ph" k] by (auto simp: phrase_ok_def)
    qed (use and_all [OF all sat] in blast)
  qed
  have near: "\<not> too_far doc" if all: "list_all and_item (ItemList param)" and sat: "satisfies ?any doc q"
    and two: "nuniq ?WL = 2" and pos1: "0 < phrpos (Words ?WL ! 1)"
  proof -
    have "Words ?WL ! 1 \<in> set (Words ?WL)" using w two by (auto simp: words_ok_def)
    with w have "word_ok ?WL q (Words ?WL ! 1)" by (simp add: words_ok_def list_all_iff)
    with pos1 obtain ph where ph: "ph \<in> set (phrases_of q)"
      by (auto simp: word_ok_def phrase_word_def stop_in_phrase_def list_ex_iff)
    with and_all [OF all sat] phs have "phrase_in doc (fst ph) (snd ph)" "list_all and_item (snd ph)"
      "phrase_ok (nuniq ?WL) (fst ph, snd ph)" by auto
    from near_phrase [OF S this(1,3,2)] show ?thesis .
  qed
  have opt: "UdmOptimizeUsingAND (ItemList param) (search_mode param) \<longleftrightarrow> list_all and_item (ItemList param)"
    by (simp add: UdmOptimizeUsingAND_def items(2) and_item_def [abs_def])
  define b where "b = (UdmOptimizeUsingAND (ItemList param) (search_mode param) \<and> \<not> (\<forall>k < nuniq ?WL. word_in doc k) \<or>
     minmax_pos2 tables \<and> too_far doc)"
  have skip: "quick_skip param tables doc = Some b" unfolding b_def by (rule quick_skip_eq [OF t S n])
  show ?thesis
  proof (cases b)
    case True
    have flag: "minmax_pos2 tables \<longleftrightarrow> list_all and_item (ItemList param) \<and> nuniq ?WL = 2 \<and> 0 < phrpos (Words ?WL ! 1)"
      using t by (simp add: tables_ok_def opt)
    have "\<not> satisfies ?any doc q"
    proof
      assume sat: "satisfies ?any doc q"
      from True consider "list_all and_item (ItemList param)" "\<not> (\<forall>k < nuniq ?WL. word_in doc k)"
        | "minmax_pos2 tables" "too_far doc" unfolding b_def opt by blast
      then show False
      proof cases
        case 1
        with all_in [OF 1(1) sat] show False by blast
      next
        case 2
        with flag near [OF _ sat] show False by blast
      qed
    qed
    with skip True show ?thesis by (simp add: search_document_def)
  next
    case False
    have skip': "quick_skip param tables doc = Some False" using skip False by simp
    have chk: "search_mode param = UDM_MODE_BOOL \<Longrightarrow> phrases_checked param (phrases_of q)"
      using phrases_checked_query [OF wf(1) items(1) op phs] .
    have wf3: "well_formed (cmd_code (mode_cmd mode)) 3 q" using wf by simp
    have words: "query_words q \<subseteq> {..<nuniq ?WL}"
    proof -
      have "query_words q \<subseteq> set (orders_of q)"
        by (induction q) (auto simp: orders_of_def phrase_orders_def)
      with q show ?thesis by (simp add: query_ok_def)
    qed
    have "(search_mode param = UDM_MODE_BOOL \<longrightarrow>
          UdmCalcBoolItems (ItemList param) cnt = Some (truth (satisfies ?any doc q))) \<and>
        count_is_enough param (rare_extra tables) cnt = True"
      if "length cnt = nuniq ?WL" "nonzero cnt = found_in ?WL (search_mode param) (phrases_of q) doc" for cnt
      using UdmCalcBoolItems_toks [OF wf3, of cnt] counters_satisfy [OF q w S, of cnt ?any] that words
      by (simp add: items count_is_enough_def)
    from search_document_step [OF skip' doc chk this] obtain r where r: "search_document param tables doc = Some r"
      "r = None \<longleftrightarrow> search_mode param = UDM_MODE_BOOL \<and> truth (satisfies ?any doc q) = 0 \<or> \<not> True" by blast
    have "r = None \<longleftrightarrow> \<not> satisfies ?any doc q"
      using r(2) items(2) by (cases "satisfies ?any doc q") simp_all
    with r(1) show ?thesis by blast
  qed
qed


text \<open>Without items the mode decides.\<close>

lemma nonzero_found:
  assumes "length cnt = n" "nonzero cnt = {k. word_in doc k}" "k < n"
  shows "cnt ! k \<noteq> 0 \<longleftrightarrow> word_in doc k"
  using assms by (auto simp: nonzero_def set_eq_iff)

lemma count_with_rare_eq:
  assumes "\<And>k. k < n \<Longrightarrow> cnt ! k \<noteq> 0 \<longleftrightarrow> P k" "\<And>k. k < n \<Longrightarrow> rr ! k = (if R k then 1 else 0)"
  shows "count_with_rare n rr cnt = length (filter P [0..<n]) + length (filter R (filter P [0..<n]))"
  unfolding count_with_rare_def using assms by (induction n) auto

lemma int_of_size_small:
  assumes "m < 2147483648"
  shows "int_of_size (of_nat m) = int m"
proof -
  have "(ucast (of_nat m :: size_t) :: uint4) = of_nat m"
    by (rule bit_word_eqI) (simp add: bit_simps)
  then have "sint (ucast (of_nat m :: size_t) :: uint4) = signed_take_bit 31 (int m)"
    by (simp add: signed_of_nat)
  then show ?thesis unfolding int_of_size_def using assms by (simp add: signed_take_bit_int_eq_self)
qed

lemma of_nat_less_small: "s < 2 ^ 32 \<Longrightarrow> m < 2 ^ 32 \<Longrightarrow> (of_nat s :: size_t) < of_nat m \<longleftrightarrow> s < m"
  by (simp add: word_less_nat_alt unsigned_of_nat take_bit_nat_eq_self)

lemma threshold_small:
  assumes "n \<le> 32" "s \<le> 64"
  shows "\<not> of_nat s < (word_of_int (int_of_size (UdmCountThreshold UDM_MODE_ALL_MINUS n)) :: size_t) \<longleftrightarrow>
      n \<noteq> 0 \<and> n \<le> s + 1"
    and "\<not> of_nat s < (word_of_int (int_of_size (UdmCountThreshold UDM_MODE_ALL_MINUS_HALF n)) :: size_t) \<longleftrightarrow>
      n = 0 \<or> 1 + (n - 1) div 2 \<le> s"
proof -
  have m0: "(of_nat n - 1 :: size_t) = of_nat (n - 1)" if "0 < n" using that by (cases n) auto
  have lt: "(of_nat s :: size_t) < of_nat m \<longleftrightarrow> s < m" if "m \<le> 32" for m
    by (rule of_nat_less_small) (use assms that in auto)
  have sm: "int_of_size (of_nat m) = int m" if "m \<le> 32" for m
    by (rule int_of_size_small) (use that in simp)
  have half: "(1 + of_nat m div 2 :: size_t) = of_nat (1 + m div 2)" if "m \<le> 32" for m
  proof -
    have "(of_nat m div 2 :: size_t) = of_nat (m div 2)"
      using that by (simp add: word_unat_eq_iff unat_div_distrib unsigned_of_nat take_bit_nat_eq_self)
    then show ?thesis by simp
  qed
  show "\<not> of_nat s < (word_of_int (int_of_size (UdmCountThreshold UDM_MODE_ALL_MINUS n)) :: size_t) \<longleftrightarrow>
      n \<noteq> 0 \<and> n \<le> s + 1"
  proof (cases "n = 0")
    case True
    have "(ucast (- 1 :: size_t) :: uint4) = - 1" by (rule bit_word_eqI) (simp add: bit_simps)
    then have "int_of_size (- 1) = - 1" by (simp add: int_of_size_def)
    moreover have "(of_nat s :: size_t) < - 1"
      using of_nat_less_small [of s 65] assms(2) order_less_le_trans [of "of_nat s" "65 :: size_t" "- 1"] by simp
    ultimately show ?thesis using True by (simp add: UdmCountThreshold_def)
  next
    case False
    then have "UdmCountThreshold UDM_MODE_ALL_MINUS n = of_nat (n - 1)" using m0 by (simp only: UdmCountThreshold_def if_True refl neq0_conv)
    with False assms(1) show ?thesis using lt [of "n - 1"] sm [of "n - 1"] by (simp only: of_int_of_nat_eq) arith
  qed
  show "\<not> of_nat s < (word_of_int (int_of_size (UdmCountThreshold UDM_MODE_ALL_MINUS_HALF n)) :: size_t) \<longleftrightarrow>
      n = 0 \<or> 1 + (n - 1) div 2 \<le> s"
  proof (cases "n = 0")
    case True
    have "int_of_size (1 + - 1 div 2) = 0" by (simp add: int_of_size_def)
    with True show ?thesis by (simp add: UdmCountThreshold_def)
  next
    case False
    with assms(1) have small: "1 + (n - 1) div 2 \<le> 32" "n - 1 \<le> 32" by simp_all
    have "UdmCountThreshold UDM_MODE_ALL_MINUS_HALF n = 1 + (of_nat n - 1) div 2" by (simp add: UdmCountThreshold_def)
    also have "\<dots> = of_nat (1 + (n - 1) div 2)" using False m0 half [OF small(2)] by (simp only: neq0_conv)
    finally show ?thesis using False lt [OF small(1)] sm [OF small(1)] by (simp only: of_int_of_nat_eq) arith
  qed
qed


lemma UdmCalcBoolItems_Nil: "UdmCalcBoolItems [] cnt = Some 2"
  by (simp add: UdmCalcBoolItems_def perform_all.simps TOPCMD_def POPARG_def)

lemma search_document_modes:
  assumes items: "ItemList param = []"
    and w: "words_ok (WWList param) q" and n0: "0 < nuniq (WWList param)"
    and ph: "search_mode param = UDM_MODE_ALL \<or> search_mode param = UDM_MODE_BOOL \<Longrightarrow> phrases_of q = []"
    and t: "tables_ok param tables" and doc: "document_ok (WWList param) doc"
  shows "\<exists>r. search_document param tables doc = Some r \<and> (r = None \<longleftrightarrow> \<not> accepted param doc)"
proof -
  let ?WL = "WWList param" and ?m = "search_mode param" and ?n = "nuniq (WWList param)"
  from doc have S: "\<forall>S \<in> set doc. section_ok ?WL S" by (auto simp: document_ok_def)
  have n: "?n \<le> 32" using w by (simp add: words_ok_def)
  have opt: "UdmOptimizeUsingAND (ItemList param) ?m \<longleftrightarrow> ?m = UDM_MODE_ALL \<or> ?m = UDM_MODE_BOOL"
    by (auto simp: UdmOptimizeUsingAND_def items)
  have flag: "\<not> minmax_pos2 tables"
  proof
    assume "minmax_pos2 tables"
    with t opt have o: "?m = UDM_MODE_ALL \<or> ?m = UDM_MODE_BOOL" "?n = 2" "0 < phrpos (Words ?WL ! 1)"
      by (auto simp: tables_ok_def)
    have "Words ?WL ! 1 \<in> set (Words ?WL)" using w o(2) by (auto simp: words_ok_def)
    with w o(3) have "phrases_of q \<noteq> []"
      by (auto simp: words_ok_def list_all_iff word_ok_def phrase_word_def stop_in_phrase_def)
    with ph [OF o(1)] show False by blast
  qed
  define b where "b = ((?m = UDM_MODE_ALL \<or> ?m = UDM_MODE_BOOL) \<and> \<not> (\<forall>k < ?n. word_in doc k))"
  have skip: "quick_skip param tables doc = Some b"
    using quick_skip_eq [OF t S n] flag opt by (simp add: b_def)
  have acc: "(?m = UDM_MODE_ALL \<or> ?m = UDM_MODE_BOOL) \<Longrightarrow> accepted param doc \<longleftrightarrow> (\<forall>k < ?n. word_in doc k)"
    by (auto simp: accepted_def list_all_iff Let_def)
  show ?thesis
  proof (cases b)
    case True
    with acc skip show ?thesis by (auto simp: search_document_def b_def)
  next
    case False
    have skip': "quick_skip param tables doc = Some False" using skip False by simp
    have e: "(?m = UDM_MODE_BOOL \<longrightarrow> UdmCalcBoolItems (ItemList param) cnt = Some 2) \<and>
        count_is_enough param (rare_extra tables) cnt = accepted param doc"
      if c: "length cnt = ?n" "nonzero cnt = found_in ?WL ?m [] doc" for cnt
    proof -
      have bool: "?m = UDM_MODE_BOOL \<longrightarrow> UdmCalcBoolItems (ItemList param) cnt = Some 2"
        by (simp add: items UdmCalcBoolItems_Nil)
      show ?thesis
      proof (cases "?m = UDM_MODE_BOOL")
        case True
        with acc False bool show ?thesis by (simp add: b_def count_is_enough_def)
      next
        case nb: False
        have "phrlen (Words ?WL ! wordnum T) < 64" if "T \<in> set doc" for T
          using S w that by (auto simp: section_ok_def words_ok_def list_all_iff word_ok_def)
        then have "counted ?WL 64 doc = {k. word_in doc k}" by (auto simp: counted_def word_in_def)
        with c nb have "nonzero cnt = {k. word_in doc k}" by (simp add: found_in_def update_count_phrlen_limit_def)
        then have cnt: "k < ?n \<Longrightarrow> cnt ! k \<noteq> 0 \<longleftrightarrow> word_in doc k" for k by (rule nonzero_found [OF c(1)])
        define found where "found = filter (word_in doc) [0..<?n]"
        define sc where "sc = length found + length (filter (rare param) found)"
        have "k < ?n \<Longrightarrow> rare_extra tables ! k = (if rare param k then 1 else 0)" for k
          using t n by (simp add: tables_ok_def)
        from count_with_rare_eq [OF cnt this] have cr: "count_with_rare ?n (rare_extra tables) cnt = sc"
          by (simp add: sc_def found_def)
        have "length found \<le> ?n" unfolding found_def using length_filter_le [of "word_in doc" "[0..<?n]"] by simp
        moreover have "length (filter (rare param) found) \<le> length found" by (rule length_filter_le)
        ultimately have sc: "sc \<le> 64" unfolding sc_def using n by linarith
        have all: "all_counted ?n cnt \<longleftrightarrow> (\<forall>k < ?n. word_in doc k)" using cnt by (auto simp: all_counted_def list_all_iff)
        consider "?m = UDM_MODE_ALL" | "?m = UDM_MODE_ALL_MINUS" | "?m = UDM_MODE_ALL_MINUS_HALF"
          | "?m = UDM_MODE_ANY \<or> ?m = UDM_MODE_PHRASE" using nb by (cases ?m) auto
        then have "count_is_enough param (rare_extra tables) cnt = accepted param doc"
        proof cases
          case 1
          then show ?thesis using False acc all by (auto simp: b_def count_is_enough_def Let_def)
        next
          case 2
          then have "accepted param doc \<longleftrightarrow> ?n \<le> sc + 1" by (simp add: accepted_def Let_def sc_def found_def)
          with 2 show ?thesis using threshold_small(1) [OF n sc] n0 by (simp add: count_is_enough_def Let_def cr)
        next
          case 3
          then have "accepted param doc \<longleftrightarrow> 1 + (?n - 1) div 2 \<le> sc" by (simp add: accepted_def Let_def sc_def found_def)
          with 3 show ?thesis using threshold_small(2) [OF n sc] n0 by (simp add: count_is_enough_def Let_def cr)
        next
          case 4
          then show ?thesis by (auto simp: count_is_enough_def accepted_def Let_def)
        qed
        with bool show ?thesis by blast
      qed
    qed
    from search_document_step [OF skip' doc phrases_checked_Nil [OF items] e] show ?thesis by simp
  qed
qed

subsection \<open>Documents with one query word in each section\<close>

lemma uniq_loop_returns:
  assumes "\<forall>g \<in> set gs. (\<forall>S \<in> set g. section_ok (WWList param) S) \<and> g \<noteq> []"
    and "length cnt = nuniq (WWList param)"
    and q: "search_mode param = UDM_MODE_BOOL \<Longrightarrow> phrases_checked param phs"
  shows "\<exists>cnt' parts'. uniq_loop param (update_count_phrlen_limit (search_mode param)) gs (cnt, parts) = Some (cnt', parts') \<and>
    length cnt' = nuniq (WWList param)"
  using assms(1,2)
proof (induction gs arbitrary: cnt parts)
  case (Cons g gs)
  then have "\<forall>S \<in> set g. section_ok (WWList param) S" "g \<noteq> []" by auto
  from UdmCalcUniqSection_returns [OF this Cons.prems(2) q, of parts] obtain c pts where
    c: "UdmCalcUniqSection param (update_count_phrlen_limit (search_mode param)) g (cnt, parts) = Some (c, pts)"
      "length c = nuniq (WWList param)" by blast
  with Cons.IH [OF _ c(2), of pts] Cons.prems(1) show ?case by auto
qed auto

lemma uniq_loop_singles:
  assumes "\<forall>S \<in> set doc. section_ok (WWList param) S" "length cnt = nuniq (WWList param)"
  shows "\<exists>cnt' parts'. uniq_loop param limit (map (\<lambda>S. [S]) doc) (cnt, parts) = Some (cnt', parts') \<and>
    length cnt' = nuniq (WWList param) \<and> nonzero cnt' = nonzero cnt \<union> counted (WWList param) limit doc"
  using assms
proof (induction doc arbitrary: cnt parts)
  case (Cons S doc)
  then have "section_ok (WWList param) S" by simp
  from UdmCalcUniqSection_one [OF this Cons.prems(2), of limit parts] obtain c pts where
    c: "UdmCalcUniqSection param limit [S] (cnt, parts) = Some (c, pts)" "length c = nuniq (WWList param)"
      "nonzero c = nonzero cnt \<union> counted (WWList param) limit [S]" by blast
  from Cons.IH [OF _ c(2), of pts] Cons.prems(1) obtain c' pts' where
    "uniq_loop param limit (map (\<lambda>S. [S]) doc) (c, pts) = Some (c', pts')" "length c' = nuniq (WWList param)"
    "nonzero c' = nonzero c \<union> counted (WWList param) limit doc" by auto
  moreover have "counted (WWList param) limit (S # doc) =
      counted (WWList param) limit [S] \<union> counted (WWList param) limit doc" by (auto simp: counted_def)
  ultimately show ?case using c by auto
qed (simp add: counted_def)

lemma uniq_sections_distinct: "distinct (map secno doc) \<Longrightarrow> uniq_sections doc = map (\<lambda>S. [S]) doc"
proof (induction doc rule: uniq_sections.induct)
  case (2 S Ss)
  from "2.prems" have "\<forall>T \<in> set Ss. secno T \<noteq> secno S" by (auto simp: image_iff)
  then have "takeWhile (\<lambda>T. secno T = secno S) Ss = []" "dropWhile (\<lambda>T. secno T = secno S) Ss = Ss"
    by (cases Ss; simp)+
  with 2 show ?case by simp
qed simp

text \<open>A query where every phrase is false.\<close>

fun satisfies_words :: "bool \<Rightarrow> found_section list \<Rightarrow> query \<Rightarrow> bool" where
  "satisfies_words any doc (Word w) = word_in doc w"
| "satisfies_words any doc (Stop w) = True"
| "satisfies_words any doc (Phrase w ws) = False"
| "satisfies_words any doc (Paren q) = satisfies_words any doc q"
| "satisfies_words any doc (Not q) = (\<not> satisfies_words any doc q)"
| "satisfies_words any doc (And a b) = (satisfies_words any doc a \<and> satisfies_words any doc b)"
| "satisfies_words any doc (Or a b) = (satisfies_words any doc a \<or> satisfies_words any doc b)"
| "satisfies_words any doc (Juxt a b) =
     (if any then satisfies_words any doc a \<or> satisfies_words any doc b
      else satisfies_words any doc a \<and> satisfies_words any doc b)"

definition orders_ok :: "widewordlist \<Rightarrow> query \<Rightarrow> bool" where
  "orders_ok WL q \<longleftrightarrow> distinct (orders_of q) \<and> set (orders_of q) = {..<nuniq WL}"

lemma counted_two:
  assumes "words_ok WL q" "\<forall>S \<in> set doc. section_ok WL S"
  shows "k \<in> counted WL 2 doc \<longleftrightarrow> word_in doc k \<and> \<not> phrase_word q k"
proof -
  have "phrlen (Words WL ! wordnum S) < 2 \<longleftrightarrow> \<not> phrase_word q (order S)" if "S \<in> set doc" for S
    using that assms by (auto simp: words_ok_def section_ok_def list_all_iff word_ok_def)
  then show ?thesis by (auto simp: counted_def word_in_def)
qed

lemma counters_satisfy_words:
  assumes "orders_ok WL q" "words_ok WL q" "\<forall>S \<in> set doc. section_ok WL S"
    and cnt: "length cnt = nuniq WL" "nonzero cnt = counted WL 2 doc"
  shows "holds any cnt q \<longleftrightarrow> satisfies_words any doc q"
proof -
  have lt: "k < nuniq WL" if "k \<in> set (orders_of q)" for k using that assms(1) by (auto simp: orders_ok_def)
  have nz: "cnt ! k \<noteq> 0 \<longleftrightarrow> word_in doc k \<and> \<not> phrase_word q k" if "k \<in> set (orders_of q)" for k
    using counted_two [OF assms(2,3), of k] cnt lt [OF that] by (auto simp: nonzero_def)
  have single: "cnt ! k \<noteq> 0 \<longleftrightarrow> word_in doc k" if k: "k \<in> set (single_words q)" for k
  proof -
    have "\<not> phrase_word q k" using assms(1) k by (auto simp: orders_ok_def orders_of_def phrase_word_def list_ex_iff)
    with nz [of k] k show ?thesis by (auto simp: orders_of_def)
  qed
  have phrase: "cnt ! w = 0" if "(w, ws) \<in> set (phrases_of q)" for w ws
  proof -
    from that have "phrase_word q w" "w \<in> set (orders_of q)"
      by (force simp: phrase_word_def list_ex_iff orders_of_def phrase_orders_def)+
    with nz [of w] show ?thesis by auto
  qed
  have "holds any cnt p \<longleftrightarrow> satisfies_words any doc p"
    if "set (single_words p) \<subseteq> set (single_words q)" "set (phrases_of p) \<subseteq> set (phrases_of q)" for p
    using that by (induction p) (auto simp: single [unfolded neq0_conv] phrase)
  then show ?thesis by blast
qed

lemma and_items_words:
  assumes "list_all and_item (toks [o1] q)" "any \<Longrightarrow> cmd o1 = UDM_STACK_OR" "satisfies_words any doc q"
  shows "phrases_of q = [] \<and> (\<forall>k \<in> set (single_words q). word_in doc k)"
  using assms by (induction q) (auto simp: and_item_def split: if_splits)

definition first_parts :: "score_param \<Rightarrow> found_section list \<Rightarrow> score_parts" where
  "first_parts param doc =
     \<lparr>sp_url_id = url_id (hd doc), density_param = [],
      max_word_weight = of_int (UdmWWListMaxWordWeight (Words (WWList param))),
      ncoords_for_malloc = sum_list (map ncoords doc), sp_max_secno = 0, MergedSectionLists = []\<rparr>"

lemma search_document_run:
  assumes "quick_skip param tables doc = Some False" "length (uniq_sections doc) < 256"
    and "search_mode param = UDM_MODE_BOOL" "UdmCalcBoolItems (ItemList param) cnt = Some v"
    and "uniq_loop param 2 (uniq_sections doc) (replicate (nuniq (WWList param)) 0, first_parts param doc) = Some (cnt, parts')"
  shows "\<exists>r. search_document param tables doc = Some r \<and> (r = None \<longleftrightarrow> v = 0)"
  using assms
  by (simp add: search_document_def document_groups_eq update_count_phrlen_limit_def Let_def first_parts_def count_is_enough_def)

lemma search_document_words:
  assumes wf: "well_formed (cmd_code (mode_cmd mode)) 3 q"
    and items: "ItemList param = toks [mode_op mode] q" "search_mode param = UDM_MODE_BOOL"
    and q: "orders_ok (WWList param) q" and w: "words_ok (WWList param) q"
    and t: "tables_ok param tables" and doc: "document_ok (WWList param) doc" "distinct (map secno doc)"
  shows "\<exists>r. search_document param tables doc = Some r \<and> (r = None \<longleftrightarrow> \<not> satisfies_words (mode = UDM_MODE_ANY) doc q)"
proof -
  let ?WL = "WWList param" and ?any = "mode = UDM_MODE_ANY"
  from doc have S: "\<forall>S \<in> set doc. section_ok ?WL S" and srt: "sorted (map secno doc)" by (auto simp: document_ok_def)
  have n: "nuniq ?WL \<le> 32" using w by (simp add: words_ok_def)
  have opt: "UdmOptimizeUsingAND (ItemList param) (search_mode param) \<longleftrightarrow> list_all and_item (ItemList param)"
    by (simp add: UdmOptimizeUsingAND_def items(2) and_item_def [abs_def])
  define b where "b = (UdmOptimizeUsingAND (ItemList param) (search_mode param) \<and> \<not> (\<forall>k < nuniq ?WL. word_in doc k) \<or>
     minmax_pos2 tables \<and> too_far doc)"
  have skip: "quick_skip param tables doc = Some b" unfolding b_def by (rule quick_skip_eq [OF t S n])
  show ?thesis
  proof (cases b)
    case True
    then have all: "list_all and_item (toks [mode_op mode] q)" using t opt items(1) by (auto simp: b_def tables_ok_def)
    have "\<not> satisfies_words ?any doc q"
    proof
      assume "satisfies_words ?any doc q"
      from and_items_words [OF all _ this] have ph: "phrases_of q = []" "\<forall>k \<in> set (single_words q). word_in doc k"
        by (simp_all add: mode_cmd_def)
      then have "\<forall>k < nuniq ?WL. word_in doc k" using q by (auto simp: orders_ok_def orders_of_def)
      with True have two: "nuniq ?WL = 2" "0 < phrpos (Words ?WL ! 1)" using t by (auto simp: b_def tables_ok_def)
      then have "Words ?WL ! 1 \<in> set (Words ?WL)" using w by (auto simp: words_ok_def)
      with w two(2) have "phrase_word q (w_order (Words ?WL ! 1)) \<or> stop_in_phrase q"
        by (auto simp: words_ok_def list_all_iff word_ok_def)
      with ph(1) show False by (simp add: phrase_word_def stop_in_phrase_def)
    qed
    with skip True show ?thesis by (simp add: search_document_def)
  next
    case False
    have skip': "quick_skip param tables doc = Some False" using skip False by simp
    have few: "length (uniq_sections doc) < 256"
      by (rule uniq_sections_few) (use doc in \<open>auto simp: document_ok_def section_ok_def\<close>)
    note u = uniq_sections_distinct [OF doc(2)]
    have z: "nonzero (replicate (nuniq ?WL) 0) = {}" by (auto simp: nonzero_def)
    obtain cnt parts' where c: "length cnt = nuniq ?WL" "nonzero cnt = counted ?WL 2 doc"
      "uniq_loop param 2 (uniq_sections doc) (replicate (nuniq ?WL) 0, first_parts param doc) = Some (cnt, parts')"
      using uniq_loop_singles [OF S, of "replicate (nuniq ?WL) 0" 2 "first_parts param doc"] z u by auto
    have "query_words q \<subseteq> set (orders_of q)" by (induction q) (auto simp: orders_of_def phrase_orders_def)
    with q c(1) have "query_words q \<subseteq> {..<length cnt}" by (simp add: orders_ok_def)
    from UdmCalcBoolItems_toks [OF wf this] counters_satisfy_words [OF q w S c(1,2), of ?any]
    have "UdmCalcBoolItems (ItemList param) cnt = Some (truth (satisfies_words ?any doc q))" by (simp add: items)
    from search_document_run [OF skip' few items(2) this c(3)] show ?thesis by (auto split: if_splits)
  qed
qed

subsection \<open>All documents\<close>

lemma remdups_block: "\<forall>y \<in> set ys. y = x \<Longrightarrow> x \<notin> set zs \<Longrightarrow> remdups (x # ys @ zs) = x # remdups zs"
  by (induction ys) auto

lemma documents_loop_documents:
  assumes "sorted (map url_id SL)"
    and "\<And>u. u \<in> url_id ` set SL \<Longrightarrow> \<exists>r. search_document param tables (filter (\<lambda>S. url_id S = u) SL) = Some r \<and>
       (r = None \<longleftrightarrow> \<not> acc (filter (\<lambda>S. url_id S = u) SL))"
  shows "\<exists>L s'. documents_loop param tables calc SL s = Some (L, s') \<and>
    map us_url_id L = filter (\<lambda>u. acc (filter (\<lambda>S. url_id S = u) SL)) (remdups (map url_id SL))"
  using assms
proof (induction param tables calc SL s rule: documents_loop.induct)
  case (2 param tables calc From rest s)
  let ?u = "url_id From"
  define End where "End = filter (\<lambda>T. url_id T \<noteq> ?u) rest"
  define doc where "doc = filter (\<lambda>S. url_id S = ?u) (From # rest)"
  from takeWhile_sorted_filter [of url_id From rest] "2.prems"(1)
  have tw: "From # takeWhile (\<lambda>T. url_id T = ?u) rest = doc" "dropWhile (\<lambda>T. url_id T = ?u) rest = End"
    by (simp_all add: doc_def End_def)
  have same: "filter (\<lambda>S. url_id S = u) End = filter (\<lambda>S. url_id S = u) (From # rest)" if "u \<noteq> ?u" for u
    using that by (auto simp: End_def intro: filter_cong)
  have srt: "sorted (map url_id End)" using "2.prems"(1) by (simp add: End_def sorted_filter)
  have sub: "\<exists>r. search_document param tables (filter (\<lambda>S. url_id S = u) End) = Some r \<and>
      (r = None \<longleftrightarrow> \<not> acc (filter (\<lambda>S. url_id S = u) End))" if "u \<in> url_id ` set End" for u
  proof -
    from that have u: "u \<noteq> ?u" "u \<in> url_id ` set (From # rest)" by (auto simp: End_def)
    from "2.prems"(2) [OF u(2)] show ?thesis by (simp only: same [OF u(1)])
  qed
  have docs: "remdups (map url_id (From # rest)) = ?u # remdups (map url_id End)"
  proof -
    define tws where "tws = takeWhile (\<lambda>T. url_id T = ?u) rest"
    have "rest = tws @ End" unfolding tws_def tw(2) [symmetric] by (rule takeWhile_dropWhile_id [symmetric])
    moreover have "\<forall>y \<in> set (map url_id tws). y = ?u" by (auto simp: tws_def dest: set_takeWhileD)
    moreover have "?u \<notin> set (map url_id End)" by (auto simp: End_def)
    ultimately show ?thesis using remdups_block [of "map url_id tws" ?u "map url_id End"] by simp
  qed
  have filt: "filter (\<lambda>u. acc (filter (\<lambda>S. url_id S = u) End)) (remdups (map url_id End)) =
      filter (\<lambda>u. acc (filter (\<lambda>S. url_id S = u) (From # rest))) (remdups (map url_id End))"
    by (rule filter_cong [OF refl]) (use same in \<open>auto simp: End_def\<close>)
  from "2.prems"(2) [of ?u] obtain r where r: "search_document param tables doc = Some r" "r = None \<longleftrightarrow> \<not> acc doc"
    by (auto simp: doc_def)
  have gl: "documents_loop param tables calc (From # rest) s =
      (case search_document param tables doc of None \<Rightarrow> None
         | Some None \<Rightarrow> documents_loop param tables calc End s
         | Some (Some (cnt, parts)) \<Rightarrow>
             (let (score, s) = calc s doc cnt parts
              in case documents_loop param tables calc End s of None \<Rightarrow> None
                 | Some (L, s) \<Rightarrow> Some (\<lparr>us_url_id = ?u, us_score = score\<rparr> # L, s)))"
    by (simp add: tw Let_def)
  have goal: "filter (\<lambda>u. acc (filter (\<lambda>S. url_id S = u) (From # rest))) (remdups (map url_id (From # rest))) =
      (if acc doc then [?u] else []) @ filter (\<lambda>u. acc (filter (\<lambda>S. url_id S = u) End)) (remdups (map url_id End))"
    unfolding docs filt by (simp only: filter.simps doc_def append.simps split: if_split) blast
  show ?case
  proof (cases r)
    case None
    from "2.IH"(1) [OF tw(1) [symmetric] tw(2) [symmetric] _ refl srt sub] r None obtain L s' where
      "documents_loop param tables calc End s = Some (L, s')"
      "map us_url_id L = filter (\<lambda>u. acc (filter (\<lambda>S. url_id S = u) End)) (remdups (map url_id End))" by auto
    then show ?thesis unfolding goal gl using r None by simp
  next
    case (Some cp)
    obtain cnt parts where cp: "cp = (cnt, parts)" by fastforce
    obtain sc s1 where sc: "calc s doc cnt parts = (sc, s1)" by fastforce
    from "2.IH"(2) [OF tw(1) [symmetric] tw(2) [symmetric] _ refl cp [symmetric] sc [symmetric] refl srt sub] r Some obtain L s' where
      "documents_loop param tables calc End s1 = Some (L, s')"
      "map us_url_id L = filter (\<lambda>u. acc (filter (\<lambda>S. url_id S = u) End)) (remdups (map url_id End))" by auto
    then show ?thesis unfolding goal gl using r Some cp sc by simp
  qed
qed simp

end
