(* ===== verification/Search_Query.thy ===== *)
theory Search_Query
  imports Search_Documents
begin

text \<open>
  The search as a whole (\<open>UdmGroupByURLInternal2\<close> of \<^verbatim>\<open>src/score.c\<close>): from the items of the query
  and the sections found for its words to the list of documents.  The query is copied and
  simplified by \<^verbatim>\<open>src/boolean.c\<close>, the coordinates are merged, phrases searched and the
  documents selected.
\<close>

subsection \<open>From the query to the documents\<close>

definition sections_ok :: "widewordlist \<Rightarrow> found_section list \<Rightarrow> bool" where
  "sections_ok WL SL \<longleftrightarrow>
     sorted (map url_id SL) \<and> list_all (\<lambda>u. document_ok WL (filter (\<lambda>S. url_id S = u) SL)) (map url_id SL)"

definition n_commands :: "stack_item list \<Rightarrow> nat" where
  "n_commands items = length (filter (\<lambda>i. cmd i \<noteq> UDM_STACK_WORD \<and> cmd i \<noteq> UDM_STACK_STOP) items)"

text \<open>The identifiers of the documents for which \<open>P\<close> holds, in ascending order.\<close>

definition documents_with :: "(found_section list \<Rightarrow> bool) \<Rightarrow> found_section list \<Rightarrow> urlid_t list" where
  "documents_with P SL = filter (\<lambda>u. P (filter (\<lambda>S. url_id S = u) SL)) (remdups (map url_id SL))"

lemma loop2_documents:
  assumes "words_ok (WWList param) q" "sections_ok (WWList param) SL"
    and "\<And>tables u doc. tables_ok param tables \<Longrightarrow> doc = filter (\<lambda>S. url_id S = u) SL \<Longrightarrow>
      document_ok (WWList param) doc \<Longrightarrow>
      \<exists>r. search_document param tables doc = Some r \<and> (r = None \<longleftrightarrow> \<not> acc doc)"
  shows "\<exists>L. UdmGroupByURLLoop2 param calc s SL = Some L \<and> map us_url_id L = documents_with acc SL"
proof -
  from loop_tables_ok [OF assms(1)] obtain tables where t: "loop_tables_of param = Some tables" "tables_ok param tables"
    by blast
  have "\<exists>r. search_document param tables (filter (\<lambda>S. url_id S = u) SL) = Some r \<and>
      (r = None \<longleftrightarrow> \<not> acc (filter (\<lambda>S. url_id S = u) SL))" if "u \<in> url_id ` set SL" for u
    by (rule assms(3) [OF t(2) refl]) (use that assms(2) in \<open>auto simp: sections_ok_def list_all_iff\<close>)
  from documents_loop_documents [OF _ this, of calc s] assms(2) obtain L s' where
    "documents_loop param tables calc SL s = Some (L, s')" "map us_url_id L = documents_with acc SL"
    by (auto simp: sections_ok_def documents_with_def)
  with t(1) show ?thesis by (simp add: UdmGroupByURLLoop2_def)
qed

lemma documents_with_cong:
  "(\<And>u. u \<in> url_id ` set SL \<Longrightarrow> P (filter (\<lambda>S. url_id S = u) SL) = Q (filter (\<lambda>S. url_id S = u) SL)) \<Longrightarrow>
   documents_with P SL = documents_with Q SL"
  unfolding documents_with_def by (rule filter_cong) auto

lemma no_commands_any:
  assumes "n_commands (toks [] q) = 0" "\<exists>k \<in> set (orders_of q). word_in doc k"
  shows "satisfies True doc q"
proof -
  have "phrases_of q = [] \<and> ((\<exists>k \<in> set (single_words q). word_in doc k) \<longrightarrow> satisfies True doc q)"
    using assms(1) by (induction q) (auto simp: n_commands_def filter_empty_conv)
  with assms(2) show ?thesis by (auto simp: orders_of_def)
qed

lemma and_query:
  assumes "no_calculation mode (toks [mode_op mode] q)" "mode = UDM_MODE_ALL \<or> mode = UDM_MODE_BOOL"
  shows "phrases_of q = [] \<and> (satisfies False doc q \<longleftrightarrow> (\<forall>k \<in> set (single_words q). word_in doc k))"
proof -
  from assms have "\<forall>i \<in> set (toks [mode_op mode] q). cmd i \<noteq> UDM_STACK_OR \<and> cmd i \<noteq> UDM_STACK_NOT \<and> cmd i \<noteq> UDM_STACK_PHRASE"
    by (auto simp: no_calculation_def)
  then show ?thesis by (induction q) auto
qed

lemma mode_of_commands:
  assumes "n_commands (toks [] q) = 0" "\<not> no_calculation mode (toks [mode_op mode] q)"
  shows "mode = UDM_MODE_ANY"
proof (rule ccontr)
  assume m: "mode \<noteq> UDM_MODE_ANY"
  have "\<forall>i \<in> set (toks [mode_op mode] q). cmd i = UDM_STACK_WORD \<or> cmd i = UDM_STACK_STOP \<or> cmd i = UDM_STACK_AND"
    using assms(1) m by (induction q) (auto simp: n_commands_def filter_empty_conv mode_cmd_def)
  with assms(2) show False by (force simp: no_calculation_def)
qed

lemma step2_cases:
  assumes "well_formed j p q"
  obtains (items) "UdmScoreParamInitStep2 param (toks [] q) (n_commands (toks [] q)) mode =
      Some (param\<lparr>ItemList := toks [mode_op mode] q, search_mode := UDM_MODE_BOOL\<rparr>)"
      "\<not> no_calculation mode (toks [mode_op mode] q)"
  | (freed) "UdmScoreParamInitStep2 param (toks [] q) (n_commands (toks [] q)) mode =
      Some (param\<lparr>ItemList := [], search_mode := mode\<rparr>)"
      "no_calculation mode (toks [mode_op mode] q)"
  | (words) "UdmScoreParamInitStep2 param (toks [] q) (n_commands (toks [] q)) mode =
      Some (param\<lparr>ItemList := [], search_mode := mode\<rparr>)"
      "\<not> no_calculation mode (toks [mode_op mode] q)" "n_commands (toks [] q) = 0" "mode = UDM_MODE_ANY"
proof -
  note copy = UdmStackItemListCopy_toks [OF assms, of mode]
  consider "0 < n_commands (toks [] q) \<or> mode = UDM_MODE_BOOL" | "n_commands (toks [] q) = 0" "mode \<noteq> UDM_MODE_BOOL"
    by auto
  then show thesis
  proof cases
    case 1
    then show thesis
    proof (cases "no_calculation mode (toks [mode_op mode] q)")
      case True
      with 1 copy show thesis by (intro freed) (auto simp: UdmScoreParamInitStep2_def)
    next
      case False
      with 1 copy toks_not_Nil [of "[mode_op mode]" q] show thesis by (intro items) (auto simp: UdmScoreParamInitStep2_def)
    qed
  next
    case 2
    then have "UdmScoreParamInitStep2 param (toks [] q) (n_commands (toks [] q)) mode =
        Some (param\<lparr>ItemList := [], search_mode := mode\<rparr>)" by (simp add: UdmScoreParamInitStep2_def)
    with 2 mode_of_commands freed words show thesis by blast
  qed
qed

lemma word_of_document:
  assumes "query_ok WL q" "document_ok WL doc"
  shows "\<exists>k \<in> set (orders_of q). word_in doc k"
proof -
  obtain S where "S \<in> set doc" "section_ok WL S" using assms(2) by (cases doc) (auto simp: document_ok_def)
  with assms(1) show ?thesis by (auto simp: query_ok_def section_ok_def word_in_def)
qed

lemma internal2_nonzero:
  assumes "sections_ok (WWList param) SL" "SL \<noteq> []"
  shows "(sum_list (map ncoords SL) = 0) = False"
proof -
  obtain S SL' where S: "SL = S # SL'" using assms(2) by (cases SL) auto
  then have "S \<in> set (filter (\<lambda>T. url_id T = url_id S) SL)" "document_ok (WWList param) (filter (\<lambda>T. url_id T = url_id S) SL)"
    using assms(1) by (auto simp: sections_ok_def)
  then have "section_ok (WWList param) S" unfolding document_ok_def by blast
  then show ?thesis by (simp add: S section_ok_def)
qed

lemma internal2_loop2:
  assumes "sections_ok (WWList param) SL" "SL \<noteq> []" "2 \<le> nuniq (WWList param)"
    and "UdmScoreParamInitStep2 param items ncmds mode = Some (param\<lparr>ItemList := its, search_mode := m\<rparr>)"
  shows "UdmGroupByURLInternal2 param items ncmds calc s calc1 SL mode L0 =
    UdmGroupByURLLoop2 (param\<lparr>ItemList := its, search_mode := m\<rparr>) calc s SL"
  using assms(3,4) by (simp only: UdmGroupByURLInternal2_def internal2_nonzero [OF assms(1,2)] if_False) simp

lemma modes_documents:
  assumes w: "words_ok (WWList param) q" and n: "2 \<le> nuniq (WWList param)" and SL: "sections_ok (WWList param) SL"
    and "mode = UDM_MODE_ALL \<or> mode = UDM_MODE_BOOL \<Longrightarrow> phrases_of q = []"
  shows "\<exists>L. UdmGroupByURLLoop2 (param\<lparr>ItemList := [], search_mode := mode\<rparr>) calc s SL = Some L \<and>
    map us_url_id L = documents_with (accepted (param\<lparr>ItemList := [], search_mode := mode\<rparr>)) SL"
  by (rule loop2_documents [of _ q]; (rule search_document_modes [of _ q])?) (use assms in simp_all)

text \<open>
  C2. A query of at least two and at most 32 different words, each once in the query and without
  synonyms of several words, whose phrases have at least two of them, returns exactly the documents that satisfy it, in ascending
  order of their identifiers, if the mode is all or bool or its operators are evaluated
  (\<open>no_calculation\<close> is false) and no two words of the query stand at the same position of a
  section (\<open>apart\<close>, part of \<open>sections_ok\<close>): a word holds in a document that has it, a phrase in
  a document that has its words at consecutive positions of one section (with no query word in
  place of a stop word), brackets, not, and, or and the operator of the mode combine these.
  Under these conditions none of the following changes the result: the implicit operators, the
  removal of a query without or, not and phrases, the mask of all words, the shortcut for phrases
  of two words, the merge of the coordinates that leaves out the middle of runs, the phrase
  search in the merged coordinates and the evaluation with two stacks.  What happens without
  them is said by the claims on queries of one word, on the mode any, on sections with one word
  and on words at one position.
\<close>

theorem search_finds:
  assumes wf: "well_formed (if mode = UDM_MODE_ANY then 3 else 4) 3 q"
    and q: "query_ok (WWList param) q" and w: "words_ok (WWList param) q" and n: "2 \<le> nuniq (WWList param)"
    and SL: "sections_ok (WWList param) SL" "SL \<noteq> []"
    and mode: "mode = UDM_MODE_ALL \<or> mode = UDM_MODE_BOOL \<or> \<not> no_calculation mode (toks [mode_op mode] q)"
  shows "\<exists>L. UdmGroupByURLInternal2 param (toks [] q) (n_commands (toks [] q)) calc s calc1 SL mode L0 = Some L \<and>
    map us_url_id L = documents_with (\<lambda>doc. satisfies (mode = UDM_MODE_ANY) doc q) SL"
proof -
  have wf': "well_formed (cmd_code (mode_cmd mode)) 3 q" using wf by (simp add: mode_cmd_def split: if_splits)
  have doc_ok: "document_ok (WWList param) (filter (\<lambda>S. url_id S = u) SL)" if "u \<in> url_id ` set SL" for u
    using that SL(1) by (auto simp: sections_ok_def list_all_iff)
  from wf' show ?thesis
  proof (cases rule: step2_cases [where param = param and mode = mode])
    case items
    have "\<exists>L. UdmGroupByURLLoop2 (param\<lparr>ItemList := toks [mode_op mode] q, search_mode := UDM_MODE_BOOL\<rparr>) calc s SL = Some L \<and>
        map us_url_id L = documents_with (\<lambda>doc. satisfies (mode = UDM_MODE_ANY) doc q) SL"
      by (rule loop2_documents [of _ q]; (rule search_document_query [OF wf' refl refl])?) (use q w SL in simp_all)
    then show ?thesis unfolding internal2_loop2 [OF SL n items(1)] .
  next
    case freed
    with mode have m: "mode = UDM_MODE_ALL \<or> mode = UDM_MODE_BOOL" by blast
    note aq = and_query [OF freed(2) m]
    have words: "set (single_words q) = {..<nuniq (WWList param)}" using q aq by (simp add: query_ok_def orders_of_def)
    have any: "(mode = UDM_MODE_ANY) = False" using m by auto
    have "accepted (param\<lparr>ItemList := [], search_mode := mode\<rparr>) doc \<longleftrightarrow> (\<forall>k < nuniq (WWList param). word_in doc k)" for doc
      using m by (auto simp: accepted_def Let_def list_all_iff)
    then have "accepted (param\<lparr>ItemList := [], search_mode := mode\<rparr>) doc = satisfies (mode = UDM_MODE_ANY) doc q" for doc
      using aq [of doc] unfolding any words by auto
    then have eq: "accepted (param\<lparr>ItemList := [], search_mode := mode\<rparr>) = (\<lambda>doc. satisfies (mode = UDM_MODE_ANY) doc q)"
      by (rule ext)
    from aq have "phrases_of q = []" by blast
    from modes_documents [OF w n SL(1) this, of mode calc s] show ?thesis
      unfolding internal2_loop2 [OF SL n freed(1)] eq .
  next
    case words
    have "documents_with (accepted (param\<lparr>ItemList := [], search_mode := mode\<rparr>)) SL =
        documents_with (\<lambda>doc. satisfies (mode = UDM_MODE_ANY) doc q) SL"
      by (rule documents_with_cong)
        (use words no_commands_any [OF words(3) word_of_document [OF q doc_ok]] in \<open>auto simp: accepted_def\<close>)
    with modes_documents [OF w n SL(1), of mode calc s] words(4) show ?thesis
      unfolding internal2_loop2 [OF SL n words(1)] by simp
  qed
qed

lemma search_loose_helper:
  assumes wf: "well_formed (if mode = UDM_MODE_ANY then 3 else 4) 3 q"
    and w: "words_ok (WWList param) q" and n: "2 \<le> nuniq (WWList param)"
    and SL: "sections_ok (WWList param) SL" "SL \<noteq> []"
    and mode: "mode \<noteq> UDM_MODE_ALL" "mode \<noteq> UDM_MODE_BOOL" "no_calculation mode (toks [mode_op mode] q)"
  shows "\<exists>L. UdmGroupByURLInternal2 param (toks [] q) (n_commands (toks [] q)) calc s calc1 SL mode L0 = Some L \<and>
    map us_url_id L = documents_with (accepted (param\<lparr>search_mode := mode\<rparr>)) SL"
proof -
  have wf': "well_formed (cmd_code (mode_cmd mode)) 3 q" using wf by (simp add: mode_cmd_def split: if_splits)
  have acc: "accepted (param\<lparr>ItemList := [], search_mode := mode\<rparr>) = accepted (param\<lparr>search_mode := mode\<rparr>)"
    by (simp add: accepted_def [abs_def] rare_def [abs_def])
  from wf' show ?thesis
  proof (cases rule: step2_cases [where param = param and mode = mode])
    case freed
    with modes_documents [OF w n SL(1), of mode calc s] mode acc show ?thesis
      unfolding internal2_loop2 [OF SL n freed(1)] by simp
  qed (use mode in blast)+
qed


subsection \<open>Examples\<close>

definition witem :: "nat \<Rightarrow> stack_item" where
  "witem w = \<lparr>cmd = UDM_STACK_WORD, arg = w\<rparr>"

definition sitem :: "nat \<Rightarrow> stack_item" where
  "sitem w = \<lparr>cmd = UDM_STACK_STOP, arg = w\<rparr>"

definition example_word :: "nat \<Rightarrow> nat \<Rightarrow> nat \<Rightarrow> nat \<Rightarrow> wideword" where
  "example_word ord org pp pl =
     zero_wideword\<lparr>w_order := ord, origin := org, phrpos := pp, phrlen := pl, weight := 48\<rparr>"

definition example_section :: "urlid_t \<Rightarrow> nat \<Rightarrow> nat \<Rightarrow> nat \<Rightarrow> nat list \<Rightarrow> found_section" where
  "example_section u sec num ord ps =
     \<lparr>Coord = 0, PackedCoord = [], url_id = u, ncoords = length ps, seclen = 0,
      minpos = Min (set ps), maxpos = Max (set ps), secno = sec, wordnum = num, order = ord,
      crds = map (\<lambda>p. \<lparr>pos = p, corder = 0\<rparr>) ps\<rparr>"

definition example_param :: "wideword list \<Rightarrow> nat \<Rightarrow> score_param" where
  "example_param ws n =
     \<lparr>search_mode = UDM_MODE_ALL, ItemList = [], WWList = \<lparr>nuniq = n, Words = ws\<rparr>, RareWordNumDocs = 0\<rparr>"

lemmas example_defs = witem_def sitem_def example_word_def example_section_def example_param_def

abbreviation two_words :: score_param where
  "two_words \<equiv> example_param [example_word 0 1 0 2, example_word 1 1 1 2] 2"

abbreviation two_docs :: "found_section list" where
  "two_docs \<equiv> [example_section 4 1 0 0 [1, 6], example_section 4 1 1 1 [7],
     example_section 9 1 0 0 [5], example_section 9 1 1 1 [4]]"

abbreviation two_docs1 :: "found_section list" where
  "two_docs1 \<equiv> [example_section 4 1 0 0 [1, 6], example_section 4 1 1 1 [7]]"

lemma example_query_ok: "query_ok (WWList two_words) (Phrase 0 [witem 1])"
  by (simp add: query_ok_def orders_of_def phrase_orders_def word_args_def phrase_ok_def words_and_stops_def
      example_defs numeral_2_eq_2 lessThan_Suc insert_commute filter.simps del: filter_set)

lemma example_words_ok: "words_ok (WWList two_words) (Phrase 0 [witem 1])"
  by code_simp

lemma example_sections_ok: "sections_ok (WWList two_words) two_docs"
  by code_simp

lemma example_documents: "documents_with (\<lambda>doc. satisfies False doc (Phrase 0 [witem 1])) two_docs = [4]"
  by code_simp


abbreviation any_score :: "unit calc_score" where
  "any_score \<equiv> \<lambda>s doc cnt parts. (7, s)"

theorem search_finds_witness:
  "\<exists>L. UdmGroupByURLInternal2 two_words (toks [] (Phrase 0 [witem 1])) 2 any_score () (\<lambda>doc. 0)
      two_docs UDM_MODE_ALL [] = Some L \<and> map us_url_id L = [4]"
proof -
  have "n_commands (toks [] (Phrase 0 [witem 1])) = 2" by (simp add: n_commands_def witem_def)
  moreover have "2 \<le> nuniq (WWList two_words)" by (simp add: example_param_def)
  moreover have "well_formed 4 3 (Phrase 0 [witem 1])" by (simp add: witem_def)
  ultimately show ?thesis
    using search_finds [of UDM_MODE_ALL "Phrase 0 [witem 1]" two_words two_docs any_score "()" "\<lambda>doc. 0" "[]"]
      example_query_ok example_words_ok example_sections_ok example_documents
    by (simp del: toks.simps satisfies.simps)
qed

subsection \<open>Where the search is not what the query says\<close>

definition lost_query :: query where
  "lost_query = Juxt (Phrase 0 [sitem 1]) (Word 1)"

definition lost_words :: "wideword list" where
  "lost_words = [example_word 0 1 0 2, example_word 1 5 1 2, example_word 1 1 0 1]"

lemma phrases_commands:
  assumes "phrases_of q \<noteq> []"
  shows "n_commands (toks [] q) \<noteq> 0"
proof -
  have "\<exists>i \<in> set (toks [] q). cmd i = UDM_STACK_PHRASE" using assms by (induction q) auto
  then obtain i where "i \<in> set (toks [] q)" "cmd i = UDM_STACK_PHRASE" by blast
  then have "i \<in> set (filter (\<lambda>i. cmd i \<noteq> UDM_STACK_WORD \<and> cmd i \<noteq> UDM_STACK_STOP) (toks [] q))" by simp
  then show ?thesis unfolding n_commands_def by (metis length_0_conv list.set(1) empty_iff)
qed

lemma one_section_each:
  "distinct (map (\<lambda>S. (url_id S, secno S)) SL) \<Longrightarrow> distinct (map secno (filter (\<lambda>S. url_id S = u) SL))"
  by (induction SL) (auto simp: image_iff)

lemma one_word_phrase:
  assumes "document_ok WL doc" "words_and_stops ws" "word_args ws = []"
  shows "phrase_in doc w ws = word_in doc w"
proof
  assume "word_in doc w"
  then obtain S where S: "S \<in> set doc" "order S = w" by (auto simp: word_in_def)
  with assms(1) obtain c where "c \<in> set (crds S)" by (fastforce simp: document_ok_def section_ok_def)
  with S have "sec_to_crd w c \<in> set (section_coords doc (secno S))"
    by (auto simp: section_coords_def coords_of_sections_def)
  moreover have "corder (sec_to_crd w c) = w" by (simp add: sec_to_crd_def)
  ultimately have "phrase_stands (section_coords doc (secno S)) w ws"
    using phrase_from_stops [OF assms(2,3)] unfolding phrase_stands_def by blast
  with S(1) show "phrase_in doc w ws" by (auto simp: phrase_in_def)
next
  assume "phrase_in doc w ws"
  then obtain S where "S \<in> set doc" "phrase_stands (section_coords doc (secno S)) w ws" by (auto simp: phrase_in_def)
  from phrase_stands_words [OF this(2) assms(2), of w] show "word_in doc w"
    by (auto simp: section_coords_def coords_of_sections_def word_in_def)
qed

text \<open>
  C8. Phrases are only searched in sections with at least two words of the query.  Where every
  section of the documents has only one of them, a query of at least two different words with
  phrases, in every mode that keeps them, is decided as if all its phrases were false.  A phrase of one word and stop words
  stands wherever its word does, so that the search loses it there (the witness: the phrase of
  word 0 and a stop word, and word 1, with word 0 in one section and word 1 in another).
\<close>

theorem search_loses_phrases:
  assumes wf: "well_formed (if mode = UDM_MODE_ANY then 3 else 4) 3 q" and ph: "phrases_of q \<noteq> []"
    and mode: "\<not> no_calculation mode (toks [mode_op mode] q)"
    and q: "orders_ok (WWList param) q" and w: "words_ok (WWList param) q" and n: "2 \<le> nuniq (WWList param)"
    and SL: "sections_ok (WWList param) SL" "SL \<noteq> []"
    and one: "distinct (map (\<lambda>S. (url_id S, secno S)) SL)"
  shows "\<exists>L. UdmGroupByURLInternal2 param (toks [] q) (n_commands (toks [] q)) calc s calc1 SL mode L0 = Some L \<and>
      map us_url_id L = documents_with (\<lambda>doc. satisfies_words (mode = UDM_MODE_ANY) doc q) SL \<and>
      (\<forall>(w, ws) \<in> set (phrases_of q). word_args ws = [] \<longrightarrow>
         documents_with (\<lambda>doc. phrase_in doc w ws) SL = documents_with (\<lambda>doc. word_in doc w) SL)"
proof -
  have wf': "well_formed (cmd_code (mode_cmd mode)) 3 q" using wf by (simp add: mode_cmd_def split: if_splits)
  let ?P = "param\<lparr>ItemList := toks [mode_op mode] q, search_mode := UDM_MODE_BOOL\<rparr>"
  have st: "UdmScoreParamInitStep2 param (toks [] q) (n_commands (toks [] q)) mode = Some ?P"
    using wf' mode phrases_commands [OF ph]
    by (cases rule: step2_cases [where param = param and mode = mode]) auto
  have loop: "\<exists>L. UdmGroupByURLLoop2 ?P calc s SL = Some L \<and>
      map us_url_id L = documents_with (\<lambda>doc. satisfies_words (mode = UDM_MODE_ANY) doc q) SL"
    by (rule loop2_documents [of _ q]; (rule search_document_words [OF wf'])?)
      (use q w SL one_section_each [OF one] in simp_all)
  have "documents_with (\<lambda>doc. phrase_in doc w ws) SL = documents_with (\<lambda>doc. word_in doc w) SL"
    if "(w, ws) \<in> set (phrases_of q)" "word_args ws = []" for w ws
  proof (rule documents_with_cong)
    fix u assume "u \<in> url_id ` set SL"
    with SL(1) have "document_ok (WWList param) (filter (\<lambda>S. url_id S = u) SL)"
      by (auto simp: sections_ok_def list_all_iff)
    from one_word_phrase [OF this _ that(2)] well_formed_phrases [OF wf' that(1)]
    show "phrase_in (filter (\<lambda>S. url_id S = u) SL) w ws = word_in (filter (\<lambda>S. url_id S = u) SL) w" by simp
  qed
  with loop show ?thesis unfolding internal2_loop2 [OF SL n st] by blast
qed

theorem search_loses_phrases_witness:
  "(\<exists>L. UdmGroupByURLInternal2 (example_param lost_words 2) (toks [] lost_query) 2 any_score () (\<lambda>doc. 0)
      [example_section 3 1 0 0 [5], example_section 3 2 2 1 [8]] UDM_MODE_ALL [] = Some L \<and> map us_url_id L = []) \<and>
   satisfies False [example_section 3 1 0 0 [5], example_section 3 2 2 1 [8]] lost_query"
proof -
  let ?SL = "[example_section 3 1 0 0 [5], example_section 3 2 2 1 [8]]" and ?P = "example_param lost_words 2"
  have "well_formed 4 3 lost_query" "phrases_of lost_query \<noteq> []" by (simp_all add: lost_query_def sitem_def)
  moreover have "\<not> no_calculation UDM_MODE_ALL (toks [mode_op UDM_MODE_ALL] lost_query)"
    by (simp add: no_calculation_def lost_query_def sitem_def)
  moreover have "n_commands (toks [] lost_query) = 2" by (simp add: n_commands_def lost_query_def sitem_def)
  moreover have "orders_ok (WWList ?P) lost_query"
    by (auto simp: orders_ok_def orders_of_def lost_query_def phrase_orders_def word_args_def sitem_def example_param_def)
  moreover have "words_ok (WWList ?P) lost_query" by code_simp
  moreover have "sections_ok (WWList ?P) ?SL" by code_simp
  moreover have "2 \<le> nuniq (WWList ?P)" by (simp add: example_param_def)
  moreover have "distinct (map (\<lambda>S. (url_id S, secno S)) ?SL)" by (simp add: example_section_def)
  moreover have "documents_with (\<lambda>doc. satisfies_words False doc lost_query) ?SL = []" by code_simp
  moreover have "satisfies False ?SL lost_query" by code_simp
  ultimately show ?thesis
    using search_loses_phrases [of UDM_MODE_ALL lost_query ?P ?SL any_score "()" "\<lambda>doc. 0" "[]"] by auto
qed

definition and_query2 :: query where
  "and_query2 = And (Word 0) (Word 1)"

text \<open>
  C9. In the mode any the operator and is not obeyed: the items of a query without or, not
  and phrases are dropped in every mode, and the mode any then takes every document.
\<close>

theorem search_any_ignores_and:
  assumes "words_ok (WWList param) and_query2" "nuniq (WWList param) = 2"
    and "sections_ok (WWList param) SL" "SL \<noteq> []"
  shows "\<exists>L. UdmGroupByURLInternal2 param (toks [] and_query2) 1 calc s calc1 SL UDM_MODE_ANY L0 = Some L \<and>
    map us_url_id L = remdups (map url_id SL)"
proof -
  have "no_calculation UDM_MODE_ANY (toks [mode_op UDM_MODE_ANY] and_query2)"
    by (simp add: no_calculation_def and_query2_def)
  moreover have "n_commands (toks [] and_query2) = 1" by (simp add: n_commands_def and_query2_def)
  moreover have "documents_with (accepted (param\<lparr>search_mode := UDM_MODE_ANY\<rparr>)) SL = remdups (map url_id SL)"
    by (simp add: documents_with_def accepted_def Let_def)
  moreover have "well_formed 3 3 and_query2" by (simp add: and_query2_def)
  ultimately show ?thesis
    using search_loose_helper [of UDM_MODE_ANY and_query2 param SL calc s calc1 L0] assms by simp
qed


abbreviation plain_words :: "nat \<Rightarrow> score_param" where
  "plain_words n \<equiv> example_param (map (\<lambda>k. example_word k 1 0 1) [0..<n]) n"

theorem search_any_ignores_and_witness:
  "(\<exists>L. UdmGroupByURLInternal2 (plain_words 2) (toks [] and_query2) 1 any_score () (\<lambda>doc. 0)
      [example_section 4 1 0 0 [1], example_section 9 1 1 1 [5]] UDM_MODE_ANY [] = Some L \<and> map us_url_id L = [4, 9]) \<and>
   \<not> satisfies True [example_section 4 1 0 0 [1]] and_query2"
proof
  have "words_ok (WWList (plain_words 2)) and_query2" by code_simp
  moreover have "nuniq (WWList (plain_words 2)) = 2" by (simp add: example_param_def)
  moreover have "sections_ok (WWList (plain_words 2)) [example_section 4 1 0 0 [1], example_section 9 1 1 1 [5]]" by code_simp
  ultimately show "\<exists>L. UdmGroupByURLInternal2 (plain_words 2) (toks [] and_query2) 1 any_score () (\<lambda>doc. 0)
      [example_section 4 1 0 0 [1], example_section 9 1 1 1 [5]] UDM_MODE_ANY [] = Some L \<and> map us_url_id L = [4, 9]"
    using search_any_ignores_and [of "plain_words 2" "[example_section 4 1 0 0 [1], example_section 9 1 1 1 [5]]"
        any_score "()" "\<lambda>doc. 0" "[]"]
    by (simp add: example_section_def)
  show "\<not> satisfies True [example_section 4 1 0 0 [1]] and_query2" by code_simp
qed

lemma one_word_documents:
  "sorted (map url_id SL) \<Longrightarrow> map us_url_id (UdmGroupByURLLoop_OneWord_All2 calc1 SL) = remdups (map url_id SL)"
proof (induction calc1 SL rule: UdmGroupByURLLoop_OneWord_All2.induct)
  case (2 calc1 From rest)
  let ?u = "url_id From"
  define tws where "tws = takeWhile (\<lambda>T. url_id T = ?u) rest"
  define End where "End = dropWhile (\<lambda>T. url_id T = ?u) rest"
  have rest: "rest = tws @ End" unfolding tws_def End_def by (rule takeWhile_dropWhile_id [symmetric])
  have "End = filter (\<lambda>T. url_id T \<noteq> ?u) rest"
    using takeWhile_sorted_filter [of url_id From rest] "2.prems" by (simp add: End_def)
  then have "?u \<notin> set (map url_id End)" "sorted (map url_id End)" using "2.prems" by (auto simp: sorted_filter)
  moreover have "\<forall>y \<in> set (map url_id tws). y = ?u" by (auto simp: tws_def dest: set_takeWhileD)
  ultimately have "remdups (map url_id (From # rest)) = ?u # remdups (map url_id End)"
    using remdups_block [of "map url_id tws" ?u "map url_id End"] by (simp add: rest)
  with "2.IH" \<open>sorted (map url_id End)\<close> show ?case by (simp flip: End_def)
qed simp

text \<open>
  C10. A query of one word takes every document the word was found in, whatever the items of
  the query say: the query not w returns exactly the documents with w.
\<close>

theorem search_one_word_ignores_not:
  assumes "well_formed 4 3 q" "nuniq (WWList param) = 1" "sections_ok (WWList param) SL" "SL \<noteq> []"
  shows "\<exists>L. UdmGroupByURLInternal2 param (toks [] q) (n_commands (toks [] q)) calc s calc1 SL UDM_MODE_BOOL L0 = Some L \<and>
    map us_url_id L = remdups (map url_id SL) \<and> documents_with (\<lambda>doc. word_in doc 0) SL = remdups (map url_id SL)"
proof -
  have "\<exists>its m. UdmScoreParamInitStep2 param (toks [] q) (n_commands (toks [] q)) UDM_MODE_BOOL =
      Some (param\<lparr>ItemList := its, search_mode := m\<rparr>)"
    by (rule step2_cases [OF assms(1), of param UDM_MODE_BOOL]) blast+
  then obtain its m where st: "UdmScoreParamInitStep2 param (toks [] q) (n_commands (toks [] q)) UDM_MODE_BOOL =
      Some (param\<lparr>ItemList := its, search_mode := m\<rparr>)" by blast
  have "word_in (filter (\<lambda>S. url_id S = u) SL) 0" if u: "u \<in> url_id ` set SL" for u
  proof -
    from u assms(3) have doc: "document_ok (WWList param) (filter (\<lambda>S. url_id S = u) SL)"
      by (auto simp: sections_ok_def list_all_iff)
    obtain T where T: "T \<in> set (filter (\<lambda>S. url_id S = u) SL)" using u by auto
    with doc have "section_ok (WWList param) T" by (simp add: document_ok_def)
    with assms(2) have "order T = 0" by (simp add: section_ok_def)
    with T show ?thesis unfolding word_in_def by blast
  qed
  then have "documents_with (\<lambda>doc. word_in doc 0) SL = remdups (map url_id SL)"
    by (auto simp: documents_with_def intro!: filter_True)
  moreover have "UdmGroupByURLInternal2 param (toks [] q) (n_commands (toks [] q)) calc s calc1 SL UDM_MODE_BOOL L0 =
      Some (UdmGroupByURLLoop_OneWord_All2 calc1 SL)"
    using internal2_nonzero [OF assms(3,4)] st assms(2) by (simp only: UdmGroupByURLInternal2_def if_False) simp
  moreover have "sorted (map url_id SL)" using assms(3) by (simp add: sections_ok_def)
  ultimately show ?thesis using one_word_documents by blast
qed

theorem search_one_word_ignores_not_witness:
  "\<exists>L. UdmGroupByURLInternal2 (plain_words 1) (toks [] (Not (Word 0))) 1 any_score () (\<lambda>doc. 9)
      [example_section 4 1 0 0 [1]] UDM_MODE_BOOL [] = Some L \<and> map us_url_id L = [4] \<and>
    documents_with (\<lambda>doc. word_in doc 0) [example_section 4 1 0 0 [1]] = [4]"
proof -
  have "sections_ok (WWList (plain_words 1)) [example_section 4 1 0 0 [1]]" by code_simp
  then show ?thesis
    using search_one_word_ignores_not [of "Not (Word 0)" "plain_words 1" "[example_section 4 1 0 0 [1]]"
        any_score "()" "\<lambda>doc. 9" "[]"]
    by (simp add: example_param_def example_section_def n_commands_def)
qed

abbreviation three_juxt :: query where
  "three_juxt \<equiv> Juxt (Juxt (Word 0) (Word 1)) (Word 2)"


definition at_places :: "nat list \<Rightarrow> coord2 list" where
  "at_places ps = map (\<lambda>p. \<lparr>pos = p, corder = 0\<rparr>) ps"

lemma merge_loses_phrase:
  "phrase_stands (coords_of [(1, at_places [p, p + 1, p + 2]), (0, at_places [p])]) 0 [witem 1] \<and>
   CheckOnePhrase (witem 0) [witem 1]
     (fst (UdmMergeCoordsN2 1 (at_places [p, p + 1, p + 2]) 0 (at_places [p]))) 0 sl = 0"
  by (simp add: phrase_stands_def stands_def at_places_def witem_def sec_to_crd_def UdmMergeCoordsN2_def
      skipped_def single_rest_def Let_def)

text \<open>
  C13. The merge of the coordinates of two words leaves out the middle of the runs of one word.
  Where the two words have no position in common, the phrase search gives the same answer in
  the merged coordinates as in the full merge of all coordinates, for every phrase of at least
  two different words and stop words.  (\<open>merge_loses_phrase\<close>: with a position in common, which
  searches for parts of words can bring, a phrase can be lost.)
\<close>

theorem merge_keeps_phrase:
  assumes "A \<noteq> []" "strict A" "B \<noteq> []" "strict B" "pos ` set A \<inter> pos ` set B = {}"
    and "words_and_stops ws" "distinct (arg CmdBeg # word_args ws)" "word_args ws \<noteq> []"
  shows "CheckOnePhrase CmdBeg ws (fst (UdmMergeCoordsN2 o1 A o2 B)) cmd_arg slen =
    CheckOnePhrase CmdBeg ws (UdmMergeCoordsMany [(o1, A), (o2, B)]) cmd_arg slen"
proof -
  note srt = sorted_strict [OF assms(2)] sorted_strict [OF assms(4)]
  have "\<forall>(ord, src) \<in> set [(o1, A), (o2, B)]. sorted (map pos src)" using srt by simp
  note m = UdmMergeCoordsMany_merges [OF this]
  have "phrase_stands (UdmMergeCoordsMany [(o1, A), (o2, B)]) w ws = phrase_stands (coords_of [(o1, A), (o2, B)]) w ws" for w
    by (rule phrase_stands_cong) (rule mset_eq_setD [OF conjunct1 [OF m]])
  with UdmMergeCoordsN2_phrase [OF assms(1-4) _ assms(6,7,8)] assms(5)
  have "phrase_stands (fst (UdmMergeCoordsN2 o1 A o2 B)) (arg CmdBeg) ws =
      phrase_stands (UdmMergeCoordsMany [(o1, A), (o2, B)]) (arg CmdBeg) ws" by simp
  moreover have "sorted (map pos (fst (UdmMergeCoordsN2 o1 A o2 B)))"
    by (rule UdmMergeCoordsN2_sorted [OF assms(1) srt(1) assms(3) srt(2)])
  ultimately show ?thesis
    using m by (simp add: CheckOnePhrase_finds phrase_stands_def)
qed

theorem merge_keeps_phrase_witness:
  "CheckOnePhrase (witem 0) [witem 1] (fst (UdmMergeCoordsN2 0 (at_places [1, 2, 3]) 1 (at_places [4, 5, 6]))) 0 9 =
   CheckOnePhrase (witem 0) [witem 1] (UdmMergeCoordsMany [(0, at_places [1, 2, 3]), (1, at_places [4, 5, 6])]) 0 9 \<and>
   snd (UdmMergeCoordsN2 0 (at_places [1, 2, 3]) 1 (at_places [4, 5, 6])) = 4"
proof
  show "CheckOnePhrase (witem 0) [witem 1] (fst (UdmMergeCoordsN2 0 (at_places [1, 2, 3]) 1 (at_places [4, 5, 6]))) 0 9 =
      CheckOnePhrase (witem 0) [witem 1] (UdmMergeCoordsMany [(0, at_places [1, 2, 3]), (1, at_places [4, 5, 6])]) 0 9"
    by (rule merge_keeps_phrase)
      (simp_all add: at_places_def strict_def words_and_stops_def word_args_def witem_def)
  show "snd (UdmMergeCoordsN2 0 (at_places [1, 2, 3]) 1 (at_places [4, 5, 6])) = 4" by code_simp
qed

subsection \<open>Bounds\<close>

definition coords_sorted :: "found_section \<Rightarrow> bool" where
  "coords_sorted S \<longleftrightarrow> ncoords S = length (crds S) \<and> sorted (map pos (crds S))"

lemma merge_n2_length: "snd (UdmMergeCoordsN2 o1 A o2 B) \<le> length A + length B"
proof (cases "A = [] \<or> B = []")
  case False
  then have ne: "A \<noteq> []" "B \<noteq> []" by auto
  note e = UdmMergeCoordsN2_keeps_ends [OF ne, of o1 o2]
  from e have "length (fst (UdmMergeCoordsN2 o1 A o2 B)) \<le> length (merge_full o1 o2 A B)"
    using list_emb_length by blast
  with e show ?thesis by simp
qed (auto simp: UdmMergeCoordsN2_def)

lemma merge_many_length:
  assumes "\<forall>S \<in> set Ss. coords_sorted S"
  shows "length (UdmMergeCoordsMany (map (\<lambda>S. (order S, crds S)) Ss)) = sum_list (map ncoords Ss)"
proof -
  have "\<forall>(ord, src) \<in> set (map (\<lambda>S. (order S, crds S)) Ss). sorted (map pos src)"
    using assms by (auto simp: coords_sorted_def)
  note m = UdmMergeCoordsMany_merges [OF this]
  have "length (UdmMergeCoordsMany (map (\<lambda>S. (order S, crds S)) Ss)) = length (coords_of (map (\<lambda>S. (order S, crds S)) Ss))"
    by (rule mset_eq_length [OF conjunct1 [OF m]])
  also have "\<dots> = sum_list (map ncoords Ss)" using assms by (induction Ss) (auto simp: coords_sorted_def)
  finally show ?thesis .
qed

lemma merge_section_bounds:
  assumes "merge_section ws limit Ss (cnt, parts) = Some (cnt', parts', cs, n)" "\<forall>S \<in> set Ss. coords_sorted S"
  shows "n \<le> sum_list (map ncoords Ss) \<and> MergedSectionLists parts' = MergedSectionLists parts \<and>
    length (density_param parts') \<le> length (density_param parts) + 1 \<and>
    ncoords_for_malloc parts' = ncoords_for_malloc parts"
proof -
  define pts where "pts = (if sp_max_secno parts < secno (hd Ss) then parts\<lparr>sp_max_secno := secno (hd Ss)\<rparr> else parts)"
  have pts: "MergedSectionLists pts = MergedSectionLists parts" "density_param pts = density_param parts"
    "ncoords_for_malloc pts = ncoords_for_malloc parts" by (auto simp: pts_def)
  note defs = merge_section_def Let_def UdmDensityParamAdd_def UdmDensityParamAdd2_def UdmDensityParamAddItem_def
  consider S where "Ss = [S]" | S T where "Ss = [S, T]" | "Ss = [] \<or> (\<exists>S T U r. Ss = S # T # U # r)"
    by (cases Ss; cases "tl Ss"; cases "tl (tl Ss)") auto
  then show ?thesis
  proof cases
    case 1
    with assms(1) pts show ?thesis
      by (auto simp: defs pts_def [symmetric] split: option.splits if_splits simp flip: pts_def)
  next
    case 2
    with assms pts merge_n2_length [of "order S" "crds S" "order T" "crds T"] show ?thesis
      by (auto simp: defs coords_sorted_def split: option.splits if_splits)
  next
    case 3
    with assms pts merge_many_length [OF assms(2)] show ?thesis
      by (auto simp: defs split: option.splits if_splits)
  qed
qed


definition merged_total :: "score_parts \<Rightarrow> nat" where
  "merged_total parts = sum_list (map ms_ncoords (MergedSectionLists parts))"

lemma UdmCalcUniqSection_bounds:
  assumes "UdmCalcUniqSection param limit Ss (cnt, parts) = Some (cnt', parts')" "\<forall>S \<in> set Ss. coords_sorted S"
  shows "merged_total parts' \<le> merged_total parts + sum_list (map ncoords Ss) \<and>
    length (MergedSectionLists parts') = length (MergedSectionLists parts) + 1 \<and>
    length (density_param parts') \<le> length (density_param parts) + 1 \<and>
    ncoords_for_malloc parts' = ncoords_for_malloc parts"
proof -
  obtain c p cs n where m: "merge_section (Words (WWList param)) limit Ss (cnt, parts) = Some (c, p, cs, n)"
    using assms(1) by (auto simp: UdmCalcUniqSection_def split: option.splits)
  have p': "parts' = p\<lparr>MergedSectionLists := MergedSectionLists p @ [\<lparr>ms_Coords = cs, ms_ncoords = n, ms_secno = secno (hd Ss)\<rparr>]\<rparr>"
    using assms(1) by (auto simp: UdmCalcUniqSection_def m Let_def split: option.splits if_splits)
  show ?thesis using merge_section_bounds [OF m assms(2)] by (simp add: p' merged_total_def)
qed

lemma uniq_loop_bounds:
  assumes "uniq_loop param limit gs (cnt, parts) = Some (cnt', parts')" "\<forall>g \<in> set gs. \<forall>S \<in> set g. coords_sorted S"
  shows "merged_total parts' \<le> merged_total parts + sum_list (map ncoords (concat gs)) \<and>
    length (MergedSectionLists parts') = length (MergedSectionLists parts) + length gs \<and>
    length (density_param parts') \<le> length (density_param parts) + length gs \<and>
    ncoords_for_malloc parts' = ncoords_for_malloc parts"
  using assms
proof (induction gs arbitrary: cnt parts)
  case (Cons g gs)
  then obtain c p where u: "UdmCalcUniqSection param limit g (cnt, parts) = Some (c, p)"
    "uniq_loop param limit gs (c, p) = Some (cnt', parts')"
    by (auto split: option.splits)
  from Cons.prems(2) have "\<forall>S \<in> set g. coords_sorted S" by simp
  from UdmCalcUniqSection_bounds [OF u(1) this] Cons.IH [OF u(2)] Cons.prems(2) show ?case by auto
qed simp

lemma concat_uniq_sections: "concat (uniq_sections doc) = doc"
  by (induction doc rule: uniq_sections.induct) auto

text \<open>
  C11. For every document whose sections the earlier stages found (sorted by section number,
  section numbers of one byte other than 0, coordinates in order) the array of 256 pointers to
  its groups of sections is filled within its bounds, the merge of the groups goes through, all
  merged coordinates together fit into the array that is enlarged for the document, and its at
  most 255 merged sections and densities fit into theirs.
\<close>

theorem search_document_fits:
  assumes doc: "doc \<noteq> []" "list_all (section_ok (WWList param)) doc" "sorted (map secno doc)"
    and q: "well_formed j p q" "list_all (phrase_ok (nuniq (WWList param))) (phrases_of q)"
    and items: "ItemList param = [] \<or> ItemList param = toks [mode_op mode] q"
  shows "\<exists>groups cnt parts. document_groups doc = Some groups \<and>
    uniq_loop param (update_count_phrlen_limit (search_mode param)) groups
      (replicate (nuniq (WWList param)) 0, first_parts param doc) = Some (cnt, parts) \<and>
    merged_total parts < UdmSectionList2Realloc acoords (sum_list (map ncoords doc)) \<and>
    length groups < 256 \<and> length (MergedSectionLists parts) = length groups \<and>
    length (density_param parts) \<le> length groups"
proof -
  let ?WL = "WWList param" and ?groups = "uniq_sections doc"
  have few: "length ?groups < 256"
    by (rule uniq_sections_few [OF doc(3)]) (use doc(2) in \<open>auto simp: section_ok_def list_all_iff\<close>)
  have "set (concat ?groups) = set doc" by (simp only: concat_uniq_sections)
  with doc(2) have "\<forall>g \<in> set ?groups. \<forall>S \<in> set g. section_ok ?WL S" by (auto simp: list_all_iff)
  moreover from this have srt: "\<forall>g \<in> set ?groups. \<forall>S \<in> set g. coords_sorted S"
    by (auto simp: section_ok_def coords_sorted_def intro: sorted_strict)
  ultimately have gs: "\<forall>g \<in> set ?groups. (\<forall>S \<in> set g. section_ok ?WL S) \<and> g \<noteq> []"
    using uniq_sections_groups [OF doc(3)] by blast
  have chk: "\<exists>phs. phrases_checked param phs"
  proof (cases "ItemList param = []")
    case False
    with items have "ItemList param = toks [mode_op mode] q" by blast
    moreover have "cmd (mode_op mode) \<noteq> UDM_STACK_PHRASE" by (simp add: mode_cmd_def)
    ultimately show ?thesis using phrases_checked_query [OF q(1)] q(2) unfolding list_all_iff by blast
  qed (use phrases_checked_Nil in blast)
  then obtain phs where "phrases_checked param phs" by blast
  from uniq_loop_returns [OF gs _ this, of "replicate (nuniq ?WL) 0" "first_parts param doc"] obtain cnt parts where
    u: "uniq_loop param (update_count_phrlen_limit (search_mode param)) ?groups
      (replicate (nuniq ?WL) 0, first_parts param doc) = Some (cnt, parts)" by auto
  from uniq_loop_bounds [OF u srt] have "merged_total parts < UdmSectionList2Realloc acoords (sum_list (map ncoords doc))"
    "length (MergedSectionLists parts) = length ?groups" "length (density_param parts) \<le> length ?groups"
    by (auto simp: concat_uniq_sections first_parts_def merged_total_def UdmSectionList2Realloc_def)
  with u few show ?thesis by (simp add: document_groups_eq)
qed

theorem search_document_fits_witness:
  "\<exists>groups cnt parts. document_groups two_docs1 = Some groups \<and>
    uniq_loop two_words 64 groups ([0, 0], first_parts two_words two_docs1) = Some (cnt, parts) \<and>
    merged_total parts < UdmSectionList2Realloc 0 3"
proof -
  have "list_all (section_ok (WWList two_words)) two_docs1" by code_simp
  moreover have "sorted (map secno two_docs1)" "sum_list (map ncoords two_docs1) = 3"
    "ItemList two_words = []" "nuniq (WWList two_words) = 2" "update_count_phrlen_limit (search_mode two_words) = 64"
    by (simp_all add: example_section_def example_param_def update_count_phrlen_limit_def numeral_2_eq_2)
  ultimately show ?thesis
    using search_document_fits [of two_docs1 two_words 4 3 "Word 0" UDM_MODE_ALL 0] by (simp add: numeral_2_eq_2) blast
qed

subsection \<open>The sums of the score\<close>

definition section_offs :: "nat \<Rightarrow> found_section \<Rightarrow> nat" where
  "section_offs n S = OFFS_FROM_NUNIQ_SECNO_ORDER n (secno S) (order S)"

lemma breakdown_loop_sums:
  assumes "\<forall>S \<in> set Ss. section_offs n S < length added \<and> section_offs n S < length D \<and> section_offs n S < length R"
    and "\<forall>k. k < length added \<longrightarrow> added ! k = (if k \<in> K then 1 else 0)" "finite K" "\<forall>k \<in> K. k \<le> mx" "K \<subseteq> {..<length added}"
    and "mx = 0 \<or> mx < length added"
  shows "\<exists>mx' added'. breakdown_loop n D R Ss (\<Sum>k \<in> K. D ! k) (\<Sum>k \<in> K. R ! k) mx added =
      Some (\<Sum>k \<in> K \<union> section_offs n ` set Ss. D ! k, \<Sum>k \<in> K \<union> section_offs n ` set Ss. R ! k, mx', added') \<and>
    length added' = length added \<and> (mx' = 0 \<or> mx' < length added) \<and>
    (\<forall>k < length added. added' ! k \<noteq> 0 \<longrightarrow> k \<le> mx')"
  using assms
proof (induction Ss arbitrary: K mx added)
  case Nil
  then show ?case by auto
next
  case (Cons S Ss)
  define ofs where "ofs = section_offs n S"
  have lt: "ofs < length added" "ofs < length D" "ofs < length R" using Cons.prems(1) by (auto simp: ofs_def)
  show ?case
  proof (cases "ofs \<in> K")
    case True
    then have "added ! ofs \<noteq> 0" using Cons.prems(2) lt by simp
    then have "breakdown_loop n D R (S # Ss) (\<Sum>k \<in> K. D ! k) (\<Sum>k \<in> K. R ! k) mx added =
        breakdown_loop n D R Ss (\<Sum>k \<in> K. D ! k) (\<Sum>k \<in> K. R ! k) mx added"
      using lt by (simp add: ofs_def section_offs_def Let_def)
    moreover have "K \<union> section_offs n ` set (S # Ss) = K \<union> section_offs n ` set Ss" using True by (auto simp: ofs_def)
    ultimately show ?thesis using Cons.IH [of added K mx] Cons.prems by auto
  next
    case False
    then have zero: "added ! ofs = 0" using Cons.prems(2) lt by simp
    define mx1 where "mx1 = (if ofs > mx then ofs else mx)"
    have "breakdown_loop n D R (S # Ss) (\<Sum>k \<in> K. D ! k) (\<Sum>k \<in> K. R ! k) mx added =
        breakdown_loop n D R Ss (\<Sum>k \<in> insert ofs K. D ! k) (\<Sum>k \<in> insert ofs K. R ! k) mx1 (added[ofs := 1])"
      using lt zero False Cons.prems(3) by (simp add: ofs_def section_offs_def Let_def mx1_def add.commute)
    moreover have "\<exists>mx' added'. breakdown_loop n D R Ss (\<Sum>k \<in> insert ofs K. D ! k) (\<Sum>k \<in> insert ofs K. R ! k) mx1 (added[ofs := 1]) =
        Some (\<Sum>k \<in> insert ofs K \<union> section_offs n ` set Ss. D ! k, \<Sum>k \<in> insert ofs K \<union> section_offs n ` set Ss. R ! k, mx', added') \<and>
        length added' = length (added[ofs := 1]) \<and> (mx' = 0 \<or> mx' < length (added[ofs := 1])) \<and>
        (\<forall>k < length (added[ofs := 1]). added' ! k \<noteq> 0 \<longrightarrow> k \<le> mx')"
      by (rule Cons.IH) (use Cons.prems lt in \<open>auto simp: mx1_def nth_list_update\<close>)
    moreover have "insert ofs K \<union> section_offs n ` set Ss = K \<union> section_offs n ` set (S # Ss)" by (auto simp: ofs_def)
    ultimately show ?thesis by simp
  qed
qed

text \<open>
  C12. The two sums of the score add each pair of a section number and a word of the document
  once, however many forms of the word were found, and the marks are all cleared again for the
  next document.
\<close>

theorem UdmCalcCosineSectionBreakDown_sums:
  assumes "list_all (\<lambda>S. section_offs n S < m) doc" "m \<le> length Dsum_add" "m \<le> length RDsum_add" "0 < m"
  shows "UdmCalcCosineSectionBreakDown n Dsum_add RDsum_add (replicate m 0) doc =
    Some (\<Sum>k \<in> section_offs n ` set doc. Dsum_add ! k, \<Sum>k \<in> section_offs n ` set doc. RDsum_add ! k, replicate m 0)"
proof -
  have "\<forall>S \<in> set doc. section_offs n S < length (replicate m (0 :: nat)) \<and> section_offs n S < length Dsum_add \<and>
      section_offs n S < length RDsum_add" using assms by (auto simp: list_all_iff)
  from breakdown_loop_sums [OF this, of "{}" 0] obtain mx added where
    b: "breakdown_loop n Dsum_add RDsum_add doc 0 0 0 (replicate m 0) =
      Some (\<Sum>k \<in> section_offs n ` set doc. Dsum_add ! k, \<Sum>k \<in> section_offs n ` set doc. RDsum_add ! k, mx, added)"
    and len: "length added = m" and mx: "mx = 0 \<or> mx < m" and nz: "\<forall>k < m. added ! k \<noteq> 0 \<longrightarrow> k \<le> mx"
    by auto
  from mx assms(4) have lt: "mx < m" by auto
  have "replicate (mx + 1) 0 @ drop (mx + 1) added = replicate m 0"
  proof (rule nth_equalityI)
    fix k assume "k < length (replicate (mx + 1) 0 @ drop (mx + 1) added)"
    then have "k < m" using len lt by auto
    with nz len lt show "(replicate (mx + 1) 0 @ drop (mx + 1) added) ! k = replicate m 0 ! k"
      by (cases "k < mx + 1") (auto simp: nth_append simp del: replicate.simps append.simps replicate_Suc)
  qed (use len lt in auto)
  with b len lt show ?thesis by (simp add: UdmCalcCosineSectionBreakDown_def)
qed

theorem UdmCalcCosineSectionBreakDown_sums_witness:
  "UdmCalcCosineSectionBreakDown 2 [10, 20, 30, 40, 50] [1, 2, 3, 4, 5] (replicate 5 0)
     [example_section 4 1 0 0 [1], example_section 4 1 2 0 [3], example_section 4 1 1 1 [2]] =
   Some (70, 7, replicate 5 0)"
  using UdmCalcCosineSectionBreakDown_sums [of 2 5 "[example_section 4 1 0 0 [1], example_section 4 1 2 0 [3], example_section 4 1 1 1 [2]]"
      "[10, 20, 30, 40, 50]" "[1, 2, 3, 4, 5]"]
  by (simp add: section_offs_def OFFS_FROM_NUNIQ_SECNO_ORDER_def example_section_def)

end
