(* ===== verification/Spec2Isabelle.thy ===== *)
theory Spec2Isabelle
  imports Prelude Bool_Query Url_Id_List Base64 Blob_Bounds Blob_Roundtrip GroupBy Blob_Url_Data Score_Merge Phrase Charset Crc32 Url Search_Query
begin

text \<open>
  A verification library of the search engine mnoGoSearch, whose C sources are under
  \<^verbatim>\<open>src/mnogosearch-sources\<close>; the files named below are in its directories \<^verbatim>\<open>src\<close> and
  \<^verbatim>\<open>include\<close>.  An indexer collects documents, parses them into words and stores, for every word,
  a packed record of the documents and positions it stands at; the search reads these records,
  decides which documents satisfy the query, ranks and groups them.  The library models what lies
  between these ends: the routines that parse and convert text and addresses, the codecs of the
  index, the evaluation of queries and the lists the results are kept in.

  PARTS OF THE PROGRAM AND THEIR THEORIES

  (1) Shared vocabulary.  \<open>Prelude\<close>: the integer types of the sources, \<open>qsort\<close> and \<open>bsearch\<close>
  (locale \<open>sorter\<close>, interpreted by \<open>qs\<close> on \<open>UdmSort\<close>; binary search as a loop with its
  invariant), bytes of integers (\<^verbatim>\<open>include/udm_utils.h\<close>), the collections \<open>mask_simps\<close> and
  \<open>byte_simps\<close>.

  (2) Text and configuration.
  \<open>Wild\<close>: \<^verbatim>\<open>wild.c\<close>, wildcards against an inductive relation \<open>matches\<close>.
  \<open>Vars\<close>: \<^verbatim>\<open>vars.c\<close>, lists of variables.  \<open>udm_varlist\<close> holds the variables and the number at
  the last sort; one definition for each operation; \<open>var_step\<close> and \<open>var_reachable\<close> are the
  operations as a step relation and what it reaches.
  \<open>Sgml\<close>: \<^verbatim>\<open>sgml.c\<close>, the table of entities, scanning, unescaping, encoding.
  \<open>Charset\<close>: \<^verbatim>\<open>uconv-utf8.c\<close>, \<^verbatim>\<open>uconv-8bit.c\<close>, \<^verbatim>\<open>uconv.c\<close>.  A set is a pair of functions, as the
  function pointers of the code; \<open>UdmConv\<close> takes the two it needs.
  \<open>Url\<close>: \<^verbatim>\<open>url.c\<close>, \<open>UdmURLParse\<close>, \<open>UdmURLCanonizePath\<close>, \<open>UdmURLNormalizePath\<close>,
  \<open>UdmURLCanonize\<close>.
  \<open>Base64\<close>: \<^verbatim>\<open>base64.c\<close>, the encoder and its two decoders.
  \<open>Crc32\<close>: \<^verbatim>\<open>crc32.c\<close>.  \<open>Dstr\<close>: \<^verbatim>\<open>dstr.c\<close>, strings that grow; the block is its bytes with the
  sizes of the code.

  (3) The index of words, \<^verbatim>\<open>dbmode-blob.c\<close>.
  \<open>Coord\<close>: the code of numbers in one to four bytes.  \<open>Blob_Pack\<close>: the cache of words of the
  indexer and the packing of one word in each of the formats.  \<open>Blob_Unpack\<close>: the search's
  reader of such a record into sections.  \<open>Blob_Bounds\<close>: its array bounds.
  \<open>Blob_Roundtrip\<close>: reader after writer.
  \<open>Zint4\<close>: \<^verbatim>\<open>utils.c\<close>, the bit code of integer arrays.  \<open>Blob_Url_Data\<close>: the records
  \<^verbatim>\<open>#rec_id\<close>, \<^verbatim>\<open>#site_id\<close> and so on that \<open>Zint4\<close> and the zlib library may compress, and the
  loading of their values into the found documents.

  (4) The search.
  \<open>Url_Id_List\<close>: \<^verbatim>\<open>urlidlist.c\<close>, limits of a search.  \<open>Word_Lists\<close>: \<^verbatim>\<open>word.c\<close>, the words of a
  query.  \<open>Bool_Query\<close>: \<^verbatim>\<open>boolean.c\<close>, queries as lists of items, their copy with the implicit
  operators, their evaluation with two stacks; \<open>query\<close>, \<open>toks\<close> and \<open>holds\<close> are the syntax tree,
  its printing and its truth value.  \<open>Section_Merge\<close>: \<^verbatim>\<open>section.c\<close>, the merge of the section lists of all words.
  \<open>Phrase\<close>: \<^verbatim>\<open>coords.c\<close>, words of several parts.  \<open>Score_Merge\<close>: \<^verbatim>\<open>score.c\<close>, the merge of the
  coordinates of a section and the selection of the best documents.
  \<open>Search_Loop\<close>: \<^verbatim>\<open>score.c\<close>, the loop over all found sections, \<open>UdmGroupByURLLoop2\<close>, with
  everything it calls that decides about a document.  \<open>Phrase_Check\<close>, \<open>Search_Documents\<close> and
  \<open>Search_Query\<close> hold no code of their own: they lead from the phrase search to one document
  (\<open>search_document\<close>) to the whole (\<open>UdmGroupByURLInternal2\<close>).

  (5) The results.
  \<open>Hash\<close>: \<^verbatim>\<open>hash.c\<close>, hash functions and the hash table.  \<open>Urldata\<close>: \<^verbatim>\<open>urldata.c\<close>, the found
  documents and their sorting.  \<open>GroupBy\<close>: \<^verbatim>\<open>groupby.c\<close>, grouping by site.

  HOW THE PARTS INTERACT

  The reader of \<open>Blob_Unpack\<close> asks \<open>Url_Id_List\<close> whether a document is admitted and gives lists
  of sections to \<open>Section_Merge\<close>; \<open>Phrase\<close> turns the lists of the parts of a word into one of
  the word.  The merged list goes to \<open>Search_Loop\<close>, which merges coordinates with
  \<open>Score_Merge\<close> and evaluates the items of the query with \<open>Bool_Query\<close>.  Its documents and scores
  are sorted by \<open>Score_Merge\<close>, filled with values by \<open>Blob_Url_Data\<close> and grouped by
  \<open>GroupBy\<close> on top of \<open>Urldata\<close> and \<open>Hash\<close>.

  Interfaces are locales, each interpreted on the code: \<open>sorter\<close> (by \<open>UdmSort\<close>); \<open>id_search\<close>
  (the binary search of identifiers); \<open>byte_buffer\<close> (the growing strings, for the packers);
  \<open>tape_merge\<close> (the choice of the smallest tape, once for sections and once for coordinates);
  \<open>joining_table\<close> and \<open>hash_callbacks\<close> (the hash table, for the grouping by site);
  \<open>charset\<close>, which \<open>conversion\<close> doubles, for UTF-8, Latin-1 and ASCII and three
  pairs of them.

  STATE, ERRORS AND LOOPS

  Structures are records with the names of the code; state is passed explicitly.  A pointer into
  a buffer is the list of the bytes from it on, or an index; what a pointer of a section refers
  to is kept beside it (\<open>crds\<close>).  C strings are byte lists without the closing zero.
  32-bit signed integers are \<open>int\<close> with conversions written out (\<open>int4_of\<close>), unsigned ones and
  bytes are words.  Errors are values: an option or a datatype tells a read or write outside of an array,
  a failed assertion or an endless loop from a result, and the theorems say when it can not
  occur, or exactly when it does.
  Recursion has termination proofs, with three exceptions that are partial functions, where
  \<open>None\<close> is a loop without end: \<open>UdmDSTRAppendf\<close>, which ends by C26, \<open>conv_loop\<close>, for
  which the locale \<open>conversion\<close> proves the end, and \<open>sorted1_loop\<close> (the merge that the
  environment variable \<open>NEWSORT\<close> selects, for which no claim is made).
  The only fuel is the argument of \<open>new_sort\<close>: its calls get shorter lists, and
  \<open>new_sort_fuel\<close> shows that the number of lists is enough.

  WHAT THE LEMMAS SHOW

  Round trips: index records (C1), bit code (C4), \<open>#rec_id\<close> (C5), UTF-8 (C6), addresses (C14),
  base64 (C22), HTML (C34).  Equivalence with a specification: the whole search (C2, C7), the
  evaluation of a query (C3), path normalization and RFC 3986 (C15), hash and sort grouping
  (C19), wildcards (C32), the check sum and polynomial division (C37).  Functional behaviour,
  invariants and refinements: C12, C13, C16, C17, C18, C20, C21, C28, C29, C30, C31, C35, C38.
  Bounds and termination: C11, C23, C26, C27, C39.  Exact descriptions of what the code does where
  it does not do what one expects: C8, C9, C10, C24, C25, C33, C36, C40.  Each claim says under which
  conditions it holds.

  PARAMETERS AND BOUNDS

  Code that is not in the repository is a parameter: the result of \<open>vsnprintf\<close> (both
  conventions, \<open>prints\<close>), the zlib streams and the rows of the database in \<open>Blob_Url_Data\<close>.
  The rank of a document is computed in floating point; it is a function with a state of
  its own that the loop of the search calls (\<open>calc_score\<close>).  The search is modelled with
  \<open>NewVersion\<close> off.  The masks of the loop have 32 bits, which bounds the words of a query by
  32 in C2 and C7; section numbers are one byte, so that a document has at most 255 of them.
  Positions have 24 bits, packed numbers 21.

  NOT MODELLED

  Allocation is taken to succeed.  The drivers and the SQL layer (\<^verbatim>\<open>sql*.c\<close>, \<^verbatim>\<open>db.c\<close>, the other
  storage modes) and the network (\<^verbatim>\<open>http.c\<close>, \<^verbatim>\<open>ftp.c\<close>, \<^verbatim>\<open>socket.c\<close> and so on): the
  state is on a server.  The indexer's main loop and configuration (\<^verbatim>\<open>main.c\<close>, \<^verbatim>\<open>indexer.c\<close>,
  \<^verbatim>\<open>conf.c\<close> and so on), the document parsers (\<^verbatim>\<open>parsehtml.c\<close> and so on), templates, dates and result pages,
  caches, and the frame of a search session (\<^verbatim>\<open>search.c\<close>, \<^verbatim>\<open>searchcache.c\<close>): input, output and
  orchestration around what is modelled.  The lists of words on their way to the database
  (\<^verbatim>\<open>wordcache.c\<close>, \<^verbatim>\<open>crossword.c\<close>, \<^verbatim>\<open>stopwords.c\<close>, \<^verbatim>\<open>synonym.c\<close>), morphology and language
  guessing: dictionaries and statistics from files, and floating point.  The tables of the character
  sets (\<^verbatim>\<open>unidata.c\<close>, \<^verbatim>\<open>uconv-8bit.h\<close>, the Asian sets): data.  \<^verbatim>\<open>idn.c\<close>: external libraries.
  \<^verbatim>\<open>regex.c\<close>, \<^verbatim>\<open>getopt.c\<close>, \<^verbatim>\<open>dbug.c\<close>, \<^verbatim>\<open>efence.c\<close> and their like: third-party code.  \<^verbatim>\<open>php_mnogo.c\<close>
  and the TYPO3 extension: bindings and PHP.  Inside modelled files: the objects among the
  variables, floating-point values and \<open>UdmVarListConvert\<close> of \<^verbatim>\<open>vars.c\<close>, \<open>UdmSGMLUniUnescape\<close> of
  \<^verbatim>\<open>sgml.c\<close>, \<open>udm_rfc1522_decode\<close> of \<^verbatim>\<open>base64.c\<close>, and the rank of \<^verbatim>\<open>score.c\<close>.
\<close>

end
